(* ===== verification/Vmm_Prelude.thy ===== *)
theory Vmm_Prelude
  imports Main "HOL-Library.Word"
begin

text \<open>
  The vocabulary every component of the development shares: the machine integers of the Rust
  sources as words, byte slices of arrays and of guest RAM, the little-endian codecs
  (\<^verbatim>\<open>to_le_bytes\<close> / \<^verbatim>\<open>from_le_bytes\<close>), power-of-two masks, and
  the collections of simplification rules the component proofs draw on.

  Integer arithmetic follows the release profile of \<^verbatim>\<open>Cargo.toml\<close>, which does not turn
  overflow checks on: \<open>+\<close>, \<open>-\<close>, \<open>*\<close> on a \<open>w\<close>-bit value wrap, as they do on
  a HOL word.
\<close>

unbundle bit_operations_syntax

type_synonym u8 = "8 word"
type_synonym u16 = "16 word"
type_synonym u32 = "32 word"
type_synonym u64 = "64 word"
type_synonym bytes = "u8 list"

named_theorems slice_simps \<open>reading and overwriting ranges of byte arrays\<close>
named_theorems le_simps \<open>little-endian encoding and decoding\<close>
named_theorems inv_intros \<open>operations that keep a component invariant\<close>

section \<open>Ranges of byte arrays\<close>

text \<open>\<open>xs[off .. off + n]\<close> of Rust, and \<open>xs[off ..].copy_from_slice(ys)\<close>.\<close>

definition byte_range :: "'a list \<Rightarrow> nat \<Rightarrow> nat \<Rightarrow> 'a list" where
  "byte_range xs off n = take n (drop off xs)"

definition overwrite :: "'a list \<Rightarrow> nat \<Rightarrow> 'a list \<Rightarrow> 'a list" where
  "overwrite xs off ys = take off xs @ ys @ drop (off + length ys) xs"

lemma length_byte_range [simp, slice_simps]:
  "length (byte_range xs off n) = min n (length xs - off)"
  by (simp add: byte_range_def)

lemma length_overwrite [slice_simps]:
  "off + length ys \<le> length xs \<Longrightarrow> length (overwrite xs off ys) = length xs"
  by (simp add: overwrite_def)

lemma nth_byte_range [slice_simps]:
  "i < n \<Longrightarrow> off + i < length xs \<Longrightarrow> byte_range xs off n ! i = xs ! (off + i)"
  by (simp add: byte_range_def)

lemma nth_overwrite:
  assumes "off + length ys \<le> length xs" and "i < length xs"
  shows "overwrite xs off ys ! i =
    (if off \<le> i \<and> i < off + length ys then ys ! (i - off) else xs ! i)"
  using assms by (auto simp: overwrite_def nth_append)

lemma byte_range_overwrite_same [slice_simps]:
  "off + length ys \<le> length xs \<Longrightarrow> byte_range (overwrite xs off ys) off (length ys) = ys"
  by (simp add: byte_range_def overwrite_def)

lemma byte_range_overwrite_disjoint [slice_simps]:
  assumes "off + length ys \<le> length xs" and "a + n \<le> off \<or> off + length ys \<le> a"
  shows "byte_range (overwrite xs off ys) a n = byte_range xs a n"
  using assms
  by (intro nth_equalityI) (auto simp: nth_byte_range nth_overwrite length_overwrite)

lemma overwrite_Nil [simp]: "overwrite xs off [] = xs"
  by (simp add: overwrite_def)

lemma byte_range_0 [simp]: "byte_range xs off 0 = []"
  by (simp add: byte_range_def)

lemma byte_range_append_left [slice_simps]:
  "off + n \<le> length xs \<Longrightarrow> byte_range (xs @ ys) off n = byte_range xs off n"
  by (simp add: byte_range_def)

lemma byte_range_append_right [slice_simps]:
  "length xs \<le> off \<Longrightarrow> byte_range (xs @ ys) off n = byte_range ys (off - length xs) n"
  by (simp add: byte_range_def)

lemma byte_range_Cons_numeral [slice_simps]:
  "byte_range (x # xs) (numeral k) n = byte_range xs (pred_numeral k) n"
  by (simp add: byte_range_def)

lemma byte_range_Cons_Suc [slice_simps]:
  "byte_range (x # xs) (Suc k) n = byte_range xs k n"
  by (simp add: byte_range_def)

lemma byte_range_nth: "off + n \<le> length xs \<Longrightarrow> byte_range xs off n = map ((!) xs) [off..<off + n]"
  by (intro nth_equalityI) (auto simp: nth_byte_range)

lemma byte_range_all [simp]: "n = length xs \<Longrightarrow> byte_range xs 0 n = xs"
  by (simp add: byte_range_def)

lemma byte_range_add:
  "byte_range xs off (m + n) = byte_range xs off m @ byte_range xs (off + m) n"
  by (simp add: byte_range_def take_add add.commute)

lemma find_append: "find P (xs @ ys) = (case find P xs of None \<Rightarrow> find P ys | Some x \<Rightarrow> Some x)"
  by (induction xs) auto

section \<open>Rounding up\<close>

lemma round_up_ge:
  assumes "0 < (d::nat)"
  shows "n \<le> (n + d - 1) div d * d"
proof -
  have "(n + d - 1) mod d < d" using assms by simp
  with div_mult_mod_eq [of "n + d - 1" d] show ?thesis by linarith
qed

lemma round_up_le:
  assumes "0 < (d::nat)" and "n \<le> m" and "m mod d = 0"
  shows "(n + d - 1) div d * d \<le> m"
proof -
  from assms obtain q where "m = q * d" by auto
  with assms have "n + d - 1 < (q + 1) * d" by (auto simp: algebra_simps)
  then have "(n + d - 1) div d < q + 1" using assms(1) by (simp add: div_less_iff_less_mult)
  then show ?thesis using \<open>m = q * d\<close> by simp
qed

section \<open>Positions in a circular buffer\<close>

lemma mod_window_distinct:
  fixes a i j n :: nat
  assumes "i < j" and "j < i + n"
  shows "(a + i) mod n \<noteq> (a + j) mod n"
proof
  assume "(a + i) mod n = (a + j) mod n"
  then have "n dvd (a + j) - (a + i)"
    using assms(1) by (intro mod_eq_dvd_iff_nat [THEN iffD1]) auto
  with assms show False by (auto dest: dvd_imp_le)
qed

lemma same_block:
  fixes a i n :: nat
  assumes "a mod n + i < n"
  shows "(a + i) div n = a div n" and "(a + i) mod n = a mod n + i"
proof -
  have key: "(q * n + x) div n = q \<and> (q * n + x) mod n = x" if "x < n" for q x using that by simp
  have eq: "a + i = a div n * n + (a mod n + i)" by simp
  show "(a + i) div n = a div n" by (subst eq) (rule key [OF assms, THEN conjunct1])
  show "(a + i) mod n = a mod n + i" by (subst eq) (rule key [OF assms, THEN conjunct2])
qed

lemma multiples_apart:
  fixes a b n :: nat
  assumes "a mod n = 0" and "b mod n = 0" and "a \<noteq> b"
  shows "a + n \<le> b \<or> b + n \<le> a"
proof -
  obtain x y where xy: "a = n * x" "b = n * y" using assms(1,2) by (auto elim!: dvdE simp: mod_eq_0_iff_dvd)
  with assms(3) have "Suc x \<le> y \<or> Suc y \<le> x" by auto
  then have "n * Suc x \<le> n * y \<or> n * Suc y \<le> n * x" by (meson mult_le_mono2)
  then show ?thesis by (simp add: xy add.commute)
qed

section \<open>Scattered writes\<close>

text \<open>\<open>put cs bs xs\<close> stores the elements \<open>bs\<close> at the positions \<open>cs\<close>, in order.\<close>

definition put :: "nat list \<Rightarrow> 'a list \<Rightarrow> 'a list \<Rightarrow> 'a list" where
  "put cs bs xs = fold (\<lambda>(c, b) ys. ys[c := b]) (zip cs bs) xs"

lemma put_Nil [simp]: "put [] bs xs = xs" "put cs [] xs = xs"
  by (simp_all add: put_def)

lemma put_Cons [simp]: "put (c # cs) (b # bs) xs = put cs bs (xs[c := b])"
  by (simp add: put_def)

lemma length_put [simp]: "length (put cs bs xs) = length xs"
  by (induction cs bs arbitrary: xs rule: list_induct2') auto

lemma put_append:
  "length cs = length bs \<Longrightarrow> put (cs @ cs') (bs @ bs') xs = put cs' bs' (put cs bs xs)"
  by (simp add: put_def)

lemma put_other: "x \<notin> set cs \<Longrightarrow> put cs bs xs ! x = xs ! x"
  by (induction cs bs arbitrary: xs rule: list_induct2') auto

lemma map_put_same:
  "length cs = length bs \<Longrightarrow> distinct cs \<Longrightarrow> \<forall>c \<in> set cs. c < length xs \<Longrightarrow>
   map ((!) (put cs bs xs)) cs = bs"
  by (induction cs bs arbitrary: xs rule: list_induct2) (auto simp: put_other)

lemma map_put_other:
  "set ds \<inter> set cs = {} \<Longrightarrow> map ((!) (put cs bs xs)) ds = map ((!) xs) ds"
  by (simp add: put_other disjoint_iff)

lemma overwrite_put:
  "off + length bs \<le> length xs \<Longrightarrow> overwrite xs off bs = put [off..<off + length bs] bs xs"
proof (induction bs arbitrary: xs off)
  case Nil
  then show ?case by simp
next
  case (Cons b bs)
  have "overwrite xs off (b # bs) = overwrite (xs[off := b]) (Suc off) bs"
    using Cons.prems by (simp add: overwrite_def take_Suc_conv_app_nth take_update_cancel)
  also have "\<dots> = put [Suc off..<Suc off + length bs] bs (xs[off := b])"
    using Cons.prems by (intro Cons.IH) simp
  finally show ?case by (simp add: upt_conv_Cons del: upt_Suc)
qed

section \<open>Little-endian integers\<close>

fun le_decode :: "bytes \<Rightarrow> 'a::len word" where
  "le_decode [] = 0"
| "le_decode (b # bs) = ucast b OR push_bit 8 (le_decode bs)"

fun le_encode :: "nat \<Rightarrow> 'a::len word \<Rightarrow> bytes" where
  "le_encode 0 w = []"
| "le_encode (Suc n) w = ucast w # le_encode n (drop_bit 8 w)"

abbreviation le16 :: "u16 \<Rightarrow> bytes" where "le16 \<equiv> le_encode 2"
abbreviation le32 :: "u32 \<Rightarrow> bytes" where "le32 \<equiv> le_encode 4"
abbreviation le64 :: "u64 \<Rightarrow> bytes" where "le64 \<equiv> le_encode 8"

abbreviation from_le16 :: "bytes \<Rightarrow> u16" where "from_le16 \<equiv> le_decode"
abbreviation from_le32 :: "bytes \<Rightarrow> u32" where "from_le32 \<equiv> le_decode"
abbreviation from_le64 :: "bytes \<Rightarrow> u64" where "from_le64 \<equiv> le_decode"

lemma length_le_encode [simp, le_simps]: "length (le_encode n w) = n"
  by (induction n arbitrary: w) auto

lemma bit_le_decode:
  "bit (le_decode bs :: 'a::len word) i \<longleftrightarrow>
     i < LENGTH('a) \<and> i div 8 < length bs \<and> bit (bs ! (i div 8)) (i mod 8)"
proof (induction bs arbitrary: i)
  case Nil
  then show ?case by simp
next
  case (Cons b bs)
  show ?case
  proof (cases "i < 8")
    case True
    then show ?thesis by (auto simp: bit_simps)
  next
    case False
    then have "i div 8 = Suc ((i - 8) div 8)" and "(i - 8) mod 8 = i mod 8"
      by (simp_all add: le_div_geq le_mod_geq)
    with False Cons.IH [of "i - 8"] show ?thesis
      by (auto simp: bit_simps dest: bit_imp_le_length)
  qed
qed

lemma nth_le_encode:
  "k < n \<Longrightarrow> le_encode n w ! k = ucast (drop_bit (8 * k) w)"
proof (induction n arbitrary: w k)
  case 0
  then show ?case by simp
next
  case (Suc n)
  then show ?case by (cases k) (auto simp: algebra_simps)
qed

lemma le_decode_encode [simp, le_simps]:
  assumes "LENGTH('a) \<le> 8 * n"
  shows "le_decode (le_encode n w) = (w :: 'a::len word)"
proof (rule bit_word_eqI)
  fix i assume i: "i < LENGTH('a)"
  with assms have "i div 8 < n" by (simp add: div_less_iff_less_mult mult.commute)
  moreover have "i mod 8 + 8 * (i div 8) = i" and "i mod 8 < 8" by simp_all
  ultimately show "bit (le_decode (le_encode n w) :: 'a word) i = bit w i"
    using i by (auto simp: bit_le_decode nth_le_encode bit_simps add.commute)
qed

lemma le_encode_decode [simp, le_simps]:
  assumes "length bs = n" and "8 * n \<le> LENGTH('a)"
  shows "le_encode n (le_decode bs :: 'a::len word) = bs"
proof (rule nth_equalityI)
  show "length (le_encode n (le_decode bs :: 'a word)) = length bs"
    using assms by simp
  fix k assume "k < length (le_encode n (le_decode bs :: 'a word))"
  then have k: "k < n" by simp
  show "le_encode n (le_decode bs :: 'a word) ! k = bs ! k"
  proof (rule bit_word_eqI)
    fix i assume "i < LENGTH(8)"
    with assms k have "8 * k + i < LENGTH('a)" and "(8 * k + i) div 8 = k"
      and "(8 * k + i) mod 8 = i"
      by auto
    with assms k \<open>i < LENGTH(8)\<close> show "bit (le_encode n (le_decode bs :: 'a word) ! k) i = bit (bs ! k) i"
      by (simp add: nth_le_encode bit_simps bit_le_decode)
  qed
qed

section \<open>Words as natural numbers\<close>

lemmas word_nat_order = word_le_nat_alt word_less_nat_alt

lemma unat_lt: "unat (w :: 'a::len word) < 2 ^ LENGTH('a)"
  by (rule unsigned_less)

lemma unat_add_no_wrap:
  "unat a + unat b < 2 ^ LENGTH('a) \<Longrightarrow> unat (a + b) = unat a + unat (b :: 'a::len word)"
  by (simp add: unat_word_ariths)

lemma unat_plus_of_nat:
  assumes "unat a + k < 2 ^ LENGTH('a)"
  shows "unat ((a :: 'a::len word) + of_nat k) = unat a + k"
proof -
  have "unat (of_nat k :: 'a word) = k" using assms by (simp add: unat_of_nat take_bit_nat_eq_self)
  with assms show ?thesis by (simp add: unat_add_no_wrap)
qed

lemma unat_plus_1_less:
  assumes "a < (b :: 'a::len word)"
  shows "unat (a + 1) = unat a + 1"
proof -
  have "unat a < unat b" and "unat b < 2 ^ LENGTH('a)"
    using assms by (simp_all add: word_less_nat_alt unsigned_less)
  then have "unat a + 1 < 2 ^ LENGTH('a)" by linarith
  then show ?thesis by (simp add: unat_word_ariths)
qed

lemma unat_ucast_up:
  assumes "LENGTH('a) \<le> LENGTH('b)"
  shows "unat (ucast (a :: 'a::len word) :: 'b::len word) = unat a"
proof -
  have "unat a < 2 ^ LENGTH('a)" by (rule unsigned_less)
  also have "\<dots> \<le> 2 ^ LENGTH('b)" using assms by simp
  finally show ?thesis by (simp add: unsigned_ucast_eq take_bit_nat_eq_self)
qed

lemma unat_ucast_down:
  "unat (x :: 'a::len word) < 2 ^ LENGTH('b) \<Longrightarrow> unat (ucast x :: 'b::len word) = unat x"
  by (simp add: unsigned_ucast_eq take_bit_nat_eq_self)

lemma unat_of_nat_u16 [simp]: "n < 2 ^ 16 \<Longrightarrow> unat (of_nat n :: u16) = n"
  by (simp add: unat_of_nat take_bit_nat_eq_self)

lemma unat_of_nat_u32 [simp]: "n < 2 ^ 32 \<Longrightarrow> unat (of_nat n :: u32) = n"
  by (simp add: unat_of_nat take_bit_nat_eq_self)

lemma unat_of_nat_u64 [simp]: "n < 2 ^ 64 \<Longrightarrow> unat (of_nat n :: u64) = n"
  by (simp add: unat_of_nat take_bit_nat_eq_self)

section \<open>Powers of two as masks\<close>

lemma and_not_mask_eq: "x AND NOT (mask k) = push_bit k (drop_bit k (x :: 'a::len word))"
  by (rule bit_word_eqI) (auto simp: bit_simps)

lemma unat_and_not_mask: "unat (x AND NOT (mask k)) = unat (x :: 'a::len word) div 2 ^ k * 2 ^ k"
proof -
  have "unat x div 2 ^ k * 2 ^ k < 2 ^ LENGTH('a)"
    using div_times_less_eq_dividend [of "unat x" "2 ^ k"] unsigned_less [of x] by (rule le_less_trans)
  then show ?thesis
    unfolding and_not_mask_eq unsigned_push_bit_eq unsigned_drop_bit_eq
    by (simp add: push_bit_eq_mult drop_bit_eq_div take_bit_nat_eq_self unsigned_less)
qed

lemma unat_2p:
  assumes "k < LENGTH('a)"
  shows "unat (2 ^ k :: 'a::len word) = 2 ^ k"
proof -
  have "unat (push_bit k (1 :: 'a word)) = take_bit LENGTH('a) (push_bit k 1)"
    unfolding unsigned_push_bit_eq by simp
  with assms show ?thesis by (simp add: push_bit_eq_mult take_bit_nat_eq_self)
qed

lemma unat_mask:
  assumes "k \<le> LENGTH('a)"
  shows "unat (mask k :: 'a::len word) = 2 ^ k - 1"
proof -
  have "int (unat (mask k :: 'a word)) = mask k"
    using assms uint_mask_eq [of k, where 'a = 'a] by (simp add: min_def)
  also have "\<dots> = int (2 ^ k - 1)" by (simp add: mask_eq_exp_minus_1 of_nat_diff)
  finally show ?thesis by (simp only: of_nat_eq_iff)
qed

lemma unat_and_mask: "unat (x AND mask k) = unat (x :: 'a::len word) mod 2 ^ k"
  unfolding take_bit_eq_mask [symmetric] unsigned_take_bit_eq
  by (simp add: take_bit_eq_mod)

lemma unat_drop_bit: "unat (drop_bit k x) = unat (x :: 'a::len word) div 2 ^ k"
  unfolding unsigned_drop_bit_eq by (simp add: drop_bit_eq_div take_bit_nat_eq_self unsigned_less)

lemma unat_push_bit: "unat (push_bit k x) = (unat (x :: 'a::len word) * 2 ^ k) mod 2 ^ LENGTH('a)"
  unfolding unsigned_push_bit_eq by (simp add: push_bit_eq_mult take_bit_eq_mod mod_mult_left_eq)

lemma or_push_bit_nat: "(x :: nat) < 2 ^ k \<Longrightarrow> x OR push_bit k y = x + y * 2 ^ k"
proof -
  assume x: "x < 2 ^ k"
  have "x AND push_bit k y = 0"
  proof (rule bit_eqI)
    fix n
    have "\<not> bit x n" if "k \<le> n"
    proof -
      have "x < 2 ^ n" using x that by (meson less_le_trans one_le_numeral power_increasing)
      then show ?thesis by (simp add: bit_iff_odd)
    qed
    then show "bit (x AND push_bit k y) n = bit 0 n" by (auto simp: bit_simps)
  qed
  then show ?thesis by (simp add: disjunctive_add_eq_or [symmetric] push_bit_eq_mult)
qed

lemma unat_or_push_bit:
  assumes "unat (x :: 'a::len word) < 2 ^ k" and "unat y * 2 ^ k < 2 ^ LENGTH('a)"
  shows "unat (x OR push_bit k y) = unat x + unat y * 2 ^ k"
proof -
  have p: "unat (push_bit k y) = push_bit k (unat y)"
    using assms(2) unfolding push_bit_eq_mult [of k "unat y"] by (simp only: unat_push_bit mod_less)
  show ?thesis unfolding unsigned_or_eq p by (rule or_push_bit_nat [OF assms(1)])
qed

fun le_value :: "bytes \<Rightarrow> nat" where
  "le_value [] = 0"
| "le_value (b # bs) = unat b + le_value bs * 256"

lemma le_value_bound: "le_value bs < 2 ^ (8 * length bs)"
proof (induction bs)
  case (Cons b bs)
  have "unat b < 256" using unat_lt [of b] by simp
  with Cons have "unat b + le_value bs * 256 < 2 ^ (8 * length bs) * 256" by linarith
  then show ?case by (simp add: power_add)
qed simp

text \<open>A little-endian word, read as a number.\<close>

lemma unat_le_decode:
  "8 * length bs \<le> LENGTH('a) \<Longrightarrow> unat (le_decode bs :: 'a::len word) = le_value bs"
proof (induction bs)
  case (Cons b bs)
  have b: "unat (ucast b :: 'a word) = unat b" using Cons.prems by (intro unat_ucast_up) simp
  have lt: "unat b < 2 ^ 8" using unat_lt [of b] by simp
  have ih: "unat (le_decode bs :: 'a word) = le_value bs" using Cons by simp
  have "le_value bs * 2 ^ 8 < 2 ^ (8 * length bs) * 2 ^ 8" using le_value_bound [of bs] by simp
  also have "\<dots> = 2 ^ (8 * length (b # bs))" by (simp add: power_add)
  also have "\<dots> \<le> 2 ^ LENGTH('a)" using Cons.prems by (intro power_increasing) simp_all
  finally show ?case using b lt ih unat_or_push_bit [of "ucast b :: 'a word" 8 "le_decode bs"] by simp
qed simp

lemma ucast_and_0xFF [simp]: "(ucast (v AND 0xFF) :: u8) = ucast (v :: 'a::len word)"
proof (rule bit_word_eqI)
  fix n assume n: "n < LENGTH(8)"
  have "v AND 0xFF = v AND mask 8" by (simp add: mask_numeral)
  then show "bit (ucast (v AND 0xFF) :: u8) n = bit (ucast v :: u8) n"
    using n by (simp only: bit_simps) (auto simp: bit_simps dest: bit_imp_le_length)
qed

lemma ucast_up_down [simp]:
  assumes "LENGTH('a) \<le> LENGTH('b)"
  shows "(ucast (ucast (v :: 'a::len word) :: 'b::len word) :: 'a word) = v"
  using assms by (intro bit_word_eqI) (auto simp: bit_simps)

end
