(* ===== verification/Guest_Memory.thy ===== *)
theory Guest_Memory
  imports Vmm_Prelude
begin

text \<open>
  Guest RAM (\<^verbatim>\<open>crates/whpsys/src/memory.rs\<close>): one contiguous host allocation, mapped into the
  partition at one guest-physical range or, when it straddles the 32-bit PCI hole, at two. The
  allocation is the byte list \<open>gm_ram\<close>; a host pointer is an offset into it. \<open>region_off\<close> is the
  only translation from guest-physical addresses to host offsets, and every accessor goes through
  it. Windows (\<^verbatim>\<open>VirtualAlloc\<close>, \<^verbatim>\<open>WHvMapGpaRange\<close>, the large-page size) is
  a parameter of the constructors.

  The lemmas show that the translation never leaves the allocation and never aliases two guest
  addresses, that it agrees with the ranges handed to the hypervisor, and the read/write laws,
  collected as the locale \<open>guest_ram\<close> that the virtqueue and the VMBus ring are verified against.
\<close>

section \<open>State\<close>

abbreviation PAGE :: u64 where "PAGE \<equiv> 4096"

datatype mem_error = BadArguments | AllocFailed | MapFailed | OutOfRange

text \<open>\<^verbatim>\<open>Split\<close>: where the part of RAM above the PCI hole is mapped.\<close>

record split_region =
  low_size :: u64
  high_gpa :: u64

record guest_memory =
  gm_part :: nat
  gm_gpa :: u64
  gm_size :: u64
  gm_large_pages :: bool
  gm_split :: "split_region option"
  gm_released :: bool
  gm_ram :: bytes

definition saturating_add :: "u64 \<Rightarrow> u64 \<Rightarrow> u64" where
  "saturating_add a b = (if unat a + unat b < 2 ^ 64 then a + b else - 1)"

definition align_up :: "u64 \<Rightarrow> u64 \<Rightarrow> u64" where
  "align_up v a = saturating_add v (a - 1) AND NOT (a - 1)"

section \<open>Address translation\<close>

definition region_off :: "guest_memory \<Rightarrow> u64 \<Rightarrow> u64 \<Rightarrow> nat option" where
  "region_off gm gpa len =
     (let lo = (case gm_split gm of Some s \<Rightarrow> low_size s | None \<Rightarrow> gm_size gm)
      in if gm_gpa gm \<le> gpa \<and> gpa - gm_gpa gm < lo
         then (if len \<le> lo - (gpa - gm_gpa gm) then Some (unat (gpa - gm_gpa gm)) else None)
         else case gm_split gm of
                None \<Rightarrow> None
              | Some s \<Rightarrow>
                  if high_gpa s \<le> gpa
                  then let off = gpa - high_gpa s; high_size = gm_size gm - low_size s
                       in if off < high_size \<and> len \<le> high_size - off
                          then Some (unat (low_size s) + unat off) else None
                  else None)"

definition host_ptr :: "guest_memory \<Rightarrow> u64 \<Rightarrow> nat option" where
  "host_ptr gm gpa = region_off gm gpa 1"

definition host_range :: "guest_memory \<Rightarrow> u64 \<Rightarrow> u64 \<Rightarrow> nat option" where
  "host_range gm gpa len = region_off gm gpa len"

text \<open>The guest-physical ranges of the allocation, as (host offset, guest address, size).\<close>

definition gm_mappings :: "guest_memory \<Rightarrow> (u64 \<times> u64 \<times> u64) list" where
  "gm_mappings gm = (case gm_split gm of
     None \<Rightarrow> [(0, gm_gpa gm, gm_size gm)]
   | Some s \<Rightarrow> [(0, gm_gpa gm, low_size s), (low_size s, high_gpa s, gm_size gm - low_size s)])"

section \<open>Construction and release\<close>

text \<open>
  \<open>virtual_alloc size large\<close> says whether \<^verbatim>\<open>VirtualAlloc\<close> returned memory (zeroed, as Windows
  documents), \<open>map_gpa off gpa size\<close> whether \<^verbatim>\<open>WHvMapGpaRange\<close> succeeded, and \<open>lp\<close> is
  the large-page size (0 when there is none).
\<close>

definition alloc_host :: "(u64 \<Rightarrow> bool \<Rightarrow> bool) \<Rightarrow> u64 \<Rightarrow> bool \<Rightarrow> mem_error + bool" where
  "alloc_host virtual_alloc alloc_size want_large =
     (if want_large \<and> virtual_alloc alloc_size True then Inr True
      else if virtual_alloc alloc_size False then Inr False
      else Inl AllocFailed)"

definition gm_new ::
    "(u64 \<Rightarrow> bool \<Rightarrow> bool) \<Rightarrow> (u64 \<Rightarrow> u64 \<Rightarrow> u64 \<Rightarrow> bool) \<Rightarrow> u64 \<Rightarrow> nat \<Rightarrow> u64 \<Rightarrow> u64 \<Rightarrow> bool
       \<Rightarrow> mem_error + guest_memory" where
  "gm_new virtual_alloc map_gpa lp part gpa size_bytes large_if_available =
     (if size_bytes = 0 \<or> gpa AND (PAGE - 1) \<noteq> 0 then Inl BadArguments
      else let want_large = (large_if_available \<and> lp \<noteq> 0 \<and> gpa mod lp = 0);
               alloc_size = (if want_large then align_up size_bytes lp else align_up size_bytes PAGE)
           in case alloc_host virtual_alloc alloc_size want_large of
                Inl e \<Rightarrow> Inl e
              | Inr large \<Rightarrow>
                  if map_gpa 0 gpa alloc_size
                  then Inr \<lparr>gm_part = part, gm_gpa = gpa, gm_size = alloc_size,
                            gm_large_pages = large, gm_split = None, gm_released = False,
                            gm_ram = replicate (unat alloc_size) 0\<rparr>
                  else Inl MapFailed)"

definition gm_new_split ::
    "(u64 \<Rightarrow> bool \<Rightarrow> bool) \<Rightarrow> (u64 \<Rightarrow> u64 \<Rightarrow> u64 \<Rightarrow> bool) \<Rightarrow> u64 \<Rightarrow> nat \<Rightarrow> u64 \<Rightarrow> u64 \<Rightarrow> u64 \<Rightarrow> bool
       \<Rightarrow> mem_error + guest_memory" where
  "gm_new_split virtual_alloc map_gpa lp part total_bytes low_limit hi_gpa large_if_available =
     (if total_bytes = 0 then Inl BadArguments
      else if total_bytes \<le> low_limit
           then gm_new virtual_alloc map_gpa lp part 0 total_bytes large_if_available
      else if low_limit AND (PAGE - 1) \<noteq> 0 \<or> hi_gpa AND (PAGE - 1) \<noteq> 0 then Inl BadArguments
      else let want_large = (large_if_available \<and> lp \<noteq> 0 \<and> low_limit mod lp = 0);
               alloc_size = align_up total_bytes (if want_large then lp else PAGE)
           in case alloc_host virtual_alloc alloc_size want_large of
                Inl e \<Rightarrow> Inl e
              | Inr large \<Rightarrow>
                  let high_size = alloc_size - low_limit
                  in if \<not> map_gpa 0 0 low_limit then Inl MapFailed
                     else if \<not> map_gpa low_limit hi_gpa high_size then Inl MapFailed
                     else Inr \<lparr>gm_part = part, gm_gpa = 0, gm_size = alloc_size,
                               gm_large_pages = large,
                               gm_split = Some \<lparr>low_size = low_limit, high_gpa = hi_gpa\<rparr>,
                               gm_released = False,
                               gm_ram = replicate (unat alloc_size) 0\<rparr>)"

definition gm_new_host_only :: "(u64 \<Rightarrow> bool \<Rightarrow> bool) \<Rightarrow> u64 \<Rightarrow> mem_error + guest_memory" where
  "gm_new_host_only virtual_alloc size_bytes =
     (if size_bytes = 0 then Inl BadArguments
      else let alloc_size = align_up size_bytes PAGE
           in if virtual_alloc alloc_size False
              then Inr \<lparr>gm_part = 0, gm_gpa = 0, gm_size = alloc_size, gm_large_pages = False,
                        gm_split = None, gm_released = False,
                        gm_ram = replicate (unat alloc_size) 0\<rparr>
              else Inl AllocFailed)"

text \<open>\<^verbatim>\<open>release\<close>: the unmap calls it makes and the state after it; a second call does nothing.\<close>

definition release :: "guest_memory \<Rightarrow> guest_memory \<times> (u64 \<times> u64) list" where
  "release gm =
     (if gm_released gm then (gm, [])
      else (gm\<lparr>gm_released := True\<rparr>,
            if gm_part gm \<noteq> 0
            then (case gm_split gm of
                    Some s \<Rightarrow> [(gm_gpa gm, low_size s), (high_gpa s, gm_size gm - low_size s)]
                  | None \<Rightarrow> [(gm_gpa gm, gm_size gm)])
            else []))"

section \<open>Accessors\<close>

text \<open>
  A host buffer's length is a \<^verbatim>\<open>usize\<close>; the model passes it as \<open>nat\<close> and converts it where
  the code writes \<^verbatim>\<open>as u64\<close>. Mutating accessors return the memory and their \<^verbatim>\<open>bool\<close>.
\<close>

definition write_at :: "guest_memory \<Rightarrow> u64 \<Rightarrow> bytes \<Rightarrow> mem_error + guest_memory" where
  "write_at gm gpa src =
     (if src = [] then Inr gm
      else case region_off gm gpa (of_nat (length src)) of
             None \<Rightarrow> Inl OutOfRange
           | Some off \<Rightarrow> Inr (gm\<lparr>gm_ram := overwrite (gm_ram gm) off src\<rparr>))"

definition load_image :: "guest_memory \<Rightarrow> bytes \<Rightarrow> guest_memory" where
  "load_image gm bs = gm\<lparr>gm_ram := overwrite (gm_ram gm) 0 (take (unat (gm_size gm)) bs)\<rparr>"

definition read_image :: "guest_memory \<Rightarrow> nat \<Rightarrow> nat \<Rightarrow> bytes option" where
  "read_image gm off n =
     (if unat (gm_size gm) < off \<or> unat (gm_size gm) - off < n then None
      else Some (byte_range (gm_ram gm) off n))"

definition read_into :: "guest_memory \<Rightarrow> u64 \<Rightarrow> nat \<Rightarrow> bytes option" where
  "read_into gm gpa n = (case host_range gm gpa (of_nat n) of
     None \<Rightarrow> None
   | Some off \<Rightarrow> Some (byte_range (gm_ram gm) off n))"

definition read_array :: "nat \<Rightarrow> guest_memory \<Rightarrow> u64 \<Rightarrow> bytes option" where
  "read_array n gm gpa = read_into gm gpa n"

definition write_bytes :: "guest_memory \<Rightarrow> u64 \<Rightarrow> bytes \<Rightarrow> guest_memory \<times> bool" where
  "write_bytes gm gpa src = (case host_range gm gpa (of_nat (length src)) of
     None \<Rightarrow> (gm, False)
   | Some off \<Rightarrow> (gm\<lparr>gm_ram := overwrite (gm_ram gm) off src\<rparr>, True))"

definition read_u16 :: "guest_memory \<Rightarrow> u64 \<Rightarrow> u16 option" where
  "read_u16 gm gpa = map_option le_decode (read_array 2 gm gpa)"

definition read_u32 :: "guest_memory \<Rightarrow> u64 \<Rightarrow> u32 option" where
  "read_u32 gm gpa = map_option le_decode (read_array 4 gm gpa)"

definition read_u64 :: "guest_memory \<Rightarrow> u64 \<Rightarrow> u64 option" where
  "read_u64 gm gpa = map_option le_decode (read_array 8 gm gpa)"

definition write_u16 :: "guest_memory \<Rightarrow> u64 \<Rightarrow> u16 \<Rightarrow> guest_memory \<times> bool" where
  "write_u16 gm gpa v = write_bytes gm gpa (le16 v)"

definition write_u32 :: "guest_memory \<Rightarrow> u64 \<Rightarrow> u32 \<Rightarrow> guest_memory \<times> bool" where
  "write_u32 gm gpa v = write_bytes gm gpa (le32 v)"

text \<open>The atomic accesses: one indivisible little-endian load or store each.\<close>

definition load_acquire_u16 :: "guest_memory \<Rightarrow> u64 \<Rightarrow> u16 option" where
  "load_acquire_u16 gm gpa = (case host_range gm gpa 2 of
     None \<Rightarrow> None
   | Some p \<Rightarrow> Some (le_decode (byte_range (gm_ram gm) p 2)))"

definition store_release_u16 :: "guest_memory \<Rightarrow> u64 \<Rightarrow> u16 \<Rightarrow> guest_memory \<times> bool" where
  "store_release_u16 gm gpa v = (case host_range gm gpa 2 of
     None \<Rightarrow> (gm, False)
   | Some p \<Rightarrow> (gm\<lparr>gm_ram := overwrite (gm_ram gm) p (le16 v)\<rparr>, True))"

definition load_acquire_u32 :: "guest_memory \<Rightarrow> u64 \<Rightarrow> u32 option" where
  "load_acquire_u32 gm gpa =
     (if gpa mod 4 \<noteq> 0 then None
      else case host_range gm gpa 4 of
             None \<Rightarrow> None
           | Some p \<Rightarrow> Some (le_decode (byte_range (gm_ram gm) p 4)))"

definition store_release_u32 :: "guest_memory \<Rightarrow> u64 \<Rightarrow> u32 \<Rightarrow> guest_memory \<times> bool" where
  "store_release_u32 gm gpa v =
     (if gpa mod 4 \<noteq> 0 then (gm, False)
      else case host_range gm gpa 4 of
             None \<Rightarrow> (gm, False)
           | Some p \<Rightarrow> (gm\<lparr>gm_ram := overwrite (gm_ram gm) p (le32 v)\<rparr>, True))"

section \<open>Chunked work: populating and filling\<close>

text \<open>
  \<^verbatim>\<open>populate\<close> asks the hypervisor to build its page tables in 64 MiB chunks, the lowest chunk
  first and then from the top of RAM down; \<^verbatim>\<open>fill_image\<close> restores RAM in 16 MiB chunks. The chunk
  size is a parameter here, so that both are instances of \<open>chunks_of\<close>.
\<close>

definition div_ceil :: "nat \<Rightarrow> nat \<Rightarrow> nat" where
  "div_ceil n d = (n + d - 1) div d"

definition chunks_of :: "nat \<Rightarrow> nat \<times> nat \<Rightarrow> (nat \<times> nat) list" where
  "chunks_of chunk r =
     map (\<lambda>i. (fst r + i * chunk, min chunk (snd r - i * chunk))) [0..<div_ceil (snd r) chunk]"

definition populate_chunks :: "nat \<Rightarrow> (nat \<times> nat) list \<Rightarrow> (nat \<times> nat) list" where
  "populate_chunks chunk ranges =
     (let chunks = concat (map (chunks_of chunk) ranges)
      in if 2 < length chunks then hd chunks # rev (tl chunks) else chunks)"

definition fill_image :: "nat \<Rightarrow> guest_memory \<Rightarrow> nat \<Rightarrow> (nat \<Rightarrow> nat \<Rightarrow> bytes \<times> 'r) \<Rightarrow>
    guest_memory \<times> 'r list" where
  "fill_image chunk gm len fill =
     (let cs = chunks_of chunk (0, min len (unat (gm_size gm)))
      in (gm\<lparr>gm_ram := fold (\<lambda>c ram. overwrite ram (fst c) (fst (fill (fst c) (snd c)))) cs (gm_ram gm)\<rparr>,
          map (\<lambda>c. snd (fill (fst c) (snd c))) cs))"

section \<open>The translation stays inside the allocation\<close>

definition wf_mem :: "guest_memory \<Rightarrow> bool" where
  "wf_mem gm \<longleftrightarrow> length (gm_ram gm) = unat (gm_size gm) \<and>
     (case gm_split gm of None \<Rightarrow> True | Some s \<Rightarrow> low_size s \<le> gm_size gm)"

text \<open>The two mapped ranges do not overlap in guest-physical space.\<close>

definition split_apart :: "guest_memory \<Rightarrow> bool" where
  "split_apart gm \<longleftrightarrow> (case gm_split gm of None \<Rightarrow> True
     | Some s \<Rightarrow> unat (gm_gpa gm) + unat (low_size s) \<le> unat (high_gpa s))"

text \<open>\<open>maps_to m gpa len off\<close>: mapping \<open>m\<close> holds the whole range and puts it at host offset \<open>off\<close>.\<close>

fun maps_to :: "u64 \<times> u64 \<times> u64 \<Rightarrow> u64 \<Rightarrow> u64 \<Rightarrow> nat \<Rightarrow> bool" where
  "maps_to (hoff, g, n) gpa len off \<longleftrightarrow>
     unat g \<le> unat gpa \<and> unat gpa < unat g + unat n \<and> unat gpa + unat len \<le> unat g + unat n \<and>
     off = unat hoff + (unat gpa - unat g)"

lemma le_diff_iff_nat:
  fixes off len hi :: u64
  assumes "off < hi"
  shows "len \<le> hi - off \<longleftrightarrow> unat off + unat len \<le> unat hi"
proof -
  have "unat (hi - off) = unat hi - unat off" and "unat off < unat hi"
    using assms by (simp_all add: unat_sub word_nat_order)
  then show ?thesis by (auto simp: word_le_nat_alt)
qed

lemma region_off_maps_to:
  assumes "wf_mem gm" and "region_off gm gpa len = Some off"
  shows "\<exists>m \<in> set (gm_mappings gm). maps_to m gpa len off"
proof (cases "gm_split gm")
  case None
  with assms show ?thesis
    by (auto simp: region_off_def gm_mappings_def Let_def le_diff_iff_nat unat_sub
        word_less_nat_alt word_le_nat_alt split: if_splits)
next
  case (Some s)
  with assms(1) have "low_size s \<le> gm_size gm" by (simp add: wf_mem_def)
  with Some assms(2) show ?thesis
    by (auto simp: region_off_def gm_mappings_def Let_def le_diff_iff_nat unat_sub
        word_less_nat_alt word_le_nat_alt split: if_splits)
qed

lemma maps_to_region_off:
  assumes wf: "wf_mem gm" and apart: "split_apart gm"
    and m: "m \<in> set (gm_mappings gm)" "maps_to m gpa len off"
  shows "region_off gm gpa len = Some off"
proof (cases "gm_split gm")
  case None
  with m show ?thesis
    by (auto simp: region_off_def gm_mappings_def Let_def le_diff_iff_nat unat_sub
        word_less_nat_alt word_le_nat_alt split: if_splits)
next
  case (Some s)
  with wf have "low_size s \<le> gm_size gm" by (simp add: wf_mem_def)
  with Some apart m show ?thesis
    by (auto simp: region_off_def gm_mappings_def split_apart_def Let_def le_diff_iff_nat unat_sub
        word_less_nat_alt word_le_nat_alt split: if_splits)
qed

lemma mapping_in_slab:
  assumes "wf_mem gm" and "(hoff, g, n) \<in> set (gm_mappings gm)"
  shows "unat hoff + unat n \<le> unat (gm_size gm)"
  using assms
  by (auto simp: wf_mem_def gm_mappings_def unat_sub word_le_nat_alt split: option.splits)

lemma region_off_bound:
  assumes "wf_mem gm" and "region_off gm gpa len = Some off"
  shows "off < unat (gm_size gm)" and "off + unat len \<le> unat (gm_size gm)"
proof -
  from region_off_maps_to [OF assms] obtain hoff g n
    where m: "(hoff, g, n) \<in> set (gm_mappings gm)" "maps_to (hoff, g, n) gpa len off"
    by (metis prod_cases3)
  with mapping_in_slab [OF assms(1) m(1)] show "off < unat (gm_size gm)"
    and "off + unat len \<le> unat (gm_size gm)"
    by auto
qed

lemma mappings_host_disjoint:
  assumes "(h1, g1, n1) \<in> set (gm_mappings gm)" and "(h2, g2, n2) \<in> set (gm_mappings gm)"
  shows "(h1, g1, n1) = (h2, g2, n2) \<or> unat h1 + unat n1 \<le> unat h2 \<or> unat h2 + unat n2 \<le> unat h1"
  using assms by (auto simp: gm_mappings_def split: option.splits)

text \<open>Disjoint guest ranges land on disjoint host ranges.\<close>

lemma region_off_disjoint:
  assumes wf: "wf_mem gm"
    and a: "region_off gm a la = Some oa" and b: "region_off gm b lb = Some ob"
    and apart: "unat a + unat la \<le> unat b \<or> unat b + unat lb \<le> unat a"
  shows "oa + unat la \<le> ob \<or> ob + unat lb \<le> oa"
proof -
  from region_off_maps_to [OF wf a] obtain h1 g1 n1
    where m1: "(h1, g1, n1) \<in> set (gm_mappings gm)" "maps_to (h1, g1, n1) a la oa"
    by (metis prod_cases3)
  from region_off_maps_to [OF wf b] obtain h2 g2 n2
    where m2: "(h2, g2, n2) \<in> set (gm_mappings gm)" "maps_to (h2, g2, n2) b lb ob"
    by (metis prod_cases3)
  from mappings_host_disjoint [OF m1(1) m2(1)] m1(2) m2(2) apart show ?thesis
    by auto
qed

section \<open>Reading and writing\<close>

lemma gm_geometry_update [simp]:
  "region_off (gm\<lparr>gm_ram := r\<rparr>) gpa len = region_off gm gpa len"
  "host_range (gm\<lparr>gm_ram := r\<rparr>) gpa len = host_range gm gpa len"
  by (simp_all add: region_off_def host_range_def cong: option.case_cong if_cong)

lemma wf_mem_overwrite [inv_intros]:
  assumes "wf_mem gm" and "region_off gm gpa (of_nat (length bs)) = Some off" and "length bs < 2 ^ 64"
  shows "wf_mem (gm\<lparr>gm_ram := overwrite (gm_ram gm) off bs\<rparr>)"
  using assms region_off_bound(2) [OF assms(1,2)]
  by (auto simp: wf_mem_def length_overwrite split: option.splits)

lemma host_range_bound:
  assumes "wf_mem gm" and "host_range gm gpa (of_nat n) = Some off" and "n < 2 ^ 64"
  shows "off + n \<le> length (gm_ram gm)"
  using assms region_off_bound(2) [of gm gpa "of_nat n" off]
  by (simp add: host_range_def wf_mem_def)

lemma read_into_length:
  assumes "wf_mem gm" and "n < 2 ^ 64" and "read_into gm gpa n = Some bs"
  shows "length bs = n"
  using assms host_range_bound [of gm gpa n] by (auto simp: read_into_def split: option.splits)

lemma read_into_flat:
  assumes "wf_mem gm" and "gm_split gm = None" and "gm_gpa gm = 0"
    and "unat a < unat (gm_size gm)" and "unat a + n \<le> unat (gm_size gm)"
  shows "read_into gm a n \<noteq> None"
proof -
  have "n < 2 ^ 64" using assms(5) unat_lt [of "gm_size gm"] by simp
  then have "region_off gm a (of_nat n) = Some (unat a)"
    using assms by (intro maps_to_region_off [of gm "(0, 0, gm_size gm)"])
      (simp_all add: split_apart_def gm_mappings_def)
  then show ?thesis by (simp add: read_into_def host_range_def)
qed

lemma write_bytes_wf [inv_intros]:
  "wf_mem gm \<Longrightarrow> length bs < 2 ^ 64 \<Longrightarrow> wf_mem (fst (write_bytes gm gpa bs))"
  by (auto simp: write_bytes_def host_range_def intro: wf_mem_overwrite split: option.splits)

lemma write_bytes_ok_iff: "snd (write_bytes gm gpa bs) \<longleftrightarrow> read_into gm gpa (length bs) \<noteq> None"
  by (auto simp: write_bytes_def read_into_def split: option.splits)

lemma write_bytes_fail: "\<not> snd (write_bytes gm gpa bs) \<Longrightarrow> fst (write_bytes gm gpa bs) = gm"
  by (auto simp: write_bytes_def split: option.splits)

lemma read_into_dom_write: "read_into (fst (write_bytes gm gpa bs)) b n = None \<longleftrightarrow> read_into gm b n = None"
  by (auto simp: write_bytes_def read_into_def split: option.splits)

lemma read_write_same:
  assumes "wf_mem gm" and "length bs < 2 ^ 64" and "snd (write_bytes gm gpa bs)"
  shows "read_into (fst (write_bytes gm gpa bs)) gpa (length bs) = Some bs"
  using assms host_range_bound [of gm gpa "length bs"]
  by (auto simp: write_bytes_def read_into_def byte_range_overwrite_same split: option.splits)

lemma read_write_other:
  assumes wf: "wf_mem gm" and len: "length bs < 2 ^ 64" "n < 2 ^ 64"
    and apart: "unat gpa + length bs \<le> unat b \<or> unat b + n \<le> unat gpa"
  shows "read_into (fst (write_bytes gm gpa bs)) b n = read_into gm b n"
proof (cases "host_range gm gpa (of_nat (length bs))")
  case None
  then show ?thesis by (simp add: write_bytes_def)
next
  case (Some oa)
  show ?thesis
  proof (cases "host_range gm b (of_nat n)")
    case None
    then show ?thesis by (simp add: write_bytes_def read_into_def Some)
  next
    case inb: (Some ob)
    from Some inb have "oa + length bs \<le> ob \<or> ob + n \<le> oa"
      using region_off_disjoint [OF wf, of gpa "of_nat (length bs)" oa b "of_nat n" ob] len apart
      by (simp add: host_range_def)
    moreover have "oa + length bs \<le> length (gm_ram gm)"
      using host_range_bound [OF wf Some len(1)] .
    ultimately show ?thesis
      by (auto simp: write_bytes_def read_into_def Some inb byte_range_overwrite_disjoint)
  qed
qed

text \<open>The atomic accesses are the byte accesses at their width.\<close>

lemma load_acquire_u16_eq: "load_acquire_u16 gm gpa = map_option le_decode (read_into gm gpa 2)"
  by (simp add: load_acquire_u16_def read_into_def split: option.splits)

lemma store_release_u16_eq: "store_release_u16 gm gpa v = write_bytes gm gpa (le16 v)"
  by (simp add: store_release_u16_def write_bytes_def split: option.splits)

lemma load_acquire_u32_eq:
  "load_acquire_u32 gm gpa =
     (if gpa mod 4 = 0 then map_option le_decode (read_into gm gpa 4) else None)"
  by (simp add: load_acquire_u32_def read_into_def split: option.splits)

lemma store_release_u32_eq:
  "store_release_u32 gm gpa v = (if gpa mod 4 = 0 then write_bytes gm gpa (le32 v) else (gm, False))"
  by (simp add: store_release_u32_def write_bytes_def split: option.splits)

lemmas atomic_eqs = load_acquire_u16_eq store_release_u16_eq load_acquire_u32_eq store_release_u32_eq

text \<open>\<open>same_but a len\<close>: at most the \<open>len\<close> bytes at \<open>a\<close> differ.\<close>

definition same_but :: "u64 \<Rightarrow> nat \<Rightarrow> guest_memory \<Rightarrow> guest_memory \<Rightarrow> bool" where
  "same_but a len gm gm' \<longleftrightarrow> wf_mem gm' \<and> gm_size gm' = gm_size gm \<and>
     (\<forall>b n. n < 2 ^ 64 \<longrightarrow> unat a + len \<le> unat b \<or> unat b + n \<le> unat a \<longrightarrow>
        read_into gm' b n = read_into gm b n)"

lemma same_but_refl: "wf_mem gm \<Longrightarrow> same_but a len gm gm"
  by (simp add: same_but_def)

lemma same_but_trans: "same_but a len gm gm' \<Longrightarrow> same_but a len gm' gm'' \<Longrightarrow> same_but a len gm gm''"
  by (simp add: same_but_def)

lemma gm_size_write_bytes [simp]: "gm_size (fst (write_bytes gm a bs)) = gm_size gm"
  by (simp add: write_bytes_def split: option.split)

lemma same_but_write_bytes:
  "wf_mem gm \<Longrightarrow> length bs < 2 ^ 64 \<Longrightarrow> same_but a (length bs) gm (fst (write_bytes gm a bs))"
  by (auto simp: same_but_def read_write_other intro: write_bytes_wf)

section \<open>The interface the ring protocols rely on\<close>

text \<open>
  What a component that shares RAM with the guest needs from the accessors: reads after writes,
  at the same range and elsewhere, and that a refused write changes nothing. \<open>wr_all\<close> performs a
  list of writes in order, as a protocol that fills a ring and then publishes an index does.
\<close>

locale guest_ram =
  fixes rd :: "'m \<Rightarrow> u64 \<Rightarrow> nat \<Rightarrow> bytes option"
    and wr :: "'m \<Rightarrow> u64 \<Rightarrow> bytes \<Rightarrow> 'm \<times> bool"
    and ok :: "'m \<Rightarrow> bool"
  assumes ok_wr: "ok m \<Longrightarrow> length bs < 2 ^ 64 \<Longrightarrow> ok (fst (wr m a bs))"
    and rd_length: "ok m \<Longrightarrow> n < 2 ^ 64 \<Longrightarrow> rd m a n = Some bs \<Longrightarrow> length bs = n"
    and wr_ok_iff: "snd (wr m a bs) \<longleftrightarrow> rd m a (length bs) \<noteq> None"
    and wr_fail: "\<not> snd (wr m a bs) \<Longrightarrow> fst (wr m a bs) = m"
    and rd_dom: "rd (fst (wr m a bs)) b n = None \<longleftrightarrow> rd m b n = None"
    and rd_same: "ok m \<Longrightarrow> length bs < 2 ^ 64 \<Longrightarrow> snd (wr m a bs) \<Longrightarrow>
      rd (fst (wr m a bs)) a (length bs) = Some bs"
    and rd_other: "ok m \<Longrightarrow> length bs < 2 ^ 64 \<Longrightarrow> n < 2 ^ 64 \<Longrightarrow>
      unat a + length bs \<le> unat b \<or> unat b + n \<le> unat a \<Longrightarrow>
      rd (fst (wr m a bs)) b n = rd m b n"
begin

primrec wr_all :: "(u64 \<times> bytes) list \<Rightarrow> 'm \<Rightarrow> 'm" where
  "wr_all [] m = m"
| "wr_all (w # ws) m = wr_all ws (fst (wr m (fst w) (snd w)))"

definition apart :: "u64 \<Rightarrow> nat \<Rightarrow> u64 \<times> bytes \<Rightarrow> bool" where
  "apart a n w \<longleftrightarrow> unat a + n \<le> unat (fst w) \<or> unat (fst w) + length (snd w) \<le> unat a"

lemma ok_wr_all: "ok m \<Longrightarrow> \<forall>w \<in> set ws. length (snd w) < 2 ^ 64 \<Longrightarrow> ok (wr_all ws m)"
  by (induction ws arbitrary: m) (auto simp: ok_wr)

lemma rd_wr_all_other:
  assumes "ok m" and "\<forall>w \<in> set ws. length (snd w) < 2 ^ 64" and "n < 2 ^ 64"
    and "\<forall>w \<in> set ws. apart a n w"
  shows "rd (wr_all ws m) a n = rd m a n"
  using assms
proof (induction ws arbitrary: m)
  case Nil
  then show ?case by simp
next
  case (Cons w ws)
  then have "rd (wr_all ws (fst (wr m (fst w) (snd w)))) a n = rd (fst (wr m (fst w) (snd w))) a n"
    by (simp add: ok_wr)
  also have "\<dots> = rd m a n"
    using Cons.prems by (intro rd_other) (auto simp: apart_def)
  finally show ?case by simp
qed

lemma rd_wr_all_dom: "rd (wr_all ws m) a n = None \<longleftrightarrow> rd m a n = None"
  by (induction ws arbitrary: m) (auto simp: rd_dom)

text \<open>A range written once and not touched later reads back as written.\<close>

lemma rd_wr_all_last:
  assumes "ok m" and "\<forall>w \<in> set ws. length (snd w) < 2 ^ 64" and "length bs < 2 ^ 64"
    and "\<forall>w \<in> set ws. apart a (length bs) w" and "rd m a (length bs) \<noteq> None"
  shows "rd (wr_all ws (fst (wr m a bs))) a (length bs) = Some bs"
  using assms by (simp add: rd_wr_all_other ok_wr rd_same wr_ok_iff)

text \<open>Writes to pairwise disjoint mapped ranges all read back.\<close>

lemma rd_wr_all_each:
  assumes "ok m" and "\<forall>w \<in> set ws. length (snd w) < 2 ^ 64"
    and "sorted_wrt (\<lambda>w. apart (fst w) (length (snd w))) ws" and "w \<in> set ws"
    and "rd m (fst w) (length (snd w)) \<noteq> None"
  shows "rd (wr_all ws m) (fst w) (length (snd w)) = Some (snd w)"
  using assms
proof (induction ws arbitrary: m)
  case Nil
  then show ?case by simp
next
  case (Cons v ws)
  show ?case
  proof (cases "w \<in> set ws")
    case True
    with Cons.prems show ?thesis by (simp add: Cons.IH ok_wr rd_dom)
  next
    case False
    with Cons.prems have "w = v" by simp
    with Cons.prems show ?thesis by (simp add: rd_wr_all_last)
  qed
qed

lemma wr_all_append: "wr_all (us @ ws) m = wr_all ws (wr_all us m)"
  by (induction us arbitrary: m) auto

end

interpretation ram: guest_ram read_into write_bytes wf_mem
proof unfold_locales
qed (blast intro: write_bytes_wf read_into_length read_write_same read_write_other write_bytes_fail
    | simp add: write_bytes_ok_iff read_into_dom_write)+

section \<open>Constructors\<close>

lemma align_up_pow2:
  assumes "unat v + 2 ^ k \<le> 2 ^ 64" and "k < 64"
  shows "unat (align_up v (2 ^ k)) = (unat v + 2 ^ k - 1) div 2 ^ k * 2 ^ k"
proof -
  have m: "(2 ^ k - 1 :: u64) = mask k" by (simp add: mask_eq_exp_minus_1)
  have "unat (mask k :: u64) = 2 ^ k - 1"
    using assms(2) by (simp add: unat_mask)
  moreover have "(1::nat) \<le> 2 ^ k" by simp
  ultimately have "unat (saturating_add v (mask k)) = unat v + 2 ^ k - 1"
    using assms(1) by (auto simp: saturating_add_def unat_add_no_wrap)
  then show ?thesis by (simp add: align_up_def m unat_and_not_mask)
qed

text \<open>A page size RAM of \<open>n\<close> bytes can be rounded up to without passing an aligned limit.\<close>

definition granule_ok :: "u64 \<Rightarrow> u64 \<Rightarrow> u64 \<Rightarrow> bool" where
  "granule_ok g n limit \<longleftrightarrow>
     (\<exists>k < 64. g = 2 ^ k \<and> unat n + 2 ^ k \<le> 2 ^ 64 \<and> unat limit mod 2 ^ k = 0)"

lemma align_up_between:
  assumes "granule_ok g n limit"
  shows "n \<le> align_up n g" and "n \<le> limit \<Longrightarrow> align_up n g \<le> limit"
proof -
  from assms obtain k where k: "k < 64" "g = 2 ^ k" "unat n + 2 ^ k \<le> 2 ^ 64" "unat limit mod 2 ^ k = 0"
    by (auto simp: granule_ok_def)
  note up = align_up_pow2 [OF k(3,1)]
  show "n \<le> align_up n g"
    using up round_up_ge [of "2 ^ k" "unat n"] k(2) by (simp add: word_le_nat_alt)
  show "align_up n g \<le> limit" if "n \<le> limit"
    using up round_up_le [of "2 ^ k" "unat n" "unat limit"] that k(2,4) by (simp add: word_le_nat_alt)
qed

lemma gm_new_wf:
  assumes "gm_new va mp lp part gpa n want = Inr gm"
  shows "wf_mem gm" and "split_apart gm" and "\<forall>(h, g, k) \<in> set (gm_mappings gm). mp h g k"
    and "gm_split gm = None" and "gm_gpa gm = gpa"
    and "gm_size gm = align_up n PAGE \<or> lp \<noteq> 0 \<and> gm_size gm = align_up n lp"
  using assms
  by (auto simp: gm_new_def wf_mem_def split_apart_def gm_mappings_def Let_def
      split: if_splits sum.splits)

lemma gm_new_split_big:
  assumes "gm_new_split va mp lp part n low hi want = Inr gm" and "low < n" and "low \<le> hi"
    and "n \<le> gm_size gm"
  shows "wf_mem gm" and "split_apart gm" and "\<forall>(h, g, k) \<in> set (gm_mappings gm). mp h g k"
    and "low \<le> gpa \<Longrightarrow> gpa < hi \<Longrightarrow> host_ptr gm gpa = None"
proof -
  have "low \<le> gm_size gm" using assms(2,4) by simp
  moreover have "gm_split gm = Some \<lparr>low_size = low, high_gpa = hi\<rparr>" "gm_gpa gm = 0"
    "length (gm_ram gm) = unat (gm_size gm)" "mp 0 0 low" "mp low hi (gm_size gm - low)"
    using assms(1,2) by (auto simp: gm_new_split_def Let_def split: if_splits sum.splits)
  ultimately show "wf_mem gm" "split_apart gm" "\<forall>(h, g, k) \<in> set (gm_mappings gm). mp h g k"
    "low \<le> gpa \<Longrightarrow> gpa < hi \<Longrightarrow> host_ptr gm gpa = None"
    using assms(3) word_le_nat_alt [of low hi]
    by (auto simp: wf_mem_def split_apart_def gm_mappings_def host_ptr_def region_off_def Let_def)
qed

lemma gm_new_split_size:
  assumes "gm_new_split va mp lp part n low hi want = Inr gm" and "low < n"
  shows "gm_size gm = align_up n PAGE \<or> lp \<noteq> 0 \<and> gm_size gm = align_up n lp"
  using assms by (auto simp: gm_new_split_def Let_def split: if_splits sum.splits)

section \<open>Chunks cover what they are cut from\<close>

lemma in_chunks_of:
  assumes "0 < chunk"
  shows "(\<exists>c \<in> set (chunks_of chunk (g, n)). fst c \<le> a \<and> a < fst c + snd c) \<longleftrightarrow> g \<le> a \<and> a < g + n"
proof
  assume "\<exists>c \<in> set (chunks_of chunk (g, n)). fst c \<le> a \<and> a < fst c + snd c"
  then show "g \<le> a \<and> a < g + n" by (auto simp: chunks_of_def)
next
  assume a: "g \<le> a \<and> a < g + n"
  define i where "i = (a - g) div chunk"
  have i1: "i * chunk \<le> a - g" by (simp add: i_def)
  have i2: "a - g < i * chunk + chunk"
    using dividend_less_div_times [OF assms, of "a - g"] by (simp add: i_def add.commute)
  from i1 a have "i * chunk < n" by linarith
  then have "i * chunk + chunk \<le> n + chunk - 1" using assms by linarith
  then have "i < div_ceil n chunk"
    using assms by (simp add: div_ceil_def less_eq_div_iff_mult_less_eq Suc_le_eq [symmetric])
  with i1 i2 a show "\<exists>c \<in> set (chunks_of chunk (g, n)). fst c \<le> a \<and> a < fst c + snd c"
    by (intro bexI [of _ "(g + i * chunk, min chunk (n - i * chunk))"]) (auto simp: chunks_of_def)
qed

lemma set_populate_chunks: "set (populate_chunks chunk rs) = (\<Union>r \<in> set rs. set (chunks_of chunk r))"
proof -
  have "set (hd cs # rev (tl cs)) = set cs" if "2 < length cs" for cs :: "(nat \<times> nat) list"
    using that by (cases cs) auto
  then show ?thesis by (simp add: populate_chunks_def Let_def)
qed

lemma fill_fold:
  assumes "length img = length ram" and "k * chunk \<le> length img + chunk" and "0 < chunk"
    and "\<And>i. i < k \<Longrightarrow> i * chunk \<le> length img"
  shows "fold (\<lambda>c r. overwrite r (fst c) (byte_range img (fst c) (snd c)))
      (map (\<lambda>i. (i * chunk, min chunk (length img - i * chunk))) [0..<k]) ram =
    take (k * chunk) img @ drop (k * chunk) ram"
  using assms
proof (induction k)
  case 0
  then show ?case by simp
next
  case (Suc k)
  have le: "k * chunk \<le> length img" using Suc.prems(4) by simp
  have "overwrite (take (k * chunk) img @ drop (k * chunk) ram) (k * chunk)
      (byte_range img (k * chunk) (min chunk (length img - k * chunk))) =
    take (Suc k * chunk) img @ drop (Suc k * chunk) ram"
  proof (rule nth_equalityI)
    show "length (overwrite (take (k * chunk) img @ drop (k * chunk) ram) (k * chunk)
        (byte_range img (k * chunk) (min chunk (length img - k * chunk)))) =
      length (take (Suc k * chunk) img @ drop (Suc k * chunk) ram)"
      using le Suc.prems(1) by (auto simp: overwrite_def min_def)
    fix i assume "i < length (overwrite (take (k * chunk) img @ drop (k * chunk) ram) (k * chunk)
        (byte_range img (k * chunk) (min chunk (length img - k * chunk))))"
    with le Suc.prems(1) show "overwrite (take (k * chunk) img @ drop (k * chunk) ram) (k * chunk)
        (byte_range img (k * chunk) (min chunk (length img - k * chunk))) ! i =
      (take (Suc k * chunk) img @ drop (Suc k * chunk) ram) ! i"
      by (auto simp: overwrite_def nth_append byte_range_def min_def)
  qed
  with Suc le show ?case by simp
qed

section \<open>Properties\<close>

text \<open>A split allocation of 12 bytes, 8 at guest address 0 and 4 at address 16, for the witnesses.\<close>

definition demo_split :: guest_memory where
  "demo_split = \<lparr>gm_part = 0, gm_gpa = 0, gm_size = 12, gm_large_pages = False,
     gm_split = Some \<lparr>low_size = 8, high_gpa = 16\<rparr>, gm_released = False,
     gm_ram = [0, 1, 2, 3, 4, 5, 6, 7, 8, 9, 10, 11]\<rparr>"

text \<open>
  C1. The bounds check every guest-memory accessor goes through agrees exactly with what the
  hypervisor was told: a guest-physical range translates to a host offset if and only if the whole
  range lies in one of the mapped ranges, and then to the byte that mapping puts there. In
  particular a range that touches the PCI hole, or runs past the end of RAM, never translates, and
  a translated range lies inside the allocation.
\<close>

theorem region_off_exact:
  assumes "wf_mem gm" and "split_apart gm"
  shows "(region_off gm gpa len = Some off \<longleftrightarrow> (\<exists>m \<in> set (gm_mappings gm). maps_to m gpa len off)) \<and>
    (\<forall>o'. region_off gm gpa len = Some o' \<longrightarrow> o' + unat len \<le> length (gm_ram gm))"
  using region_off_maps_to [OF assms(1)] maps_to_region_off [OF assms] region_off_bound [OF assms(1)] assms(1)
  by (auto simp: wf_mem_def)

theorem region_off_exact_witness:
  "wf_mem demo_split \<and> split_apart demo_split \<and> region_off demo_split 16 4 = Some 8 \<and>
   region_off demo_split 6 4 = None \<and> (\<exists>m \<in> set (gm_mappings demo_split). maps_to m 16 4 8)"
proof -
  have wf: "wf_mem demo_split" "split_apart demo_split"
    by (simp_all add: demo_split_def wf_mem_def split_apart_def)
  have r: "region_off demo_split 16 4 = Some 8" "region_off demo_split 6 4 = None"
    by (simp_all add: demo_split_def region_off_def)
  from region_off_exact [OF wf, of 16 4 8] wf r show ?thesis by simp
qed

text \<open>
  C29. Writing to guest RAM and reading it back: a write the bounds check admits stores exactly its
  bytes at its range, keeps every other guest-physical range (no two guest addresses share a host
  byte, even across the hole) and keeps the memory well formed; a refused write changes nothing.
\<close>

theorem guest_write_then_read:
  assumes "wf_mem gm" and "length bs < 2 ^ 64" and "n < 2 ^ 64"
    and "unat a + length bs \<le> unat b \<or> unat b + n \<le> unat a"
  shows "(case write_bytes gm a bs of (gm', done) \<Rightarrow>
    wf_mem gm' \<and> read_into gm' b n = read_into gm b n \<and>
    (if done then read_into gm' a (length bs) = Some bs else gm' = gm \<and> read_into gm a (length bs) = None))"
  using assms ram.ok_wr [of gm bs a] ram.rd_same [of gm bs a] ram.rd_other [of gm bs n a b]
    ram.wr_fail [of gm a bs] ram.wr_ok_iff [of gm a bs]
  by (auto split: prod.split)

theorem guest_write_then_read_witness:
  "read_into (fst (write_bytes demo_split 18 [90, 91])) 18 2 = Some [90, 91] \<and>
   read_into (fst (write_bytes demo_split 18 [90, 91])) 4 3 = Some [4, 5, 6]"
proof -
  have wf: "wf_mem demo_split" by (simp add: demo_split_def wf_mem_def)
  have len: "length [90, 91 :: u8] < 2 ^ 64" "3 < (2 ^ 64 :: nat)"
    "unat (18 :: u64) + length [90, 91 :: u8] \<le> unat (4 :: u64) \<or> unat (4 :: u64) + 3 \<le> unat (18 :: u64)"
    by simp_all
  have "snd (write_bytes demo_split 18 [90, 91])" "read_into demo_split 4 3 = Some [4, 5, 6]"
    by (simp_all add: demo_split_def write_bytes_def read_into_def host_range_def region_off_def byte_range_def)
  with guest_write_then_read [OF wf len] show ?thesis
    by (auto simp: numeral_2_eq_2 split: prod.splits)
qed

text \<open>
  Allocating guest RAM around the PCI hole: when \<open>new_split\<close> succeeds, the memory is well
  formed, holds at least the bytes asked for, every range it translates was mapped by the
  hypervisor, and no guest-physical address between the low limit and the high base translates, so
  that device BARs placed there never collide with RAM.
\<close>

lemma new_split_leaves_the_hole:
  assumes new: "gm_new_split va mp lp part total_bytes low hi want = Inr gm" and hole: "low \<le> hi"
    and page: "granule_ok PAGE total_bytes low" and large: "lp = 0 \<or> granule_ok lp total_bytes low"
  shows "wf_mem gm \<and> split_apart gm \<and> total_bytes \<le> gm_size gm \<and>
    (\<forall>(h, g, k) \<in> set (gm_mappings gm). mp h g k) \<and>
    (\<forall>gpa. low \<le> gpa \<and> gpa < hi \<longrightarrow> host_ptr gm gpa = None)"
proof (cases "total_bytes \<le> low")
  case True
  with new have n: "gm_new va mp lp part 0 total_bytes want = Inr gm"
    by (auto simp: gm_new_split_def split: if_splits)
  note facts = gm_new_wf [OF n]
  have "gm_size gm \<le> low" "total_bytes \<le> gm_size gm"
    using facts(6) page large align_up_between True by auto
  with facts show ?thesis
    by (auto simp: host_ptr_def region_off_def Let_def)
next
  case False
  then have big: "low < total_bytes" by simp
  have size: "total_bytes \<le> gm_size gm"
    using gm_new_split_size [OF new big] page large align_up_between(1) by auto
  with gm_new_split_big [OF new big hole size] show ?thesis by blast
qed

text \<open>
  Restoring a RAM image in parallel chunks writes it whole: whatever chunk size is used, filling
  the chunks of an image as long as the allocation leaves exactly that image in RAM, so every
  guest-physical byte has its saved value, on both sides of the hole.
\<close>

lemma fill_image_restores_ram:
  assumes "wf_mem gm" and "0 < chunk" and "length img = unat (gm_size gm)"
  shows "fst (fill_image chunk gm (unat (gm_size gm)) (\<lambda>off n. (byte_range img off n, r off n))) = gm\<lparr>gm_ram := img\<rparr>"
proof -
  let ?k = "div_ceil (length img) chunk"
  have k: "length img \<le> ?k * chunk" "?k * chunk \<le> length img + chunk"
    using round_up_ge [OF assms(2), of "length img"]
      le_trans [OF div_times_less_eq_dividend [of "length img + chunk - 1" chunk]]
    by (simp_all add: div_ceil_def)
  have "i * chunk \<le> length img" if "i < ?k" for i
  proof -
    from that have "Suc i * chunk \<le> ?k * chunk" by (intro mult_le_mono1) simp
    with k(2) show ?thesis by simp
  qed
  moreover have len: "length (gm_ram gm) = length img" using assms by (simp add: wf_mem_def)
  ultimately have "fold (\<lambda>c r. overwrite r (fst c) (byte_range img (fst c) (snd c)))
      (map (\<lambda>i. (i * chunk, min chunk (length img - i * chunk))) [0..<?k]) (gm_ram gm) = img"
    using fill_fold [of img "gm_ram gm" ?k chunk] k assms(2) by simp
  then show ?thesis by (simp add: fill_image_def chunks_of_def Let_def assms(3))
qed

end
