(* ===== verification/Port_Buses.thy ===== *)
theory Port_Buses
  imports Vmm_Prelude
begin

text \<open>
  The two buses that route a guest access to a device handler: port I/O
  (\<^verbatim>\<open>src/devices/io_bus.rs\<close>) and MMIO (\<^verbatim>\<open>src/devices/mmio_bus.rs\<close>). A handler is
  a closure in the code; here it is a value of a type \<open>'h\<close> together with a function \<open>run\<close> that
  says what the handler does to the machine state and to the access. The locale \<open>range_router\<close> is
  what a device that attaches itself to a bus relies on; both buses are interpretations of it.
\<close>

section \<open>The port bus\<close>

record io_access =
  port :: u16
  access_size :: u16
  is_write :: bool
  io_value :: u32

record 'h io_entry =
  ie_base :: u16
  ie_size :: u16
  ie_name :: string
  ie_handler :: 'h

type_synonym 'h io_bus = "'h io_entry list"

definition io_ranges_overlap :: "u32 \<Rightarrow> u32 \<Rightarrow> u32 \<Rightarrow> u32 \<Rightarrow> bool" where
  "io_ranges_overlap a_base a_size b_base b_size \<longleftrightarrow>
     a_base < b_base + b_size \<and> b_base < a_base + a_size"

text \<open>\<open>None\<close> is the panic of the code's assertions.\<close>

definition io_register :: "'h io_bus \<Rightarrow> u16 \<Rightarrow> u16 \<Rightarrow> string \<Rightarrow> 'h \<Rightarrow> 'h io_bus option" where
  "io_register bus base sz name h =
     (if \<not> 0 < sz then None
      else if \<not> (ucast base + ucast sz :: u32) \<le> 0x10000 then None
      else if list_ex (\<lambda>e. io_ranges_overlap (ucast base) (ucast sz) (ucast (ie_base e)) (ucast (ie_size e))) bus
           then None
      else Some (bus @ [\<lparr>ie_base = base, ie_size = sz, ie_name = name, ie_handler = h\<rparr>]))"

definition io_claims :: "'h io_entry \<Rightarrow> u16 \<Rightarrow> bool" where
  "io_claims e p \<longleftrightarrow> ie_base e \<le> p \<and> (ucast p :: u32) < ucast (ie_base e) + ucast (ie_size e)"

fun io_dispatch :: "('h \<Rightarrow> 's \<Rightarrow> io_access \<Rightarrow> 's \<times> io_access) \<Rightarrow> 'h io_bus \<Rightarrow> 's \<Rightarrow> io_access
    \<Rightarrow> 's \<times> io_access \<times> bool" where
  "io_dispatch run [] s acc =
     (s, if is_write acc then acc else acc\<lparr>io_value := 0xFFFFFFFF\<rparr>, False)"
| "io_dispatch run (e # es) s acc =
     (if io_claims e (port acc) then (case run (ie_handler e) s acc of (s', acc') \<Rightarrow> (s', acc', True))
      else io_dispatch run es s acc)"

section \<open>The MMIO bus\<close>

record mmio_access =
  gpa :: u64
  mmio_size :: u8
  mmio_is_write :: bool
  data :: bytes

record 'h mmio_entry =
  me_base :: u64
  me_size :: u64
  me_name :: string
  me_handler :: 'h

type_synonym 'h mmio_bus = "'h mmio_entry list"

definition mmio_ranges_overlap :: "u64 \<Rightarrow> u64 \<Rightarrow> u64 \<Rightarrow> u64 \<Rightarrow> bool" where
  "mmio_ranges_overlap a_base a_size b_base b_size \<longleftrightarrow>
     a_base < b_base + b_size \<and> b_base < a_base + a_size"

text \<open>\<open>None\<close> is the assertion on an empty range; an overlap is refused with \<open>False\<close>.\<close>

definition mmio_register :: "'h mmio_bus \<Rightarrow> u64 \<Rightarrow> u64 \<Rightarrow> string \<Rightarrow> 'h \<Rightarrow> ('h mmio_bus \<times> bool) option" where
  "mmio_register bus base sz name h =
     (if \<not> 0 < sz then None
      else if list_ex (\<lambda>e. mmio_ranges_overlap base sz (me_base e) (me_size e)) bus then Some (bus, False)
      else Some (bus @ [\<lparr>me_base = base, me_size = sz, me_name = name, me_handler = h\<rparr>], True))"

definition is_range_free :: "'h mmio_bus \<Rightarrow> u64 \<Rightarrow> u64 \<Rightarrow> bool" where
  "is_range_free bus base sz \<longleftrightarrow> \<not> list_ex (\<lambda>e. mmio_ranges_overlap base sz (me_base e) (me_size e)) bus"

fun mmio_unregister :: "'h mmio_bus \<Rightarrow> u64 \<Rightarrow> 'h mmio_bus \<times> bool" where
  "mmio_unregister [] base = ([], False)"
| "mmio_unregister (e # es) base =
     (if me_base e = base then (es, True)
      else case mmio_unregister es base of (es', r) \<Rightarrow> (e # es', r))"

definition mmio_claims :: "'h mmio_entry \<Rightarrow> u64 \<Rightarrow> bool" where
  "mmio_claims e a \<longleftrightarrow> me_base e \<le> a \<and> a < me_base e + me_size e"

fun mmio_dispatch :: "('h \<Rightarrow> 's \<Rightarrow> mmio_access \<Rightarrow> 's \<times> mmio_access) \<Rightarrow> 'h mmio_bus \<Rightarrow> 's \<Rightarrow> mmio_access
    \<Rightarrow> 's \<times> mmio_access \<times> bool" where
  "mmio_dispatch run [] s acc =
     (s, if mmio_is_write acc then acc else acc\<lparr>data := replicate 8 0\<rparr>, False)"
| "mmio_dispatch run (e # es) s acc =
     (if mmio_claims e (gpa acc) then (case run (me_handler e) s acc of (s', acc') \<Rightarrow> (s', acc', True))
      else mmio_dispatch run es s acc)"

section \<open>What attaching a device relies on\<close>

text \<open>
  Addresses and ranges as natural numbers: a range \<open>(b, n)\<close> is \<open>{b ..< b + n}\<close>. \<open>route\<close> is the handler
  an address reaches. Registering a valid range succeeds exactly when no address of it is routed
  yet, and then routes those addresses and no other.
\<close>

abbreviation addrs :: "nat \<times> nat \<Rightarrow> nat set" where
  "addrs r \<equiv> {fst r ..< fst r + snd r}"

locale range_router =
  fixes route :: "'b \<Rightarrow> nat \<Rightarrow> 'h option"
    and reg :: "'b \<Rightarrow> nat \<times> nat \<Rightarrow> 'h \<Rightarrow> 'b option"
    and good :: "'b \<Rightarrow> bool"
    and valid :: "nat \<times> nat \<Rightarrow> bool"
  assumes reg_defined: "good b \<Longrightarrow> valid r \<Longrightarrow> reg b r h \<noteq> None \<longleftrightarrow> (\<forall>a \<in> addrs r. route b a = None)"
    and reg_good: "good b \<Longrightarrow> valid r \<Longrightarrow> reg b r h = Some b' \<Longrightarrow> good b'"
    and route_reg: "good b \<Longrightarrow> valid r \<Longrightarrow> reg b r h = Some b' \<Longrightarrow>
      route b' a = (if a \<in> addrs r then Some h else route b a)"
begin

primrec reg_all :: "((nat \<times> nat) \<times> 'h) list \<Rightarrow> 'b \<Rightarrow> 'b option" where
  "reg_all [] b = Some b"
| "reg_all (x # xs) b = (case reg b (fst x) (snd x) of None \<Rightarrow> None | Some b' \<Rightarrow> reg_all xs b')"

definition owner :: "((nat \<times> nat) \<times> 'h) list \<Rightarrow> nat \<Rightarrow> 'h option" where
  "owner xs a = map_option snd (find (\<lambda>x. a \<in> addrs (fst x)) xs)"

definition separate :: "((nat \<times> nat) \<times> 'h) list \<Rightarrow> bool" where
  "separate xs \<longleftrightarrow> (\<forall>x \<in> set xs. valid (fst x)) \<and>
     sorted_wrt (\<lambda>x y. addrs (fst x) \<inter> addrs (fst y) = {}) xs"

text \<open>A device list with pairwise disjoint ranges registers without a refusal, and each address of
  the bus reaches the device that owns it.\<close>

lemma reg_all_routes:
  assumes "good b" and "separate xs" and "\<forall>x \<in> set xs. \<forall>a \<in> addrs (fst x). route b a = None"
  shows "\<exists>b'. reg_all xs b = Some b' \<and> good b' \<and>
    (\<forall>a. route b' a = (case owner xs a of Some h \<Rightarrow> Some h | None \<Rightarrow> route b a))"
  using assms
proof (induction xs arbitrary: b)
  case Nil
  then show ?case by (simp add: owner_def)
next
  case (Cons x xs)
  have v: "valid (fst x)" and sep: "separate xs"
    and dis: "\<forall>y \<in> set xs. addrs (fst x) \<inter> addrs (fst y) = {}"
    using Cons.prems(2) by (auto simp: separate_def)
  from Cons.prems(1,3) v obtain b1 where b1: "reg b (fst x) (snd x) = Some b1"
    using reg_defined [of b "fst x" "snd x"] by auto
  note r1 = route_reg [OF Cons.prems(1) v b1]
  have "\<forall>y \<in> set xs. \<forall>a \<in> addrs (fst y). route b1 a = None"
    using Cons.prems(3) dis by (auto simp: r1)
  from Cons.IH [OF reg_good [OF Cons.prems(1) v b1] sep this] obtain b'
    where b': "reg_all xs b1 = Some b'" "good b'"
      "\<forall>a. route b' a = (case owner xs a of Some h \<Rightarrow> Some h | None \<Rightarrow> route b1 a)"
    by blast
  have "owner xs a = None" if "a \<in> addrs (fst x)" for a
    using dis that by (auto simp: owner_def find_None_iff)
  with b' b1 r1 show ?case by (auto simp: owner_def split: option.splits)
qed

end

section \<open>The port bus routes by range\<close>

definition io_route :: "'h io_bus \<Rightarrow> nat \<Rightarrow> 'h option" where
  "io_route bus a = map_option ie_handler
     (find (\<lambda>e. unat (ie_base e) \<le> a \<and> a < unat (ie_base e) + unat (ie_size e)) bus)"

definition io_good :: "'h io_bus \<Rightarrow> bool" where
  "io_good bus \<longleftrightarrow> (\<forall>e \<in> set bus. 0 < unat (ie_size e) \<and> unat (ie_base e) + unat (ie_size e) \<le> 0x10000)"

definition io_valid :: "nat \<times> nat \<Rightarrow> bool" where
  "io_valid r \<longleftrightarrow> 0 < snd r \<and> snd r < 0x10000 \<and> fst r + snd r \<le> 0x10000"

definition io_reg :: "'h io_bus \<Rightarrow> nat \<times> nat \<Rightarrow> 'h \<Rightarrow> 'h io_bus option" where
  "io_reg bus r h = io_register bus (of_nat (fst r)) (of_nat (snd r)) [] h"

lemma unat_u16_sum: "unat (ucast (a :: u16) + ucast (b :: u16) :: u32) = unat a + unat b"
proof -
  have "unat a < 65536" "unat b < 65536" using unsigned_less [of a] unsigned_less [of b] by simp_all
  then have "unat (ucast a :: u32) + unat (ucast b :: u32) < 2 ^ LENGTH(32)"
    by (simp add: unat_ucast_up)
  then show ?thesis by (simp add: unat_add_no_wrap unat_ucast_up)
qed

lemma io_claims_nat:
  "io_claims e p \<longleftrightarrow> unat (ie_base e) \<le> unat p \<and> unat p < unat (ie_base e) + unat (ie_size e)"
  by (simp add: io_claims_def word_nat_order unat_u16_sum unat_ucast_up)

lemma io_overlap_nat:
  "io_ranges_overlap (ucast (a :: u16)) (ucast (m :: u16)) (ucast (b :: u16)) (ucast (n :: u16)) \<longleftrightarrow>
     unat a < unat b + unat n \<and> unat b < unat a + unat m"
  by (simp add: io_ranges_overlap_def word_less_nat_alt unat_u16_sum unat_ucast_up)

text \<open>Two non-empty intervals overlap exactly when they share an address.\<close>

lemma intervals_meet:
  fixes a b m n :: nat
  assumes "0 < m" and "0 < n"
  shows "a < b + n \<and> b < a + m \<longleftrightarrow> (\<exists>x \<in> addrs (a, m). b \<le> x \<and> x < b + n)"
proof
  assume "a < b + n \<and> b < a + m"
  with assms show "\<exists>x \<in> addrs (a, m). b \<le> x \<and> x < b + n"
    by (intro bexI [of _ "max a b"]) auto
qed auto

lemma io_route_None:
  "io_route bus a = None \<longleftrightarrow> (\<forall>e \<in> set bus. \<not> (unat (ie_base e) \<le> a \<and> a < unat (ie_base e) + unat (ie_size e)))"
  by (auto simp: io_route_def find_None_iff)

lemma io_overlap_route:
  assumes "io_good bus" and "0 < n"
  shows "list_ex (\<lambda>e. b < unat (ie_base e) + unat (ie_size e) \<and> unat (ie_base e) < b + n) bus \<longleftrightarrow>
    (\<exists>a \<in> addrs (b, n). io_route bus a \<noteq> None)"
  unfolding io_route_None list_ex_iff
  using assms intervals_meet [OF assms(2), of "unat (ie_size e)" b "unat (ie_base e)" for e]
  by (simp add: io_good_def) blast

lemma io_register_Some:
  assumes "io_valid r"
  shows "io_reg bus r h = (if list_ex (\<lambda>e. fst r < unat (ie_base e) + unat (ie_size e) \<and>
      unat (ie_base e) < fst r + snd r) bus then None
    else Some (bus @ [\<lparr>ie_base = of_nat (fst r), ie_size = of_nat (snd r), ie_name = [], ie_handler = h\<rparr>]))"
proof -
  have u: "unat (of_nat (fst r) :: u16) = fst r" "unat (of_nat (snd r) :: u16) = snd r"
    using assms by (simp_all add: io_valid_def)
  then have "0 < (of_nat (snd r) :: u16)" "(ucast (of_nat (fst r) :: u16) + ucast (of_nat (snd r) :: u16) :: u32) \<le> 0x10000"
    using assms by (simp_all add: word_nat_order unat_u16_sum io_valid_def)
  then show ?thesis
    by (simp add: io_reg_def io_register_def io_overlap_nat u)
qed

interpretation iob: range_router io_route io_reg io_good io_valid
proof unfold_locales
  fix b :: "'h io_bus" and r h
  assume "io_good b" and v: "io_valid r"
  then show "io_reg b r h \<noteq> None \<longleftrightarrow> (\<forall>a \<in> addrs r. io_route b a = None)"
    using io_overlap_route [of b "snd r" "fst r"]
    by (simp add: io_register_Some [OF v] io_valid_def)
next
  fix b :: "'h io_bus" and r h b'
  assume "io_good b" "io_valid r" "io_reg b r h = Some b'"
  then show "io_good b'"
    by (auto simp: io_register_Some io_good_def io_valid_def split: if_splits)
next
  fix b :: "'h io_bus" and r h b' a
  assume g: "io_good b" and v: "io_valid r" and s: "io_reg b r h = Some b'"
  then have n: "\<forall>a \<in> addrs r. io_route b a = None"
    using io_overlap_route [of b "snd r" "fst r"]
    by (auto simp: io_register_Some io_valid_def split: if_splits)
  have b': "b' = b @ [\<lparr>ie_base = of_nat (fst r), ie_size = of_nat (snd r), ie_name = [], ie_handler = h\<rparr>]"
    using s v by (auto simp: io_register_Some split: if_splits)
  have u: "unat (of_nat (fst r) :: u16) = fst r" "unat (of_nat (snd r) :: u16) = snd r"
    using v by (simp_all add: io_valid_def)
  from n show "io_route b' a = (if a \<in> addrs r then Some h else io_route b a)"
    by (auto simp: b' io_route_def find_append u split: option.split)
qed

text \<open>Dispatch runs the handler the port is routed to; an unclaimed read floats to all ones.\<close>

lemma io_dispatch_route:
  "io_dispatch run bus s acc = (case io_route bus (unat (port acc)) of
     Some h \<Rightarrow> (case run h s acc of (s', acc') \<Rightarrow> (s', acc', True))
   | None \<Rightarrow> (s, if is_write acc then acc else acc\<lparr>io_value := 0xFFFFFFFF\<rparr>, False))"
  by (induction bus) (auto simp: io_route_def io_claims_nat split: option.splits prod.splits)

section \<open>The MMIO bus routes by range\<close>

definition mmio_route :: "'h mmio_bus \<Rightarrow> nat \<Rightarrow> 'h option" where
  "mmio_route bus a = map_option me_handler
     (find (\<lambda>e. unat (me_base e) \<le> a \<and> a < unat (me_base e) + unat (me_size e)) bus)"

definition mmio_valid :: "nat \<times> nat \<Rightarrow> bool" where
  "mmio_valid r \<longleftrightarrow> 0 < snd r \<and> fst r + snd r < 2 ^ 64"

definition mmio_good :: "'h mmio_bus \<Rightarrow> bool" where
  "mmio_good bus \<longleftrightarrow> (\<forall>e \<in> set bus. mmio_valid (unat (me_base e), unat (me_size e))) \<and>
     sorted_wrt (\<lambda>e f. \<not> mmio_ranges_overlap (me_base f) (me_size f) (me_base e) (me_size e)) bus"

definition mmio_reg :: "'h mmio_bus \<Rightarrow> nat \<times> nat \<Rightarrow> 'h \<Rightarrow> 'h mmio_bus option" where
  "mmio_reg bus r h = (case mmio_register bus (of_nat (fst r)) (of_nat (snd r)) [] h of
     Some (bus', True) \<Rightarrow> Some bus' | _ \<Rightarrow> None)"

lemma mmio_overlap_nat:
  assumes "mmio_valid (unat a, unat m)" and "mmio_valid (unat b, unat n)"
  shows "mmio_ranges_overlap a m b n \<longleftrightarrow> unat a < unat b + unat n \<and> unat b < unat a + unat m"
  using assms
  by (simp add: mmio_ranges_overlap_def mmio_valid_def word_less_nat_alt unat_add_no_wrap)

lemma mmio_claims_nat:
  assumes "mmio_valid (unat (me_base e), unat (me_size e))"
  shows "mmio_claims e p \<longleftrightarrow> unat (me_base e) \<le> unat p \<and> unat p < unat (me_base e) + unat (me_size e)"
  using assms by (simp add: mmio_claims_def mmio_valid_def word_nat_order unat_add_no_wrap)

lemma mmio_route_None:
  "mmio_route bus a = None \<longleftrightarrow> (\<forall>e \<in> set bus. \<not> (unat (me_base e) \<le> a \<and> a < unat (me_base e) + unat (me_size e)))"
  by (auto simp: mmio_route_def find_None_iff)

lemma mmio_overlap_route:
  assumes "mmio_good bus" and "mmio_valid (unat b, unat n)"
  shows "list_ex (\<lambda>e. mmio_ranges_overlap b n (me_base e) (me_size e)) bus \<longleftrightarrow>
    (\<exists>a \<in> addrs (unat b, unat n). mmio_route bus a \<noteq> None)"
proof -
  have "list_ex (\<lambda>e. mmio_ranges_overlap b n (me_base e) (me_size e)) bus \<longleftrightarrow>
      (\<exists>e \<in> set bus. \<exists>a \<in> addrs (unat b, unat n). unat (me_base e) \<le> a \<and> a < unat (me_base e) + unat (me_size e))"
    unfolding list_ex_iff using assms
    by (intro bex_cong [OF refl]) (simp add: mmio_good_def mmio_valid_def mmio_overlap_nat intervals_meet)
  then show ?thesis unfolding mmio_route_None by blast
qed

lemma mmio_register_ok:
  assumes "mmio_good bus" and "mmio_valid (unat b, unat n)"
  shows "mmio_register bus b n name h =
    (if \<forall>a \<in> addrs (unat b, unat n). mmio_route bus a = None
     then Some (bus @ [\<lparr>me_base = b, me_size = n, me_name = name, me_handler = h\<rparr>], True)
     else Some (bus, False))"
  using assms(2) mmio_overlap_route [OF assms]
  by (auto simp: mmio_register_def mmio_valid_def word_less_nat_alt)

lemma mmio_good_register [inv_intros]:
  assumes "mmio_good bus" and "mmio_valid (unat b, unat n)"
    and "mmio_register bus b n name h = Some (bus', r)"
  shows "mmio_good bus'"
proof -
  have "\<not> mmio_ranges_overlap b n (me_base e) (me_size e)" if "r" "e \<in> set bus" for e
    using assms(3) that by (auto simp: mmio_register_def list_ex_iff split: if_splits)
  with assms show ?thesis
    by (auto simp: mmio_good_def mmio_register_ok sorted_wrt_append split: if_splits)
qed

lemma mmio_route_snoc:
  "mmio_route (bus @ [e]) a = (case mmio_route bus a of Some h \<Rightarrow> Some h
     | None \<Rightarrow> if a \<in> addrs (unat (me_base e), unat (me_size e)) then Some (me_handler e) else None)"
  by (auto simp: mmio_route_def find_append split: option.splits)

interpretation mmiob: range_router mmio_route mmio_reg mmio_good mmio_valid
proof unfold_locales
  fix b :: "'h mmio_bus" and r h
  assume g: "mmio_good b" and v: "mmio_valid r"
  have v': "mmio_valid (unat (of_nat (fst r) :: u64), unat (of_nat (snd r) :: u64))"
    and u: "unat (of_nat (fst r) :: u64) = fst r" "unat (of_nat (snd r) :: u64) = snd r"
    using v by (simp_all add: mmio_valid_def)
  note reg = mmio_register_ok [OF g v', where name = "[]" and h = h, unfolded u]
  show "mmio_reg b r h \<noteq> None \<longleftrightarrow> (\<forall>a \<in> addrs r. mmio_route b a = None)"
    by (simp add: mmio_reg_def reg)
  fix b' a
  assume s: "mmio_reg b r h = Some b'"
  then have b': "b' = b @ [\<lparr>me_base = of_nat (fst r), me_size = of_nat (snd r), me_name = [], me_handler = h\<rparr>]"
    and free: "\<forall>a \<in> addrs r. mmio_route b a = None"
    by (auto simp: mmio_reg_def reg split: if_splits)
  with free show "mmio_good b'"
    using mmio_good_register [OF g v'] reg by simp
  from free show "mmio_route b' a = (if a \<in> addrs r then Some h else mmio_route b a)"
    by (auto simp: b' mmio_route_snoc u split: option.split)
qed

lemma mmio_dispatch_route:
  assumes "mmio_good bus"
  shows "mmio_dispatch run bus s acc = (case mmio_route bus (unat (gpa acc)) of
     Some h \<Rightarrow> (case run h s acc of (s', acc') \<Rightarrow> (s', acc', True))
   | None \<Rightarrow> (s, if mmio_is_write acc then acc else acc\<lparr>data := replicate 8 0\<rparr>, False))"
  using assms
  by (induction bus)
    (auto simp: mmio_route_def mmio_claims_nat mmio_good_def split: option.splits prod.splits)

lemma mmio_good_base_distinct:
  assumes "mmio_good (es @ [e])"
  shows "\<forall>f \<in> set es. me_base f \<noteq> me_base e"
proof
  fix f assume f: "f \<in> set es"
  show "me_base f \<noteq> me_base e"
  proof
    assume "me_base f = me_base e"
    moreover have v: "mmio_valid (unat (me_base e), unat (me_size e))" "mmio_valid (unat (me_base f), unat (me_size f))"
      using f assms by (simp_all add: mmio_good_def)
    ultimately have "mmio_ranges_overlap (me_base e) (me_size e) (me_base f) (me_size f)"
      unfolding mmio_overlap_nat [OF v] by (simp add: mmio_valid_def)
    with f assms show False by (auto simp: mmio_good_def sorted_wrt_append)
  qed
qed

lemma mmio_unregister_snoc:
  "\<forall>f \<in> set es. me_base f \<noteq> me_base e \<Longrightarrow> mmio_unregister (es @ [e]) (me_base e) = (es, True)"
  by (induction es) auto

lemma mmio_good_unregister [inv_intros]: "mmio_good bus \<Longrightarrow> mmio_good (fst (mmio_unregister bus b))"
proof (induction bus)
  case (Cons e es)
  then have "mmio_good (fst (mmio_unregister es b))" by (simp add: mmio_good_def)
  moreover have "set (fst (mmio_unregister es b)) \<subseteq> set es"
    by (induction es) (auto split: prod.splits if_splits)
  ultimately show ?case using Cons.prems
    by (auto simp: mmio_good_def split: prod.splits)
qed simp

section \<open>Properties\<close>

text \<open>
  A guest reprograms BARs at will, so the MMIO bus must survive any registration: a range is
  accepted exactly when no address of it is claimed, a refusal leaves the bus as it was, an
  accepted range claims its own addresses and no other, the bus stays free of overlaps, and
  unregistering its base gives back the bus from before.
\<close>

lemma mmio_register_then_unregister:
  assumes "mmio_good bus" and "mmio_valid (unat b, unat n)"
  shows "\<exists>bus' accepted. mmio_register bus b n name h = Some (bus', accepted) \<and> mmio_good bus' \<and>
    (accepted \<longleftrightarrow> is_range_free bus b n) \<and>
    (accepted \<longleftrightarrow> (\<forall>a \<in> addrs (unat b, unat n). mmio_route bus a = None)) \<and>
    (if accepted
     then (\<forall>a. mmio_route bus' a = (if a \<in> addrs (unat b, unat n) then Some h else mmio_route bus a)) \<and>
          mmio_unregister bus' b = (bus, True)
     else bus' = bus)"
proof -
  let ?e = "\<lparr>me_base = b, me_size = n, me_name = name, me_handler = h\<rparr>"
  have free: "is_range_free bus b n \<longleftrightarrow> (\<forall>a \<in> addrs (unat b, unat n). mmio_route bus a = None)"
    using mmio_overlap_route [OF assms] by (simp add: is_range_free_def)
  show ?thesis
  proof (cases "is_range_free bus b n")
    case True
    then have reg: "mmio_register bus b n name h = Some (bus @ [?e], True)"
      using mmio_register_ok [OF assms] free by simp
    note good = mmio_good_register [OF assms reg]
    from mmio_good_base_distinct [OF good] have "mmio_unregister (bus @ [?e]) b = (bus, True)"
      using mmio_unregister_snoc [of bus ?e] by simp
    with True free reg good show ?thesis
      by (auto simp: mmio_route_snoc split: option.split)
  next
    case False
    with free assms(1) mmio_register_ok [OF assms] show ?thesis by auto
  qed
qed

end
