(* ===== verification/Virtqueue.thy ===== *)
theory Virtqueue
  imports Guest_Memory
begin

text \<open>
  The split virtqueue (\<^verbatim>\<open>src/virtio/queue.rs\<close>): the device's view of a ring whose descriptor
  table, available ring and used ring lie in guest RAM and are written by an untrusted guest. A
  popped buffer is an offset into the RAM allocation with a length; \<open>None\<close> as the outcome of an
  operation is a Rust panic (the remainder by \<^verbatim>\<open>self.size as u16\<close> when that is 0). Loads from
  unmapped addresses fall back to the defaults the code names.
\<close>

section \<open>State\<close>

abbreviation VRING_DESC_F_NEXT :: u16 where "VRING_DESC_F_NEXT \<equiv> 1"
abbreviation VRING_DESC_F_WRITE :: u16 where "VRING_DESC_F_WRITE \<equiv> 2"
abbreviation VRING_DESC_F_INDIRECT :: u16 where "VRING_DESC_F_INDIRECT \<equiv> 4"

record queue_state =
  qs_size :: u32
  qs_ready :: bool
  qs_event_idx :: bool
  qs_desc_gpa :: u64
  qs_avail_gpa :: u64
  qs_used_gpa :: u64
  qs_last_avail :: u16
  qs_last_used_idx :: u16
  qs_last_used_signaled :: u16

abbreviation QUEUE_STATE_ENCODED :: nat where "QUEUE_STATE_ENCODED \<equiv> 40"

abbreviation bool_byte :: "bool \<Rightarrow> u8" where "bool_byte b \<equiv> if b then 1 else 0"

text \<open>The 40-byte image, field by field; bytes 6, 7, 38 and 39 stay 0.\<close>

definition qs_encode :: "queue_state \<Rightarrow> bytes" where
  "qs_encode s = le32 (qs_size s) @ [bool_byte (qs_ready s), bool_byte (qs_event_idx s), 0, 0] @
     le64 (qs_desc_gpa s) @ le64 (qs_avail_gpa s) @ le64 (qs_used_gpa s) @
     le16 (qs_last_avail s) @ le16 (qs_last_used_idx s) @ le16 (qs_last_used_signaled s) @ [0, 0]"

definition qs_decode :: "bytes \<Rightarrow> queue_state option" where
  "qs_decode b =
     (if length b < QUEUE_STATE_ENCODED then None
      else Some \<lparr>qs_size = from_le32 (byte_range b 0 4), qs_ready = (b ! 4 \<noteq> 0),
                 qs_event_idx = (b ! 5 \<noteq> 0), qs_desc_gpa = from_le64 (byte_range b 8 8),
                 qs_avail_gpa = from_le64 (byte_range b 16 8), qs_used_gpa = from_le64 (byte_range b 24 8),
                 qs_last_avail = from_le16 (byte_range b 32 2),
                 qs_last_used_idx = from_le16 (byte_range b 34 2),
                 qs_last_used_signaled = from_le16 (byte_range b 36 2)\<rparr>)"

record chain_buf =
  cb_ptr :: nat
  cb_len :: nat
  cb_write :: bool

record popped_chain =
  head_index :: u16
  bufs :: "chain_buf list"

record desc =
  d_addr :: u64
  d_len :: u32
  d_flags :: u16
  d_next :: u16

definition read_desc :: "bytes \<Rightarrow> desc" where
  "read_desc b = \<lparr>d_addr = from_le64 (byte_range b 0 8), d_len = from_le32 (byte_range b 8 4),
     d_flags = from_le16 (byte_range b 12 2), d_next = from_le16 (byte_range b 14 2)\<rparr>"

text \<open>The queue; the RAM it points into is passed beside it, as every device shares it.\<close>

record virtqueue =
  max_size :: u32
  vq_size :: u32
  vq_ready :: bool
  event_idx :: bool
  desc_gpa :: u64
  avail_gpa :: u64
  used_gpa :: u64
  last_avail :: u16
  last_used_idx :: u16
  last_used_signaled :: u16

definition vq_new :: "u32 \<Rightarrow> virtqueue" where
  "vq_new mx = \<lparr>max_size = mx, vq_size = 0, vq_ready = False, event_idx = False, desc_gpa = 0,
     avail_gpa = 0, used_gpa = 0, last_avail = 0, last_used_idx = 0, last_used_signaled = 0\<rparr>"

definition set_size :: "u32 \<Rightarrow> virtqueue \<Rightarrow> virtqueue" where "set_size n q = q\<lparr>vq_size := n\<rparr>"
definition set_desc_gpa :: "u64 \<Rightarrow> virtqueue \<Rightarrow> virtqueue" where "set_desc_gpa a q = q\<lparr>desc_gpa := a\<rparr>"
definition set_avail_gpa :: "u64 \<Rightarrow> virtqueue \<Rightarrow> virtqueue" where "set_avail_gpa a q = q\<lparr>avail_gpa := a\<rparr>"
definition set_used_gpa :: "u64 \<Rightarrow> virtqueue \<Rightarrow> virtqueue" where "set_used_gpa a q = q\<lparr>used_gpa := a\<rparr>"
definition set_ready :: "bool \<Rightarrow> virtqueue \<Rightarrow> virtqueue" where "set_ready r q = q\<lparr>vq_ready := r\<rparr>"
definition set_event_idx_enabled :: "bool \<Rightarrow> virtqueue \<Rightarrow> virtqueue" where
  "set_event_idx_enabled en q = q\<lparr>event_idx := en\<rparr>"

definition vq_reset :: "virtqueue \<Rightarrow> virtqueue" where
  "vq_reset q = q\<lparr>vq_size := 0, vq_ready := False, desc_gpa := 0, avail_gpa := 0, used_gpa := 0,
     last_avail := 0, last_used_idx := 0, last_used_signaled := 0\<rparr>"

definition vq_capture :: "virtqueue \<Rightarrow> queue_state" where
  "vq_capture q = \<lparr>qs_size = vq_size q, qs_ready = vq_ready q, qs_event_idx = event_idx q,
     qs_desc_gpa = desc_gpa q, qs_avail_gpa = avail_gpa q, qs_used_gpa = used_gpa q,
     qs_last_avail = last_avail q, qs_last_used_idx = last_used_idx q,
     qs_last_used_signaled = last_used_signaled q\<rparr>"

definition vq_apply :: "virtqueue \<Rightarrow> queue_state \<Rightarrow> virtqueue" where
  "vq_apply q s = q\<lparr>vq_size := min (qs_size s) (max_size q), vq_ready := qs_ready s,
     event_idx := qs_event_idx s, desc_gpa := qs_desc_gpa s, avail_gpa := qs_avail_gpa s,
     used_gpa := qs_used_gpa s, last_avail := qs_last_avail s, last_used_idx := qs_last_used_idx s,
     last_used_signaled := qs_last_used_signaled s\<rparr>"

section \<open>Copies through a popped buffer\<close>

definition cb_read_at :: "guest_memory \<Rightarrow> chain_buf \<Rightarrow> nat \<Rightarrow> nat \<Rightarrow> bytes" where
  "cb_read_at gm b off n = byte_range (gm_ram gm) (cb_ptr b + off) (min (cb_len b - off) n)"

definition cb_write_at :: "guest_memory \<Rightarrow> chain_buf \<Rightarrow> nat \<Rightarrow> bytes \<Rightarrow> guest_memory \<times> nat" where
  "cb_write_at gm b off src =
     (let n = min (cb_len b - off) (length src)
      in (if 0 < n then gm\<lparr>gm_ram := overwrite (gm_ram gm) (cb_ptr b + off) (take n src)\<rparr> else gm, n))"

definition cb_extend_vec :: "guest_memory \<Rightarrow> chain_buf \<Rightarrow> nat \<Rightarrow> nat \<Rightarrow> bytes \<Rightarrow> bytes \<times> nat" where
  "cb_extend_vec gm b off n out =
     (let n' = min (cb_len b - off) n
      in (if 0 < n' then out @ byte_range (gm_ram gm) (cb_ptr b + off) n' else out, n'))"

definition cb_fill_at :: "guest_memory \<Rightarrow> chain_buf \<Rightarrow> nat \<Rightarrow> nat \<Rightarrow> u8 \<Rightarrow> guest_memory \<times> nat" where
  "cb_fill_at gm b off n byte =
     (let n' = min (cb_len b - off) n
      in (if 0 < n' then gm\<lparr>gm_ram := overwrite (gm_ram gm) (cb_ptr b + off) (replicate n' byte)\<rparr> else gm, n'))"

section \<open>The rings\<close>

definition avail_idx :: "virtqueue \<Rightarrow> guest_memory \<Rightarrow> u16" where
  "avail_idx q gm = (case load_acquire_u16 gm (avail_gpa q + 2) of Some v \<Rightarrow> v | None \<Rightarrow> last_avail q)"

definition avail_flags :: "virtqueue \<Rightarrow> guest_memory \<Rightarrow> u16" where
  "avail_flags q gm = (case load_acquire_u16 gm (avail_gpa q) of Some v \<Rightarrow> v | None \<Rightarrow> 0)"

definition avail_ring :: "virtqueue \<Rightarrow> guest_memory \<Rightarrow> u16 \<Rightarrow> u16" where
  "avail_ring q gm slot = (case read_u16 gm (avail_gpa q + 4 + 2 * ucast slot) of Some v \<Rightarrow> v | None \<Rightarrow> 0)"

definition used_event :: "virtqueue \<Rightarrow> guest_memory \<Rightarrow> u16" where
  "used_event q gm =
     (case load_acquire_u16 gm (avail_gpa q + 4 + 2 * ucast (vq_size q)) of Some v \<Rightarrow> v | None \<Rightarrow> 0)"

definition store_used_idx :: "virtqueue \<Rightarrow> guest_memory \<Rightarrow> u16 \<Rightarrow> guest_memory" where
  "store_used_idx q gm idx = fst (store_release_u16 gm (used_gpa q + 2) idx)"

definition store_used_ring :: "virtqueue \<Rightarrow> guest_memory \<Rightarrow> u16 \<Rightarrow> u32 \<Rightarrow> u32 \<Rightarrow> guest_memory" where
  "store_used_ring q gm slot ident len =
     fst (write_bytes gm (used_gpa q + 4 + 8 * ucast slot) (le32 ident @ le32 len))"

definition store_avail_event :: "virtqueue \<Rightarrow> guest_memory \<Rightarrow> u16 \<Rightarrow> guest_memory" where
  "store_avail_event q gm v = fst (store_release_u16 gm (used_gpa q + 4 + 8 * ucast (vq_size q)) v)"

definition arm_kick_and_recheck :: "virtqueue \<Rightarrow> guest_memory \<Rightarrow> guest_memory \<times> u16" where
  "arm_kick_and_recheck q gm =
     (let gm' = store_avail_event q gm (last_avail q) in (gm', avail_idx q gm'))"

section \<open>Popping a chain\<close>

definition buf_of :: "nat \<Rightarrow> desc \<Rightarrow> chain_buf" where
  "buf_of p d = \<lparr>cb_ptr = p, cb_len = unat (d_len d), cb_write = (d_flags d AND VRING_DESC_F_WRITE \<noteq> 0)\<rparr>"

text \<open>\<^verbatim>\<open>if let Some(host) = self.host(d.addr, d.len) { out.bufs.push(..) }\<close>\<close>

definition push_buf :: "guest_memory \<Rightarrow> desc \<Rightarrow> chain_buf list \<Rightarrow> chain_buf list" where
  "push_buf gm d bs = (case host_range gm (d_addr d) (ucast (d_len d)) of
     Some p \<Rightarrow> bs @ [buf_of p d] | None \<Rightarrow> bs)"

text \<open>The loop over an indirect table, at table index \<open>i\<close> after \<open>step\<close> descriptors.\<close>

function indirect_loop :: "guest_memory \<Rightarrow> u32 \<Rightarrow> desc \<Rightarrow> u32 \<Rightarrow> u32 \<Rightarrow> u32 \<Rightarrow> chain_buf list \<Rightarrow> chain_buf list" where
  "indirect_loop gm sz d inner_count i step bs =
     (if step < inner_count \<and> step < sz \<and> (of_nat (length bs) :: u32) < sz
      then case read_array 16 gm (d_addr d + ucast i * 16) of
             None \<Rightarrow> bs
           | Some ib \<Rightarrow>
               let ind = read_desc ib;
                   bs' = push_buf gm ind bs
               in if d_flags ind AND VRING_DESC_F_NEXT = 0 then bs'
                  else if (ucast inner_count :: u16) \<le> d_next ind then bs'
                  else indirect_loop gm sz d inner_count (ucast (d_next ind)) (step + 1) bs'
      else bs)"
  by pat_completeness auto
termination
proof (relation "measure (\<lambda>(gm, sz, d, inner_count, i, step, bs). unat sz - unat step)", goal_cases)
  case 1
  show ?case by simp
next
  case (2 gm sz d inner_count i step bs)
  then have "unat (step + 1) = unat step + 1" and "unat step < unat sz"
    by (auto simp: unat_plus_1_less word_less_nat_alt)
  then show ?case by simp
qed

declare indirect_loop.simps [simp del]

text \<open>The loop over the descriptor table; the first argument counts \<^verbatim>\<open>0..self.size\<close>.\<close>

primrec chain_loop :: "nat \<Rightarrow> virtqueue \<Rightarrow> guest_memory \<Rightarrow> u16 \<Rightarrow> chain_buf list \<Rightarrow> chain_buf list" where
  "chain_loop 0 q gm cur bs = bs"
| "chain_loop (Suc k) q gm cur bs =
     (if vq_size q \<le> of_nat (length bs) then bs
      else case read_array 16 gm (desc_gpa q + ucast cur * 16) of
             None \<Rightarrow> bs
           | Some db \<Rightarrow>
               let d = read_desc db;
                   step = (if d_flags d AND VRING_DESC_F_INDIRECT \<noteq> 0
                           then (case host_range gm (d_addr d) (ucast (d_len d)) of
                                   None \<Rightarrow> None
                                 | Some _ \<Rightarrow> Some (indirect_loop gm (vq_size q) d (d_len d div 16) 0 0 bs))
                           else Some (push_buf gm d bs))
               in case step of
                    None \<Rightarrow> bs
                  | Some bs' \<Rightarrow>
                      if d_flags d AND VRING_DESC_F_NEXT = 0 then bs'
                      else if (ucast (vq_size q) :: u16) \<le> d_next d then bs'
                      else chain_loop k q gm (d_next d) bs')"

text \<open>The emptiness test: the memory it leaves and the \<open>avail.idx\<close> it decides on. With EVENT_IDX an empty
  ring is armed and looked at again.\<close>

definition pop_check :: "virtqueue \<Rightarrow> guest_memory \<Rightarrow> guest_memory \<times> u16" where
  "pop_check q gm = (if avail_idx q gm = last_avail q
     then if \<not> event_idx q then (gm, last_avail q) else arm_kick_and_recheck q gm
     else (gm, avail_idx q gm))"

definition pop_into :: "virtqueue \<Rightarrow> guest_memory \<Rightarrow> popped_chain
    \<Rightarrow> (virtqueue \<times> guest_memory \<times> popped_chain \<times> bool) option" where
  "pop_into q gm ch =
     (let ch0 = ch\<lparr>bufs := []\<rparr>
      in if \<not> vq_ready q \<or> vq_size q = 0 then Some (q, gm, ch0, False)
      else let (gm1, idx) = pop_check q gm
           in if idx = last_avail q then Some (q, gm1, ch0, False)
      else if (ucast (vq_size q) :: u16) = 0 then None
      else let slot = last_avail q mod ucast (vq_size q);
               head = avail_ring q gm1 slot;
               q' = q\<lparr>last_avail := last_avail q + 1\<rparr>
           in if (ucast (vq_size q) :: u16) \<le> head then Some (q', gm1, ch0, False)
      else if host_range gm1 (desc_gpa q) (16 * ucast (vq_size q)) = None then Some (q', gm1, ch0, False)
      else let bs = chain_loop (unat (vq_size q)) q gm1 head [];
               gm2 = (if event_idx q then store_avail_event q gm1 (last_avail q') else gm1)
           in Some (q', gm2, \<lparr>head_index = head, bufs = bs\<rparr>, True))"

definition vq_pop :: "virtqueue \<Rightarrow> guest_memory \<Rightarrow> (virtqueue \<times> guest_memory \<times> popped_chain option) option" where
  "vq_pop q gm = (case pop_into q gm \<lparr>head_index = 0, bufs = []\<rparr> of
     None \<Rightarrow> None
   | Some (q', gm', c, r) \<Rightarrow> Some (q', gm', if r then Some c else None))"

definition avail_pending :: "virtqueue \<Rightarrow> guest_memory \<Rightarrow> u16" where
  "avail_pending q gm = (if \<not> vq_ready q \<or> vq_size q = 0 then 0
     else min (avail_idx q gm - last_avail q) (ucast (vq_size q)))"

definition has_avail :: "virtqueue \<Rightarrow> guest_memory \<Rightarrow> bool" where
  "has_avail q gm \<longleftrightarrow> avail_pending q gm \<noteq> 0"

definition rewind_avail :: "virtqueue \<Rightarrow> guest_memory \<Rightarrow> u16 \<Rightarrow> virtqueue \<times> bool" where
  "rewind_avail q gm cursor =
     (let dry_at = last_avail q; q' = q\<lparr>last_avail := cursor\<rparr> in (q', avail_idx q' gm \<noteq> dry_at))"

section \<open>Returning chains\<close>

definition add_used :: "u16 \<Rightarrow> u32 \<Rightarrow> virtqueue \<times> guest_memory \<Rightarrow> (virtqueue \<times> guest_memory) option" where
  "add_used head used_len s = (case s of (q, gm) \<Rightarrow>
     (if \<not> vq_ready q \<or> vq_size q = 0 then Some (q, gm)
      else if (ucast (vq_size q) :: u16) = 0 then None
      else let slot = last_used_idx q mod ucast (vq_size q)
           in Some (q\<lparr>last_used_idx := last_used_idx q + 1\<rparr>,
                    store_used_ring q gm slot (ucast head) used_len)))"

definition publish_used :: "virtqueue \<times> guest_memory \<Rightarrow> virtqueue \<times> guest_memory" where
  "publish_used s = (case s of (q, gm) \<Rightarrow>
     (if \<not> vq_ready q \<or> vq_size q = 0 then (q, gm) else (q, store_used_idx q gm (last_used_idx q))))"

definition vq_push :: "u16 \<Rightarrow> u32 \<Rightarrow> virtqueue \<times> guest_memory \<Rightarrow> (virtqueue \<times> guest_memory) option" where
  "vq_push head used_len s = map_option publish_used (add_used head used_len s)"

definition vring_need_event :: "u16 \<Rightarrow> u16 \<Rightarrow> u16 \<Rightarrow> bool" where
  "vring_need_event event_at new_idx old_idx \<longleftrightarrow> new_idx - event_at - 1 < new_idx - old_idx"

definition should_interrupt_driver :: "virtqueue \<Rightarrow> guest_memory \<Rightarrow> virtqueue \<times> bool" where
  "should_interrupt_driver q gm =
     (if \<not> vq_ready q then (q, False)
      else let new_used = last_used_idx q; old_used = last_used_signaled q;
               q' = q\<lparr>last_used_signaled := new_used\<rparr>
           in (q', if event_idx q then vring_need_event (used_event q' gm) new_used old_used
                   else avail_flags q' gm AND 1 = 0))"

section \<open>Hostile rings\<close>

text \<open>What the transport and the snapshot restore keep of a queue: its size fits \<^verbatim>\<open>u16\<close>.\<close>

definition vq_ok :: "virtqueue \<Rightarrow> bool" where
  "vq_ok q \<longleftrightarrow> vq_size q \<le> max_size q \<and> max_size q < 2 ^ 16"

definition buf_in_ram :: "guest_memory \<Rightarrow> chain_buf \<Rightarrow> bool" where
  "buf_in_ram gm b \<longleftrightarrow> cb_ptr b + cb_len b \<le> unat (gm_size gm)"

definition bufs_ok :: "guest_memory \<Rightarrow> u32 \<Rightarrow> chain_buf list \<Rightarrow> bool" where
  "bufs_ok gm sz bs \<longleftrightarrow> (\<forall>b \<in> set bs. buf_in_ram gm b) \<and> length bs \<le> unat sz"

lemma vq_ok_size: "vq_ok q \<Longrightarrow> unat (vq_size q) < 2 ^ 16"
  by (auto simp: vq_ok_def word_nat_order)

lemma vq_ok_apply [inv_intros]: "max_size q < 2 ^ 16 \<Longrightarrow> vq_ok (vq_apply q s)"
  by (simp add: vq_ok_def vq_apply_def)

lemma length_lt_u32: "length bs \<le> unat (sz :: u32) \<Longrightarrow> unat (of_nat (length bs) :: u32) = length bs"
  using unat_lt [of sz] by (simp add: unat_of_nat take_bit_nat_eq_self)

lemma bufs_ok_push_buf:
  assumes "wf_mem gm" and "bufs_ok gm sz bs" and "(of_nat (length bs) :: u32) < sz"
  shows "bufs_ok gm sz (push_buf gm d bs)"
proof -
  have "length bs < unat sz"
    using assms(2,3) length_lt_u32 [of bs sz] by (simp add: bufs_ok_def word_less_nat_alt)
  then show ?thesis
    using assms(2) region_off_bound(2) [OF assms(1)]
    by (auto simp: push_buf_def host_range_def bufs_ok_def buf_in_ram_def buf_of_def unat_ucast_up
        dest!: region_off_bound(2) [OF assms(1)] split: option.split)
qed

lemma bufs_ok_indirect_loop:
  assumes "wf_mem gm" and "bufs_ok gm sz bs"
  shows "bufs_ok gm sz (indirect_loop gm sz d inner_count i step bs)"
  using assms
proof (induction gm sz d inner_count i step bs rule: indirect_loop.induct)
  case (1 gm sz d inner_count i step bs)
  note push = bufs_ok_push_buf [OF 1(2,3)]
  show ?case
    by (subst indirect_loop.simps) (auto simp: Let_def push 1 split: option.split)
qed

lemma bufs_ok_chain_loop:
  assumes "wf_mem gm" and "bufs_ok gm (vq_size q) bs"
  shows "bufs_ok gm (vq_size q) (chain_loop k q gm cur bs)"
  using assms(2)
  by (induction k arbitrary: cur bs)
    (auto simp: Let_def bufs_ok_push_buf bufs_ok_indirect_loop assms(1) not_le split: option.split)

definition avail_event_gpa :: "virtqueue \<Rightarrow> u64" where
  "avail_event_gpa q = used_gpa q + 4 + 8 * ucast (vq_size q)"

lemma same_but_store_avail_event:
  "wf_mem gm \<Longrightarrow> same_but (avail_event_gpa q) 2 gm (store_avail_event q gm v)"
  using same_but_write_bytes [of gm "le16 v" "avail_event_gpa q"]
  by (simp add: store_avail_event_def store_release_u16_eq avail_event_gpa_def)

lemma ucast_size_zero: "vq_ok q \<Longrightarrow> vq_size q \<noteq> 0 \<Longrightarrow> (ucast (vq_size q) :: u16) \<noteq> 0"
proof
  assume "vq_ok q" and nz: "vq_size q \<noteq> 0" and "(ucast (vq_size q) :: u16) = 0"
  with unat_ucast_down [of "vq_size q", where 'b = 16] vq_ok_size [of q] have "unat (vq_size q) = 0"
    by simp
  with nz show False by (simp add: unsigned_eq_0_iff)
qed

text \<open>The three outcomes on a live queue: dry, a bad head or table, a chain.\<close>

lemma pop_into_live:
  assumes "vq_ok q" and "vq_ready q" and "vq_size q \<noteq> 0" and "pop_check q gm = (gm1, idx)"
    and "head = avail_ring q gm1 (last_avail q mod ucast (vq_size q))"
  shows "pop_into q gm ch =
    (if idx = last_avail q then Some (q, gm1, ch\<lparr>bufs := []\<rparr>, False)
     else if (ucast (vq_size q) :: u16) \<le> head \<or> host_range gm1 (desc_gpa q) (16 * ucast (vq_size q)) = None
          then Some (q\<lparr>last_avail := last_avail q + 1\<rparr>, gm1, ch\<lparr>bufs := []\<rparr>, False)
     else Some (q\<lparr>last_avail := last_avail q + 1\<rparr>,
                if event_idx q then store_avail_event q gm1 (last_avail q + 1) else gm1,
                \<lparr>head_index = head, bufs = chain_loop (unat (vq_size q)) q gm1 head []\<rparr>, True))"
  using assms ucast_size_zero [OF assms(1,3)] by (auto simp: pop_into_def Let_def)

lemma same_but_pop_check:
  "wf_mem gm \<Longrightarrow> same_but (avail_event_gpa q) 2 gm (fst (pop_check q gm))"
  by (simp add: pop_check_def arm_kick_and_recheck_def Let_def same_but_refl same_but_store_avail_event)

lemma pop_check_idx: "snd (pop_check q gm) = avail_idx q (fst (pop_check q gm))"
  by (auto simp: pop_check_def arm_kick_and_recheck_def Let_def)

lemma bufs_ok_same_size: "gm_size gm' = gm_size gm \<Longrightarrow> bufs_ok gm' sz bs = bufs_ok gm sz bs"
  by (simp add: bufs_ok_def buf_in_ram_def)

section \<open>What a driver's chain means\<close>

text \<open>
  The reference reading of a descriptor table: \<open>table_chain gm base lim i ds\<close> says that following
  the NEXT links from entry \<open>i\<close> visits the descriptors \<open>ds\<close>, all links below \<open>lim\<close>. \<open>expands\<close> gives the
  buffers a descriptor stands for: itself, or the chain in its indirect table.
\<close>

definition desc_at :: "guest_memory \<Rightarrow> u64 \<Rightarrow> u16 \<Rightarrow> desc option" where
  "desc_at gm base i = map_option read_desc (read_array 16 gm (base + ucast i * 16))"

fun table_chain :: "guest_memory \<Rightarrow> u64 \<Rightarrow> u16 \<Rightarrow> u16 \<Rightarrow> desc list \<Rightarrow> bool" where
  "table_chain gm base lim i [] = False"
| "table_chain gm base lim i (d # ds) \<longleftrightarrow> desc_at gm base i = Some d \<and>
     (if ds = [] then d_flags d AND VRING_DESC_F_NEXT = 0
      else d_flags d AND VRING_DESC_F_NEXT \<noteq> 0 \<and> d_next d < lim \<and> table_chain gm base lim (d_next d) ds)"

definition buf_at :: "guest_memory \<Rightarrow> desc \<Rightarrow> chain_buf option" where
  "buf_at gm d = map_option (\<lambda>p. buf_of p d) (host_range gm (d_addr d) (ucast (d_len d)))"

definition expands :: "guest_memory \<Rightarrow> desc \<Rightarrow> chain_buf list \<Rightarrow> bool" where
  "expands gm d bs \<longleftrightarrow>
     (if d_flags d AND VRING_DESC_F_INDIRECT \<noteq> 0
      then host_range gm (d_addr d) (ucast (d_len d)) \<noteq> None \<and>
           (\<exists>ids. table_chain gm (d_addr d) (ucast (d_len d div 16)) 0 ids \<and>
                  length ids \<le> unat (d_len d div 16) \<and> map (buf_at gm) ids = map Some bs)
      else map (buf_at gm) [d] = map Some bs)"

lemma push_buf_at: "buf_at gm d = Some b \<Longrightarrow> push_buf gm d bs = bs @ [b]"
  by (auto simp: buf_at_def push_buf_def split: option.splits)

lemma read_desc_at: "desc_at gm base i = Some d \<longleftrightarrow>
    (\<exists>b. read_array 16 gm (base + ucast i * 16) = Some b \<and> d = read_desc b)"
  by (auto simp: desc_at_def)

lemma indirect_loop_chain:
  assumes "table_chain gm (d_addr d) (ucast cnt) i ids" and "map (buf_at gm) ids = map Some bs"
    and "unat step + length ids \<le> unat cnt" and "unat step + length ids \<le> unat sz"
    and "length bs0 + length bs \<le> unat sz"
  shows "indirect_loop gm sz d cnt (ucast i) step bs0 = bs0 @ bs"
  using assms
proof (induction ids arbitrary: i step bs0 bs)
  case Nil
  then show ?case by simp
next
  case (Cons ind ids)
  then obtain b bs' where bs: "bs = b # bs'" "buf_at gm ind = Some b" "map (buf_at gm) ids = map Some bs'"
    by (cases bs) auto
  obtain ib where ib: "read_array 16 gm (d_addr d + ucast i * 16) = Some ib" "ind = read_desc ib"
    using Cons.prems(1) by (auto simp: read_desc_at)
  have guard: "step < cnt" "step < sz" "(of_nat (length bs0) :: u32) < sz"
    using Cons.prems(3-5) bs length_lt_u32 [of bs0 sz] by (auto simp: word_less_nat_alt)
  have up: "(ucast (ucast i :: u32) :: u64) = ucast i" 
    by (rule bit_word_eqI) (auto simp: bit_simps dest: bit_imp_le_length)
  show ?case
  proof (cases "ids = []")
    case True
    then show ?thesis using Cons.prems(1) bs
      by (subst indirect_loop.simps) (simp add: guard up ib(1) ib(2) [symmetric] push_buf_at)
  next
    case False
    then have nx: "d_flags ind AND VRING_DESC_F_NEXT \<noteq> 0" "\<not> ucast cnt \<le> d_next ind"
      "table_chain gm (d_addr d) (ucast cnt) (d_next ind) ids"
      using Cons.prems(1) by (auto simp: not_le)
    have "indirect_loop gm sz d cnt (ucast (d_next ind)) (step + 1) (bs0 @ [b]) = (bs0 @ [b]) @ bs'"
      using Cons.prems(3-5) bs unat_plus_1_less [OF guard(1)] by (intro Cons.IH nx) auto
    then show ?thesis using nx bs
      by (subst indirect_loop.simps)
        (simp add: guard up ib(1) ib(2) [symmetric] push_buf_at)
  qed
qed

lemma expands_nonempty: "expands gm d bs \<Longrightarrow> bs \<noteq> []"
  by (auto simp: expands_def split: if_splits)

lemma chain_loop_chain:
  assumes "table_chain gm (desc_gpa q) (ucast (vq_size q)) cur ds" and "list_all2 (expands gm) ds bss"
    and "length ds \<le> k" and "length bs0 + length (concat bss) \<le> unat (vq_size q)"
  shows "chain_loop k q gm cur bs0 = bs0 @ concat bss"
  using assms
proof (induction ds arbitrary: k cur bs0 bss)
  case Nil
  then show ?case by simp
next
  case (Cons d ds)
  then obtain bs bss' k' where s: "bss = bs # bss'" "expands gm d bs" "list_all2 (expands gm) ds bss'"
    and k: "k = Suc k'" by (auto simp: list_all2_Cons1 Suc_le_D dest: Suc_le_D)
  obtain db where db: "read_array 16 gm (desc_gpa q + ucast cur * 16) = Some db" "d = read_desc db"
    using Cons.prems(1) by (auto simp: read_desc_at)
  have guard: "\<not> vq_size q \<le> of_nat (length bs0)"
    using Cons.prems(4) s expands_nonempty [OF s(2)] length_lt_u32 [of bs0 "vq_size q"]
    by (cases bs) (auto simp: word_less_nat_alt not_le)
  have ind: "indirect_loop gm (vq_size q) d (d_len d div 16) 0 0 bs0 = bs0 @ bs"
    if "d_flags d AND VRING_DESC_F_INDIRECT \<noteq> 0"
  proof -
    from s(2) that obtain ids where i: "table_chain gm (d_addr d) (ucast (d_len d div 16)) 0 ids"
      "length ids \<le> unat (d_len d div 16)" "map (buf_at gm) ids = map Some bs"
      by (auto simp: expands_def)
    then have "length ids = length bs" by (metis length_map)
    then show ?thesis
      using i Cons.prems(4) s(1) indirect_loop_chain [OF i(1,3), of 0 "vq_size q" bs0] by simp
  qed
  have dir: "push_buf gm d bs0 = bs0 @ bs" if "d_flags d AND VRING_DESC_F_INDIRECT = 0"
    using s(2) that by (auto simp: expands_def push_buf_at)
  have rest: "chain_loop k' q gm (d_next d) (bs0 @ bs) = (bs0 @ bs) @ concat bss'" if "ds \<noteq> []"
    using that Cons.prems s k by (intro Cons.IH) auto
  have tail: "concat bss' = []" if "ds = []" using s(3) that by simp
  show ?case
    using Cons.prems(1) s ind dir rest tail
    by (cases "ds = []")
      (auto simp: k guard db(1) db(2) [symmetric] expands_def not_le [symmetric] Let_def split: option.split)
qed

section \<open>The used ring\<close>

primrec add_used_all :: "(u16 \<times> u32) list \<Rightarrow> virtqueue \<times> guest_memory \<Rightarrow> (virtqueue \<times> guest_memory) option" where
  "add_used_all [] s = Some s"
| "add_used_all (x # xs) s = (case add_used (fst x) (snd x) s of None \<Rightarrow> None | Some s' \<Rightarrow> add_used_all xs s')"

definition used_slot :: "virtqueue \<Rightarrow> nat \<Rightarrow> nat" where
  "used_slot q i = (unat (last_used_idx q) + i) mod unat (vq_size q)"

definition used_elem_gpa :: "virtqueue \<Rightarrow> nat \<Rightarrow> u64" where
  "used_elem_gpa q i = used_gpa q + 4 + 8 * of_nat (used_slot q i)"

definition used_elem :: "u16 \<times> u32 \<Rightarrow> bytes" where
  "used_elem x = le32 (ucast (fst x)) @ le32 (snd x)"

definition used_writes :: "virtqueue \<Rightarrow> (u16 \<times> u32) list \<Rightarrow> (u64 \<times> bytes) list" where
  "used_writes q xs = map (\<lambda>i. (used_elem_gpa q i, used_elem (xs ! i))) [0..<length xs]"

text \<open>A live queue with a power-of-two size whose used ring is one mapped range.\<close>

definition used_ring_ok :: "virtqueue \<Rightarrow> guest_memory \<Rightarrow> bool" where
  "used_ring_ok q gm \<longleftrightarrow> wf_mem gm \<and> vq_ok q \<and> vq_ready q \<and> vq_size q \<noteq> 0 \<and> unat (vq_size q) dvd 2 ^ 16 \<and>
     unat (used_gpa q) + 4 + 8 * unat (vq_size q) < 2 ^ 64 \<and>
     (\<forall>off n. off + n \<le> 4 + 8 * unat (vq_size q) \<longrightarrow> read_into gm (used_gpa q + of_nat off) n \<noteq> None)"

lemma used_slot_word:
  assumes "vq_ok q" and "unat (vq_size q) dvd 2 ^ 16"
  shows "ucast ((last_used_idx q + of_nat i) mod ucast (vq_size q)) = (of_nat (used_slot q i) :: u64)"
proof -
  have "unat ((last_used_idx q + of_nat i) mod ucast (vq_size q)) =
      (unat (last_used_idx q) + i) mod 2 ^ 16 mod unat (vq_size q)"
    using vq_ok_size [OF assms(1)]
    by (simp add: unat_mod_distrib unat_ucast_down unat_word_ariths unat_of_nat take_bit_eq_mod mod_simps)
  also have "\<dots> = used_slot q i" using assms(2) by (simp add: used_slot_def mod_mod_cancel)
  finally have "of_nat (unat ((last_used_idx q + of_nat i) mod ucast (vq_size q) :: u16)) = (of_nat (used_slot q i) :: u64)"
    by simp
  then show ?thesis by simp
qed

lemma used_writes_Cons:
  "used_writes q (x # xs) = (used_elem_gpa q 0, used_elem x) #
     map (\<lambda>i. (used_elem_gpa q (Suc i), used_elem (xs ! i))) [0..<length xs]"
  by (simp add: used_writes_def upt_conv_Cons del: upt_Suc) (simp add: map_Suc_upt [symmetric] o_def del: upt_Suc)

lemma used_slot_lt: "vq_size q \<noteq> 0 \<Longrightarrow> used_slot q i < unat (vq_size q)"
  by (simp add: used_slot_def unat_gt_0)

lemma used_slot_distinct:
  assumes "vq_size q \<noteq> 0" and "i < j" and "j < i + unat (vq_size q)"
  shows "used_slot q i \<noteq> used_slot q j"
  unfolding used_slot_def using assms by (intro mod_window_distinct)

lemma add_used_all_writes:
  assumes "vq_ok q" and "vq_ready q" and "vq_size q \<noteq> 0" and "unat (vq_size q) dvd 2 ^ 16"
  shows "add_used_all xs (q, gm) =
    Some (q\<lparr>last_used_idx := last_used_idx q + of_nat (length xs)\<rparr>, ram.wr_all (used_writes q xs) gm)"
  using assms
proof (induction xs arbitrary: q gm)
  case Nil
  then show ?case by (simp add: used_writes_def)
next
  case (Cons x xs)
  let ?q = "q\<lparr>last_used_idx := last_used_idx q + 1\<rparr>"
  have step: "add_used (fst x) (snd x) (q, gm) =
      Some (?q, fst (write_bytes gm (used_elem_gpa q 0) (used_elem x)))"
    using Cons.prems ucast_size_zero [of q] used_slot_word [of q 0]
    by (simp add: add_used_def store_used_ring_def used_elem_gpa_def used_elem_def Let_def)
  have shift: "used_elem_gpa ?q i = used_elem_gpa q (Suc i)" for i
    using used_slot_word [of ?q i] used_slot_word [of q "Suc i"] Cons.prems
    by (simp add: used_elem_gpa_def vq_ok_def add.assoc)
  have "add_used_all xs (?q, gm') = Some (?q\<lparr>last_used_idx := last_used_idx ?q + of_nat (length xs)\<rparr>,
      ram.wr_all (used_writes ?q xs) gm')" for gm'
    using Cons.prems by (intro Cons.IH) (simp_all add: vq_ok_def)
  moreover have "used_writes ?q xs = map (\<lambda>i. (used_elem_gpa q (Suc i), used_elem (xs ! i))) [0..<length xs]"
    by (simp add: used_writes_def shift)
  ultimately show ?case using step by (simp add: used_writes_Cons add.assoc)
qed

lemma unat_used_elem_gpa:
  assumes "used_ring_ok q gm"
  shows "unat (used_elem_gpa q i) = unat (used_gpa q) + 4 + 8 * used_slot q i"
proof -
  let ?o = "4 + 8 * used_slot q i"
  have lt: "unat (used_gpa q) + ?o < 2 ^ 64"
    using assms used_slot_lt [of q i] by (simp add: used_ring_ok_def)
  have eq: "used_elem_gpa q i = used_gpa q + of_nat ?o" by (simp add: used_elem_gpa_def)
  have "unat (used_gpa q + of_nat ?o) = unat (used_gpa q) + ?o"
    using lt by (intro unat_plus_of_nat) simp
  then show ?thesis unfolding eq by (simp only: add.assoc)
qed

lemma used_writes_apart:
  assumes ok: "used_ring_ok q gm" and "length xs \<le> unat (vq_size q)"
  shows "sorted_wrt (\<lambda>w. ram.apart (fst w) (length (snd w))) (used_writes q xs)"
proof -
  have "ram.apart (used_elem_gpa q i) 8 (used_elem_gpa q j, used_elem x)"
    if "i < j" "j < length xs" for i j x
  proof -
    have "used_slot q i \<noteq> used_slot q j"
      using ok that assms(2) by (intro used_slot_distinct) (auto simp: used_ring_ok_def)
    then show ?thesis
      by (simp add: ram.apart_def unat_used_elem_gpa [OF ok] used_elem_def) linarith
  qed
  then show ?thesis
    by (auto simp: sorted_wrt_iff_nth_less used_writes_def used_elem_def)
qed

lemma used_writes_lengths: "\<forall>w \<in> set (used_writes q xs). length (snd w) = 8"
  by (simp add: used_writes_def used_elem_def)

lemma used_elem_mapped:
  assumes "used_ring_ok q gm"
  shows "read_into gm (used_elem_gpa q i) 8 \<noteq> None" and "read_into gm (used_gpa q + 2) 2 \<noteq> None"
proof -
  have m: "read_into gm (used_gpa q + of_nat off) n \<noteq> None" if "off + n \<le> 4 + 8 * unat (vq_size q)" for off n
    using assms that by (simp add: used_ring_ok_def)
  have lt: "used_slot q i < unat (vq_size q)" using assms used_slot_lt by (simp add: used_ring_ok_def)
  have eq: "used_elem_gpa q i = used_gpa q + of_nat (4 + 8 * used_slot q i)" by (simp add: used_elem_gpa_def)
  show "read_into gm (used_elem_gpa q i) 8 \<noteq> None" unfolding eq by (rule m) (use lt in linarith)
  show "read_into gm (used_gpa q + 2) 2 \<noteq> None" using m [of 2 2] by simp
qed

text \<open>The range of the used ring that \<open>add_used\<close> and \<open>publish_used\<close> write.\<close>

definition outside_used :: "virtqueue \<Rightarrow> u64 \<Rightarrow> nat \<Rightarrow> bool" where
  "outside_used q b n \<longleftrightarrow> unat (used_gpa q) + 4 + 8 * unat (vq_size q) \<le> unat b \<or> unat b + n \<le> unat (used_gpa q)"

lemma used_writes_outside:
  assumes ok: "used_ring_ok q gm"
    and out: "unat b + n \<le> unat (used_gpa q) + 4 \<or> unat (used_gpa q) + 4 + 8 * unat (vq_size q) \<le> unat b"
  shows "\<forall>w \<in> set (used_writes q xs). ram.apart b n w"
proof -
  have "ram.apart b n (used_elem_gpa q i, used_elem x)" for i x
    using out used_slot_lt [of q i] ok
    by (simp add: ram.apart_def unat_used_elem_gpa [OF ok] used_elem_def used_ring_ok_def) linarith
  then show ?thesis by (simp add: used_writes_def)
qed

section \<open>Properties\<close>

definition desc_bytes :: "u64 \<Rightarrow> u32 \<Rightarrow> u16 \<Rightarrow> u16 \<Rightarrow> bytes" where
  "desc_bytes a n fl nx = le64 a @ le32 n @ le16 fl @ le16 nx"

text \<open>
  A ring of four entries in 192 bytes of RAM: the table at 0, the available ring at 64 with one
  chain published, the used ring at 80, an indirect table of two entries at 128. The chain is a
  header of 8 bytes at 160 and an indirect descriptor that adds a readable and a writable buffer.
\<close>

definition demo_ram :: bytes where
  "demo_ram = desc_bytes 160 8 1 1 @ desc_bytes 128 32 4 0 @ replicate 32 0 @
     le16 0 @ le16 1 @ le16 0 @ replicate 10 0 @ replicate 48 0 @
     desc_bytes 168 8 1 1 @ desc_bytes 176 16 2 0 @ replicate 32 0"

definition demo_mem :: guest_memory where
  "demo_mem = \<lparr>gm_part = 0, gm_gpa = 0, gm_size = 192, gm_large_pages = False, gm_split = None,
     gm_released = False, gm_ram = demo_ram\<rparr>"

definition demo_vq :: virtqueue where
  "demo_vq = (vq_new 256)\<lparr>vq_size := 4, vq_ready := True, avail_gpa := 64, used_gpa := 80\<rparr>"

lemma demo_ok: "wf_mem demo_mem" "vq_ok demo_vq"
  by (simp_all add: wf_mem_def demo_mem_def demo_ram_def desc_bytes_def vq_ok_def demo_vq_def vq_new_def)

lemma pop_into_spec:
  assumes "wf_mem gm" and "vq_ok q"
  shows "case pop_into q gm ch of None \<Rightarrow> False | Some (q', gm', ch', r) \<Rightarrow> vq_ok q' \<and>
    bufs_ok gm' (vq_size q) (bufs ch') \<and>
    (if r then unat (head_index ch') < unat (vq_size q) \<and> last_avail q' = last_avail q + 1
     else bufs ch' = []) \<and>
    q' = q\<lparr>last_avail := last_avail q'\<rparr> \<and> last_avail q' \<in> {last_avail q, last_avail q + 1} \<and>
    (last_avail q' = last_avail q \<longrightarrow> \<not> has_avail q gm') \<and>
    same_but (avail_event_gpa q) 2 gm gm'"
proof (cases "\<not> vq_ready q \<or> vq_size q = 0")
  case True
  with assms show ?thesis
    by (simp add: pop_into_def bufs_ok_def has_avail_def avail_pending_def same_but_refl)
next
  case False
  obtain gm1 idx where pc: "pop_check q gm = (gm1, idx)" by fastforce
  then have s1: "same_but (avail_event_gpa q) 2 gm gm1" and idx: "idx = avail_idx q gm1"
    using same_but_pop_check [OF assms(1), of q] pop_check_idx [of q gm] by auto
  then have wf1: "wf_mem gm1" by (simp add: same_but_def)
  have hd: "\<not> (ucast (vq_size q) :: u16) \<le> h \<Longrightarrow> unat h < unat (vq_size q)" for h
    using vq_ok_size [OF assms(2)] by (simp add: word_nat_order unat_ucast_down not_le)
  have b: "bufs_ok gm1 (vq_size q) (chain_loop k q gm1 h [])" for k h
    by (rule bufs_ok_chain_loop [OF wf1]) (simp add: bufs_ok_def)
  let ?h = "avail_ring q gm1 (last_avail q mod ucast (vq_size q))"
  let ?ch = "\<lparr>head_index = ?h, bufs = chain_loop (unat (vq_size q)) q gm1 ?h []\<rparr>"
  let ?gm2 = "if event_idx q then store_avail_event q gm1 (last_avail q + 1) else gm1"
  note live = pop_into_live [OF assms(2) _ _ pc refl, of ch]
  note s2 = same_but_trans [OF s1 same_but_store_avail_event [OF wf1, of q "last_avail q + 1"]]
  show ?thesis
  proof (cases "idx = last_avail q")
    case True
    then have "pop_into q gm ch = Some (q, gm1, ch\<lparr>bufs := []\<rparr>, False)" using False live by simp
    moreover have "\<not> has_avail q gm1" using True idx by (simp add: has_avail_def avail_pending_def)
    ultimately show ?thesis using s1 assms(2) by (simp add: bufs_ok_def)
  next
    case moved: False
    show ?thesis
    proof (cases "(ucast (vq_size q) :: u16) \<le> ?h \<or> host_range gm1 (desc_gpa q) (16 * ucast (vq_size q)) = None")
      case True
      then have "pop_into q gm ch = Some (q\<lparr>last_avail := last_avail q + 1\<rparr>, gm1, ch\<lparr>bufs := []\<rparr>, False)"
        using False moved live by presburger
      with s1 assms(2) show ?thesis by (simp add: bufs_ok_def vq_ok_def)
    next
      case chain: False
      then have "pop_into q gm ch = Some (q\<lparr>last_avail := last_avail q + 1\<rparr>, ?gm2, ?ch, True)"
        using False moved live by presburger
      moreover have g2: "same_but (avail_event_gpa q) 2 gm ?gm2" using s1 s2 by simp
      then have "bufs_ok ?gm2 (vq_size q) (bufs ?ch)"
        using b s1 bufs_ok_same_size [of ?gm2 gm1] by (simp add: same_but_def)
      ultimately show ?thesis using assms(2) hd [of ?h] chain g2 by (simp add: vq_ok_def)
    qed
  qed
qed

text \<open>
  C2. Whatever a hostile guest puts in the rings and the descriptor tables, \<^verbatim>\<open>pop_into\<close>
  returns (it neither panics nor loops), every buffer it hands out lies inside the RAM allocation,
  a chain has at most queue-size buffers, a reported head indexes the table, nothing but the
  available index moves in the queue (by one at most, and by one when a chain is returned), the
  queue stays usable, and no guest byte outside the two of \<open>avail_event\<close> changes. When it reports
  nothing and does not move, the ring is empty or not live.
\<close>

theorem pop_into_hostile_guest:
  assumes "wf_mem gm" and "vq_ok q"
  shows "case pop_into q gm ch of None \<Rightarrow> False | Some (q', gm', ch', r) \<Rightarrow> vq_ok q' \<and>
    bufs_ok gm' (vq_size q) (bufs ch') \<and>
    (if r then unat (head_index ch') < unat (vq_size q) \<and> last_avail q' = last_avail q + 1
     else bufs ch' = []) \<and>
    q' = q\<lparr>last_avail := last_avail q'\<rparr> \<and> last_avail q' \<in> {last_avail q, last_avail q + 1} \<and>
    (last_avail q' = last_avail q \<longrightarrow> \<not> has_avail q gm') \<and>
    same_but (avail_event_gpa q) 2 gm gm'"
  using assms by (rule pop_into_spec)

theorem pop_into_hostile_guest_witness:
  "case pop_into demo_vq demo_mem \<lparr>head_index = 0, bufs = []\<rparr> of
     None \<Rightarrow> False | Some (q', gm', ch', r) \<Rightarrow> bufs_ok gm' 4 (bufs ch') \<and> r"
proof -
  have run: "pop_into demo_vq demo_mem \<lparr>head_index = 0, bufs = []\<rparr> =
      Some (demo_vq\<lparr>last_avail := 1\<rparr>, demo_mem, \<lparr>head_index = 0, bufs =
        [\<lparr>cb_ptr = 160, cb_len = 8, cb_write = False\<rparr>, \<lparr>cb_ptr = 168, cb_len = 8, cb_write = False\<rparr>,
         \<lparr>cb_ptr = 176, cb_len = 16, cb_write = True\<rparr>]\<rparr>, True)"
    by code_simp
  from pop_into_hostile_guest [OF demo_ok, of "\<lparr>head_index = 0, bufs = []\<rparr>"] show ?thesis
    unfolding run by (simp add: demo_vq_def)
qed

lemma pop_into_chain:
  assumes "vq_ok q" and "vq_ready q" and "avail_idx q gm \<noteq> last_avail q"
    and "head = avail_ring q gm (last_avail q mod ucast (vq_size q))"
    and "head < ucast (vq_size q)" and "host_range gm (desc_gpa q) (16 * ucast (vq_size q)) \<noteq> None"
    and "table_chain gm (desc_gpa q) (ucast (vq_size q)) head ds" and "list_all2 (expands gm) ds bss"
    and "length (concat bss) \<le> unat (vq_size q)"
  shows "pop_into q gm ch = Some (q\<lparr>last_avail := last_avail q + 1\<rparr>,
    if event_idx q then store_avail_event q gm (last_avail q + 1) else gm,
    \<lparr>head_index = head, bufs = concat bss\<rparr>, True)"
proof -
  have "length ds \<le> length (concat bss)"
    using assms(8)
  proof (induction rule: list_all2_induct)
    case (Cons d ds bs bss)
    then show ?case using expands_nonempty [OF Cons.hyps(1)] by (cases bs) auto
  qed simp
  then have "chain_loop (unat (vq_size q)) q gm head [] = [] @ concat bss"
    using assms(7-9) by (intro chain_loop_chain) auto
  moreover have nz: "vq_size q \<noteq> 0" using assms(5) by auto
  moreover have pc: "pop_check q gm = (gm, avail_idx q gm)" using assms(3) by (simp add: pop_check_def)
  moreover have "\<not> ucast (vq_size q) \<le> head" using assms(5) by (simp add: not_le)
  ultimately show ?thesis
    using assms(3,6) pop_into_live [OF assms(1,2) nz pc assms(4), of ch] by simp
qed

text \<open>
  C10. A chain the driver laid out by the rules is delivered exactly: when the entry at the head of
  the available ring starts a chain whose descriptors (direct, or indirect tables) stand for at
  most queue-size mapped buffers, \<^verbatim>\<open>pop_into\<close> returns those buffers, in the driver's order,
  with their lengths and directions, and that head.
\<close>

theorem pop_into_delivers_chain:
  assumes "vq_ok q" and "vq_ready q" and "avail_idx q gm \<noteq> last_avail q"
    and "head = avail_ring q gm (last_avail q mod ucast (vq_size q))"
    and "head < ucast (vq_size q)" and "host_range gm (desc_gpa q) (16 * ucast (vq_size q)) \<noteq> None"
    and "table_chain gm (desc_gpa q) (ucast (vq_size q)) head ds" and "list_all2 (expands gm) ds bss"
    and "length (concat bss) \<le> unat (vq_size q)"
  shows "pop_into q gm ch = Some (q\<lparr>last_avail := last_avail q + 1\<rparr>,
    if event_idx q then store_avail_event q gm (last_avail q + 1) else gm,
    \<lparr>head_index = head, bufs = concat bss\<rparr>, True)"
  using assms by (rule pop_into_chain)

theorem pop_into_delivers_chain_witness:
  "pop_into demo_vq demo_mem \<lparr>head_index = 7, bufs = []\<rparr> =
     Some (demo_vq\<lparr>last_avail := 1\<rparr>, demo_mem, \<lparr>head_index = 0, bufs =
       [\<lparr>cb_ptr = 160, cb_len = 8, cb_write = False\<rparr>, \<lparr>cb_ptr = 168, cb_len = 8, cb_write = False\<rparr>,
        \<lparr>cb_ptr = 176, cb_len = 16, cb_write = True\<rparr>]\<rparr>, True)"
proof -
  let ?d0 = "read_desc (desc_bytes 160 8 1 1)" and ?d1 = "read_desc (desc_bytes 128 32 4 0)"
  let ?i0 = "read_desc (desc_bytes 168 8 1 1)" and ?i1 = "read_desc (desc_bytes 176 16 2 0)"
  let ?b = "\<lambda>p n w. \<lparr>cb_ptr = p, cb_len = n, cb_write = w\<rparr>"
  have tab: "table_chain demo_mem (desc_gpa demo_vq) (ucast (vq_size demo_vq)) 0 [?d0, ?d1]"
    "table_chain demo_mem (d_addr ?d1) (ucast (d_len ?d1 div 16)) 0 [?i0, ?i1]"
    by code_simp+
  have b0: "map (buf_at demo_mem) [?d0] = map Some [?b 160 8 False]" by code_simp
  have b1: "map (buf_at demo_mem) [?i0, ?i1] = map Some [?b 168 8 False, ?b 176 16 True]" by code_simp
  have fl: "d_flags ?d0 AND VRING_DESC_F_INDIRECT = 0" "d_flags ?d1 AND VRING_DESC_F_INDIRECT \<noteq> 0"
    "host_range demo_mem (d_addr ?d1) (ucast (d_len ?d1)) \<noteq> None" "length [?i0, ?i1] \<le> unat (d_len ?d1 div 16)"
    by code_simp+
  have ex: "list_all2 (expands demo_mem) [?d0, ?d1] [[?b 160 8 False], [?b 168 8 False, ?b 176 16 True]]"
    using tab(2) b0 b1 fl unfolding expands_def list_all2_Cons list_all2_Nil by metis
  have "vq_ready demo_vq" "avail_idx demo_vq demo_mem \<noteq> last_avail demo_vq"
    "0 = avail_ring demo_vq demo_mem (last_avail demo_vq mod ucast (vq_size demo_vq))"
    "(0::u16) < ucast (vq_size demo_vq)" "host_range demo_mem (desc_gpa demo_vq) (16 * ucast (vq_size demo_vq)) \<noteq> None"
    "length (concat [[?b 160 8 False], [?b 168 8 False, ?b 176 16 True]]) \<le> unat (vq_size demo_vq)"
    "last_avail demo_vq + 1 = 1" "\<not> event_idx demo_vq"
    by code_simp+
  then show ?thesis
    using pop_into_delivers_chain [OF demo_ok(2) _ _ _ _ _ tab(1) ex, of "\<lparr>head_index = 7, bufs = []\<rparr>"] by simp
qed

text \<open>
  C12. The used ring is a faithful channel to the driver: after \<open>add_used\<close> of at most queue-size
  elements the driver still sees the old \<open>used.idx\<close> (a multi-buffer packet appears at once or not at
  all); after \<open>publish_used\<close> it sees the index advanced by their number modulo \<open>2\<^sup>1\<^sup>6\<close>, and reads
  each element, in order, in the slot that index names; no guest byte outside the ring changes.
\<close>

theorem used_ring_channel:
  assumes ok: "used_ring_ok q gm" and len: "length xs \<le> unat (vq_size q)"
  shows "case add_used_all xs (q, gm) of None \<Rightarrow> False | Some (q1, gm1) \<Rightarrow>
    q1 = q\<lparr>last_used_idx := last_used_idx q + of_nat (length xs)\<rparr> \<and>
    read_into gm1 (used_gpa q + 2) 2 = read_into gm (used_gpa q + 2) 2 \<and>
    (case publish_used (q1, gm1) of (q2, gm2) \<Rightarrow> q2 = q1 \<and> wf_mem gm2 \<and>
       load_acquire_u16 gm2 (used_gpa q + 2) = Some (last_used_idx q + of_nat (length xs)) \<and>
       (\<forall>i < length xs. read_into gm2 (used_elem_gpa q i) 8 = Some (used_elem (xs ! i))) \<and>
       (\<forall>b n. n < 2 ^ 64 \<longrightarrow> outside_used q b n \<longrightarrow> read_into gm2 b n = read_into gm b n))"
proof -
  let ?q1 = "q\<lparr>last_used_idx := last_used_idx q + of_nat (length xs)\<rparr>"
  let ?idx = "le16 (last_used_idx q + of_nat (length xs))"
  let ?gm1 = "ram.wr_all (used_writes q xs) gm"
  let ?gm2 = "ram.wr_all (used_writes q xs @ [(used_gpa q + 2, ?idx)]) gm"
  have wf: "wf_mem gm" and live: "vq_ready q" "vq_size q \<noteq> 0" and fits: "unat (used_gpa q) + 4 + 8 * unat (vq_size q) < 2 ^ 64"
    and add: "add_used_all xs (q, gm) = Some (?q1, ?gm1)"
    using ok add_used_all_writes [of q xs gm] by (auto simp: used_ring_ok_def)
  have u2: "unat (used_gpa q + 2) = unat (used_gpa q) + 2"
    using fits unat_plus_of_nat [of "used_gpa q" 2] by simp
  have ls: "\<forall>w \<in> set (used_writes q xs @ [(used_gpa q + 2, ?idx)]). length (snd w) < 2 ^ 64"
    using used_writes_lengths [of q xs] by auto
  have sep: "sorted_wrt (\<lambda>w. ram.apart (fst w) (length (snd w))) (used_writes q xs @ [(used_gpa q + 2, ?idx)])"
    using used_writes_apart [OF ok len]
    by (auto simp: sorted_wrt_append used_writes_def used_elem_def ram.apart_def u2 unat_used_elem_gpa [OF ok])
  have g2: "publish_used (?q1, ?gm1) = (?q1, ?gm2)"
    using live by (simp add: publish_used_def store_used_idx_def store_release_u16_eq ram.wr_all_append)
  have each: "read_into ?gm2 (fst w) (length (snd w)) = Some (snd w)"
    if "w \<in> set (used_writes q xs @ [(used_gpa q + 2, ?idx)])" for w
    using that used_elem_mapped [OF ok]
    by (intro ram.rd_wr_all_each [OF wf ls sep]) (auto simp: used_writes_def used_elem_def)
  have idx: "load_acquire_u16 ?gm2 (used_gpa q + 2) = Some (last_used_idx q + of_nat (length xs))"
    using each [of "(used_gpa q + 2, ?idx)"] by (simp add: load_acquire_u16_eq)
  have elems: "\<forall>i < length xs. read_into ?gm2 (used_elem_gpa q i) 8 = Some (used_elem (xs ! i))"
  proof (intro allI impI)
    fix i assume "i < length xs"
    then have "(used_elem_gpa q i, used_elem (xs ! i)) \<in> set (used_writes q xs)" by (simp add: used_writes_def)
    from each [of "(used_elem_gpa q i, used_elem (xs ! i))"] this
    show "read_into ?gm2 (used_elem_gpa q i) 8 = Some (used_elem (xs ! i))" by (simp add: used_elem_def)
  qed
  have old: "read_into ?gm1 (used_gpa q + 2) 2 = read_into gm (used_gpa q + 2) 2"
    using ls used_writes_outside [OF ok, of "used_gpa q + 2" 2 xs] by (intro ram.rd_wr_all_other [OF wf]) (auto simp: u2)
  have out: "\<forall>b n. n < 2 ^ 64 \<longrightarrow> outside_used q b n \<longrightarrow> read_into ?gm2 b n = read_into gm b n"
  proof (intro allI impI)
    fix b n assume n: "n < (2::nat) ^ 64" and o: "outside_used q b n"
    have "ram.apart b n (used_gpa q + 2, ?idx)" using o by (auto simp: outside_used_def ram.apart_def u2)
    moreover have "\<forall>w \<in> set (used_writes q xs). ram.apart b n w"
      using o by (intro used_writes_outside [OF ok]) (auto simp: outside_used_def)
    ultimately have "\<forall>w \<in> set (used_writes q xs @ [(used_gpa q + 2, ?idx)]). ram.apart b n w" by simp
    then show "read_into ?gm2 b n = read_into gm b n" by (rule ram.rd_wr_all_other [OF wf ls n])
  qed
  show ?thesis using add g2 old idx elems out ram.ok_wr_all [OF wf ls] by simp
qed

lemma demo_used_ring_ok: "used_ring_ok demo_vq demo_mem"
proof -
  have "read_into demo_mem (80 + of_nat off) n \<noteq> None" if "off + n \<le> 36" for off n
  proof -
    have "unat (80 + of_nat off :: u64) = 80 + off" using that unat_plus_of_nat [of "80 :: u64" off] by simp
    with that show ?thesis
      by (intro read_into_flat [OF demo_ok(1)]) (simp_all add: demo_mem_def)
  qed
  then show ?thesis using demo_ok by (simp add: used_ring_ok_def demo_vq_def)
qed

theorem used_ring_channel_witness:
  "\<exists>q1 gm1. add_used_all [(3, 16), (1, 8)] (demo_vq, demo_mem) = Some (q1, gm1) \<and>
     load_acquire_u16 (snd (publish_used (q1, gm1))) 82 = Some 2"
proof -
  have "length [(3 :: u16, 16 :: u32), (1, 8)] \<le> unat (vq_size demo_vq)" by (simp add: demo_vq_def)
  from used_ring_channel [OF demo_used_ring_ok this] show ?thesis
    by (auto simp: demo_vq_def vq_new_def split: option.splits prod.splits)
qed

text \<open>
  Between two checks the device publishes the entries \<open>old, old + 1, \<dots>, new - 1\<close>; the driver wants
  an interrupt for the entry \<open>event\<close>.
\<close>

lemma vring_need_event_window:
  "vring_need_event ev new old \<longleftrightarrow> unat (ev - old) < unat (new - old)"
proof -
  define a where "a = ev - old"
  define d where "d = new - old"
  have ev: "new - ev - 1 = d - (a + 1)" by (simp add: a_def d_def algebra_simps)
  have "d - (a + 1) < d \<longleftrightarrow> a < d" for a d :: u16
  proof -
    have b: "0 \<le> uint a" "uint a < 65536" "0 \<le> uint d" "uint d < 65536"
      using uint_bounded [of a] uint_bounded [of d] by simp_all
    have eq: "uint (d - (a + 1)) = (uint d - uint a - 1) mod 65536"
      by (simp add: uint_word_ariths mod_simps algebra_simps)
    show ?thesis
    proof (cases "uint a < uint d")
      case True
      with b have "(uint d - uint a - 1) mod 65536 = uint d - uint a - 1" by (intro mod_pos_pos_trivial) (use True b in linarith)+
      with eq True b have "uint (d - (a + 1)) < uint d" by linarith
      with True show ?thesis by (simp add: word_less_def)
    next
      case False
      have "(uint d - uint a - 1) mod 65536 = (uint d - uint a - 1 + 65536) mod 65536"
        by (simp only: mod_add_self2)
      also have "\<dots> = uint d - uint a - 1 + 65536" by (intro mod_pos_pos_trivial) (use False b in linarith)+
      finally have "\<not> uint (d - (a + 1)) < uint d" using eq False b by linarith
      with False show ?thesis by (simp add: word_less_def)
    qed
  qed
  then show ?thesis by (simp add: vring_need_event_def ev word_less_nat_alt a_def [symmetric] d_def [symmetric])
qed

text \<open>A run of checks: before each, the device publishes \<open>k\<close> more used entries.\<close>

primrec interrupt_checks :: "guest_memory \<Rightarrow> nat list \<Rightarrow> virtqueue \<Rightarrow> bool list" where
  "interrupt_checks gm [] q = []"
| "interrupt_checks gm (k # ks) q =
     (case should_interrupt_driver (q\<lparr>last_used_idx := last_used_idx q + of_nat k\<rparr>) gm of
        (q', sig) \<Rightarrow> sig # interrupt_checks gm ks q')"

lemma need_event_at:
  assumes "e < 2 ^ 16" and "c + k < 2 ^ 16"
  shows "vring_need_event (base + of_nat e) (base + of_nat c + of_nat k) (base + of_nat c) \<longleftrightarrow> c \<le> e \<and> e < c + k"
proof -
  have k: "unat (base + of_nat c + of_nat k - (base + of_nat c)) = k" using assms(2) by simp
  have diff: "base + of_nat e - (base + of_nat c) = (of_nat e - of_nat c :: u16)" by simp
  show ?thesis
  proof (cases "c \<le> e")
    case True
    then have "of_nat e - of_nat c = (of_nat (e - c) :: u16)" by (simp only: of_nat_diff)
    then have "unat (of_nat e - of_nat c :: u16) = e - c" using assms(1) by (simp only: unat_of_nat_u16)
    with True k show ?thesis by (auto simp: vring_need_event_window diff)
  next
    case False
    let ?w = "2 ^ 16 + e - c"
    have "of_nat ?w + of_nat c = (of_nat (2 ^ 16 + e) :: u16)"
      using assms(2) unfolding of_nat_add [symmetric] by simp
    also have "\<dots> = of_nat e" by simp
    finally have "of_nat e - of_nat c = (of_nat ?w :: u16)" by (simp only: diff_eq_eq)
    moreover have "?w < 2 ^ 16" "k < ?w" using False assms(2) by linarith+
    ultimately have "unat (of_nat e - of_nat c :: u16) = ?w" by (simp only: unat_of_nat_u16)
    with False \<open>k < ?w\<close> k show ?thesis by (simp add: vring_need_event_window diff)
  qed
qed

lemma interrupt_checks_at:
  assumes "vq_ready q" and "event_idx q" and "last_used_signaled q = base + of_nat c"
    and "last_used_idx q = base + of_nat c" and "used_event q gm = base + of_nat e"
    and "e < 2 ^ 16" and "c + sum_list ks < 2 ^ 16" and "i < length ks"
  shows "interrupt_checks gm ks q ! i \<longleftrightarrow> c + sum_list (take i ks) \<le> e \<and> e < c + sum_list (take (Suc i) ks)"
  using assms
proof (induction ks arbitrary: q c i)
  case Nil
  then show ?case by simp
next
  case (Cons k ks)
  let ?q = "q\<lparr>last_used_idx := last_used_idx q + of_nat k, last_used_signaled := last_used_idx q + of_nat k\<rparr>"
  have sig: "vring_need_event (base + of_nat e) (base + of_nat c + of_nat k) (base + of_nat c) \<longleftrightarrow> c \<le> e \<and> e < c + k"
    using Cons.prems(6,7) by (intro need_event_at) auto
  have run: "interrupt_checks gm (k # ks) q =
      vring_need_event (base + of_nat e) (base + of_nat c + of_nat k) (base + of_nat c) # interrupt_checks gm ks ?q"
    using Cons.prems(1-5) by (simp add: should_interrupt_driver_def used_event_def Let_def)
  show ?case
  proof (cases i)
    case 0
    with run sig show ?thesis by simp
  next
    case (Suc j)
    have "interrupt_checks gm ks ?q ! j \<longleftrightarrow>
        (c + k) + sum_list (take j ks) \<le> e \<and> e < (c + k) + sum_list (take (Suc j) ks)"
      using Cons.prems Suc by (intro Cons.IH) (auto simp: used_event_def add.assoc)
    with run Suc show ?thesis by (simp add: add.assoc)
  qed
qed

text \<open>
  C15. With EVENT_IDX no wakeup is lost and none is repeated: starting from a check that left nothing
  unsignalled, if the driver asks for an interrupt at the \<open>e\<close>-th further used entry, then of any run of
  checks (fewer than \<open>2\<^sup>1\<^sup>6\<close> entries in all, indices wrapping freely) exactly the one that publishes
  that entry signals.
\<close>

theorem interrupt_exactly_when_reached:
  assumes "vq_ready q" and "event_idx q" and "last_used_signaled q = last_used_idx q"
    and "used_event q gm = last_used_idx q + of_nat e" and "e < 2 ^ 16" and "sum_list ks < 2 ^ 16"
    and "i < length ks"
  shows "interrupt_checks gm ks q ! i \<longleftrightarrow> sum_list (take i ks) \<le> e \<and> e < sum_list (take (Suc i) ks)"
  using interrupt_checks_at [of q "last_used_idx q" 0 gm e ks i] assms by simp

theorem interrupt_exactly_when_reached_witness:
  "interrupt_checks demo_mem [1, 0, 2] (demo_vq\<lparr>event_idx := True, last_used_idx := 0xFFFF,
     last_used_signaled := 0xFFFF\<rparr>) ! 2"
proof -
  let ?q = "demo_vq\<lparr>event_idx := True, last_used_idx := 0xFFFF, last_used_signaled := 0xFFFF\<rparr>"
  have "vq_ready ?q" "event_idx ?q" "last_used_signaled ?q = last_used_idx ?q"
    "used_event ?q demo_mem = last_used_idx ?q + of_nat 1"
    by code_simp+
  from interrupt_exactly_when_reached [OF this, of "[1, 0, 2]" 2] show ?thesis
    by (simp add: take_Cons')
qed

lemma qs_decode_encode: "qs_decode (qs_encode s @ rest) = Some s"
  by (simp add: qs_decode_def qs_encode_def slice_simps nth_append)

lemma length_qs_encode [simp]: "length (qs_encode s) = QUEUE_STATE_ENCODED"
  by (simp add: qs_encode_def)

lemma vq_apply_capture: "max_size r = max_size q \<Longrightarrow> vq_ok q \<Longrightarrow> vq_apply r (vq_capture q) = q"
  by (simp add: vq_apply_def vq_capture_def vq_ok_def)

text \<open>
  Saving and restoring a queue loses nothing: the 40 bytes of its captured state, restored into
  a queue of the same maximum size, give back the queue; and whatever bytes a snapshot holds, the
  restored queue satisfies the size bound the pop and push paths rely on.
\<close>

lemma queue_snapshot_roundtrip:
  assumes "max_size r = max_size q" and "vq_ok q"
  shows "length (qs_encode (vq_capture q)) = QUEUE_STATE_ENCODED \<and>
    map_option (vq_apply r) (qs_decode (qs_encode (vq_capture q) @ rest)) = Some q \<and>
    (\<forall>bs s. qs_decode bs = Some s \<longrightarrow> vq_ok (vq_apply r s))"
  using assms vq_ok_apply [of r] by (auto simp: qs_decode_encode vq_apply_capture vq_ok_def)

end
