(* ===== verification/Vmbus_Ring.thy ===== *)
theory Vmbus_Ring
  imports Guest_Memory
begin

text \<open>
  The VMBus ring buffer (\<^verbatim>\<open>src/vmbus/ring.rs\<close>): packets in a circular buffer made of guest pages
  that need not be adjacent, with the write and read indices in a control page. Offsets into the
  data are \<open>nat\<close>: \<^verbatim>\<open>Ring::new\<close> admits at most \<open>2\<^sup>1\<^sup>6\<close> pages, so every \<^verbatim>\<open>u64\<close> sum of offsets in
  the code stays below \<open>2\<^sup>3\<^sup>0\<close>. \<open>None\<close> is a panic (a page index out of range).

  The theory proves that the ring is a first-in first-out queue of payloads: \<open>ring_holds\<close> relates the
  bytes between the two indices to a list, \<open>ring_write\<close> appends to it or reports that it is full, and
  \<open>ring_read\<close> removes its head.
\<close>

section \<open>The ring\<close>

abbreviation WRITE_INDEX :: u64 where "WRITE_INDEX \<equiv> 0"
abbreviation READ_INDEX :: u64 where "READ_INDEX \<equiv> 4"
abbreviation INTERRUPT_MASK :: u64 where "INTERRUPT_MASK \<equiv> 8"
abbreviation DESCRIPTOR_LEN :: nat where "DESCRIPTOR_LEN \<equiv> 16"
abbreviation TRAILER_LEN :: nat where "TRAILER_LEN \<equiv> 8"
abbreviation PACKET_INBAND :: u16 where "PACKET_INBAND \<equiv> 6"

datatype ring_error = Corrupt | Full

type_synonym vm_ring = "u64 list"

definition checked_mul_page :: "u64 \<Rightarrow> u64 option" where
  "checked_mul_page pfn = (if unat pfn * 4096 < 2 ^ 64 then Some (pfn * PAGE) else None)"

definition ring_new :: "u64 list \<Rightarrow> vm_ring option" where
  "ring_new pfns = (if length pfns < 2 \<or> 2 ^ 16 < length pfns then None
     else those (map checked_mul_page pfns))"

definition ring_size :: "vm_ring \<Rightarrow> nat" where
  "ring_size ring = (length ring - 1) * 4096"

definition control :: "vm_ring \<Rightarrow> u64 \<Rightarrow> u64" where
  "control ring field = ring ! 0 + field"

definition indices :: "guest_memory \<Rightarrow> vm_ring \<Rightarrow> ring_error + nat \<times> nat" where
  "indices gm ring =
     (case (load_acquire_u32 gm (control ring WRITE_INDEX), load_acquire_u32 gm (control ring READ_INDEX)) of
        (Some w, Some r) \<Rightarrow>
          if ring_size ring \<le> unat w \<or> ring_size ring \<le> unat r \<or> unat w mod 8 \<noteq> 0 \<or> unat r mod 8 \<noteq> 0
          then Inl Corrupt else Inr (unat w, unat r)
      | _ \<Rightarrow> Inl Corrupt)"

text \<open>\<^verbatim>\<open>walk\<close>: the copies, page by page, threading the state \<open>s\<close> the closure works on.\<close>

function walk :: "vm_ring \<Rightarrow> (u64 \<Rightarrow> nat \<Rightarrow> nat \<Rightarrow> 's \<Rightarrow> 's \<times> bool) \<Rightarrow> nat \<Rightarrow> nat \<Rightarrow> nat \<Rightarrow> 's \<Rightarrow> ('s \<times> bool) option" where
  "walk ring copy off len at s =
     (if at < len
      then let in_page = off mod 4096; n = min (4096 - in_page) (len - at)
           in if length ring \<le> 1 + off div 4096 then None
              else let (s', ok) = copy (ring ! (1 + off div 4096) + of_nat in_page) at n s
                   in if ok then walk ring copy ((off + n) mod ring_size ring) len (at + n) s'
                      else Some (s', False)
      else Some (s, True))"
  by pat_completeness auto
termination
  by (relation "measure (\<lambda>(ring, copy, off, len, at, s). len - at)") (auto simp: min_def)

declare walk.simps [simp del]

definition copy_out :: "guest_memory \<Rightarrow> u64 \<Rightarrow> nat \<Rightarrow> nat \<Rightarrow> bytes \<Rightarrow> bytes \<times> bool" where
  "copy_out gm gpa at n buf = (case read_into gm gpa n of
     None \<Rightarrow> (buf, False) | Some bs \<Rightarrow> (overwrite buf at bs, True))"

definition copy_in :: "bytes \<Rightarrow> u64 \<Rightarrow> nat \<Rightarrow> nat \<Rightarrow> guest_memory \<Rightarrow> guest_memory \<times> bool" where
  "copy_in packet gpa at n gm = write_bytes gm gpa (byte_range packet at n)"

text \<open>\<^verbatim>\<open>buf.resize(n, 0)\<close>\<close>

definition resize :: "bytes \<Rightarrow> nat \<Rightarrow> bytes" where
  "resize buf n = take n buf @ replicate (n - length buf) 0"

definition ring_read :: "guest_memory \<Rightarrow> vm_ring \<Rightarrow> bytes \<Rightarrow> nat
    \<Rightarrow> (guest_memory \<times> bytes \<times> (ring_error + u16 option)) option" where
  "ring_read gm ring buf mx =
     (case indices gm ring of
        Inl e \<Rightarrow> Some (gm, buf, Inl e)
      | Inr (w, r) \<Rightarrow>
          if w = r then Some (gm, buf, Inr None)
          else let available = (w + ring_size ring - r) mod ring_size ring
          in case walk ring (copy_out gm) r DESCRIPTOR_LEN 0 (replicate DESCRIPTOR_LEN 0) of
               None \<Rightarrow> None
             | Some (d, ok) \<Rightarrow>
                 if \<not> ok then Some (gm, buf, Inl Corrupt)
                 else let kind = from_le16 (byte_range d 0 2);
                          offset = unat (from_le16 (byte_range d 2 2)) * 8;
                          len = unat (from_le16 (byte_range d 4 2)) * 8
                      in if offset < DESCRIPTOR_LEN \<or> len < offset \<or> available < len + TRAILER_LEN
                         then Some (gm, buf, Inl Corrupt)
                         else if mx < len - offset then Some (gm, buf, Inl Corrupt)
                         else (case walk ring (copy_out gm) ((r + offset) mod ring_size ring) (len - offset) 0
                                     (resize buf (len - offset)) of
                                 None \<Rightarrow> None
                               | Some (buf', ok') \<Rightarrow>
                                   if \<not> ok' then Some (gm, buf', Inl Corrupt)
                                   else let (gm', ok2) = store_release_u32 gm (control ring READ_INDEX)
                                              (of_nat ((r + len + TRAILER_LEN) mod ring_size ring))
                                        in if \<not> ok2 then Some (gm', buf', Inl Corrupt)
                                           else Some (gm', buf', Inr (Some kind))))"

definition next_multiple_of_8 :: "nat \<Rightarrow> nat" where
  "next_multiple_of_8 n = (n + 7) div 8 * 8"

text \<open>The packet without its trailer, and whole.\<close>

definition packet_len :: "bytes \<Rightarrow> nat" where
  "packet_len payload = DESCRIPTOR_LEN + next_multiple_of_8 (length payload)"

definition packet_body :: "bytes \<Rightarrow> bytes" where
  "packet_body payload =
     le16 PACKET_INBAND @ le16 (of_nat (DESCRIPTOR_LEN div 8)) @ le16 (of_nat (packet_len payload div 8)) @
     replicate 10 0 @ payload @ replicate (next_multiple_of_8 (length payload) - length payload) 0"

definition packet :: "nat \<Rightarrow> bytes \<Rightarrow> bytes" where
  "packet w payload = packet_body payload @ le64 (of_nat (w * 2 ^ 32))"

definition ring_write :: "guest_memory \<Rightarrow> vm_ring \<Rightarrow> bytes \<Rightarrow> (guest_memory \<times> (ring_error + bool)) option" where
  "ring_write gm ring payload =
     (case indices gm ring of
        Inl e \<Rightarrow> Some (gm, Inl e)
      | Inr (w, r) \<Rightarrow>
          let len = packet_len payload; total_len = len + TRAILER_LEN;
              free = ring_size ring - (w + ring_size ring - r) mod ring_size ring
          in if 65535 < len div 8 \<or> free \<le> total_len then Some (gm, Inl Full)
          else case walk ring (copy_in (packet w payload)) w (length (packet w payload)) 0 gm of
                 None \<Rightarrow> None
               | Some (gm1, ok) \<Rightarrow>
                   if \<not> ok then Some (gm1, Inl Corrupt)
                   else let (gm2, ok2) = store_release_u32 gm1 (control ring WRITE_INDEX)
                              (of_nat ((w + total_len) mod ring_size ring))
                        in if \<not> ok2 then Some (gm2, Inl Corrupt)
                           else case load_acquire_u32 gm2 (control ring INTERRUPT_MASK) of
                                  None \<Rightarrow> Some (gm2, Inl Corrupt)
                                | Some msk \<Rightarrow>
                                    (case load_acquire_u32 gm2 (control ring READ_INDEX) of
                                       None \<Rightarrow> Some (gm2, Inl Corrupt)
                                     | Some rd \<Rightarrow> Some (gm2, Inr (msk = 0 \<and> unat rd = w))))"

section \<open>Pages as host cells\<close>

definition wf_ring :: "guest_memory \<Rightarrow> vm_ring \<Rightarrow> bool" where
  "wf_ring gm ring \<longleftrightarrow> wf_mem gm \<and> split_apart gm \<and> 2 \<le> length ring \<and> length ring \<le> 2 ^ 16 \<and> distinct ring \<and>
     (\<forall>p \<in> set ring. unat p mod 4096 = 0 \<and> host_range gm p 4096 \<noteq> None)"

definition page_host :: "guest_memory \<Rightarrow> u64 \<Rightarrow> nat" where
  "page_host gm p = the (host_range gm p 4096)"

definition cell :: "guest_memory \<Rightarrow> vm_ring \<Rightarrow> nat \<Rightarrow> nat" where
  "cell gm ring k = page_host gm (ring ! (1 + k div 4096)) + k mod 4096"

definition cells :: "guest_memory \<Rightarrow> vm_ring \<Rightarrow> nat \<Rightarrow> nat \<Rightarrow> nat list" where
  "cells gm ring off n = map (\<lambda>i. cell gm ring ((off + i) mod ring_size ring)) [0..<n]"

lemma split_apart_ram [simp]: "split_apart (gm\<lparr>gm_ram := x\<rparr>) = split_apart gm"
  by (simp add: split_apart_def split: option.split)

lemma host_range_ram [simp]: "host_range (gm\<lparr>gm_ram := x\<rparr>) = host_range gm"
  by (rule ext)+ (simp add: host_range_def)

lemma page_host_ram [simp]: "page_host (gm\<lparr>gm_ram := x\<rparr>) = page_host gm"
  by (rule ext) (simp add: page_host_def)

lemma cell_ram [simp]: "cell (gm\<lparr>gm_ram := x\<rparr>) = cell gm"
  by (rule ext)+ (simp add: cell_def)

lemma cells_ram [simp]: "cells (gm\<lparr>gm_ram := x\<rparr>) = cells gm"
  by (rule ext)+ (simp add: cells_def)

lemma wf_ring_ram [inv_intros]:
  "wf_ring gm ring \<Longrightarrow> length x = length (gm_ram gm) \<Longrightarrow> wf_ring (gm\<lparr>gm_ram := x\<rparr>) ring"
  by (auto simp: wf_ring_def wf_mem_def split: option.splits)

lemma length_cells [simp]: "length (cells gm ring off n) = n"
  by (simp add: cells_def)

lemma ring_size_pos: "wf_ring gm ring \<Longrightarrow> 4096 \<le> ring_size ring"
  by (auto simp: wf_ring_def ring_size_def)

lemma cells_add:
  "cells gm ring off (n + m) = cells gm ring off n @ cells gm ring ((off + n) mod ring_size ring) m"
proof -
  have "cells gm ring off (n + m) = cells gm ring off n @ map (\<lambda>i. cell gm ring ((off + (n + i)) mod ring_size ring)) [0..<m]"
    by (rule nth_equalityI) (auto simp: cells_def nth_append)
  then show ?thesis by (simp add: cells_def mod_add_left_eq add.assoc)
qed

lemma page_end: "unat (p :: u64) mod 4096 = 0 \<Longrightarrow> ip < 4096 \<Longrightarrow> unat (p + of_nat ip) = unat p + ip"
  using unat_lt [of p] by (intro unat_plus_of_nat) (auto elim!: dvdE simp: mod_eq_0_iff_dvd)

lemma page_sub:
  assumes wf: "wf_ring gm ring" and p: "p \<in> set ring" and "ip < 4096" and "ip + n \<le> 4096"
  shows "host_range gm (p + of_nat ip) (of_nat n) = Some (page_host gm p + ip)"
    and "page_host gm p + 4096 \<le> length (gm_ram gm)"
proof -
  have w: "wf_mem gm" "split_apart gm" "unat p mod 4096 = 0" using wf p by (simp_all add: wf_ring_def)
  have "host_range gm p 4096 \<noteq> None" using wf p by (simp add: wf_ring_def)
  then have h: "region_off gm p 4096 = Some (page_host gm p)" by (auto simp: page_host_def host_range_def)
  show "page_host gm p + 4096 \<le> length (gm_ram gm)"
    using region_off_bound(2) [OF w(1) h] w(1) by (simp add: wf_mem_def)
  obtain m where m: "m \<in> set (gm_mappings gm)" "maps_to m p 4096 (page_host gm p)"
    using region_off_maps_to [OF w(1) h] by blast
  note u = page_end [OF w(3) assms(3)]
  have "maps_to m (p + of_nat ip) (of_nat n) (page_host gm p + ip)"
    using m(2) u assms(3,4) by (cases m) auto
  with w m(1) show "host_range gm (p + of_nat ip) (of_nat n) = Some (page_host gm p + ip)"
    unfolding host_range_def by (intro maps_to_region_off)
qed

lemma pages_disjoint:
  assumes wf: "wf_ring gm ring" and "p \<in> set ring" and "p' \<in> set ring" and "p \<noteq> p'"
  shows "page_host gm p + 4096 \<le> page_host gm p' \<or> page_host gm p' + 4096 \<le> page_host gm p"
proof -
  have r: "region_off gm x 4096 = Some (page_host gm x)" if "x \<in> set ring" for x
    using page_sub(1) [OF wf that, of 0 4096] by (simp add: host_range_def)
  have "unat p mod 4096 = 0" "unat p' mod 4096 = 0" "unat p \<noteq> unat p'"
    using assms by (auto simp: wf_ring_def dest: unsigned_word_eqI)
  then have "unat p + 4096 \<le> unat p' \<or> unat p' + 4096 \<le> unat p" by (rule multiples_apart)
  then show ?thesis
    using region_off_disjoint [of gm p 4096 "page_host gm p" p' 4096 "page_host gm p'"] r assms
    by (simp add: wf_ring_def)
qed

lemma data_page:
  assumes "wf_ring gm ring" and "k < ring_size ring"
  shows "1 + k div 4096 < length ring" and "ring ! (1 + k div 4096) \<in> set ring"
    and "ring ! (1 + k div 4096) \<noteq> ring ! 0"
proof -
  show lt: "1 + k div 4096 < length ring"
    using assms by (auto simp: ring_size_def wf_ring_def less_mult_imp_div_less)
  then show "ring ! (1 + k div 4096) \<in> set ring" by simp
  have "distinct ring" using assms(1) by (simp add: wf_ring_def)
  then have "ring ! (1 + k div 4096) = ring ! 0 \<longleftrightarrow> 1 + k div 4096 = 0"
    using lt by (intro nth_eq_iff_index_eq) auto
  then show "ring ! (1 + k div 4096) \<noteq> ring ! 0" by simp
qed

lemma cell_inj:
  assumes wf: "wf_ring gm ring" and "k < ring_size ring" and "k' < ring_size ring" and "k \<noteq> k'"
  shows "cell gm ring k \<noteq> cell gm ring k'"
proof (cases "k div 4096 = k' div 4096")
  case True
  then show ?thesis using assms(4) unfolding cell_def by (metis add_left_cancel div_mult_mod_eq)
next
  case False
  have "distinct ring" using wf by (simp add: wf_ring_def)
  then have "ring ! (1 + k div 4096) \<noteq> ring ! (1 + k' div 4096)"
    using False data_page(1) [OF wf assms(2)] data_page(1) [OF wf assms(3)]
    by (simp add: nth_eq_iff_index_eq)
  from pages_disjoint [OF wf data_page(2) [OF wf assms(2)] data_page(2) [OF wf assms(3)] this]
  show ?thesis using mod_less_divisor [of 4096 k] mod_less_divisor [of 4096 k'] by (auto simp: cell_def)
qed

lemma cell_bound:
  assumes "wf_ring gm ring" and "k < ring_size ring"
  shows "cell gm ring k < length (gm_ram gm)"
  using page_sub(2) [OF assms(1) data_page(2) [OF assms], of 0 0] mod_less_divisor [of 4096 k]
  by (simp add: cell_def)

lemma cells_bound:
  "wf_ring gm ring \<Longrightarrow> c \<in> set (cells gm ring off n) \<Longrightarrow> c < length (gm_ram gm)"
  using ring_size_pos [of gm ring] by (auto simp: cells_def intro!: cell_bound)

lemma distinct_cells:
  assumes "wf_ring gm ring" and "n \<le> ring_size ring"
  shows "distinct (cells gm ring off n)"
proof -
  have "cell gm ring ((off + i) mod ring_size ring) \<noteq> cell gm ring ((off + j) mod ring_size ring)"
    if "i < j" "j < n" for i j
    using that assms mod_window_distinct [of i j "ring_size ring" off] ring_size_pos [OF assms(1)]
    by (intro cell_inj [OF assms(1)]) auto
  then show ?thesis
    by (auto simp: distinct_conv_nth cells_def) (metis linorder_neqE_nat)
qed

lemma cells_in_page:
  assumes "off < ring_size ring" and "off mod 4096 + n \<le> 4096"
  shows "cells gm ring off n = [cell gm ring off..<cell gm ring off + n]"
proof (rule nth_equalityI)
  fix i assume "i < length (cells gm ring off n)"
  then have i: "i < n" by simp
  then have m: "off mod 4096 + i < 4096" using assms(2) by simp
  note d = same_block(1) [OF m] and r = same_block(2) [OF m]
  have "off div 4096 < length ring - 1"
    using assms(1) by (simp add: ring_size_def less_mult_imp_div_less)
  then have "off + i < ring_size ring"
    unfolding ring_size_def d [symmetric] by (simp add: div_less_iff_less_mult)
  with i show "cells gm ring off n ! i = [cell gm ring off..<cell gm ring off + n] ! i"
    by (simp add: cells_def cell_def d r)
qed simp

section \<open>The walk reads and writes the cells\<close>

lemma page_read:
  assumes "wf_ring gm ring" and "off < ring_size ring" and "off mod 4096 + n \<le> 4096"
  shows "read_into gm (ring ! (1 + off div 4096) + of_nat (off mod 4096)) n = Some (map ((!) (gm_ram gm)) (cells gm ring off n))"
proof -
  note p = data_page(2) [OF assms(1,2)]
  have "page_host gm (ring ! (1 + off div 4096)) + off mod 4096 + n \<le> length (gm_ram gm)"
    using page_sub(2) [OF assms(1) p, of 0 0] assms(3) by simp
  then have "byte_range (gm_ram gm) (cell gm ring off) n = map ((!) (gm_ram gm)) [cell gm ring off..<cell gm ring off + n]"
    by (intro byte_range_nth) (simp add: cell_def)
  then show ?thesis
    using page_sub(1) [OF assms(1) p _ assms(3)]
    by (simp add: read_into_def cells_in_page [OF assms(2,3)] cell_def)
qed

lemma page_write:
  assumes "wf_ring gm ring" and "off < ring_size ring" and "off mod 4096 + length bs \<le> 4096"
  shows "write_bytes gm (ring ! (1 + off div 4096) + of_nat (off mod 4096)) bs =
    (gm\<lparr>gm_ram := put (cells gm ring off (length bs)) bs (gm_ram gm)\<rparr>, True)"
proof -
  note p = data_page(2) [OF assms(1,2)]
  have "cell gm ring off + length bs \<le> length (gm_ram gm)"
    using page_sub(2) [OF assms(1) p, of 0 0] assms(3) by (simp add: cell_def)
  then show ?thesis
    using page_sub(1) [OF assms(1) p _ assms(3)]
    by (simp add: write_bytes_def cells_in_page [OF assms(2,3)] overwrite_put cell_def)
qed

text \<open>The chunk a step of the walk copies stays in its page, and the walk ends in bounds.\<close>

lemma walk_step_bounds:
  assumes "wf_ring gm ring" and "at < len" and n: "n = min (4096 - off mod 4096) (len - at)"
  shows "off mod 4096 + n \<le> 4096" and "at + n \<le> len" and "0 < n" and "(off + n) mod ring_size ring < ring_size ring"
  using assms ring_size_pos [OF assms(1)] by auto

lemma walk_copy_out:
  assumes "wf_ring gm ring" and "off < ring_size ring" and "at \<le> len" and "length buf = len"
  shows "walk ring (copy_out gm) off len at buf =
    Some (take at buf @ map ((!) (gm_ram gm)) (cells gm ring off (len - at)), True)"
  using assms
proof (induction "len - at" arbitrary: off at buf rule: less_induct)
  case less
  show ?case
  proof (cases "at < len")
    case False
    with less.prems show ?thesis by (simp add: walk.simps cells_def)
  next
    case True
    define n where "n = min (4096 - off mod 4096) (len - at)"
    note b = walk_step_bounds [OF less.prems(1) True n_def]
    let ?bs = "map ((!) (gm_ram gm)) (cells gm ring off n)"
    let ?off = "(off + n) mod ring_size ring"
    have "copy_out gm (ring ! (1 + off div 4096) + of_nat (off mod 4096)) at n buf = (overwrite buf at ?bs, True)"
      using page_read [OF less.prems(1,2) b(1)] by (simp add: copy_out_def)
    then have "walk ring (copy_out gm) off len at buf = walk ring (copy_out gm) ?off len (at + n) (overwrite buf at ?bs)"
      using True data_page(1) [OF less.prems(1,2)] by (subst walk.simps) (simp add: n_def [symmetric] Let_def not_le)
    also have "\<dots> = Some (take (at + n) (overwrite buf at ?bs) @ map ((!) (gm_ram gm)) (cells gm ring ?off (len - (at + n))), True)"
      using b True less.prems by (intro less.hyps) (simp_all add: length_overwrite)
    also have "take (at + n) (overwrite buf at ?bs) = take at buf @ ?bs"
      using b less.prems by (simp add: overwrite_def)
    also have "(take at buf @ ?bs) @ map ((!) (gm_ram gm)) (cells gm ring ?off (len - (at + n))) =
        take at buf @ map ((!) (gm_ram gm)) (cells gm ring off (len - at))"
      using b cells_add [of gm ring off n "len - (at + n)"] by simp
    finally show ?thesis .
  qed
qed

lemma walk_copy_in:
  assumes "wf_ring gm ring" and "off < ring_size ring" and "at \<le> length pk"
  shows "walk ring (copy_in pk) off (length pk) at gm =
    Some (gm\<lparr>gm_ram := put (cells gm ring off (length pk - at)) (drop at pk) (gm_ram gm)\<rparr>, True)"
  using assms
proof (induction "length pk - at" arbitrary: off at gm rule: less_induct)
  case less
  show ?case
  proof (cases "at < length pk")
    case False
    with less.prems show ?thesis by (simp add: walk.simps cells_def)
  next
    case True
    define n where "n = min (4096 - off mod 4096) (length pk - at)"
    note b = walk_step_bounds [OF less.prems(1) True n_def]
    let ?bs = "byte_range pk at n"
    let ?gm = "gm\<lparr>gm_ram := put (cells gm ring off n) ?bs (gm_ram gm)\<rparr>"
    let ?off = "(off + n) mod ring_size ring"
    have len: "length ?bs = n" using b by simp
    have "copy_in pk (ring ! (1 + off div 4096) + of_nat (off mod 4096)) at n gm = (?gm, True)"
      using page_write [OF less.prems(1,2), of ?bs] b len by (simp only: copy_in_def)
    then have "walk ring (copy_in pk) off (length pk) at gm = walk ring (copy_in pk) ?off (length pk) (at + n) ?gm"
      using True data_page(1) [OF less.prems(1,2)] by (subst walk.simps) (simp add: n_def [symmetric] Let_def not_le)
    also have "\<dots> = Some (?gm\<lparr>gm_ram := put (cells ?gm ring ?off (length pk - (at + n))) (drop (at + n) pk) (gm_ram ?gm)\<rparr>, True)"
      using b True less.prems by (intro less.hyps wf_ring_ram) simp_all
    also have "put (cells ?gm ring ?off (length pk - (at + n))) (drop (at + n) pk) (gm_ram ?gm) =
        put (cells gm ring off (length pk - at)) (drop at pk) (gm_ram gm)"
    proof -
      have "drop at pk = ?bs @ drop (at + n) pk" 
        by (metis byte_range_def append_take_drop_id drop_drop add.commute)
      moreover have "cells gm ring off (length pk - at) = cells gm ring off n @ cells gm ring ?off (length pk - (at + n))"
        using b cells_add [of gm ring off n "length pk - (at + n)"] by simp
      ultimately show ?thesis using len by (simp add: put_append)
    qed
    finally show ?thesis by simp
  qed
qed

section \<open>The control page\<close>

definition ctl_cells :: "guest_memory \<Rightarrow> vm_ring \<Rightarrow> nat \<Rightarrow> nat list" where
  "ctl_cells gm ring f = [page_host gm (ring ! 0) + f..<page_host gm (ring ! 0) + f + 4]"

definition ctl_word :: "guest_memory \<Rightarrow> vm_ring \<Rightarrow> nat \<Rightarrow> u32" where
  "ctl_word gm ring f = le_decode (map ((!) (gm_ram gm)) (ctl_cells gm ring f))"

lemma ctl_cells_ram [simp]: "ctl_cells (gm\<lparr>gm_ram := x\<rparr>) = ctl_cells gm"
  by (rule ext)+ (simp add: ctl_cells_def)

lemma length_ctl_cells [simp]: "length (ctl_cells gm ring f) = 4"
  by (simp add: ctl_cells_def)

lemma ctl_access:
  assumes wf: "wf_ring gm ring" and f: "f mod 4 = 0" "f + 4 \<le> 4096"
  shows "load_acquire_u32 gm (control ring (of_nat f)) = Some (ctl_word gm ring f)"
    and "store_release_u32 gm (control ring (of_nat f)) v =
      (gm\<lparr>gm_ram := put (ctl_cells gm ring f) (le32 v) (gm_ram gm)\<rparr>, True)"
proof -
  have p: "ring ! 0 \<in> set ring" using wf by (intro nth_mem) (auto simp: wf_ring_def)
  let ?h = "page_host gm (ring ! 0) + f"
  have hr: "host_range gm (ring ! 0 + of_nat f) 4 = Some ?h"
    using page_sub(1) [OF wf p, of f 4] f by simp
  have le: "?h + 4 \<le> length (gm_ram gm)" using page_sub(2) [OF wf p, of 0 0] f by simp
  have m: "unat (ring ! 0) mod 4096 = 0" using wf p by (simp add: wf_ring_def)
  have "(4::nat) dvd 4096" by simp
  with m have "4 dvd unat (ring ! 0)" by (metis dvd_trans mod_eq_0_iff_dvd)
  with f have "(unat (ring ! 0) + f) mod 4 = 0" by (simp add: mod_eq_0_iff_dvd)
  then have "unat ((ring ! 0 + of_nat f) mod 4) = 0"
    using page_end [OF m, of f] f by (simp add: unat_mod_distrib)
  then have al: "(ring ! 0 + of_nat f) mod 4 = 0" by (simp add: unsigned_eq_0_iff)
  then show "load_acquire_u32 gm (control ring (of_nat f)) = Some (ctl_word gm ring f)"
    using hr le
    by (simp add: load_acquire_u32_def control_def ctl_word_def ctl_cells_def byte_range_nth)
  show "store_release_u32 gm (control ring (of_nat f)) v =
      (gm\<lparr>gm_ram := put (ctl_cells gm ring f) (le32 v) (gm_ram gm)\<rparr>, True)"
    using al hr le by (simp add: store_release_u32_def control_def ctl_cells_def overwrite_put)
qed

lemma cells_control_disjoint:
  assumes "wf_ring gm ring" and "f + 4 \<le> 4096"
  shows "set (cells gm ring off n) \<inter> set (ctl_cells gm ring f) = {}"
proof -
  have p: "ring ! 0 \<in> set ring" using assms by (intro nth_mem) (auto simp: wf_ring_def)
  have "cell gm ring k \<notin> set (ctl_cells gm ring f)" if k: "k < ring_size ring" for k
    using pages_disjoint [OF assms(1) data_page(2) [OF assms(1) k] p data_page(3) [OF assms(1) k]]
      mod_less_divisor [of 4096 k] assms(2)
    by (auto simp: cell_def ctl_cells_def)
  then show ?thesis using ring_size_pos [OF assms(1)] by (fastforce simp: cells_def)
qed

lemma cells_disjoint:
  assumes "wf_ring gm ring" and "m + n \<le> ring_size ring"
  shows "set (cells gm ring off m) \<inter> set (cells gm ring ((off + m) mod ring_size ring) n) = {}"
  using distinct_cells [OF assms, of off] by (simp add: cells_add)

lemma ctl_word_put:
  assumes "wf_ring gm ring" and "set cs \<inter> set (ctl_cells gm ring f) = {}"
  shows "ctl_word (gm\<lparr>gm_ram := put cs bs (gm_ram gm)\<rparr>) ring f = ctl_word gm ring f"
proof -
  have "map ((!) (put cs bs (gm_ram gm))) (ctl_cells gm ring f) = map ((!) (gm_ram gm)) (ctl_cells gm ring f)"
    using assms(2) by (intro map_put_other) auto
  then have "le_decode (map ((!) (put cs bs (gm_ram gm))) (ctl_cells gm ring f)) =
      (le_decode (map ((!) (gm_ram gm)) (ctl_cells gm ring f)) :: u32)" by (rule arg_cong)
  then show ?thesis by (simp add: ctl_word_def)
qed

lemma ctl_word_put_same:
  assumes "wf_ring gm ring" and "f + 4 \<le> 4096"
  shows "ctl_word (gm\<lparr>gm_ram := put (ctl_cells gm ring f) (le32 v) (gm_ram gm)\<rparr>) ring f = v"
proof -
  have p: "ring ! 0 \<in> set ring" using assms by (intro nth_mem) (auto simp: wf_ring_def)
  have "map ((!) (put (ctl_cells gm ring f) (le32 v) (gm_ram gm))) (ctl_cells gm ring f) = le32 v"
    using page_sub(2) [OF assms(1) p, of 0 0] assms(2) by (intro map_put_same) (auto simp: ctl_cells_def)
  then show ?thesis by (simp add: ctl_word_def)
qed

lemma indices_words:
  assumes "wf_ring gm ring"
  shows "indices gm ring =
    (let w = unat (ctl_word gm ring 0); r = unat (ctl_word gm ring 4)
     in if ring_size ring \<le> w \<or> ring_size ring \<le> r \<or> w mod 8 \<noteq> 0 \<or> r mod 8 \<noteq> 0 then Inl Corrupt else Inr (w, r))"
  using ctl_access(1) [OF assms, of 0] ctl_access(1) [OF assms, of 4] by (simp add: indices_def Let_def)

section \<open>The ring as a queue of payloads\<close>

definition slot_len :: "bytes \<Rightarrow> nat" where
  "slot_len p = packet_len p + TRAILER_LEN"

abbreviation used_bytes :: "bytes list \<Rightarrow> nat" where
  "used_bytes ps \<equiv> sum_list (map slot_len ps)"

primrec laid_out :: "guest_memory \<Rightarrow> vm_ring \<Rightarrow> nat \<Rightarrow> bytes list \<Rightarrow> bool" where
  "laid_out gm ring r [] \<longleftrightarrow> True"
| "laid_out gm ring r (p # ps) \<longleftrightarrow>
     map ((!) (gm_ram gm)) (cells gm ring r (packet_len p)) = packet_body p \<and> packet_len p div 8 \<le> 65535 \<and>
     laid_out gm ring ((r + slot_len p) mod ring_size ring) ps"

definition ring_holds :: "guest_memory \<Rightarrow> vm_ring \<Rightarrow> bytes list \<Rightarrow> bool" where
  "ring_holds gm ring ps \<longleftrightarrow> wf_ring gm ring \<and> used_bytes ps < ring_size ring \<and>
     (\<exists>w r. indices gm ring = Inr (w, r) \<and> w = (r + used_bytes ps) mod ring_size ring \<and> laid_out gm ring r ps)"

definition padded :: "bytes \<Rightarrow> bytes" where
  "padded p = p @ replicate (next_multiple_of_8 (length p) - length p) 0"

lemma next_multiple_ge: "n \<le> next_multiple_of_8 n" and next_multiple_dvd: "8 dvd next_multiple_of_8 n"
  by (simp_all add: next_multiple_of_8_def)

lemma length_packet_body [simp]: "length (packet_body p) = packet_len p"
  using next_multiple_ge [of "length p"] by (simp add: packet_body_def packet_len_def)

lemma length_packet [simp]: "length (packet w p) = slot_len p"
  by (simp add: packet_def slot_len_def)

lemma slot_len_dvd: "8 dvd slot_len p" "8 dvd used_bytes ps"
proof -
  show s: "8 dvd slot_len p" for p by (simp add: slot_len_def packet_len_def next_multiple_dvd)
  show "8 dvd used_bytes ps" by (induction ps) (simp_all add: s)
qed

lemma laid_out_put:
  assumes "wf_ring gm ring" and "set (cells gm ring r (used_bytes ps)) \<inter> set cs = {}"
  shows "laid_out (gm\<lparr>gm_ram := put cs bs (gm_ram gm)\<rparr>) ring r ps = laid_out gm ring r ps"
  using assms(2)
proof (induction ps arbitrary: r)
  case (Cons p ps)
  have c: "cells gm ring r (used_bytes (p # ps)) = cells gm ring r (packet_len p) @
      cells gm ring ((r + packet_len p) mod ring_size ring) TRAILER_LEN @
      cells gm ring ((r + slot_len p) mod ring_size ring) (used_bytes ps)"
    by (simp add: slot_len_def cells_add add.assoc mod_add_left_eq)
  then have "set (cells gm ring r (packet_len p)) \<inter> set cs = {}"
    "set (cells gm ring ((r + slot_len p) mod ring_size ring) (used_bytes ps)) \<inter> set cs = {}"
    using Cons.prems unfolding c by auto
  with Cons.IH show ?case by (simp add: map_put_other)
qed simp

lemma laid_out_mod [simp]: "laid_out gm ring (r mod ring_size ring) ps = laid_out gm ring r ps"
  by (cases ps) (simp_all add: cells_def mod_add_left_eq)

lemma laid_out_append:
  "laid_out gm ring r (ps @ qs) \<longleftrightarrow> laid_out gm ring r ps \<and> laid_out gm ring (r + used_bytes ps) qs"
  by (induction ps arbitrary: r) (auto simp: add.assoc)

text \<open>The free space the writer computes is what the held packets leave.\<close>

lemma distance_mod:
  fixes r u n :: nat
  assumes "r < n" and "u < n"
  shows "((r + u) mod n + n - r) mod n = u"
proof (cases "r + u < n")
  case True
  then show ?thesis using assms by (simp add: add.commute)
next
  case False
  then have "(r + u) mod n = r + u - n" using assms by (simp add: le_mod_geq)
  with False assms show ?thesis by simp
qed

lemma ring_holds_indices:
  assumes "ring_holds gm ring ps"
  obtains r where "indices gm ring = Inr ((r + used_bytes ps) mod ring_size ring, r)" and "r < ring_size ring"
    and "r mod 8 = 0" and "laid_out gm ring r ps" and "ctl_word gm ring 4 = of_nat r" and "wf_ring gm ring"
    and "((r + used_bytes ps) mod ring_size ring + ring_size ring - r) mod ring_size ring = used_bytes ps"
    and "used_bytes ps < ring_size ring"
proof -
  from assms obtain r where wf: "wf_ring gm ring" and i: "indices gm ring = Inr ((r + used_bytes ps) mod ring_size ring, r)"
    and l: "laid_out gm ring r ps" and u: "used_bytes ps < ring_size ring"
    by (auto simp: ring_holds_def)
  have r: "r < ring_size ring" "r mod 8 = 0" "ctl_word gm ring 4 = of_nat r"
    using i by (auto simp: indices_words [OF wf] Let_def split: if_splits)
  show ?thesis by (rule that [OF i r(1,2) l r(3) wf distance_mod [OF r(1) u] u])
qed

definition fits :: "vm_ring \<Rightarrow> bytes list \<Rightarrow> bytes \<Rightarrow> bool" where
  "fits ring ps p \<longleftrightarrow> packet_len p div 8 \<le> 65535 \<and> used_bytes ps + slot_len p < ring_size ring"

lemma ring_size_u32: "wf_ring gm ring \<Longrightarrow> k < ring_size ring \<Longrightarrow> unat (of_nat k :: u32) = k"
  by (intro unat_of_nat_u32) (auto simp: wf_ring_def ring_size_def)

lemma indices_InrI:
  assumes "wf_ring gm ring" and "ctl_word gm ring 0 = of_nat a" and "ctl_word gm ring 4 = of_nat b"
    and "a < ring_size ring" and "b < ring_size ring" and "8 dvd a" and "8 dvd b"
  shows "indices gm ring = Inr (a, b)"
  using assms ring_size_u32 [OF assms(1)] by (simp add: indices_words Let_def not_le)

lemma ctl_words_disjoint:
  "f + 4 \<le> g \<or> g + 4 \<le> f \<Longrightarrow> set (ctl_cells gm ring f) \<inter> set (ctl_cells gm ring g) = {}"
  by (auto simp: ctl_cells_def)

lemma aligned_mod:
  assumes "wf_ring gm ring" and "8 dvd a"
  shows "a mod ring_size ring mod 8 = 0"
proof -
  have "8 dvd ring_size ring" by (simp add: ring_size_def)
  with assms(2) show ?thesis by (simp add: dvd_mod mod_eq_0_iff_dvd)
qed

text \<open>Storing one index: the other words and the data stay.\<close>

definition set_ctl :: "vm_ring \<Rightarrow> nat \<Rightarrow> u32 \<Rightarrow> guest_memory \<Rightarrow> guest_memory" where
  "set_ctl ring f v gm = gm\<lparr>gm_ram := put (ctl_cells gm ring f) (le32 v) (gm_ram gm)\<rparr>"

lemma set_ctl_facts:
  assumes "wf_ring gm ring" and "f + 4 \<le> 4096"
  shows "wf_ring (set_ctl ring f v gm) ring" and "ctl_word (set_ctl ring f v gm) ring f = v"
    and "g + 4 \<le> f \<or> f + 4 \<le> g \<Longrightarrow> ctl_word (set_ctl ring f v gm) ring g = ctl_word gm ring g"
    and "laid_out (set_ctl ring f v gm) ring r ps = laid_out gm ring r ps"
  using assms
  by (auto simp: set_ctl_def ctl_word_put_same laid_out_put cells_control_disjoint
      intro!: wf_ring_ram ctl_word_put ctl_words_disjoint)

lemma ring_write_runs:
  assumes "ring_holds gm ring ps" and "fits ring ps p"
    and "indices gm ring = Inr (w, r)"
  shows "ring_write gm ring p =
    Some (set_ctl ring 0 (of_nat ((w + slot_len p) mod ring_size ring))
            (gm\<lparr>gm_ram := put (cells gm ring w (slot_len p)) (packet w p) (gm_ram gm)\<rparr>),
          Inr (ctl_word gm ring 8 = 0 \<and> r = w))"
proof -
  from ring_holds_indices [OF assms(1)] assms(3) have wf: "wf_ring gm ring" and rr: "ctl_word gm ring 4 = of_nat r" "r < ring_size ring"
    and w: "w = (r + used_bytes ps) mod ring_size ring" "(w + ring_size ring - r) mod ring_size ring = used_bytes ps"
      "used_bytes ps < ring_size ring"
    by (metis Inr_inject prod.inject)+
  have wlt: "w < ring_size ring" using w(1) ring_size_pos [OF wf] by simp
  let ?gm1 = "gm\<lparr>gm_ram := put (cells gm ring w (slot_len p)) (packet w p) (gm_ram gm)\<rparr>"
  let ?gm2 = "set_ctl ring 0 (of_nat ((w + slot_len p) mod ring_size ring)) ?gm1"
  have wf1: "wf_ring ?gm1 ring" using wf by (intro wf_ring_ram) simp_all
  have c1: "ctl_word ?gm1 ring f = ctl_word gm ring f" if "f + 4 \<le> 4096" for f
    using cells_control_disjoint [OF wf that] by (intro ctl_word_put [OF wf])
  have wf2: "wf_ring ?gm2 ring" by (rule set_ctl_facts(1) [OF wf1]) simp
  have words: "ctl_word ?gm2 ring 8 = ctl_word gm ring 8" "ctl_word ?gm2 ring 4 = of_nat r"
    using set_ctl_facts(3) [OF wf1, of 0] c1 rr by simp_all
  have walkw: "walk ring (copy_in (packet w p)) w (slot_len p) 0 gm = Some (?gm1, True)"
    using walk_copy_in [OF wf wlt, of 0 "packet w p"] by simp
  have st: "store_release_u32 ?gm1 (control ring WRITE_INDEX) v = (set_ctl ring 0 v ?gm1, True)" for v
    using ctl_access(2) [OF wf1, of 0] by (simp add: set_ctl_def)
  have ld: "load_acquire_u32 ?gm2 (control ring INTERRUPT_MASK) = Some (ctl_word gm ring 8)"
    "load_acquire_u32 ?gm2 (control ring READ_INDEX) = Some (of_nat r)"
    using ctl_access(1) [OF wf2, of 8] ctl_access(1) [OF wf2, of 4] words by simp_all
  have room: "\<not> (65535 < packet_len p div 8 \<or> ring_size ring - (w + ring_size ring - r) mod ring_size ring \<le> packet_len p + TRAILER_LEN)"
    using assms(2) w(2) by (auto simp: fits_def slot_len_def)
  show ?thesis
    using room walkw st ld ring_size_u32 [OF wf rr(2)]
    by (simp add: ring_write_def assms(3) Let_def slot_len_def [symmetric] not_le)
qed

lemma ring_holds_after_write:
  assumes h: "ring_holds gm ring ps" and f: "fits ring ps p" and i: "indices gm ring = Inr (w, r)"
  shows "ring_holds (set_ctl ring 0 (of_nat ((w + slot_len p) mod ring_size ring))
            (gm\<lparr>gm_ram := put (cells gm ring w (slot_len p)) (packet w p) (gm_ram gm)\<rparr>)) ring (ps @ [p])"
proof -
  from ring_holds_indices [OF h] i have wf: "wf_ring gm ring" and rr: "ctl_word gm ring 4 = of_nat r" "r < ring_size ring" "r mod 8 = 0"
    and w: "w = (r + used_bytes ps) mod ring_size ring" and l: "laid_out gm ring r ps"
    by (metis Inr_inject prod.inject)+
  let ?gm1 = "gm\<lparr>gm_ram := put (cells gm ring w (slot_len p)) (packet w p) (gm_ram gm)\<rparr>"
  let ?next = "(r + used_bytes (ps @ [p])) mod ring_size ring"
  have next_eq: "(w + slot_len p) mod ring_size ring = ?next"
    by (simp add: w mod_add_left_eq add.assoc)
  have wf1: "wf_ring ?gm1 ring" using wf by (intro wf_ring_ram) simp_all
  have c1: "ctl_word ?gm1 ring 4 = of_nat r"
    using cells_control_disjoint [OF wf, of 4] rr by (subst ctl_word_put [OF wf]) simp_all
  have room: "used_bytes ps + slot_len p \<le> ring_size ring" using f by (simp add: fits_def)
  have old: "laid_out ?gm1 ring r ps"
    using laid_out_put [OF wf] cells_disjoint [OF wf room, of r] l by (simp add: w)
  have "map ((!) (gm_ram ?gm1)) (cells gm ring w (slot_len p)) = packet w p"
    using cells_bound [OF wf] distinct_cells [OF wf] room by (simp del: map_eq_conv) (intro map_put_same, auto)
  then have "map ((!) (gm_ram ?gm1)) (cells gm ring w (packet_len p)) = packet_body p"
    by (simp add: slot_len_def cells_add packet_def append_eq_append_conv del: map_eq_conv)
  then have new: "laid_out ?gm1 ring (r + used_bytes ps) [p]"
    using f laid_out_mod [of ?gm1 ring "r + used_bytes ps" "[p]"]
    by (simp add: w fits_def del: map_eq_conv laid_out_mod)
  let ?gm2 = "set_ctl ring 0 (of_nat ?next) ?gm1"
  note s = set_ctl_facts [OF wf1, of 0]
  have al: "8 dvd r" "8 dvd ?next"
    using rr(3) slot_len_dvd(2) [of "ps @ [p]"] aligned_mod [OF wf, of "r + used_bytes (ps @ [p])"]
    by (simp_all add: mod_eq_0_iff_dvd)
  have "indices ?gm2 ring = Inr (?next, r)"
    using c1 s(3) rr(2) ring_size_pos [OF wf] al by (intro indices_InrI s(1,2)) simp_all
  moreover have "laid_out ?gm2 ring r (ps @ [p])" 
    using s(4) [of "of_nat ?next" r "ps @ [p]"] old new laid_out_append [of ?gm1 ring r ps "[p]"] by fastforce
  moreover have "used_bytes (ps @ [p]) < ring_size ring" using f by (simp add: fits_def)
  moreover have "wf_ring ?gm2 ring" by (rule s(1)) simp
  ultimately show ?thesis unfolding next_eq ring_holds_def by blast
qed

text \<open>Three pages of zeroed RAM, with a ring whose two data pages are not in order.\<close>

definition demo_gm :: guest_memory where
  "demo_gm = \<lparr>gm_part = 0, gm_gpa = 0, gm_size = 0x3000, gm_large_pages = False, gm_split = None,
     gm_released = False, gm_ram = replicate 0x3000 0\<rparr>"

definition demo_ring :: vm_ring where
  "demo_ring = [0x1000, 0x2000, 0]"

lemma demo_ring_empty: "ring_holds demo_gm demo_ring []"
proof -
  have wf: "wf_ring demo_gm demo_ring"
    by (simp add: wf_ring_def wf_mem_def split_apart_def demo_gm_def demo_ring_def host_range_def region_off_def)
  have h: "page_host demo_gm (demo_ring ! 0) = 4096"
    by (simp add: page_host_def host_range_def region_off_def demo_gm_def demo_ring_def)
  have "ctl_word demo_gm demo_ring f = 0" if "f \<le> 8" for f
  proof -
    have "map ((!) (gm_ram demo_gm)) (ctl_cells demo_gm demo_ring f) = [0, 0, 0, 0]"
      unfolding ctl_cells_def h using that by (simp add: demo_gm_def upt_rec)
    then show ?thesis by (simp add: ctl_word_def del: map_eq_conv)
  qed
  then have "indices demo_gm demo_ring = Inr (0, 0)"
    using ring_size_pos [OF wf] by (intro indices_InrI [OF wf]) simp_all
  with wf show ?thesis using ring_size_pos [OF wf] by (simp add: ring_holds_def)
qed

section \<open>Properties\<close>

text \<open>
  C17. Writing appends to the queue the ring holds. A write never corrupts and never panics on a ring
  in order: it succeeds exactly when the packet fits (its length field holds it, and the ring would
  not become full), then the ring holds the payload after the others, and the guest is to be
  signalled exactly when its interrupt mask is clear and it had read everything; when the packet
  does not fit, memory is untouched.
\<close>

theorem ring_write_enqueues:
  assumes "ring_holds gm ring ps"
  shows "if fits ring ps p
    then (case ring_write gm ring p of
            Some (gm', Inr sig) \<Rightarrow> ring_holds gm' ring (ps @ [p]) \<and> (sig \<longleftrightarrow> ctl_word gm ring 8 = 0 \<and> ps = [])
          | _ \<Rightarrow> False)
    else ring_write gm ring p = Some (gm, Inl Full)"
proof -
  from ring_holds_indices [OF assms] obtain r where i: "indices gm ring = Inr ((r + used_bytes ps) mod ring_size ring, r)"
    and d: "((r + used_bytes ps) mod ring_size ring + ring_size ring - r) mod ring_size ring = used_bytes ps"
    and r: "r < ring_size ring" and u: "used_bytes ps < ring_size ring" by metis
  have empty: "r = (r + used_bytes ps) mod ring_size ring \<longleftrightarrow> ps = []"
  proof
    assume "r = (r + used_bytes ps) mod ring_size ring"
    with d have "used_bytes ps = 0" using r by (metis add_diff_cancel_left' mod_self)
    then show "ps = []" by (cases ps) (auto simp: slot_len_def)
  qed (simp add: r)
  show ?thesis
  proof (cases "fits ring ps p")
    case True
    with ring_write_runs [OF assms True i] ring_holds_after_write [OF assms True i] empty
    show ?thesis by simp
  next
    case False
    with d u show ?thesis
      by (auto simp: ring_write_def i Let_def fits_def slot_len_def)
  qed
qed

theorem ring_write_enqueues_witness:
  "\<exists>gm'. ring_write demo_gm demo_ring [1, 2, 3] = Some (gm', Inr True) \<and> ring_holds gm' demo_ring [[1, 2, 3]]"
proof -
  have "fits demo_ring [] [1, 2, 3]"
    by (simp add: fits_def slot_len_def packet_len_def next_multiple_of_8_def ring_size_def demo_ring_def)
  moreover have "ctl_word demo_gm demo_ring 8 = 0"
    by (simp add: ctl_word_def ctl_cells_def page_host_def host_range_def region_off_def demo_gm_def demo_ring_def upt_rec)
  ultimately show ?thesis
    using ring_write_enqueues [OF demo_ring_empty, of "[1, 2, 3]"]
    by (auto split: option.splits sum.splits prod.splits)
qed

lemma take_laid_out:
  assumes "map f (cells gm ring r (packet_len p)) = packet_body p"
  shows "map f (cells gm ring r DESCRIPTOR_LEN) = take DESCRIPTOR_LEN (packet_body p)"
    and "map f (cells gm ring ((r + DESCRIPTOR_LEN) mod ring_size ring) (next_multiple_of_8 (length p))) = padded p"
proof -
  have "map f (cells gm ring r DESCRIPTOR_LEN) @
      map f (cells gm ring ((r + DESCRIPTOR_LEN) mod ring_size ring) (next_multiple_of_8 (length p))) = packet_body p"
    using assms by (simp only: packet_len_def cells_add map_append)
  also have "\<dots> = take DESCRIPTOR_LEN (packet_body p) @ drop DESCRIPTOR_LEN (packet_body p)" by simp
  finally have eq: "map f (cells gm ring r DESCRIPTOR_LEN) = take DESCRIPTOR_LEN (packet_body p) \<and>
      map f (cells gm ring ((r + DESCRIPTOR_LEN) mod ring_size ring) (next_multiple_of_8 (length p))) = drop DESCRIPTOR_LEN (packet_body p)"
    by (subst (asm) append_eq_append_conv) (simp_all add: packet_len_def)
  then show "map f (cells gm ring r DESCRIPTOR_LEN) = take DESCRIPTOR_LEN (packet_body p)" by simp
  from eq show "map f (cells gm ring ((r + DESCRIPTOR_LEN) mod ring_size ring) (next_multiple_of_8 (length p))) = padded p"
    by (simp add: packet_body_def padded_def)
qed

lemma descriptor_fields:
  assumes "packet_len p div 8 \<le> 65535"
  shows "from_le16 (byte_range (take DESCRIPTOR_LEN (packet_body p)) 0 2) = PACKET_INBAND"
    and "unat (from_le16 (byte_range (take DESCRIPTOR_LEN (packet_body p)) 2 2)) * 8 = DESCRIPTOR_LEN"
    and "unat (from_le16 (byte_range (take DESCRIPTOR_LEN (packet_body p)) 4 2)) * 8 = packet_len p"
proof -
  have t: "byte_range (take DESCRIPTOR_LEN (packet_body p)) k 2 = byte_range (packet_body p) k 2" if "k \<le> 4" for k
    using that by (simp add: byte_range_def drop_take min_def)
  have "8 dvd packet_len p" by (simp add: packet_len_def next_multiple_dvd)
  then have l: "unat (of_nat (packet_len p div 8) :: u16) * 8 = packet_len p" using assms by simp
  show "from_le16 (byte_range (take DESCRIPTOR_LEN (packet_body p)) 0 2) = PACKET_INBAND"
    "unat (from_le16 (byte_range (take DESCRIPTOR_LEN (packet_body p)) 2 2)) * 8 = DESCRIPTOR_LEN"
    "unat (from_le16 (byte_range (take DESCRIPTOR_LEN (packet_body p)) 4 2)) * 8 = packet_len p"
    using l by (simp_all add: t packet_body_def slice_simps)
qed

lemma ring_read_runs:
  assumes "ring_holds gm ring (p # ps)" and "next_multiple_of_8 (length p) \<le> mx"
    and i: "indices gm ring = Inr (w, r)"
  shows "ring_read gm ring buf mx =
    Some (set_ctl ring 4 (of_nat ((r + slot_len p) mod ring_size ring)) gm, padded p, Inr (Some PACKET_INBAND))"
proof -
  from ring_holds_indices [OF assms(1)] i have wf: "wf_ring gm ring" and r: "r < ring_size ring"
    and l: "laid_out gm ring r (p # ps)" and u: "used_bytes (p # ps) < ring_size ring"
    and w: "(w + ring_size ring - r) mod ring_size ring = used_bytes (p # ps)"
    by (metis Inr_inject prod.inject)+
  have pos: "0 < slot_len p" by (simp add: slot_len_def)
  have ne: "w \<noteq> r" using w pos by auto
  have fit: "packet_len p div 8 \<le> 65535" using l by simp
  note t = take_laid_out [of "(!) (gm_ram gm)" gm ring r p] and d = descriptor_fields [OF fit]
  have w1: "walk ring (copy_out gm) r DESCRIPTOR_LEN 0 (replicate DESCRIPTOR_LEN 0) = Some (take DESCRIPTOR_LEN (packet_body p), True)"
    using walk_copy_out [OF wf r, of 0 DESCRIPTOR_LEN "replicate DESCRIPTOR_LEN 0"] t(1) l by simp
  let ?n = "next_multiple_of_8 (length p)"
  have n: "packet_len p - DESCRIPTOR_LEN = ?n" by (simp add: packet_len_def)
  have w2: "walk ring (copy_out gm) ((r + DESCRIPTOR_LEN) mod ring_size ring) ?n 0 (resize buf ?n) = Some (padded p, True)"
    using walk_copy_out [OF wf _, of "(r + DESCRIPTOR_LEN) mod ring_size ring" 0 ?n "resize buf ?n"]
      ring_size_pos [OF wf] t(2) l by (simp add: resize_def)
  have st: "store_release_u32 gm (control ring READ_INDEX) v = (set_ctl ring 4 v gm, True)" for v
    using ctl_access(2) [OF wf, of 4] by (simp add: set_ctl_def)
  have ok: "\<not> (DESCRIPTOR_LEN < DESCRIPTOR_LEN \<or> packet_len p < DESCRIPTOR_LEN \<or> used_bytes (p # ps) < packet_len p + TRAILER_LEN)"
    by (simp add: slot_len_def packet_len_def)
  show ?thesis
    unfolding ring_read_def i using ne w1 w2 st ok d assms(2)
    by (simp add: Let_def w n slot_len_def add.assoc)
qed

lemma ring_holds_after_read:
  assumes h: "ring_holds gm ring (p # ps)" and i: "indices gm ring = Inr (w, r)"
  shows "ring_holds (set_ctl ring 4 (of_nat ((r + slot_len p) mod ring_size ring)) gm) ring ps"
proof -
  from ring_holds_indices [OF h] i have wf: "wf_ring gm ring" and r: "r mod 8 = 0"
    and l: "laid_out gm ring r (p # ps)" and u: "used_bytes (p # ps) < ring_size ring"
    and w: "w = (r + used_bytes (p # ps)) mod ring_size ring"
    by (metis Inr_inject prod.inject)+
  let ?r = "(r + slot_len p) mod ring_size ring"
  let ?gm = "set_ctl ring 4 (of_nat ?r) gm"
  note s = set_ctl_facts [OF wf, of 4]
  have lt: "w < ring_size ring" "?r < ring_size ring" using ring_size_pos [OF wf] by (simp_all add: w)
  have cw: "ctl_word gm ring 0 = of_nat w" "w mod 8 = 0"
    using i by (auto simp: indices_words [OF wf] Let_def split: if_splits)
  have "8 dvd ?r" using r slot_len_dvd(1) [of p] aligned_mod [OF wf, of "r + slot_len p"] by (simp add: mod_eq_0_iff_dvd)
  then have ind: "indices ?gm ring = Inr (w, ?r)"
    using lt cw s(3) [of 0] by (intro indices_InrI s(1,2)) (simp_all add: mod_eq_0_iff_dvd)
  have "w = (?r + used_bytes ps) mod ring_size ring" by (simp add: w mod_add_left_eq add.assoc)
  moreover have "laid_out ?gm ring ?r ps" using l s(4) by simp
  moreover have "wf_ring ?gm ring" by (rule s(1)) simp
  ultimately show ?thesis using ind u unfolding ring_holds_def by auto
qed

text \<open>
  C19. Reading removes the head of the queue: on a ring that holds \<open>p # ps\<close> the reader gets \<open>p\<close>
  (padded to 8 bytes) as an in-band packet and the ring holds \<open>ps\<close>; on an empty ring it gets
  nothing; a payload larger than the caller's limit is refused and the ring keeps it.
\<close>

theorem ring_read_dequeues:
  assumes "ring_holds gm ring qs"
  shows "case qs of
      [] \<Rightarrow> ring_read gm ring buf mx = Some (gm, buf, Inr None)
    | p # ps \<Rightarrow>
        if next_multiple_of_8 (length p) \<le> mx
        then (case ring_read gm ring buf mx of
                Some (gm', buf', Inr (Some kind)) \<Rightarrow> buf' = padded p \<and> kind = PACKET_INBAND \<and> ring_holds gm' ring ps
              | _ \<Rightarrow> False)
        else ring_read gm ring buf mx = Some (gm, buf, Inl Corrupt)"
proof -
  from ring_holds_indices [OF assms] obtain r where i: "indices gm ring = Inr ((r + used_bytes qs) mod ring_size ring, r)"
    and r: "r < ring_size ring" and l: "laid_out gm ring r qs" and wf: "wf_ring gm ring"
    and d: "((r + used_bytes qs) mod ring_size ring + ring_size ring - r) mod ring_size ring = used_bytes qs" by metis
  show ?thesis
  proof (cases qs)
    case Nil
    with i r show ?thesis by (simp add: ring_read_def)
  next
    case (Cons p ps)
    have big: "ring_read gm ring buf mx = Some (gm, buf, Inl Corrupt)" if "\<not> next_multiple_of_8 (length p) \<le> mx"
    proof -
      have fit: "packet_len p div 8 \<le> 65535" using l Cons by simp
      have "walk ring (copy_out gm) r DESCRIPTOR_LEN 0 (replicate DESCRIPTOR_LEN 0) = Some (take DESCRIPTOR_LEN (packet_body p), True)"
        using walk_copy_out [OF wf r, of 0 DESCRIPTOR_LEN "replicate DESCRIPTOR_LEN 0"]
          take_laid_out(1) [of "(!) (gm_ram gm)" gm ring r p] l Cons by simp
      moreover have "(r + used_bytes qs) mod ring_size ring \<noteq> r"
        using d Cons by (auto simp: slot_len_def)
      ultimately show ?thesis
        using that d Cons unfolding ring_read_def i
        by (simp add: Let_def descriptor_fields [OF fit] packet_len_def)
    qed
    show ?thesis
      using assms big i ring_read_runs [of gm ring p ps mx] ring_holds_after_read [of gm ring p ps] Cons by simp
  qed
qed

theorem ring_read_dequeues_witness:
  "ring_read demo_gm demo_ring [9] 64 = Some (demo_gm, [9], Inr None)"
  using ring_read_dequeues [OF demo_ring_empty, of "[9]" 64] by simp

lemma walk_keeps:
  assumes "2 \<le> length ring" and "off < ring_size ring" and "I s"
    and "\<And>gpa at n s. at + n \<le> len \<Longrightarrow> I s \<Longrightarrow> I (fst (copy gpa at n s))"
  shows "\<exists>s' ok. walk ring copy off len at s = Some (s', ok) \<and> I s'"
  using assms
proof (induction ring copy off len at s rule: walk.induct)
  case (1 ring copy off len at s)
  let ?n = "min (4096 - off mod 4096) (len - at)"
  show ?case
  proof (cases "at < len")
    case False
    with 1 show ?thesis by (subst walk.simps) auto
  next
    case True
    obtain s' ok where c: "copy (ring ! (1 + off div 4096) + of_nat (off mod 4096)) at ?n s = (s', ok)" by fastforce
    have "at + ?n \<le> len" using True by simp
    from 1(5) [OF this 1(4), of "ring ! (1 + off div 4096) + of_nat (off mod 4096)"] c have "I s'" by simp
    have pg: "\<not> length ring \<le> 1 + off div 4096"
      using 1(3) by (auto simp: ring_size_def dest: less_mult_imp_div_less)
    show ?thesis
    proof (cases ok)
      case okt: True
      have "(off + ?n) mod ring_size ring < ring_size ring" using 1(3) by simp
      then have "\<exists>s'' ok. walk ring copy ((off + ?n) mod ring_size ring) len (at + ?n) s' = Some (s'', ok) \<and> I s''"
        using 1(1) [OF True refl refl pg c [symmetric] refl okt 1(2)] 1(5) \<open>I s'\<close> by blast
      with True pg c okt show ?thesis by (subst walk.simps) (simp add: Let_def)
    next
      case False
      with True pg c \<open>I s'\<close> show ?thesis by (subst walk.simps) (auto simp: Let_def)
    qed
  qed
qed

lemma ring_new_length: "ring_new pfns = Some ring \<Longrightarrow> 2 \<le> length ring"
proof -
  have "those xs = Some ys \<Longrightarrow> length ys = length xs" for xs :: "'a option list" and ys
    by (induction xs arbitrary: ys) (auto split: option.splits)
  then show "ring_new pfns = Some ring \<Longrightarrow> 2 \<le> length ring"
    by (force simp: ring_new_def split: if_splits)
qed

lemma walk_out_total:
  assumes "wf_mem gm" and "2 \<le> length ring" and "off < ring_size ring" and "length buf = len" and "len < 2 ^ 64"
  shows "\<exists>buf' ok. walk ring (copy_out gm) off len 0 buf = Some (buf', ok) \<and> length buf' = len"
proof (rule walk_keeps [where I = "\<lambda>b. length b = len", OF assms(2-4)])
  fix gpa at n s
  assume le: "at + n \<le> len" and s: "length (s :: bytes) = len"
  show "length (fst (copy_out gm gpa at n s)) = len"
  proof (cases "read_into gm gpa n")
    case (Some bs)
    then have "length bs = n" using read_into_length [OF assms(1)] le assms(5) by simp
    with Some le s show ?thesis by (simp add: copy_out_def length_overwrite)
  qed (simp add: copy_out_def s)
qed

lemma indices_bounds:
  "indices gm ring = Inr (w, r) \<Longrightarrow> w < ring_size ring \<and> r < ring_size ring"
  by (auto simp: indices_def split: option.splits if_splits)

text \<open>
  C25. Whatever the guest keeps in the ring and wherever its pages point, reading neither panics nor
  fails to return; it hands up at most the caller's limit of bytes, and changes no guest memory but
  the four bytes of the read index, and those only when it delivers a packet.
\<close>

theorem ring_read_hostile_guest:
  assumes "wf_mem gm" and "ring_new pfns = Some ring"
  shows "case ring_read gm ring buf mx of None \<Rightarrow> False
    | Some (gm', buf', res) \<Rightarrow>
        (case res of Inr (Some kind) \<Rightarrow> length buf' \<le> mx \<and> same_but (control ring READ_INDEX) 4 gm gm'
           | _ \<Rightarrow> gm' = gm)"
proof (cases "indices gm ring")
  case (Inl e)
  then show ?thesis by (simp add: ring_read_def)
next
  case (Inr wr)
  obtain w r where wr: "indices gm ring = Inr (w, r)" using Inr by (cases wr) auto
  note b = indices_bounds [OF wr] and two = ring_new_length [OF assms(2)]
  obtain d ok where d: "walk ring (copy_out gm) r DESCRIPTOR_LEN 0 (replicate DESCRIPTOR_LEN 0) = Some (d, ok)"
    using walk_out_total [OF assms(1) two, of r "replicate DESCRIPTOR_LEN 0"] b by auto
  let ?o = "unat (from_le16 (byte_range d 2 2)) * 8" and ?l = "unat (from_le16 (byte_range d 4 2)) * 8"
  have "?l < 2 ^ 64" using unat_lt [of "from_le16 (byte_range d 4 2)"] by simp
  then obtain buf' ok' where p: "walk ring (copy_out gm) ((r + ?o) mod ring_size ring) (?l - ?o) 0 (resize buf (?l - ?o)) = Some (buf', ok')"
    and len: "length buf' = ?l - ?o"
    using walk_out_total [OF assms(1) two, of "(r + ?o) mod ring_size ring" "resize buf (?l - ?o)" "?l - ?o"] b
    by (force simp: resize_def)
  let ?v = "of_nat ((r + ?l + TRAILER_LEN) mod ring_size ring)"
  obtain gm' ok2 where g: "store_release_u32 gm (control ring READ_INDEX) ?v = (gm', ok2)" by fastforce
  then have "same_but (control ring READ_INDEX) 4 gm gm'" "\<not> ok2 \<Longrightarrow> gm' = gm"
    using same_but_write_bytes [OF assms(1), of "le32 ?v" "control ring READ_INDEX"] assms(1)
      write_bytes_fail [of gm "control ring READ_INDEX" "le32 ?v"]
    by (auto simp: store_release_u32_eq same_but_refl split: if_splits)
  then show ?thesis
    unfolding ring_read_def wr using d p len g by (simp add: Let_def)
qed

theorem ring_read_hostile_guest_witness:
  "\<exists>gm' buf' res. ring_read demo_gm [0xF000, 0x8000] [] 64 = Some (gm', buf', res)"
proof -
  have "wf_mem demo_gm" using demo_ring_empty by (simp add: ring_holds_def wf_ring_def)
  moreover have "ring_new [0xF, 0x8] = Some [0xF000, 0x8000]" by (simp add: ring_new_def checked_mul_page_def)
  ultimately show ?thesis
    using ring_read_hostile_guest [of demo_gm "[0xF, 0x8]" "[0xF000, 0x8000]" 64 "[]"]
    by (auto split: option.splits)
qed

end
