(* ===== verification/Net_Checksum.thy ===== *)
theory Net_Checksum
  imports Vmm_Prelude
begin

text \<open>
  The internet checksum (\<^verbatim>\<open>src/net/csum.rs\<close>, RFC 1071), with its three word-summing paths: the
  portable one (four bytes at a time), the AVX2 one (64 bytes at a time in 32-bit lanes) and the
  byte pairs at the seams of a scattered buffer. The vector intrinsics are modelled lane by lane;
  whether the CPU has AVX2 is a parameter. Everything is compared with the ones'-complement sum of
  big-endian byte pairs over natural numbers.
\<close>

section \<open>The code\<close>

lemma fold16_step:
  assumes "\<not> (s :: u64) \<le> 0xFFFF"
  shows "unat ((s AND 0xFFFF) + drop_bit 16 s) = unat s mod 65536 + unat s div 65536"
    and "unat s mod 65536 + unat s div 65536 < unat s"
proof -
  have m: "unat (s AND 0xFFFF) = unat s mod 65536"
    using unat_and_mask [of s 16] by (simp add: mask_numeral)
  have d: "unat (drop_bit 16 s) = unat s div 65536"
    using unat_drop_bit [of 16 s] by simp
  have big: "65536 \<le> unat s" using assms by (simp add: word_le_nat_alt)
  have eq: "unat s = unat s mod 65536 + unat s div 65536 * 65536" by simp
  have "0 < unat s div 65536" using big by (simp add: div_greater_zero_iff)
  then have "unat s div 65536 < unat s div 65536 * 65536" by simp
  then show lt: "unat s mod 65536 + unat s div 65536 < unat s" using eq by linarith
  have "unat s mod 65536 + unat s div 65536 < 2 ^ LENGTH(64)" using lt unat_lt [of s] by linarith
  then show "unat ((s AND 0xFFFF) + drop_bit 16 s) = unat s mod 65536 + unat s div 65536"
    using unat_add_no_wrap [of "s AND 0xFFFF" "drop_bit 16 s"] m d by simp
qed

function fold16 :: "u64 \<Rightarrow> u16" where
  "fold16 s = (if 0xFFFF < s then fold16 ((s AND 0xFFFF) + drop_bit 16 s) else ucast s)"
  by pat_completeness auto
termination
  by (relation "measure unat") (use fold16_step in \<open>auto simp: not_le\<close>)

declare fold16.simps [simp del]

definition swap_bytes :: "u16 \<Rightarrow> u16" where
  "swap_bytes x = push_bit 8 x OR drop_bit 8 x"

text \<open>\<^verbatim>\<open>sum_le16\<close>: the 4-byte chunks, then a 2-byte tail.\<close>

fun sum_le16 :: "bytes \<Rightarrow> u64" where
  "sum_le16 (a # b # c # d # r) = ucast (from_le32 [a, b, c, d]) + sum_le16 r"
| "sum_le16 [lo, hi] = ucast (from_le16 [lo, hi])"
| "sum_le16 _ = 0"

definition as_chunks :: "nat \<Rightarrow> 'a list \<Rightarrow> 'a list list \<times> 'a list" where
  "as_chunks n xs = (map (\<lambda>i. byte_range xs (i * n) n) [0..<length xs div n], drop (length xs div n * n) xs)"

function list_chunks :: "nat \<Rightarrow> 'a list \<Rightarrow> 'a list list" where
  "list_chunks n xs = (if n = 0 \<or> xs = [] then [] else take n xs # list_chunks n (drop n xs))"
  by pat_completeness auto
termination
  by (relation "measure (\<lambda>(n, xs). length xs)") auto

declare list_chunks.simps [simp del]

text \<open>A 256-bit register as its eight 32-bit lanes, or its four 64-bit lanes.\<close>

fun lanes32 :: "bytes \<Rightarrow> u32 list" where
  "lanes32 (a # b # c # d # r) = from_le32 [a, b, c, d] # lanes32 r"
| "lanes32 _ = []"

definition mm_add_epi32 :: "u32 list \<Rightarrow> u32 list \<Rightarrow> u32 list" where
  "mm_add_epi32 = map2 (+)"

definition mm_and_mask :: "u32 list \<Rightarrow> u32 list" where
  "mm_and_mask = map (\<lambda>x. x AND 0xFFFF)"

definition mm_srli_16 :: "u32 list \<Rightarrow> u32 list" where
  "mm_srli_16 = map (drop_bit 16)"

definition mm_unpacklo_zero :: "u32 list \<Rightarrow> u64 list" where
  "mm_unpacklo_zero a = [ucast (a ! 0), ucast (a ! 1), ucast (a ! 4), ucast (a ! 5)]"

definition mm_unpackhi_zero :: "u32 list \<Rightarrow> u64 list" where
  "mm_unpackhi_zero a = [ucast (a ! 2), ucast (a ! 3), ucast (a ! 6), ucast (a ! 7)]"

definition mm_add_epi64 :: "u64 list \<Rightarrow> u64 list \<Rightarrow> u64 list" where
  "mm_add_epi64 = map2 (+)"

type_synonym acc4 = "u32 list list"

definition add_block :: "bytes \<Rightarrow> acc4 \<Rightarrow> acc4" where
  "add_block b acc =
     (let v0 = lanes32 (take 32 b); v1 = lanes32 (drop 32 b)
      in [mm_add_epi32 (acc ! 0) (mm_and_mask v0), mm_add_epi32 (acc ! 1) (mm_srli_16 v0),
          mm_add_epi32 (acc ! 2) (mm_and_mask v1), mm_add_epi32 (acc ! 3) (mm_srli_16 v1)])"

definition widen :: "acc4 \<Rightarrow> u64 list" where
  "widen acc = fold (\<lambda>a wide. mm_add_epi64 (mm_add_epi64 wide (mm_unpacklo_zero a)) (mm_unpackhi_zero a))
     acc (replicate 4 0)"

definition group_sum :: "bytes list \<Rightarrow> u64" where
  "group_sum g = sum_list (widen (fold add_block g (replicate 4 (replicate 8 0))))"

definition sum_le16_avx2 :: "bytes \<Rightarrow> u64" where
  "sum_le16_avx2 words = (case as_chunks 64 words of (blocks, rest) \<Rightarrow>
     fold (\<lambda>g s. s + group_sum g) (list_chunks 65536 blocks) (sum_le16 rest))"

definition sum_be16 :: "bool \<Rightarrow> bytes \<Rightarrow> u16" where
  "sum_be16 avx2 words =
     (if 128 \<le> length words \<and> avx2 then swap_bytes (fold16 (sum_le16_avx2 words))
      else swap_bytes (fold16 (sum_le16 words)))"

text \<open>One iteration of the loop of \<^verbatim>\<open>checksum16\<close>, and the whole.\<close>

definition csum_part :: "bool \<Rightarrow> bytes \<Rightarrow> u64 \<times> u8 option \<Rightarrow> u64 \<times> u8 option" where
  "csum_part avx2 part st =
     (let (sm, leftover) = st;
          (sm1, left1, data) =
            (case leftover of
               None \<Rightarrow> (sm, None, part)
             | Some hi \<Rightarrow> (case part of
                 [] \<Rightarrow> (sm, Some hi, [])
               | lo # rest \<Rightarrow> (sm + ucast (from_le16 [lo, hi]), None, rest)));
          k = length data - length data mod 2;
          words = take k data; odd_part = drop k data;
          sm2 = sm1 + ucast (sum_be16 avx2 words)
      in (sm2, case odd_part of [] \<Rightarrow> left1 | b # _ \<Rightarrow> Some b))"

definition checksum16 :: "bool \<Rightarrow> bytes list \<Rightarrow> u16" where
  "checksum16 avx2 parts =
     (case fold (csum_part avx2) parts (0, None) of
        (sm, leftover) \<Rightarrow>
          NOT (fold16 (case leftover of None \<Rightarrow> sm | Some hi \<Rightarrow> sm + push_bit 8 (ucast hi))))"

section \<open>The reference\<close>

fun be_sum :: "bytes \<Rightarrow> nat" where
  "be_sum [] = 0"
| "be_sum [a] = 256 * unat a"
| "be_sum (a # b # r) = 256 * unat a + unat b + be_sum r"

fun le_sum :: "bytes \<Rightarrow> nat" where
  "le_sum (a # b # r) = unat a + 256 * unat b + le_sum r"
| "le_sum _ = 0"

text \<open>Ones'-complement value of a sum: its residue modulo \<open>65535\<close>, as 65535 unless the sum is 0.\<close>

definition oc :: "nat \<Rightarrow> nat" where
  "oc n = (if n = 0 then 0 else (n - 1) mod 65535 + 1)"

definition rfc1071 :: "bytes \<Rightarrow> u16" where
  "rfc1071 bs = NOT (of_nat (oc (be_sum bs)))"

lemma oc_le: "oc n \<le> 65535"
proof -
  have "(n - 1) mod 65535 < 65535" by simp
  then have "(n - 1) mod 65535 + 1 \<le> 65535" by linarith
  then show ?thesis by (simp add: oc_def)
qed

lemma oc_0 [simp]: "oc n = 0 \<longleftrightarrow> n = 0" by (simp add: oc_def)

lemma oc_mod: "oc n mod 65535 = n mod 65535"
proof (cases n)
  case (Suc m)
  then show ?thesis by (simp add: oc_def mod_Suc_eq)
qed (simp add: oc_def)

lemma oc_eqI:
  assumes "r \<le> 65535" and "r mod 65535 = n mod 65535" and "r = 0 \<longleftrightarrow> n = 0"
  shows "oc n = r"
proof -
  have "a = b" if "a \<le> 65535" "b \<le> 65535" "a mod 65535 = b mod 65535" "a = 0 \<longleftrightarrow> b = 0" for a b :: nat
    using that by (cases "a = 65535"; cases "b = 65535") auto
  from this [OF oc_le assms(1)] assms(2,3) oc_mod show ?thesis by simp
qed

lemma oc_small: "n \<le> 65535 \<Longrightarrow> oc n = n"
  by (rule oc_eqI) simp_all

lemma oc_cong: "a mod 65535 = b mod 65535 \<Longrightarrow> (a = 0 \<longleftrightarrow> b = 0) \<Longrightarrow> oc a = oc b"
  using oc_le oc_mod by (intro oc_eqI) auto

section \<open>The portable path\<close>

lemma mod_65535_split: "(a + 65536 * b) mod 65535 = (a + b) mod (65535 :: nat)"
proof -
  have "a + 65536 * b = (a + b) + b * 65535" by simp
  then show ?thesis by (metis mod_mult_self1)
qed

lemma fold16_oc: "unat (fold16 s) = oc (unat s)"
proof (induction s rule: fold16.induct)
  case (1 s)
  show ?case
  proof (cases "0xFFFF < s")
    case True
    then have n: "\<not> s \<le> 0xFFFF" by simp
    have "unat (fold16 s) = oc (unat s mod 65536 + unat s div 65536)"
      using 1 [OF True] True fold16_step(1) [OF n] by (subst fold16.simps) simp
    also have "\<dots> = oc (unat s)"
    proof (rule oc_cong)
      show "(unat s mod 65536 + unat s div 65536) mod 65535 = unat s mod 65535"
        using mod_65535_split [of "unat s mod 65536" "unat s div 65536"] by simp
      have "65536 \<le> unat s" using n by (simp add: word_le_nat_alt)
      then have "0 < unat s div 65536" "unat s \<noteq> 0" by (simp_all add: div_greater_zero_iff)
      then show "unat s mod 65536 + unat s div 65536 = 0 \<longleftrightarrow> unat s = 0" by linarith
    qed
    finally show ?thesis .
  next
    case False
    then have le: "unat s \<le> 65535" by (simp add: word_less_nat_alt)
    then have "unat (ucast s :: u16) = unat s" by (intro unat_ucast_down) simp
    with False le show ?thesis by (subst fold16.simps) (simp add: oc_eqI)
  qed
qed

fun quad_sum :: "bytes \<Rightarrow> nat" where
  "quad_sum (a # b # c # d # r) = le_value [a, b, c, d] + quad_sum r"
| "quad_sum [lo, hi] = le_value [lo, hi]"
| "quad_sum _ = 0"

lemma quad_sum_bound: "quad_sum ws \<le> length ws * 2 ^ 30"
proof (induction ws rule: quad_sum.induct)
  case (1 a b c d r)
  have "le_value [a, b, c, d] < 2 ^ 32" using le_value_bound [of "[a, b, c, d]"] by (simp del: le_value.simps)
  with 1 show ?case by (simp del: le_value.simps)
next
  case (2 lo hi)
  have "le_value [lo, hi] < 2 ^ 16" using le_value_bound [of "[lo, hi]"] by (simp del: le_value.simps)
  then show ?case by (simp del: le_value.simps)
qed simp_all

lemma sum_le16_quad: "length ws < 2 ^ 33 \<Longrightarrow> unat (sum_le16 ws) = quad_sum ws"
proof (induction ws rule: quad_sum.induct)
  case (1 a b c d r)
  have "quad_sum (a # b # c # d # r) < 2 ^ 64"
    using quad_sum_bound [of "a # b # c # d # r"] 1(2) by simp
  moreover have "unat (ucast (from_le32 [a, b, c, d]) :: u64) = le_value [a, b, c, d]"
    by (simp add: unat_ucast_up unat_le_decode del: le_value.simps le_decode.simps)
  ultimately show ?case
    using 1 unat_add_no_wrap [of "ucast (from_le32 [a, b, c, d]) :: u64" "sum_le16 r"]
    by (simp del: le_value.simps le_decode.simps)
next
  case (2 lo hi)
  show ?case by (simp add: unat_ucast_up unat_le_decode del: le_value.simps le_decode.simps)
qed simp_all

lemma quad_sum_le_sum:
  assumes "even (length ws)"
  shows "quad_sum ws mod 65535 = le_sum ws mod 65535" and "quad_sum ws = 0 \<longleftrightarrow> le_sum ws = 0"
proof -
  from assms have "quad_sum ws mod 65535 = le_sum ws mod 65535 \<and> (quad_sum ws = 0 \<longleftrightarrow> le_sum ws = 0)"
  proof (induction ws rule: quad_sum.induct)
    case (1 a b c d r)
    let ?lo = "unat a + 256 * unat b" and ?hi = "unat c + 256 * unat d"
    have v: "le_value [a, b, c, d] = ?lo + 65536 * ?hi" by simp
    have "(le_value [a, b, c, d] + quad_sum r) mod 65535 = (?lo + ?hi + le_sum r) mod 65535"
      unfolding v using 1 by (intro mod_add_cong [OF mod_65535_split]) simp
    with 1 show ?case by (simp add: add.assoc)
  qed (simp_all add: mult.commute [of 256])
  then show "quad_sum ws mod 65535 = le_sum ws mod 65535" and "quad_sum ws = 0 \<longleftrightarrow> le_sum ws = 0" by auto
qed

section \<open>Byte order\<close>

lemma be_le_sum:
  assumes "even (length ws)"
  shows "be_sum ws mod 65535 = (256 * le_sum ws) mod 65535" and "be_sum ws = 0 \<longleftrightarrow> le_sum ws = 0"
proof -
  from assms have "be_sum ws mod 65535 = (256 * le_sum ws) mod 65535 \<and> (be_sum ws = 0 \<longleftrightarrow> le_sum ws = 0)"
  proof (induction ws rule: be_sum.induct)
    case (3 a b r)
    have "(256 * (unat a + 256 * unat b)) mod 65535 = (256 * unat a + unat b) mod 65535"
      using mod_65535_split [of "256 * unat a" "unat b"] by simp
    then have "(256 * unat a + unat b + be_sum r) mod 65535 = (256 * (unat a + 256 * unat b) + 256 * le_sum r) mod 65535"
      using 3 by (intro mod_add_cong) simp_all
    with 3 show ?case by (auto simp: algebra_simps)
  qed simp_all
  then show "be_sum ws mod 65535 = (256 * le_sum ws) mod 65535" and "be_sum ws = 0 \<longleftrightarrow> le_sum ws = 0" by auto
qed

lemma unat_swap_bytes: "unat (swap_bytes x) = unat x div 256 + 256 * (unat x mod 256)"
proof -
  have d: "unat (drop_bit 8 x) = unat x div 256" using unat_drop_bit [of 8 x] by simp
  have lt: "unat x div 256 < 256" using unat_lt [of x] by simp
  have "(unat x * 256) mod 65536 = 256 * (unat x mod 256)"
    using mult_mod_right [of 256 "unat x" 256] by (simp add: mult.commute)
  then have p: "unat (push_bit 8 x) = push_bit 8 (unat x mod 256)"
    using unat_push_bit [of 8 x] by (simp add: push_bit_eq_mult [of 8 "unat x mod 256"] mult.commute)
  have "unat (swap_bytes x) = unat x div 256 OR push_bit 8 (unat x mod 256)"
    unfolding swap_bytes_def unsigned_or_eq p d by (rule or.commute)
  also have "\<dots> = unat x div 256 + (unat x mod 256) * 2 ^ 8"
    using lt by (intro or_push_bit_nat) simp
  finally show ?thesis by simp
qed

lemma swap_bytes_oc:
  assumes "unat x = oc n"
  shows "unat (swap_bytes x) = oc (256 * n)"
proof (rule sym, rule oc_eqI)
  have lt: "unat x < 65536" using unat_lt [of x] by simp
  show "unat (swap_bytes x) \<le> 65535" using unat_lt [of "swap_bytes x"] by simp
  have x: "unat x = unat x div 256 * 256 + unat x mod 256" by simp
  then have "256 * unat x = 256 * (unat x mod 256) + 65536 * (unat x div 256)" by linarith
  then have "(256 * unat x) mod 65535 = (256 * (unat x mod 256) + unat x div 256) mod 65535"
    by (simp only: mod_65535_split)
  then have "(unat x div 256 + 256 * (unat x mod 256)) mod 65535 = (256 * unat x) mod 65535"
    by (simp only: add.commute)
  then show "unat (swap_bytes x) mod 65535 = (256 * n) mod 65535"
    using assms oc_mod [of n] unat_swap_bytes [of x] by (metis mod_mult_right_eq)
  have "unat (swap_bytes x) = 0 \<longleftrightarrow> unat x = 0"
    unfolding unat_swap_bytes using x by linarith
  then show "unat (swap_bytes x) = 0 \<longleftrightarrow> 256 * n = 0" using assms by simp
qed

text \<open>Any word sum congruent to the little-endian one gives the big-endian one after the swap.\<close>

lemma sum_be16_from:
  assumes "even (length ws)" and "unat s mod 65535 = le_sum ws mod 65535" and "unat s = 0 \<longleftrightarrow> le_sum ws = 0"
  shows "unat (swap_bytes (fold16 s)) = oc (be_sum ws)"
proof -
  have "unat (swap_bytes (fold16 s)) = oc (256 * unat s)"
    by (rule swap_bytes_oc [OF fold16_oc])
  also have "\<dots> = oc (be_sum ws)"
    using assms be_le_sum [OF assms(1)] by (intro oc_cong) (simp_all, metis mod_mult_right_eq)
  finally show ?thesis .
qed

section \<open>The AVX2 path\<close>

definition lane_sum :: "u32 list \<Rightarrow> nat" where
  "lane_sum a = sum_list (map unat a)"

definition acc_sum :: "acc4 \<Rightarrow> nat" where
  "acc_sum acc = sum_list (map lane_sum acc)"

text \<open>After \<open>k\<close> blocks no lane exceeds \<open>k * 65535\<close>.\<close>

definition acc_ok :: "nat \<Rightarrow> acc4 \<Rightarrow> bool" where
  "acc_ok k acc \<longleftrightarrow> length acc = 4 \<and> (\<forall>a \<in> set acc. length a = 8 \<and> (\<forall>x \<in> set a. unat x \<le> k * 65535))"

lemma le_sum_append: "even (length xs) \<Longrightarrow> le_sum (xs @ ys) = le_sum xs + le_sum ys"
  by (induction xs rule: le_sum.induct) auto

lemma le_sum_bound: "le_sum ws \<le> length ws * 65535"
proof (induction ws rule: le_sum.induct)
  case (1 a b r)
  have "unat a < 256" "unat b < 256" using unat_lt [of a] unat_lt [of b] by simp_all
  with 1 show ?case by simp
qed simp_all

lemma mm_add_lanes:
  assumes "length xs = length ys" and "\<forall>x \<in> set xs. unat x \<le> k * 65535" and "\<forall>y \<in> set ys. unat y \<le> 65535"
    and "k < 65536"
  shows "lane_sum (mm_add_epi32 xs ys) = lane_sum xs + lane_sum ys \<and>
    (\<forall>z \<in> set (mm_add_epi32 xs ys). unat z \<le> Suc k * 65535)"
  using assms(1-3)
proof (induction xs ys rule: list_induct2)
  case (Cons x xs y ys)
  have "unat x + unat y \<le> Suc k * 65535" using Cons.prems by simp
  moreover have "Suc k * 65535 \<le> 65536 * 65535" using assms(4) by (intro mult_le_mono1) simp
  ultimately have "unat (x + y) = unat x + unat y" by (intro unat_add_no_wrap) simp
  with Cons show ?case by (auto simp: lane_sum_def mm_add_epi32_def)
qed (simp add: lane_sum_def mm_add_epi32_def)

lemma lanes32_split:
  assumes "4 dvd length bs"
  shows "lane_sum (mm_and_mask (lanes32 bs)) + lane_sum (mm_srli_16 (lanes32 bs)) = le_sum bs \<and>
    length (lanes32 bs) = length bs div 4"
  using assms
proof (induction bs rule: lanes32.induct)
  case (1 a b c d r)
  let ?w = "from_le32 [a, b, c, d]"
  have lo: "unat a + 256 * unat b < 65536" using unat_lt [of a] unat_lt [of b] by simp
  have w: "unat ?w = (unat a + 256 * unat b) + (unat c + 256 * unat d) * 65536"
    using unat_le_decode [of "[a, b, c, d]", where 'a = 32] by (simp del: le_decode.simps)
  have "unat (?w AND 0xFFFF) = unat ?w mod 65536" using unat_and_mask [of ?w 16] by (simp add: mask_numeral)
  moreover have "unat (drop_bit 16 ?w) = unat ?w div 65536" using unat_drop_bit [of 16 ?w] by simp
  moreover have "(x + y * 65536) mod 65536 = x \<and> (x + y * 65536) div 65536 = y" if "x < 65536" for x y :: nat
    using that by simp
  from this [OF lo] w have "unat ?w mod 65536 = unat a + 256 * unat b" "unat ?w div 65536 = unat c + 256 * unat d"
    by (simp_all only:)
  ultimately have "unat (?w AND 0xFFFF) = unat a + 256 * unat b" "unat (drop_bit 16 ?w) = unat c + 256 * unat d"
    by (simp_all only:)
  moreover have "length (a # b # c # d # r) = length r + 4" by simp
  with 1(2) have "4 dvd length r" by (simp only: dvd_add_triv_right_iff)
  ultimately show ?case
    using 1(1) by (simp add: lane_sum_def mm_and_mask_def mm_srli_16_def del: le_decode.simps)
qed (auto simp: lane_sum_def mm_and_mask_def mm_srli_16_def dest: dvd_imp_le)

lemma lane_parts_small:
  "\<forall>y \<in> set (mm_and_mask v). unat y \<le> 65535" "\<forall>y \<in> set (mm_srli_16 v). unat y \<le> 65535"
proof -
  have "unat (x AND 0xFFFF) \<le> 65535" for x :: u32
    using unat_and_mask [of x 16] by (simp add: mask_numeral)
  then show "\<forall>y \<in> set (mm_and_mask v). unat y \<le> 65535" by (simp add: mm_and_mask_def)
  have "unat (drop_bit 16 x) \<le> 65535" for x :: u32
    using unat_drop_bit [of 16 x] unat_lt [of x] by simp
  then show "\<forall>y \<in> set (mm_srli_16 v). unat y \<le> 65535" by (simp add: mm_srli_16_def)
qed

lemma add_block_ok:
  assumes "acc_ok k acc" and "k < 65536" and "length b = 64"
  shows "acc_ok (Suc k) (add_block b acc) \<and> acc_sum (add_block b acc) = acc_sum acc + le_sum b"
proof -
  let ?v0 = "lanes32 (take 32 b)" and ?v1 = "lanes32 (drop 32 b)"
  have "length acc = 4" using assms(1) by (simp add: acc_ok_def)
  then obtain a0 a1 a2 a3 where acc: "acc = [a0, a1, a2, a3]" by (auto simp: length_Suc_conv numeral_eq_Suc)
  have a: "length x = 8 \<and> (\<forall>y \<in> set x. unat y \<le> k * 65535)" if "x \<in> {a0, a1, a2, a3}" for x
    using assms(1) that by (auto simp: acc acc_ok_def)
  have s: "lane_sum (mm_and_mask ?v0) + lane_sum (mm_srli_16 ?v0) = le_sum (take 32 b)" "length ?v0 = 8"
    "lane_sum (mm_and_mask ?v1) + lane_sum (mm_srli_16 ?v1) = le_sum (drop 32 b)" "length ?v1 = 8"
    using lanes32_split [of "take 32 b"] lanes32_split [of "drop 32 b"] assms(3) by simp_all
  have add: "lane_sum (mm_add_epi32 x y) = lane_sum x + lane_sum y \<and> (\<forall>z \<in> set (mm_add_epi32 x y). unat z \<le> Suc k * 65535)"
    if "x \<in> {a0, a1, a2, a3}" "length y = 8" "\<forall>z \<in> set y. unat z \<le> 65535" for x y
    using a [OF that(1)] that(2,3) assms(2) by (intro mm_add_lanes) auto
  have len: "length (mm_add_epi32 x y) = 8" if "x \<in> {a0, a1, a2, a3}" "length y = 8" for x y
    using a [OF that(1)] that(2) by (simp add: mm_add_epi32_def)
  have l: "length (mm_and_mask v) = length v" "length (mm_srli_16 v) = length v" for v
    by (simp_all add: mm_and_mask_def mm_srli_16_def)
  have le: "le_sum b = le_sum (take 32 b) + le_sum (drop 32 b)"
    using le_sum_append [of "take 32 b" "drop 32 b"] assms(3) by simp
  note sm = lane_parts_small [of ?v0] lane_parts_small [of ?v1]
  note p = add [of a0, OF _ _ sm(1)] add [of a1, OF _ _ sm(2)] add [of a2, OF _ _ sm(3)] add [of a3, OF _ _ sm(4)]
  have blk: "add_block b acc = [mm_add_epi32 a0 (mm_and_mask ?v0), mm_add_epi32 a1 (mm_srli_16 ?v0),
      mm_add_epi32 a2 (mm_and_mask ?v1), mm_add_epi32 a3 (mm_srli_16 ?v1)]"
    by (simp add: add_block_def acc Let_def)
  have ok: "acc_ok (Suc k) (add_block b acc)"
    using p s(2,4) len l unfolding blk acc_ok_def by (simp del: mult_Suc)
  have q: "lane_sum (mm_add_epi32 a0 (mm_and_mask ?v0)) = lane_sum a0 + lane_sum (mm_and_mask ?v0)"
    "lane_sum (mm_add_epi32 a1 (mm_srli_16 ?v0)) = lane_sum a1 + lane_sum (mm_srli_16 ?v0)"
    "lane_sum (mm_add_epi32 a2 (mm_and_mask ?v1)) = lane_sum a2 + lane_sum (mm_and_mask ?v1)"
    "lane_sum (mm_add_epi32 a3 (mm_srli_16 ?v1)) = lane_sum a3 + lane_sum (mm_srli_16 ?v1)"
    using p s(2,4) l by (simp_all del: mult_Suc)
  have "acc_sum (add_block b acc) = lane_sum (mm_add_epi32 a0 (mm_and_mask ?v0)) + lane_sum (mm_add_epi32 a1 (mm_srli_16 ?v0)) +
      lane_sum (mm_add_epi32 a2 (mm_and_mask ?v1)) + lane_sum (mm_add_epi32 a3 (mm_srli_16 ?v1))"
    by (simp add: blk acc_sum_def)
  moreover have "acc_sum acc = lane_sum a0 + lane_sum a1 + lane_sum a2 + lane_sum a3"
    by (simp add: acc acc_sum_def)
  ultimately have "acc_sum (add_block b acc) = acc_sum acc + le_sum b" using q s(1,3) le by linarith
  with ok show ?thesis ..
qed

lemma sum_mm_add_epi64: "length xs = length ys \<Longrightarrow> sum_list (mm_add_epi64 xs ys) = sum_list xs + sum_list ys"
  by (induction xs ys rule: list_induct2) (simp_all add: mm_add_epi64_def algebra_simps)

lemma length_mm_add_epi64: "length (mm_add_epi64 xs ys) = min (length xs) (length ys)"
  by (simp add: mm_add_epi64_def)

lemma unpack_sum:
  assumes "length a = 8"
  shows "sum_list (mm_unpacklo_zero a) + sum_list (mm_unpackhi_zero a) = of_nat (lane_sum a)"
proof -
  obtain x0 x1 x2 x3 x4 x5 x6 x7 where a: "a = [x0, x1, x2, x3, x4, x5, x6, x7]"
    using assms by (auto simp: length_Suc_conv numeral_eq_Suc)
  show ?thesis by (simp add: a mm_unpacklo_zero_def mm_unpackhi_zero_def lane_sum_def)
qed

lemma widen_sum:
  assumes "\<forall>a \<in> set acc. length a = 8" and "length w = 4"
  shows "sum_list (fold (\<lambda>a wide. mm_add_epi64 (mm_add_epi64 wide (mm_unpacklo_zero a)) (mm_unpackhi_zero a)) acc w) =
    sum_list w + of_nat (acc_sum acc)"
  using assms
proof (induction acc arbitrary: w)
  case (Cons a acc)
  have l: "length (mm_unpacklo_zero a) = 4" "length (mm_unpackhi_zero a) = 4"
    by (simp_all add: mm_unpacklo_zero_def mm_unpackhi_zero_def)
  let ?w = "mm_add_epi64 (mm_add_epi64 w (mm_unpacklo_zero a)) (mm_unpackhi_zero a)"
  have "length ?w = 4" using Cons.prems(2) l by (simp add: mm_add_epi64_def)
  moreover have "sum_list ?w = sum_list w + of_nat (lane_sum a)"
    using Cons.prems l unpack_sum [of a] length_mm_add_epi64 [of w "mm_unpacklo_zero a"]
    by (simp add: sum_mm_add_epi64 add.assoc)
  ultimately show ?case using Cons by (simp add: acc_sum_def)
qed (simp add: acc_sum_def)

lemma add_blocks_ok:
  assumes "acc_ok k acc" and "k + length g \<le> 65536" and "\<forall>b \<in> set g. length b = 64"
  shows "acc_ok (k + length g) (fold add_block g acc) \<and>
    acc_sum (fold add_block g acc) = acc_sum acc + sum_list (map le_sum g)"
  using assms
proof (induction g arbitrary: k acc)
  case (Cons b g)
  then have "acc_ok (Suc k) (add_block b acc)" "acc_sum (add_block b acc) = acc_sum acc + le_sum b"
    using add_block_ok [of k acc b] by auto
  with Cons.IH [of "Suc k" "add_block b acc"] Cons.prems show ?case by simp
qed simp

lemma group_sum_value:
  assumes "length g \<le> 65536" and "\<forall>b \<in> set g. length b = 64"
  shows "group_sum g = of_nat (sum_list (map le_sum g))"
proof -
  have "acc_ok 0 (replicate 4 (replicate 8 0))" "acc_sum (replicate 4 (replicate 8 0)) = 0"
    by (simp_all add: acc_ok_def acc_sum_def lane_sum_def sum_list_replicate)
  with add_blocks_ok [of 0 "replicate 4 (replicate 8 0)" g] assms show ?thesis
    by (simp add: group_sum_def widen_def widen_sum acc_ok_def sum_list_replicate)
qed

lemma concat_list_chunks: "0 < n \<Longrightarrow> concat (list_chunks n xs) = xs \<and> (\<forall>c \<in> set (list_chunks n xs). length c \<le> n)"
proof (induction n xs rule: list_chunks.induct)
  case (1 n xs)
  then show ?case by (cases "xs = []") (simp_all add: list_chunks.simps [of n xs] list_chunks.simps [of n "[]"])
qed

lemma as_chunks_concat:
  assumes "0 < n"
  shows "concat (fst (as_chunks n xs)) @ snd (as_chunks n xs) = xs" and "\<forall>c \<in> set (fst (as_chunks n xs)). length c = n"
proof -
  have "concat (map (\<lambda>i. byte_range xs (i * n) n) [0..<k]) = take (k * n) xs" for k
  proof (induction k)
    case (Suc k)
    have "take (Suc k * n) xs = take (k * n) xs @ byte_range xs (k * n) n"
      by (simp add: byte_range_def add.commute [of n] take_add)
    with Suc show ?case by simp
  qed simp
  then show "concat (fst (as_chunks n xs)) @ snd (as_chunks n xs) = xs" by (simp add: as_chunks_def)
  have "n \<le> length xs - i * n" if "i < length xs div n" for i
  proof -
    have "Suc i * n \<le> length xs div n * n" using that by (intro mult_le_mono1) simp
    also have "\<dots> \<le> length xs" by (rule div_times_less_eq_dividend)
    finally show ?thesis by simp
  qed
  then show "\<forall>c \<in> set (fst (as_chunks n xs)). length c = n" by (auto simp: as_chunks_def min_def)
qed

lemma sum_le16_avx2_value:
  assumes "even (length ws)" and "length ws < 2 ^ 33"
  shows "unat (sum_le16_avx2 ws) mod 65535 = le_sum ws mod 65535" and "unat (sum_le16_avx2 ws) = 0 \<longleftrightarrow> le_sum ws = 0"
proof -
  obtain blocks rest where ch: "as_chunks 64 ws = (blocks, rest)" by fastforce
  have ws: "ws = concat blocks @ rest" and b64: "\<forall>b \<in> set blocks. length b = 64"
    using as_chunks_concat [of 64 ws] ch by auto
  have lenc: "length (concat bs) = 64 * length bs \<and> le_sum (concat bs) = sum_list (map le_sum bs)"
    if "\<forall>b \<in> set bs. length b = 64" for bs
    using that by (induction bs) (auto simp: le_sum_append)
  have ev: "even (length rest)" using assms(1) lenc [OF b64] by (simp add: ws)
  have le: "le_sum ws = sum_list (map le_sum blocks) + le_sum rest"
    using lenc [OF b64] by (simp add: ws le_sum_append)
  have "sum_list (map le_sum blocks) + quad_sum rest \<le> length ws * 2 ^ 30"
    using lenc [OF b64] le_sum_bound [of "concat blocks"] quad_sum_bound [of rest] by (simp add: ws)
  then have small: "sum_list (map le_sum blocks) + quad_sum rest < 2 ^ 64" using assms(2) by simp
  have grp: "fold (\<lambda>g s. s + group_sum g) gs s0 = s0 + of_nat (sum_list (map le_sum (concat gs)))"
    if "\<forall>g \<in> set gs. length g \<le> 65536 \<and> (\<forall>b \<in> set g. length b = 64)" for gs s0
    using that by (induction gs arbitrary: s0) (simp_all add: group_sum_value add.assoc)
  have cc: "concat (list_chunks 65536 blocks) = blocks" and c2: "\<forall>c \<in> set (list_chunks 65536 blocks). length c \<le> 65536"
    using concat_list_chunks [of 65536 blocks] by simp_all
  have gs: "\<forall>g \<in> set (list_chunks 65536 blocks). length g \<le> 65536 \<and> (\<forall>b \<in> set g. length b = 64)"
  proof
    fix g assume g: "g \<in> set (list_chunks 65536 blocks)"
    then have "set g \<subseteq> set (concat (list_chunks 65536 blocks))" by auto
    with g c2 b64 show "length g \<le> 65536 \<and> (\<forall>b \<in> set g. length b = 64)" unfolding cc by blast
  qed
  have "sum_le16_avx2 ws = sum_le16 rest + of_nat (sum_list (map le_sum blocks))"
    using grp [OF gs, of "sum_le16 rest"] by (simp only: sum_le16_avx2_def ch prod.case cc)
  moreover have r: "unat (sum_le16 rest) = quad_sum rest" using assms(2) by (intro sum_le16_quad) (simp add: ws)
  moreover have "unat (sum_le16 rest + of_nat (sum_list (map le_sum blocks))) =
      unat (sum_le16 rest) + sum_list (map le_sum blocks)"
    unfolding r using small r by (intro unat_plus_of_nat [of "sum_le16 rest", unfolded r]) simp
  ultimately have v: "unat (sum_le16_avx2 ws) = quad_sum rest + sum_list (map le_sum blocks)" by (simp only:)
  show "unat (sum_le16_avx2 ws) mod 65535 = le_sum ws mod 65535"
    unfolding v le using quad_sum_le_sum(1) [OF ev] by (subst add.commute) (intro mod_add_cong refl)
  show "unat (sum_le16_avx2 ws) = 0 \<longleftrightarrow> le_sum ws = 0"
    unfolding v le using quad_sum_le_sum(2) [OF ev] by auto
qed

lemma sum_be16_value:
  assumes "even (length ws)" and "length ws < 2 ^ 33"
  shows "unat (sum_be16 avx2 ws) = oc (be_sum ws)"
  using sum_be16_from [OF assms(1)] sum_le16_avx2_value [OF assms] sum_le16_quad [OF assms(2)]
    quad_sum_le_sum [OF assms(1)] by (simp add: sum_be16_def)

section \<open>Scattered buffers\<close>

lemma be_sum_append: "even (length xs) \<Longrightarrow> be_sum (xs @ ys) = be_sum xs + be_sum ys"
  by (induction xs rule: be_sum.induct) auto

text \<open>What the loop has summed of the bytes \<open>p\<close> it has passed.\<close>

definition csum_inv :: "nat \<Rightarrow> bytes \<Rightarrow> u64 \<times> u8 option \<Rightarrow> bool" where
  "csum_inv k p st \<longleftrightarrow> (case st of (sm, leftover) \<Rightarrow> unat sm \<le> k * 131070 \<and>
     (\<exists>q. even (length q) \<and> p = q @ (case leftover of None \<Rightarrow> [] | Some hi \<Rightarrow> [hi]) \<and> oc (unat sm) = oc (be_sum q)))"

lemma oc_add: "oc a = oc b \<Longrightarrow> oc c = oc d \<Longrightarrow> oc (a + c) = oc (b + d)"
proof (rule oc_cong)
  assume e: "oc a = oc b" "oc c = oc d"
  then have "a mod 65535 = b mod 65535" "c mod 65535 = d mod 65535" by (metis oc_mod)+
  then show "(a + c) mod 65535 = (b + d) mod 65535" by (rule mod_add_cong)
  have "a = 0 \<longleftrightarrow> b = 0" "c = 0 \<longleftrightarrow> d = 0" using e by (metis oc_0)+
  then show "a + c = 0 \<longleftrightarrow> b + d = 0" by simp
qed

lemma oc_idem [simp]: "oc (oc n) = oc n"
  by (rule oc_cong) (simp_all add: oc_mod)

lemma csum_step:
  fixes sm :: u64
  assumes "oc (unat sm) = oc (be_sum q)" and "even (length q)" and "unat sm + 65535 < 2 ^ 64"
    and "unat x = oc (be_sum w)" and "even (length w)"
  shows "unat (sm + ucast (x :: u16)) = unat sm + unat x" and "oc (unat (sm + ucast x)) = oc (be_sum (q @ w))"
    and "unat x \<le> 65535"
proof -
  show le: "unat x \<le> 65535" using unat_lt [of x] by simp
  have u: "unat (ucast x :: u64) = unat x" by (simp add: unat_ucast_up)
  show eq: "unat (sm + ucast x) = unat sm + unat x"
    using unat_add_no_wrap [of sm "ucast x"] assms(3) le u by simp
  show "oc (unat (sm + ucast x)) = oc (be_sum (q @ w))"
    unfolding eq be_sum_append [OF assms(2)] assms(4) by (rule oc_add [OF assms(1) oc_idem])
qed

lemma csum_words:
  fixes sm :: u64
  assumes "oc (unat sm) = oc (be_sum q)" and "even (length q)" and "unat sm + 65535 < 2 ^ 64" and "length data < 2 ^ 33"
    and k: "k = length data - length data mod 2"
  shows "even (length (q @ take k data))" and "drop k data = [] \<or> (\<exists>b. drop k data = [b])"
    and "oc (unat (sm + ucast (sum_be16 avx2 (take k data)))) = oc (be_sum (q @ take k data))"
    and "unat (sm + ucast (sum_be16 avx2 (take k data))) \<le> unat sm + 65535"
proof -
  have ev: "even (length (take k data))" by (simp add: k)
  then show "even (length (q @ take k data))" using assms(2) by simp
  have "length (drop k data) \<le> 1" by (simp add: k)
  then show "drop k data = [] \<or> (\<exists>b. drop k data = [b])" by (cases "drop k data") (auto simp del: drop_eq_Nil)
  have v: "unat (sum_be16 avx2 (take k data)) = oc (be_sum (take k data))"
    using ev assms(4) by (intro sum_be16_value) auto
  show "oc (unat (sm + ucast (sum_be16 avx2 (take k data)))) = oc (be_sum (q @ take k data))"
    "unat (sm + ucast (sum_be16 avx2 (take k data))) \<le> unat sm + 65535"
    using csum_step [OF assms(1-3) v ev] by simp_all
qed

lemma csum_part_inv:
  assumes inv: "csum_inv k p (sm, leftover)" and "k < 2 ^ 40" and len: "length part < 2 ^ 33"
  shows "csum_inv (Suc k) (p @ part) (csum_part avx2 part (sm, leftover))"
proof -
  from inv obtain q where bound: "unat sm \<le> k * 131070" and q: "even (length q)"
    and p: "p = q @ (case leftover of None \<Rightarrow> [] | Some hi \<Rightarrow> [hi])" and oc: "oc (unat sm) = oc (be_sum q)"
    by (auto simp: csum_inv_def)
  have room: "unat sm + 131070 < 2 ^ 64" using bound assms(2) by simp
  have words: "csum_inv (Suc k) (q' @ data)
      (sm' + ucast (sum_be16 avx2 (take n data)), case drop n data of [] \<Rightarrow> None | b # _ \<Rightarrow> Some b)"
    if "oc (unat sm') = oc (be_sum q')" "even (length q')" "unat sm' \<le> unat sm + 65535" "length data < 2 ^ 33"
      "n = length data - length data mod 2" for q' data sm' n
  proof -
    have r: "unat sm' + 65535 < 2 ^ 64" using that(3) room by simp
    note w = csum_words [OF that(1,2) r that(4,5)]
    have "q' @ data = (q' @ take n data) @ (case (case drop n data of [] \<Rightarrow> None | b # _ \<Rightarrow> Some b) of None \<Rightarrow> [] | Some hi \<Rightarrow> [hi])"
      using w(2) append_take_drop_id [of n data] by (auto simp del: append_take_drop_id drop_eq_Nil)
    moreover have "unat (sm' + ucast (sum_be16 avx2 (take n data))) \<le> Suc k * 131070"
      using w(4) [of avx2] that(3) bound by simp
    ultimately show ?thesis using w(1) w(3) [of avx2] unfolding csum_inv_def prod.case by blast
  qed
  show ?thesis
  proof (cases leftover)
    case None
    then show ?thesis using words [OF oc q _ len refl] p by (simp add: csum_part_def Let_def cong: list.case_cong)
  next
    case (Some hi)
    show ?thesis
    proof (cases part)
      case Nil
      have "unat (sum_be16 avx2 []) = 0" using sum_be16_value [of "[]"] by simp
      then have "sum_be16 avx2 [] = 0" by (simp add: unsigned_eq_0_iff)
      then show ?thesis using Some Nil inv p q oc bound
        by (auto simp: csum_part_def csum_inv_def Let_def)
    next
      case (Cons lo rest)
      have v: "unat (from_le16 [lo, hi]) = be_sum [hi, lo]"
        using unat_le_decode [of "[lo, hi]", where 'a = 16] by (simp del: le_decode.simps)
      also have "\<dots> = oc (be_sum [hi, lo])"
        using unat_lt [of hi] unat_lt [of lo] by (intro sym [OF oc_small]) simp
      finally have v': "unat (from_le16 [lo, hi]) = oc (be_sum [hi, lo])" .
      have r: "unat sm + 65535 < 2 ^ 64" using room by simp
      note st = csum_step [OF oc q r v']
      have "csum_inv (Suc k) ((q @ [hi, lo]) @ rest) (csum_part avx2 part (sm, leftover))"
        using words [of "sm + ucast (from_le16 [lo, hi])" "q @ [hi, lo]" rest] st q len Some Cons
        by (simp add: csum_part_def Let_def del: le_decode.simps)
      then show ?thesis using p Some Cons by simp
    qed
  qed
qed

lemma csum_parts_inv:
  assumes "csum_inv k p st" and "k + length parts < 2 ^ 40" and "\<forall>x \<in> set parts. length x < 2 ^ 33"
  shows "csum_inv (k + length parts) (p @ concat parts) (fold (csum_part avx2) parts st)"
  using assms
proof (induction parts arbitrary: k p st)
  case (Cons x parts)
  have "csum_inv (Suc k) (p @ x) (csum_part avx2 x st)"
    using csum_part_inv [of k p "fst st" "snd st" x] Cons.prems by simp
  from Cons.IH [OF this] Cons.prems show ?case by simp
qed simp

lemma checksum16_eq:
  assumes "length parts < 2 ^ 32" and "\<forall>p \<in> set parts. length p < 2 ^ 32"
  shows "checksum16 avx2 parts = rfc1071 (concat parts)"
proof -
  obtain sm leftover where f: "fold (csum_part avx2) parts (0, None) = (sm, leftover)" by fastforce
  have "csum_inv 0 [] (0, None)" by (simp add: csum_inv_def exI [of _ "[]"])
  from csum_parts_inv [OF this, of parts avx2] assms f
  have inv: "csum_inv (length parts) (concat parts) (sm, leftover)" by fastforce
  then obtain q where b: "unat sm \<le> length parts * 131070" and q: "even (length q)"
    "concat parts = q @ (case leftover of None \<Rightarrow> [] | Some hi \<Rightarrow> [hi])" "oc (unat sm) = oc (be_sum q)"
    by (auto simp: csum_inv_def)
  let ?s = "case leftover of None \<Rightarrow> sm | Some hi \<Rightarrow> sm + push_bit 8 (ucast hi)"
  have "oc (unat ?s) = oc (be_sum (concat parts))"
  proof (cases leftover)
    case (Some hi)
    have "unat (push_bit 8 (ucast hi) :: u64) = 256 * unat hi"
      using unat_lt [of hi] unat_push_bit [of 8 "ucast hi :: u64"] by (simp add: unat_ucast_up mult.commute)
    then have "unat (sm + push_bit 8 (ucast hi)) = unat sm + be_sum [hi]"
      using b assms(1) unat_lt [of hi] unat_add_no_wrap [of sm "push_bit 8 (ucast hi)"] by simp
    moreover have "be_sum (concat parts) = be_sum q + be_sum [hi]" using q Some by (simp add: be_sum_append)
    ultimately show ?thesis using Some oc_add [OF q(3) refl, of "be_sum [hi]"] by simp
  qed (use q in simp)
  then have "unat (fold16 ?s) = oc (be_sum (concat parts))" by (simp add: fold16_oc)
  moreover have "fold16 ?s = of_nat (unat (fold16 ?s))" by simp
  ultimately have "fold16 ?s = of_nat (oc (be_sum (concat parts)))" by (simp only:)
  then show ?thesis by (simp add: checksum16_def f rfc1071_def)
qed

section \<open>Checksum fields\<close>

definition put_be16 :: "u16 \<Rightarrow> bytes" where
  "put_be16 w = [ucast (drop_bit 8 w), ucast w]"

lemma be_sum_put_be16: "be_sum (put_be16 w @ r) = unat w + be_sum r"
proof -
  have lt: "unat w < 65536" using unat_lt [of w] by simp
  have h: "unat (ucast (drop_bit 8 w) :: u8) = unat w div 256"
    using lt unat_drop_bit [of 8 w] unat_ucast_down [of "drop_bit 8 w", where 'b = 8] by simp
  have l: "unat (ucast w :: u8) = unat w mod 256" by (simp add: unsigned_ucast_eq take_bit_eq_mod)
  have "256 * (unat w div 256) + unat w mod 256 = unat w" by simp
  then show ?thesis by (simp add: put_be16_def h l)
qed

text \<open>A header whose checksum field holds the checksum of the header with the field zeroed sums to
  all ones, so that its own checksum is 0.\<close>

lemma rfc1071_verifies:
  assumes "even (length a)"
  shows "rfc1071 (a @ put_be16 (rfc1071 (a @ [0, 0] @ b)) @ b) = 0"
proof -
  let ?s = "be_sum a + be_sum b"
  have z: "be_sum (a @ [0, 0] @ b) = ?s" using assms by (simp add: be_sum_append)
  have "unat (NOT (of_nat (oc ?s)) :: u16) = 65535 - oc ?s"
  proof -
    have "NOT (of_nat (oc ?s)) = (- 1 - of_nat (oc ?s) :: u16)" by (simp add: not_eq_complement)
    also have "unat \<dots> = 65535 - oc ?s"
    proof -
      have m1: "unat (- 1 :: u16) = 65535" by (simp add: unsigned_minus_1_eq_mask mask_numeral)
      have "unat (of_nat (oc ?s) :: u16) = oc ?s" using oc_le [of ?s] by simp
      then show ?thesis using oc_le [of ?s] m1 by (subst unat_sub) (simp_all add: word_le_nat_alt)
    qed
    finally show ?thesis .
  qed
  then have "be_sum (a @ put_be16 (rfc1071 (a @ [0, 0] @ b)) @ b) = ?s + (65535 - oc ?s)"
    using assms by (simp only: be_sum_append be_sum_put_be16 rfc1071_def z)
  moreover have "oc (?s + (65535 - oc ?s)) = 65535"
  proof (rule oc_eqI)
    have "(?s + (65535 - oc ?s)) mod 65535 = (oc ?s + (65535 - oc ?s)) mod 65535"
      using oc_mod [of ?s] by (metis mod_add_left_eq)
    then show "65535 mod 65535 = (?s + (65535 - oc ?s)) mod 65535" using oc_le [of ?s] by simp
    show "(65535::nat) = 0 \<longleftrightarrow> ?s + (65535 - oc ?s) = 0" by (auto simp: oc_def)
  qed simp_all
  ultimately show ?thesis by (simp add: rfc1071_def)
qed

section \<open>Properties\<close>

text \<open>
  C27. The checksum is the RFC 1071 one on every path: for every way of splitting the data into
  parts (odd offsets and empty parts included), with or without AVX2, \<open>checksum16\<close> of the parts is
  the complement of the ones'-complement sum of the big-endian byte pairs of their concatenation.
\<close>

theorem checksum16_is_rfc1071:
  assumes "length parts < 2 ^ 32" and "\<forall>p \<in> set parts. length p < 2 ^ 32"
  shows "checksum16 avx2 parts = rfc1071 (concat parts)"
  using assms by (rule checksum16_eq)

theorem checksum16_is_rfc1071_witness:
  "checksum16 True [[0x45], [], [0, 0, 0x1C]] = 0xBAE3"
proof -
  have "checksum16 True [[0x45], [], [0, 0, 0x1C]] = rfc1071 (concat [[0x45], [], [0, 0, 0x1C]])"
    by (rule checksum16_is_rfc1071) simp_all
  also have "\<dots> = 0xBAE3" by (simp add: rfc1071_def oc_def)
  finally show ?thesis .
qed

end
