(* ===== verification/Net_Wire.thy ===== *)
theory Net_Wire
  imports Net_Checksum
begin

text \<open>
  The wire formats of the user-mode network stack (\<^verbatim>\<open>src/net/wire.rs\<close>): parsing and building
  Ethernet, ARP, IPv4, ICMP, UDP and TCP headers, and IPv4 fragmentation. A parser's \<open>None\<close> is its
  early return; fixed-size address arrays are byte lists of that length. The \<^verbatim>\<open>_into\<close> builders
  clear their output first, so each builder is the list it leaves there. \<open>avx2\<close> is the CPU feature the
  checksum tests for.
\<close>

section \<open>Big-endian fields\<close>

abbreviation ETHERTYPE_IPV4 :: u16 where "ETHERTYPE_IPV4 \<equiv> 0x0800"
abbreviation IP_PROTO_TCP :: u8 where "IP_PROTO_TCP \<equiv> 6"
abbreviation IP_PROTO_UDP :: u8 where "IP_PROTO_UDP \<equiv> 17"
abbreviation ICMP_ECHO_REQUEST :: u8 where "ICMP_ECHO_REQUEST \<equiv> 8"
abbreviation ICMP_ECHO_REPLY :: u8 where "ICMP_ECHO_REPLY \<equiv> 0"

definition be16 :: "bytes \<Rightarrow> u16" where
  "be16 b = push_bit 8 (ucast (b ! 0)) OR ucast (b ! 1)"

definition be32 :: "bytes \<Rightarrow> u32" where
  "be32 b = push_bit 24 (ucast (b ! 0)) OR push_bit 16 (ucast (b ! 1)) OR push_bit 8 (ucast (b ! 2)) OR ucast (b ! 3)"

definition put_be32 :: "u32 \<Rightarrow> bytes" where
  "put_be32 v = [ucast (drop_bit 24 v), ucast (drop_bit 16 v), ucast (drop_bit 8 v), ucast (v AND 0xFF)]"

section \<open>Ethernet and ARP\<close>

record eth_view =
  eth_dst :: bytes
  eth_src :: bytes
  ethertype :: u16
  eth_payload :: bytes

definition parse_eth :: "bytes \<Rightarrow> eth_view option" where
  "parse_eth f = (if length f < 14 then None
     else Some \<lparr>eth_dst = byte_range f 0 6, eth_src = byte_range f 6 6, ethertype = be16 (byte_range f 12 2),
                eth_payload = drop 14 f\<rparr>)"

definition build_eth :: "bytes \<Rightarrow> bytes \<Rightarrow> u16 \<Rightarrow> bytes \<Rightarrow> bytes" where
  "build_eth dst src ety payload = dst @ src @ [ucast (drop_bit 8 ety), ucast (ety AND 0xFF)] @ payload"

record arp_view =
  arp_op :: u16
  arp_sha :: bytes
  arp_spa :: bytes
  arp_tpa :: bytes

definition parse_arp :: "bytes \<Rightarrow> arp_view option" where
  "parse_arp p = (if length p < 28 then None
     else if be16 (byte_range p 0 2) \<noteq> 1 \<or> be16 (byte_range p 2 2) \<noteq> ETHERTYPE_IPV4 \<or> p ! 4 \<noteq> 6 \<or> p ! 5 \<noteq> 4 then None
     else Some \<lparr>arp_op = be16 (byte_range p 6 2), arp_sha = byte_range p 8 6, arp_spa = byte_range p 14 4,
                arp_tpa = byte_range p 24 4\<rparr>)"

definition build_arp_reply :: "bytes \<Rightarrow> bytes \<Rightarrow> bytes \<Rightarrow> bytes \<Rightarrow> bytes" where
  "build_arp_reply sender_mac sender_ip target_mac target_ip =
     put_be16 1 @ put_be16 ETHERTYPE_IPV4 @ [6, 4] @ put_be16 2 @ sender_mac @ sender_ip @ target_mac @ target_ip"

section \<open>IPv4\<close>

record ipv4_view =
  ip_proto :: u8
  ip_src :: bytes
  ip_dst :: bytes
  ip_payload :: bytes
  ip_datagram :: bytes

definition parse_ipv4 :: "bytes \<Rightarrow> ipv4_view option" where
  "parse_ipv4 p =
     (if length p < 20 then None
      else if drop_bit 4 (p ! 0) \<noteq> 4 then None
      else let ihl = unat (p ! 0 AND 0x0F) * 4
           in if ihl < 20 \<or> length p < ihl then None
      else if be16 (byte_range p 6 2) AND 0x3FFF \<noteq> 0 then None
      else let total_len = unat (be16 (byte_range p 2 2)); e = max (min total_len (length p)) ihl
           in Some \<lparr>ip_proto = p ! 9, ip_src = byte_range p 12 4, ip_dst = byte_range p 16 4,
                    ip_payload = byte_range p ihl (e - ihl), ip_datagram = take e p\<rparr>)"

text \<open>The header with its checksum field (bytes 10 and 11) zero, and filled in.\<close>

definition ipv4_header0 :: "u16 \<Rightarrow> u16 \<Rightarrow> u16 \<Rightarrow> u8 \<Rightarrow> bytes \<Rightarrow> bytes \<Rightarrow> bytes \<times> bytes" where
  "ipv4_header0 tlen ident frag proto src dst =
     ([0x45, 0] @ put_be16 tlen @ put_be16 ident @ put_be16 frag @ [64, proto], src @ dst)"

definition fill_csum :: "bool \<Rightarrow> bytes \<times> bytes \<Rightarrow> bytes" where
  "fill_csum avx2 h = fst h @ put_be16 (checksum16 avx2 [fst h @ [0, 0] @ snd h]) @ snd h"

definition build_ipv4 :: "bool \<Rightarrow> bytes \<Rightarrow> bytes \<Rightarrow> u8 \<Rightarrow> bytes \<Rightarrow> bytes" where
  "build_ipv4 avx2 src dst proto payload =
     fill_csum avx2 (ipv4_header0 (of_nat (20 + length payload)) 0 0x4000 proto src dst) @ payload"

text \<open>The loop of \<^verbatim>\<open>ipv4_fragments\<close> from offset \<open>off\<close>: the frames handed to \<^verbatim>\<open>emit\<close>, in order.\<close>

definition frag_step :: "nat \<Rightarrow> nat" where
  "frag_step mtu = max ((mtu - 20) div 8 * 8) 8"

function fragments_from :: "bool \<Rightarrow> bytes \<Rightarrow> bytes \<Rightarrow> u8 \<Rightarrow> u16 \<Rightarrow> bytes \<Rightarrow> nat \<Rightarrow> nat \<Rightarrow> bytes list" where
  "fragments_from avx2 src dst proto ident payload mtu off =
     (if off < length payload
      then let chunk = byte_range payload off (min (off + frag_step mtu) (length payload) - off);
               more = off + length chunk < length payload;
               frag = push_bit 13 (if more then 1 else 0) OR of_nat (off div 8);
               h = fill_csum avx2 (ipv4_header0 (of_nat (20 + length chunk)) ident frag proto src dst)
           in (h @ chunk) # fragments_from avx2 src dst proto ident payload mtu (off + length chunk)
      else [])"
  by pat_completeness auto
termination
  by (relation "measure (\<lambda>(avx2, src, dst, proto, ident, payload, mtu, off). length payload - off)")
    (auto simp: frag_step_def)

declare fragments_from.simps [simp del]

definition ipv4_fragments :: "bool \<Rightarrow> bytes \<Rightarrow> bytes \<Rightarrow> u8 \<Rightarrow> u16 \<Rightarrow> bytes \<Rightarrow> nat \<Rightarrow> bytes list" where
  "ipv4_fragments avx2 src dst proto ident payload mtu = fragments_from avx2 src dst proto ident payload mtu 0"

section \<open>ICMP, UDP and TCP\<close>

definition build_icmp_echo_reply :: "bool \<Rightarrow> bytes \<Rightarrow> bytes option" where
  "build_icmp_echo_reply avx2 icmp =
     (if length icmp < 8 \<or> icmp ! 0 \<noteq> ICMP_ECHO_REQUEST then None
      else Some (fill_csum avx2 ([ICMP_ECHO_REPLY, icmp ! 1], drop 4 icmp)))"

record udp_view =
  udp_src_port :: u16
  udp_dst_port :: u16
  udp_payload :: bytes

definition parse_udp :: "bytes \<Rightarrow> udp_view option" where
  "parse_udp p = (if length p < 8 then None
     else let len = unat (be16 (byte_range p 4 2)); e = min (max len 8) (length p)
          in Some \<lparr>udp_src_port = be16 (byte_range p 0 2), udp_dst_port = be16 (byte_range p 2 2),
                   udp_payload = byte_range p 8 (e - 8)\<rparr>)"

definition pseudo_header :: "bytes \<Rightarrow> bytes \<Rightarrow> u8 \<Rightarrow> u16 \<Rightarrow> bytes" where
  "pseudo_header src_ip dst_ip proto len = src_ip @ dst_ip @ [0, proto] @ put_be16 len"

definition build_udp :: "bool \<Rightarrow> bytes \<Rightarrow> bytes \<Rightarrow> u16 \<Rightarrow> u16 \<Rightarrow> bytes \<Rightarrow> bytes" where
  "build_udp avx2 src_ip dst_ip src_port dst_port data =
     (let ulen = of_nat (8 + length data) :: u16;
          h = put_be16 src_port @ put_be16 dst_port @ put_be16 ulen;
          csum = checksum16 avx2 [pseudo_header src_ip dst_ip IP_PROTO_UDP ulen, h @ [0, 0], data];
          csum' = (if csum = 0 then 0xFFFF else csum)
      in h @ put_be16 csum' @ data)"

record tcp_view =
  tcp_src_port :: u16
  tcp_dst_port :: u16
  tcp_seq :: u32
  tcp_ack :: u32
  tcp_hdr_len :: nat
  tcp_flags :: u8

definition parse_tcp :: "bytes \<Rightarrow> tcp_view option" where
  "parse_tcp p = (if length p < 20 then None
     else Some \<lparr>tcp_src_port = be16 (byte_range p 0 2), tcp_dst_port = be16 (byte_range p 2 2),
                tcp_seq = be32 (byte_range p 4 4), tcp_ack = be32 (byte_range p 8 4),
                tcp_hdr_len = unat (drop_bit 4 (p ! 12)) * 4, tcp_flags = p ! 13\<rparr>)"

definition build_tcp :: "bool \<Rightarrow> bytes \<Rightarrow> bytes \<Rightarrow> u16 \<Rightarrow> u16 \<Rightarrow> u32 \<Rightarrow> u32 \<Rightarrow> u8 \<Rightarrow> u16 \<Rightarrow> bytes" where
  "build_tcp avx2 src_ip dst_ip src_port dst_port seq ack flags window =
     (let h = put_be16 src_port @ put_be16 dst_port @ put_be32 seq @ put_be32 ack @ [0x50, flags] @ put_be16 window;
          csum = checksum16 avx2 [pseudo_header src_ip dst_ip IP_PROTO_TCP 20, h @ [0, 0, 0, 0]]
      in h @ put_be16 csum @ [0, 0])"

definition build_tcp_rst_for_syn :: "bool \<Rightarrow> bytes \<Rightarrow> u16 \<Rightarrow> bytes \<Rightarrow> u16 \<Rightarrow> u32 \<Rightarrow> bytes" where
  "build_tcp_rst_for_syn avx2 guest_ip guest_port dst_ip dst_port syn_seq =
     build_tcp avx2 dst_ip guest_ip dst_port guest_port 0 (syn_seq + 1) (0x04 OR 0x10) 0"

section \<open>Codec lemmas\<close>

lemma length_put_be [simp]: "length (put_be16 v) = 2" "length (put_be32 w) = 4"
  by (simp_all add: put_be16_def put_be32_def)

lemma be16_put [simp]: "be16 (put_be16 v) = v"
  by (rule bit_word_eqI) (auto simp: be16_def put_be16_def bit_simps)

lemma be16_put' [simp]: "be16 [ucast (drop_bit 8 v), ucast v] = v"
  using be16_put [of v] by (simp add: put_be16_def)

lemma be32_put [simp]: "be32 (put_be32 v) = v"
proof (rule bit_word_eqI)
  fix n assume n: "n < LENGTH(32)"
  then consider "n < 8" | "8 \<le> n" "n < 16" | "16 \<le> n" "n < 24" | "24 \<le> n" "n < 32" by fastforce
  then show "bit (be32 (put_be32 v)) n = bit v n"
    by cases (auto simp: be32_def put_be32_def bit_simps)
qed

lemma fill_csum_verifies:
  assumes "even (length (fst h))" and "length (fst h) + length (snd h) < 2 ^ 31"
  shows "rfc1071 (fill_csum avx2 h) = 0"
proof -
  have "checksum16 avx2 [fst h @ [0, 0] @ snd h] = rfc1071 (concat [fst h @ [0, 0] @ snd h])"
    using assms(2) by (intro checksum16_eq) simp_all
  then show ?thesis using rfc1071_verifies [OF assms(1), of "snd h"] by (simp add: fill_csum_def)
qed

text \<open>UDP sends an all-ones checksum for a computed 0; the receiver accepts both.\<close>

lemma rfc1071_verifies_udp:
  assumes "even (length a)" and "c = rfc1071 (a @ [0, 0] @ b)" and "be_sum a \<noteq> 0"
  shows "rfc1071 (a @ put_be16 (if c = 0 then 0xFFFF else c) @ b) = 0"
proof (cases "c = 0")
  case False
  with assms rfc1071_verifies [OF assms(1), of b] show ?thesis by simp
next
  case True
  let ?s = "be_sum a + be_sum b"
  have "be_sum (a @ put_be16 0 @ b) = ?s" "be_sum (a @ put_be16 0xFFFF @ b) = ?s + 65535"
    using assms(1) by (simp_all only: be_sum_append be_sum_put_be16) simp_all
  moreover have "oc (?s + 65535) = oc ?s" using assms(3) by (intro oc_cong) simp_all
  ultimately have "rfc1071 (a @ put_be16 0xFFFF @ b) = rfc1071 (a @ put_be16 0 @ b)"
    by (simp add: rfc1071_def)
  also have "\<dots> = c" using assms(2) by (simp add: put_be16_def)
  finally show ?thesis using True by simp
qed

lemma length_ipv4_header:
  "length src = 4 \<Longrightarrow> length dst = 4 \<Longrightarrow> length (fill_csum avx2 (ipv4_header0 t i fr p src dst)) = 20"
  by (simp add: fill_csum_def ipv4_header0_def)

lemma ipv4_header_fields:
  assumes "length src = 4" and "length dst = 4" and h: "h = fill_csum avx2 (ipv4_header0 t i fr p src dst)"
  shows "h ! 0 = 0x45" and "h ! 9 = p" and "byte_range h 2 2 = put_be16 t" and "byte_range h 4 2 = put_be16 i"
    and "byte_range h 6 2 = put_be16 fr" and "byte_range h 12 4 = src" and "byte_range h 16 4 = dst"
    and "rfc1071 h = 0"
  using assms fill_csum_verifies [of "ipv4_header0 t i fr p src dst" avx2]
  by (simp_all add: fill_csum_def ipv4_header0_def slice_simps nth_append)

lemma parse_build_ipv4:
  assumes "length src = 4" and "length dst = 4" and "length payload \<le> 65515"
  shows "parse_ipv4 (build_ipv4 avx2 src dst proto payload @ pad) =
    Some \<lparr>ip_proto = proto, ip_src = src, ip_dst = dst, ip_payload = payload,
          ip_datagram = build_ipv4 avx2 src dst proto payload\<rparr>"
proof -
  let ?h = "fill_csum avx2 (ipv4_header0 (of_nat (20 + length payload)) 0 0x4000 proto src dst)"
  note f = ipv4_header_fields [OF assms(1,2) refl, of avx2 "of_nat (20 + length payload)" 0 "0x4000" proto]
  have len: "length ?h = 20" by (rule length_ipv4_header [OF assms(1,2)])
  have tl: "unat (of_nat (20 + length payload) :: u16) = 20 + length payload"
    using assms(3) by (intro unat_of_nat_u16) simp
  have r: "byte_range (?h @ payload @ pad) k n = byte_range ?h k n" if "k + n \<le> 20" for k n
    using that len by (simp add: byte_range_append_left)
  show ?thesis
    using f len tl by (simp add: parse_ipv4_def build_ipv4_def r nth_append Let_def)
      (simp add: byte_range_append_right byte_range_append_left)
qed

lemma parse_build_udp:
  assumes "length data \<le> 65507"
  shows "parse_udp (build_udp avx2 sip dip sp dp data) = Some \<lparr>udp_src_port = sp, udp_dst_port = dp, udp_payload = data\<rparr>"
proof -
  have "unat (of_nat (8 + length data) :: u16) = 8 + length data"
    using assms by (intro unat_of_nat_u16) simp
  then show ?thesis
    by (simp add: parse_udp_def build_udp_def Let_def slice_simps)
qed

section \<open>Fragments\<close>

text \<open>What a receiver checks of fragment \<open>f\<close> of a datagram: \<open>off\<close> bytes came before it, and \<open>mf\<close> says that more follow.\<close>

definition good_fragment :: "u16 \<Rightarrow> u8 \<Rightarrow> bytes \<Rightarrow> bytes \<Rightarrow> nat \<Rightarrow> nat \<Rightarrow> bool \<Rightarrow> bytes \<Rightarrow> bool" where
  "good_fragment ident proto src dst mtu off mf f \<longleftrightarrow>
     f ! 0 = 0x45 \<and> f ! 9 = proto \<and> byte_range f 12 4 = src \<and> byte_range f 16 4 = dst \<and>
     rfc1071 (take 20 f) = 0 \<and> unat (be16 (byte_range f 2 2)) = length f \<and> be16 (byte_range f 4 2) = ident \<and>
     unat (be16 (byte_range f 6 2) AND 0x1FFF) * 8 = off \<and> (bit (be16 (byte_range f 6 2)) 13 \<longleftrightarrow> mf) \<and>
     20 < length f \<and> length f \<le> max mtu 28 \<and> (mf \<longrightarrow> (length f - 20) mod 8 = 0)"

fun good_fragments :: "u16 \<Rightarrow> u8 \<Rightarrow> bytes \<Rightarrow> bytes \<Rightarrow> nat \<Rightarrow> nat \<Rightarrow> bytes list \<Rightarrow> bool" where
  "good_fragments ident proto src dst mtu off [] \<longleftrightarrow> True"
| "good_fragments ident proto src dst mtu off (f # fs) \<longleftrightarrow>
     good_fragment ident proto src dst mtu off (fs \<noteq> []) f \<and>
     good_fragments ident proto src dst mtu (off + (length f - 20)) fs"

lemma frag_field:
  assumes "k < 2 ^ 13"
  shows "unat ((push_bit 13 (if m then 1 else 0) OR of_nat k :: u16) AND 0x1FFF) = k"
    and "bit (push_bit 13 (if m then 1 else 0) OR of_nat k :: u16) 13 \<longleftrightarrow> m"
proof -
  have u: "unat (of_nat k :: u16) = k" using assms by simp
  have nb: "\<not> bit (of_nat k :: u16) n" if "13 \<le> n" for n
  proof
    assume "bit (of_nat k :: u16) n"
    then have "bit (unat (of_nat k :: u16)) n" by (simp add: bit_unsigned_iff)
    moreover have "k < 2 ^ n" using assms that by (meson less_le_trans one_le_numeral power_increasing)
    ultimately show False unfolding u by (simp add: bit_iff_odd)
  qed
  have "(push_bit 13 (if m then 1 else 0) OR of_nat k :: u16) AND mask 13 = of_nat k"
  proof (rule bit_word_eqI)
    fix n assume "n < LENGTH(16)"
    then show "bit ((push_bit 13 (if m then 1 else 0) OR of_nat k :: u16) AND mask 13) n = bit (of_nat k :: u16) n"
      using nb [of n] by (cases "n < 13") (simp_all add: bit_and_iff bit_or_iff bit_mask_iff bit_push_bit_iff)
  qed
  with u show "unat ((push_bit 13 (if m then 1 else 0) OR of_nat k :: u16) AND 0x1FFF) = k"
    by (simp add: mask_numeral)
  show "bit (push_bit 13 (if m then 1 else 0) OR of_nat k :: u16) 13 \<longleftrightarrow> m"
    using nb [of 13] by (simp add: bit_or_iff bit_push_bit_iff)
qed

lemma frag_step_bounds: "8 \<le> frag_step mtu" "8 dvd frag_step mtu" "20 + frag_step mtu \<le> max mtu 28"
proof -
  show "8 \<le> frag_step mtu" by (simp add: frag_step_def)
  show "8 dvd frag_step mtu" by (simp add: frag_step_def max_def)
  have "(mtu - 20) div 8 * 8 \<le> mtu - 20" by (rule div_times_less_eq_dividend)
  then show "20 + frag_step mtu \<le> max mtu 28" unfolding frag_step_def by linarith
qed

lemma good_fragment_built:
  assumes "length src = 4" and "length dst = 4" and "max mtu 28 < 2 ^ 16" and "8 dvd off" and "off < 2 ^ 16"
    and n: "0 < n" "n \<le> frag_step mtu" "mf \<Longrightarrow> n = frag_step mtu" and cl: "length chunk = n"
  shows "good_fragment ident proto src dst mtu off mf
    (fill_csum avx2 (ipv4_header0 (of_nat (20 + n)) ident (push_bit 13 (if mf then 1 else 0) OR of_nat (off div 8)) proto src dst) @ chunk)"
proof -
  define fld where "fld = (push_bit 13 (if mf then 1 else 0) OR of_nat (off div 8) :: u16)"
  define h where "h = fill_csum avx2 (ipv4_header0 (of_nat (20 + n)) ident fld proto src dst)"
  note fb = frag_step_bounds [of mtu]
  have hl: "length h = 20" unfolding h_def by (rule length_ipv4_header [OF assms(1,2)])
  note hf = ipv4_header_fields [OF assms(1,2) h_def]
  have "off div 8 < 2 ^ 13" using assms(5) by auto
  note ff = frag_field [OF this, of mf, folded fld_def]
  have tl: "unat (of_nat (20 + n) :: u16) = 20 + n"
    using n(2) fb(3) assms(3) by (intro unat_of_nat_u16) simp
  have mods: "mf \<longrightarrow> n mod 8 = 0" using n(3) fb(2) by (auto simp: mod_eq_0_iff_dvd)
  have "good_fragment ident proto src dst mtu off mf (h @ chunk)"
    unfolding good_fragment_def using hl hf ff tl cl n fb mods assms(4)
    by (simp add: nth_append byte_range_append_left)
  then show ?thesis by (simp add: h_def fld_def)
qed

lemma fragments_from_good:
  assumes "length src = 4" and "length dst = 4" and "length payload < 2 ^ 16" and "8 dvd off" and "off \<le> length payload"
    and "max mtu 28 < 2 ^ 16"
  shows "good_fragments ident proto src dst mtu off (fragments_from avx2 src dst proto ident payload mtu off) \<and>
    concat (map (drop 20) (fragments_from avx2 src dst proto ident payload mtu off)) = drop off payload \<and>
    (fragments_from avx2 src dst proto ident payload mtu off = [] \<longleftrightarrow> off = length payload)"
  using assms(4,5)
proof (induction "length payload - off" arbitrary: off rule: less_induct)
  case less
  show ?case
  proof (cases "off < length payload")
    case False
    with less.prems show ?thesis by (subst (1 2 3) fragments_from.simps) simp
  next
    case True
    define n where "n = min (off + frag_step mtu) (length payload) - off"
    define chunk where "chunk = byte_range payload off n"
    define off' where "off' = off + n"
    let ?h = "fill_csum avx2 (ipv4_header0 (of_nat (20 + n)) ident
      (push_bit 13 (if off' < length payload then 1 else 0) OR of_nat (off div 8)) proto src dst)"
    note fb = frag_step_bounds [of mtu]
    have n: "0 < n" "off + n \<le> length payload" "n \<le> frag_step mtu" "off' < length payload \<Longrightarrow> n = frag_step mtu"
      using True fb(1) by (auto simp: n_def off'_def)
    have cl: "length chunk = n" using n by (simp add: chunk_def)
    have al: "8 dvd off' \<or> off' = length payload"
      using n(2,4) less.prems(1) fb(2) by (cases "off' < length payload") (auto simp: off'_def)
    let ?rest = "fragments_from avx2 src dst proto ident payload mtu off'"
    have eq: "fragments_from avx2 src dst proto ident payload mtu off = (?h @ chunk) # ?rest"
      using True cl by (subst fragments_from.simps)
        (simp add: Let_def n_def [symmetric] chunk_def [symmetric] off'_def [symmetric])
    have rest: "good_fragments ident proto src dst mtu off' ?rest \<and> concat (map (drop 20) ?rest) = drop off' payload \<and>
        (?rest = [] \<longleftrightarrow> off' = length payload)"
    proof (cases "off' = length payload")
      case True
      then show ?thesis by (subst (1 2 3) fragments_from.simps) simp
    next
      case False
      then show ?thesis using al n by (intro less.hyps) (auto simp: off'_def)
    qed
    have hl: "length ?h = 20" by (rule length_ipv4_header [OF assms(1,2)])
    have "good_fragment ident proto src dst mtu off (off' < length payload) (?h @ chunk)"
      using assms(1,2,3,6) less.prems(1) True n cl by (intro good_fragment_built) auto
    moreover have "(?rest \<noteq> []) = (off' < length payload)" using rest n(2) by (auto simp: off'_def)
    moreover have "drop off payload = chunk @ drop off' payload"
      by (metis append_take_drop_id byte_range_def chunk_def drop_drop off'_def add.commute)
    ultimately show ?thesis
      unfolding eq using rest hl cl True by (simp add: off'_def)
  qed
qed

section \<open>Properties\<close>

text \<open>
  C35. A UDP datagram the stack builds for the guest survives its way up a receiver's stack: the
  Ethernet, IPv4 and UDP parsers give back the addresses, ports and data (bytes of padding after
  the datagram ignored), the IPv4 header checksum verifies, and so does the UDP checksum over the
  pseudo-header, including the case where 0 is sent as all ones.
\<close>

theorem udp_frame_roundtrip:
  assumes "length dmac = 6" and "length smac = 6" and "length sip = 4" and "length dip = 4"
    and "length data \<le> 65507" and "u = build_udp avx2 sip dip sp dp data"
    and "d = build_ipv4 avx2 sip dip IP_PROTO_UDP u"
  shows "parse_eth (build_eth dmac smac ETHERTYPE_IPV4 (d @ pad)) =
      Some \<lparr>eth_dst = dmac, eth_src = smac, ethertype = ETHERTYPE_IPV4, eth_payload = d @ pad\<rparr> \<and>
    parse_ipv4 (d @ pad) = Some \<lparr>ip_proto = IP_PROTO_UDP, ip_src = sip, ip_dst = dip, ip_payload = u, ip_datagram = d\<rparr> \<and>
    parse_udp u = Some \<lparr>udp_src_port = sp, udp_dst_port = dp, udp_payload = data\<rparr> \<and>
    rfc1071 (take 20 d) = 0 \<and>
    rfc1071 (pseudo_header sip dip IP_PROTO_UDP (of_nat (length u)) @ u) = 0"
proof (intro conjI)
  note u_def = assms(6) and d_def = assms(7)
  have lu: "length u = 8 + length data" by (simp add: u_def build_udp_def Let_def)
  show "parse_eth (build_eth dmac smac ETHERTYPE_IPV4 (d @ pad)) =
      Some \<lparr>eth_dst = dmac, eth_src = smac, ethertype = ETHERTYPE_IPV4, eth_payload = d @ pad\<rparr>"
    using assms(1,2) by (simp add: parse_eth_def build_eth_def slice_simps be16_def)
  show "parse_ipv4 (d @ pad) = Some \<lparr>ip_proto = IP_PROTO_UDP, ip_src = sip, ip_dst = dip, ip_payload = u, ip_datagram = d\<rparr>"
    unfolding d_def using assms(3-5) lu by (intro parse_build_ipv4) simp_all
  show "parse_udp u = Some \<lparr>udp_src_port = sp, udp_dst_port = dp, udp_payload = data\<rparr>"
    unfolding u_def by (rule parse_build_udp [OF assms(5)])
  show "rfc1071 (take 20 d) = 0"
    using ipv4_header_fields(8) [OF assms(3,4) refl] length_ipv4_header [OF assms(3,4)]
    by (simp add: d_def build_ipv4_def)
  let ?ps = "pseudo_header sip dip IP_PROTO_UDP (of_nat (8 + length data))"
  let ?a = "?ps @ put_be16 sp @ put_be16 dp @ put_be16 (of_nat (8 + length data))"
  have c: "checksum16 avx2 [?ps, (put_be16 sp @ put_be16 dp @ put_be16 (of_nat (8 + length data))) @ [0, 0], data] =
      rfc1071 (?a @ [0, 0] @ data)"
    using assms(3-5) by (subst checksum16_eq) (simp_all add: pseudo_header_def)
  have ev: "even (length ?a)" and nz: "be_sum ?a \<noteq> 0"
    using assms(3,4) by (simp_all add: pseudo_header_def be_sum_append)
  show "rfc1071 (pseudo_header sip dip IP_PROTO_UDP (of_nat (length u)) @ u) = 0"
    using rfc1071_verifies_udp [OF ev refl nz, of data] unfolding lu unfolding c [symmetric]
    by (simp add: u_def build_udp_def Let_def cong: if_cong)
qed

theorem udp_frame_roundtrip_witness:
  "parse_udp (build_udp True [10, 0, 0, 1] [10, 0, 0, 2] 53 4096 [1, 2, 3]) =
     Some \<lparr>udp_src_port = 53, udp_dst_port = 4096, udp_payload = [1, 2, 3]\<rparr>"
  using udp_frame_roundtrip [of "[0, 0, 0, 0, 0, 1]" "[0, 0, 0, 0, 0, 2]" "[10, 0, 0, 1]" "[10, 0, 0, 2]" "[1, 2, 3]"
      _ True 53 4096] by simp

text \<open>
  C38. IPv4 fragmentation loses nothing: the data of the fragments, in the order they are emitted,
  is the payload; each fragment has the datagram's identification and addresses, a correct length
  and checksum, the offset of the bytes before it, More-Fragments set on all but the last, a
  multiple of 8 bytes unless it is the last, and at most \<open>mtu\<close> bytes (28 for an impossibly small one).
\<close>

theorem ipv4_fragments_reassemble:
  assumes "length src = 4" and "length dst = 4" and "length payload < 2 ^ 16" and "mtu < 2 ^ 16"
  shows "good_fragments ident proto src dst mtu 0 (ipv4_fragments avx2 src dst proto ident payload mtu) \<and>
    concat (map (drop 20) (ipv4_fragments avx2 src dst proto ident payload mtu)) = payload"
  using fragments_from_good [OF assms(1-3), of 0 mtu] assms(4) by (simp add: ipv4_fragments_def)

theorem ipv4_fragments_reassemble_witness:
  "concat (map (drop 20) (ipv4_fragments False [10, 0, 0, 1] [10, 0, 0, 2] 17 7 (replicate 3000 5) 1500)) = replicate 3000 5"
  using ipv4_fragments_reassemble [of "[10, 0, 0, 1]" "[10, 0, 0, 2]" "replicate 3000 5" 1500 7 17 False] by simp

text \<open>
  The RST that refuses a connection is one the guest's TCP accepts: it comes from the address
  and port the guest dialled, acknowledges the SYN's sequence number plus one (modulo \<open>2\<^sup>3\<^sup>2\<close>), carries
  exactly RST and ACK, has a 20-byte header, and its pseudo-header checksum verifies.
\<close>

lemma tcp_rst_refuses_syn:
  assumes "length guest_ip = 4" and "length dst_ip = 4"
    and "r = build_tcp_rst_for_syn avx2 guest_ip guest_port dst_ip dst_port syn_seq"
  shows "parse_tcp r = Some \<lparr>tcp_src_port = dst_port, tcp_dst_port = guest_port, tcp_seq = 0, tcp_ack = syn_seq + 1,
      tcp_hdr_len = length r, tcp_flags = 0x14\<rparr> \<and> length r = 20 \<and>
    rfc1071 (pseudo_header dst_ip guest_ip IP_PROTO_TCP 20 @ r) = 0"
proof (intro conjI)
  note r = assms(3) [unfolded build_tcp_rst_for_syn_def build_tcp_def Let_def]
  show len: "length r = 20" by (simp add: r)
  show "parse_tcp r = Some \<lparr>tcp_src_port = dst_port, tcp_dst_port = guest_port, tcp_seq = 0, tcp_ack = syn_seq + 1,
      tcp_hdr_len = length r, tcp_flags = 0x14\<rparr>"
    unfolding len by (simp add: r parse_tcp_def slice_simps nth_append)
  let ?h = "put_be16 dst_port @ put_be16 guest_port @ put_be32 0 @ put_be32 (syn_seq + 1) @ [0x50, 0x04 OR 0x10] @ put_be16 0"
  let ?a = "pseudo_header dst_ip guest_ip IP_PROTO_TCP 20 @ ?h"
  have c: "checksum16 avx2 [pseudo_header dst_ip guest_ip IP_PROTO_TCP 20, ?h @ [0, 0, 0, 0]] = rfc1071 (?a @ [0, 0] @ [0, 0])"
    using assms(1,2) by (subst checksum16_eq) (simp_all add: pseudo_header_def)
  have "even (length ?a)" using assms(1,2) by (simp add: pseudo_header_def)
  from rfc1071_verifies [OF this, of "[0, 0]"] show "rfc1071 (pseudo_header dst_ip guest_ip IP_PROTO_TCP 20 @ r) = 0"
    unfolding c [symmetric] by (simp add: r)
qed

end
