(* ===== verification/Pic8259.thy ===== *)
theory Pic8259
  imports Port_Buses
begin

text \<open>
  The 8259A pair (\<^verbatim>\<open>src/devices/pic.rs\<close>): request latching, priority, the INTA cycle, the
  initialisation state machine behind the command and data ports, and the snapshot image. Every
  method that may call \<^verbatim>\<open>notify\<close> returns whether it did. The mutex makes each method one
  atomic step.
\<close>

section \<open>State\<close>

abbreviation ICW1_IS_INIT :: u8 where "ICW1_IS_INIT \<equiv> 0x10"
abbreviation ICW1_IC4 :: u8 where "ICW1_IC4 \<equiv> 0x01"
abbreviation CASCADE_IRQ :: nat where "CASCADE_IRQ \<equiv> 2"

datatype icw_step = Idle | Icw2 | Icw3 | Icw4

record chip =
  vector_base :: u8
  irq_mask :: u8
  irr :: u8
  expect_icw4 :: bool
  icw :: icw_step

definition chip_default :: chip where
  "chip_default = \<lparr>vector_base = 0, irq_mask = 0xFF, irr = 0, expect_icw4 = False, icw = Idle\<rparr>"

record pic =
  master :: chip
  slave :: chip

definition pic_new :: pic where
  "pic_new = \<lparr>master = chip_default, slave = chip_default\<rparr>"

definition pic_chip :: "bool \<Rightarrow> pic \<Rightarrow> chip" where
  "pic_chip is_slave p = (if is_slave then slave p else master p)"

definition set_chip :: "bool \<Rightarrow> chip \<Rightarrow> pic \<Rightarrow> pic" where
  "set_chip is_slave c p = (if is_slave then p\<lparr>slave := c\<rparr> else p\<lparr>master := c\<rparr>)"

section \<open>Requests\<close>

definition trailing_zeros8 :: "u8 \<Rightarrow> nat" where
  "trailing_zeros8 x = (case find (bit x) [0..<8] of Some i \<Rightarrow> i | None \<Rightarrow> 8)"

text \<open>The loop of \<^verbatim>\<open>highest\<close> over the master inputs that are left.\<close>

fun highest_loop :: "pic \<Rightarrow> nat list \<Rightarrow> (bool \<times> nat) option" where
  "highest_loop p [] = None"
| "highest_loop p (irq # irqs) =
     (let m = irr (master p) AND NOT (irq_mask (master p));
          s = irr (slave p) AND NOT (irq_mask (slave p))
      in if irq = CASCADE_IRQ \<and> irq_mask (master p) AND push_bit CASCADE_IRQ 1 = 0 \<and> s \<noteq> 0
         then Some (True, trailing_zeros8 s)
         else if m AND push_bit irq 1 \<noteq> 0 then Some (False, irq)
         else highest_loop p irqs)"

definition highest :: "pic \<Rightarrow> (bool \<times> nat) option" where
  "highest p = highest_loop p [0..<8]"

definition pic_raise :: "int \<Rightarrow> pic \<Rightarrow> pic \<times> bool" where
  "pic_raise irq p =
     (if \<not> (0 \<le> irq \<and> irq \<le> 15) then (p, False)
      else let c = pic_chip (8 \<le> irq) p;
               p' = set_chip (8 \<le> irq) (c\<lparr>irr := irr c OR push_bit (nat irq mod 8) 1\<rparr>) p
           in (p', highest p' \<noteq> None))"

definition output_pending :: "pic \<Rightarrow> bool" where
  "output_pending p \<longleftrightarrow> highest p \<noteq> None"

definition acknowledge :: "pic \<Rightarrow> pic \<times> u8 option" where
  "acknowledge p = (case highest p of
     None \<Rightarrow> (p, None)
   | Some (is_slave, irq) \<Rightarrow>
       let c = pic_chip is_slave p
       in (set_chip is_slave (c\<lparr>irr := irr c AND NOT (push_bit irq 1)\<rparr>) p, Some (vector_base c + of_nat irq)))"

section \<open>The ports\<close>

definition handle_chip :: "bool \<Rightarrow> bool \<Rightarrow> io_access \<Rightarrow> pic \<Rightarrow> pic \<times> io_access \<times> bool" where
  "handle_chip is_slave cmd_port acc p =
     (let c = pic_chip is_slave p
      in if \<not> is_write acc
         then (p, acc\<lparr>io_value := ucast (if cmd_port then irr c else irq_mask c)\<rparr>, False)
         else let v = ucast (io_value acc AND 0xFF) :: u8
              in if cmd_port
                 then if v AND ICW1_IS_INIT \<noteq> 0
                      then (set_chip is_slave (c\<lparr>expect_icw4 := v AND ICW1_IC4 \<noteq> 0, irq_mask := 0xFF, irr := 0, icw := Icw2\<rparr>) p, acc, False)
                      else (p, acc, False)
                 else (case icw c of
                     Icw2 \<Rightarrow> (set_chip is_slave (c\<lparr>vector_base := v AND 0xF8, icw := Icw3\<rparr>) p, acc, False)
                   | Icw3 \<Rightarrow> (set_chip is_slave (c\<lparr>icw := if expect_icw4 c then Icw4 else Idle\<rparr>) p, acc, False)
                   | Icw4 \<Rightarrow> (set_chip is_slave (c\<lparr>icw := Idle\<rparr>) p, acc, False)
                   | Idle \<Rightarrow>
                       let newly_unmasked = irq_mask c AND NOT v;
                           p' = set_chip is_slave (c\<lparr>irq_mask := v\<rparr>) p
                       in (p', acc, newly_unmasked \<noteq> 0 \<and> highest p' \<noteq> None)))"

definition pic_handle :: "bool \<Rightarrow> io_access \<Rightarrow> pic \<Rightarrow> pic \<times> io_access \<times> bool" where
  "pic_handle is_slave acc p = handle_chip is_slave (port acc = 0x20 \<or> port acc = 0xA0) acc p"

section \<open>Snapshot\<close>

definition step_byte :: "icw_step \<Rightarrow> u8" where
  "step_byte s = (case s of Idle \<Rightarrow> 0 | Icw2 \<Rightarrow> 1 | Icw3 \<Rightarrow> 2 | Icw4 \<Rightarrow> 3)"

definition byte_step :: "u8 \<Rightarrow> icw_step" where
  "byte_step b = (if b = 1 then Icw2 else if b = 2 then Icw3 else if b = 3 then Icw4 else Idle)"

definition chip_bytes :: "chip \<Rightarrow> bytes" where
  "chip_bytes c = [vector_base c, irq_mask c, irr c, if expect_icw4 c then 1 else 0, step_byte (icw c)]"

definition pic_snapshot_capture :: "pic \<Rightarrow> bytes" where
  "pic_snapshot_capture p = chip_bytes (master p) @ chip_bytes (slave p)"

definition bytes_chip :: "bytes \<Rightarrow> nat \<Rightarrow> chip" where
  "bytes_chip b off = \<lparr>vector_base = b ! off, irq_mask = b ! (off + 1), irr = b ! (off + 2),
     expect_icw4 = (b ! (off + 3) \<noteq> 0), icw = byte_step (b ! (off + 4))\<rparr>"

definition pic_snapshot_apply :: "bytes \<Rightarrow> pic \<Rightarrow> pic" where
  "pic_snapshot_apply b p = (if length b < 10 then p else \<lparr>master = bytes_chip b 0, slave = bytes_chip b 5\<rparr>)"

section \<open>Priority\<close>

text \<open>The reference: the inputs in priority order, and which of them assert the output.\<close>

definition pic_inputs :: "(bool \<times> nat) list" where
  "pic_inputs = map (Pair False) [0, 1] @ map (Pair True) [0..<8] @ map (Pair False) [2..<8]"

definition requesting :: "pic \<Rightarrow> bool \<times> nat \<Rightarrow> bool" where
  "requesting p x \<longleftrightarrow>
     (if fst x then bit (irr (slave p)) (snd x) \<and> \<not> bit (irq_mask (slave p)) (snd x) \<and> \<not> bit (irq_mask (master p)) CASCADE_IRQ
      else bit (irr (master p)) (snd x) \<and> \<not> bit (irq_mask (master p)) (snd x))"

definition pic_vector :: "pic \<Rightarrow> bool \<times> nat \<Rightarrow> u8" where
  "pic_vector p x = vector_base (pic_chip (fst x) p) + of_nat (snd x)"

lemma and_4: "(x :: u8) AND 4 = 0 \<longleftrightarrow> \<not> bit x CASCADE_IRQ"
  using and_exp_eq_0_iff_not_bit [of x 2] by simp

lemma find_bits_zero: "(x :: u8) = 0 \<longleftrightarrow> find (bit x) [0..<8] = None"
proof -
  have "x = 0 \<longleftrightarrow> (\<forall>i < 8. \<not> bit x i)"
    by (auto intro: bit_word_eqI)
  then show ?thesis by (auto simp: find_None_iff)
qed

lemma find_map_Pair: "find P (map (Pair b) xs) = map_option (Pair b) (find (\<lambda>i. P (b, i)) xs)"
  by (induction xs) auto

lemma highest_loop_masters:
  assumes "\<forall>i \<in> set irqs. i < 8 \<and> i \<noteq> CASCADE_IRQ"
  shows "highest_loop p (irqs @ rest) =
    (case find (requesting p) (map (Pair False) irqs) of Some x \<Rightarrow> Some x | None \<Rightarrow> highest_loop p rest)"
  using assms
  by (induction irqs) (auto simp: Let_def and_exp_eq_0_iff_not_bit requesting_def bit_and_iff bit_not_iff)

lemma find_slave:
  "find (requesting p) (map (Pair True) [0..<8]) =
    (if bit (irq_mask (master p)) CASCADE_IRQ \<or> irr (slave p) AND NOT (irq_mask (slave p)) = 0 then None
     else Some (True, trailing_zeros8 (irr (slave p) AND NOT (irq_mask (slave p)))))"
proof -
  let ?s = "irr (slave p) AND NOT (irq_mask (slave p))"
  have eq: "find (\<lambda>i. requesting p (True, i)) [0..<8] =
      (if bit (irq_mask (master p)) CASCADE_IRQ then None else find (bit ?s) [0..<8])"
    by (cases "bit (irq_mask (master p)) CASCADE_IRQ")
      (auto simp: requesting_def find_None_iff bit_and_iff bit_not_iff intro!: find_cong)
  show ?thesis
    unfolding find_map_Pair eq using find_bits_zero [of ?s]
    by (auto simp: trailing_zeros8_def split: option.split)
qed

lemma highest_find: "highest p = find (requesting p) pic_inputs"
proof -
  have split: "[0..<8] = [0, 1] @ 2 # ([3..<8] @ [])" by (simp add: upt_rec)
  have inputs: "pic_inputs = map (Pair False) [0, 1] @ map (Pair True) [0..<8] @ (False, 2) # map (Pair False) [3..<8]"
    by (simp add: pic_inputs_def upt_rec [of 2])
  have two: "highest_loop p (2 # rest) =
      (case find (requesting p) (map (Pair True) [0..<8]) of Some x \<Rightarrow> Some x
       | None \<Rightarrow> if requesting p (False, 2) then Some (False, 2) else highest_loop p rest)" for rest
    unfolding find_slave by (simp add: Let_def requesting_def bit_and_iff bit_not_iff and_4)
  have lo: "highest_loop p [0..<8] = (case find (requesting p) (map (Pair False) [0, 1]) of
      Some x \<Rightarrow> Some x | None \<Rightarrow> highest_loop p (2 # ([3..<8] @ [])))"
    unfolding split by (rule highest_loop_masters) simp
  have hi: "highest_loop p ([3..<8] @ []) = (case find (requesting p) (map (Pair False) [3..<8]) of
      Some x \<Rightarrow> Some x | None \<Rightarrow> highest_loop p [])"
    by (rule highest_loop_masters) auto
  show ?thesis
    unfolding highest_def lo two hi inputs find_append find.simps highest_loop.simps(1) by (simp split: option.split)
qed

section \<open>Draining\<close>

primrec ack_times :: "nat \<Rightarrow> pic \<Rightarrow> u8 list" where
  "ack_times 0 p = []"
| "ack_times (Suc n) p = (case acknowledge p of (p', None) \<Rightarrow> [] | (p', Some v) \<Rightarrow> v # ack_times n p')"

lemma distinct_inputs: "distinct pic_inputs" and inputs_bound: "x \<in> set pic_inputs \<Longrightarrow> snd x < 8"
  by (auto simp: pic_inputs_def distinct_map inj_on_def)

lemma requesting_ack:
  assumes "i < 8" and "x \<in> set pic_inputs"
    and "p' = set_chip b ((pic_chip b p)\<lparr>irr := irr (pic_chip b p) AND NOT (push_bit i 1)\<rparr>) p"
  shows "requesting p' x \<longleftrightarrow> requesting p x \<and> x \<noteq> (b, i)" and "pic_vector p' y = pic_vector p y"
proof -
  have "bit (w AND NOT (2 ^ i) :: u8) j \<longleftrightarrow> bit w j \<and> j \<noteq> i" if "j < 8" for w j
    using that by (auto simp: bit_simps)
  then show "requesting p' x \<longleftrightarrow> requesting p x \<and> x \<noteq> (b, i)"
    using inputs_bound [OF assms(2)] assms(3) by (cases x) (auto simp: requesting_def set_chip_def pic_chip_def)
  show "pic_vector p' y = pic_vector p y"
    using assms(3) by (simp add: pic_vector_def set_chip_def pic_chip_def)
qed

lemma find_filter: "find P xs = (case filter P xs of [] \<Rightarrow> None | x # _ \<Rightarrow> Some x)"
  by (induction xs) auto

lemma filter_remove_first:
  "distinct xs \<Longrightarrow> filter P xs = x # ys \<Longrightarrow> filter (\<lambda>y. P y \<and> y \<noteq> x) xs = ys"
  by (induction xs) (auto split: if_splits intro: filter_cong simp: filter_id_conv)

lemma ack_times_drains:
  "length (filter (requesting p) pic_inputs) \<le> n \<Longrightarrow>
   ack_times n p = map (pic_vector p) (filter (requesting p) pic_inputs)"
proof (induction n arbitrary: p)
  case 0
  then show ?case by simp
next
  case (Suc n)
  show ?case
  proof (cases "filter (requesting p) pic_inputs")
    case Nil
    then show ?thesis by (simp add: acknowledge_def highest_find find_filter)
  next
    case (Cons x xs)
    obtain b i where x: "x = (b, i)" by fastforce
    have "x \<in> set pic_inputs" using Cons by (metis filter_is_subset list.set_intros(1) subsetD)
    then have i: "i < 8" using inputs_bound x by fastforce
    let ?p = "set_chip b ((pic_chip b p)\<lparr>irr := irr (pic_chip b p) AND NOT (push_bit i 1)\<rparr>) p"
    note r = requesting_ack [OF i _ refl, of _ b p]
    have "filter (requesting ?p) pic_inputs = filter (\<lambda>y. requesting p y \<and> y \<noteq> x) pic_inputs"
      unfolding x by (rule filter_cong [OF refl]) (rule r(1))
    also have "\<dots> = xs" by (rule filter_remove_first [OF distinct_inputs Cons])
    finally have f: "filter (requesting ?p) pic_inputs = xs" .
    have "acknowledge p = (?p, Some (pic_vector p x))"
      by (simp add: acknowledge_def highest_find find_filter Cons x Let_def pic_vector_def)
    moreover have "ack_times n ?p = map (pic_vector ?p) xs" using Suc f Cons by simp
    moreover have "pic_vector ?p = pic_vector p" by (rule ext) (simp add: pic_vector_def set_chip_def pic_chip_def)
    ultimately show ?thesis using Cons by simp
  qed
qed

section \<open>Properties\<close>

text \<open>
  C39. The INTA cycle delivers what is pending, in priority order, each request once: acknowledging
  until the output drops yields the vectors (ICW2 base plus input) of exactly the unmasked latched
  requests, master 0 and 1 first, then the slave's eight at the cascade input if that is unmasked,
  then master 2 to 7. Sixteen acknowledges always suffice.
\<close>

theorem pic_drains_in_priority_order:
  "ack_times 16 p = map (pic_vector p) (filter (requesting p) pic_inputs)"
proof (rule ack_times_drains)
  have "length (filter (requesting p) pic_inputs) \<le> length pic_inputs" by (rule length_filter_le)
  then show "length (filter (requesting p) pic_inputs) \<le> 16" by (simp add: pic_inputs_def)
qed

lemma output_pending_iff: "output_pending p \<longleftrightarrow> (\<exists>x \<in> set pic_inputs. requesting p x)"
  by (auto simp: output_pending_def highest_find find_None_iff)

lemma requesting_mono:
  assumes "\<And>b i. i < 8 \<Longrightarrow> bit (irr (pic_chip b p')) i \<Longrightarrow> bit (irr (pic_chip b p)) i"
    and "\<And>b i. i < 8 \<Longrightarrow> bit (irq_mask (pic_chip b p)) i \<Longrightarrow> bit (irr (pic_chip b p')) i \<Longrightarrow> bit (irq_mask (pic_chip b p')) i"
    and "bit (irq_mask (master p)) 2 \<Longrightarrow> bit (irq_mask (master p')) 2"
    and "output_pending p'"
  shows "output_pending p"
proof -
  from assms(4) obtain x where x: "x \<in> set pic_inputs" "requesting p' x" by (auto simp: output_pending_iff)
  then have "requesting p x"
    using assms(1) [of "snd x" "fst x"] assms(2) [of "snd x" "fst x"] assms(3) inputs_bound [OF x(1)]
    by (auto simp: requesting_def pic_chip_def split: if_splits)
  with x show ?thesis by (auto simp: output_pending_iff)
qed

lemma subset_mask:
  assumes "(m :: u8) AND NOT v = 0" and "bit m i"
  shows "bit v i"
proof -
  have "bit (m AND NOT v) i = bit (0 :: u8) i" using assms(1) by simp
  with assms(2) show ?thesis by (auto simp: bit_simps dest: bit_imp_le_length)
qed

lemma handle_pending:
  assumes "pic_handle b acc p = (p', acc', False)" and "output_pending p'"
  shows "output_pending p"
proof (rule requesting_mono [OF _ _ _ assms(2)])
  note h = assms(1) [unfolded pic_handle_def handle_chip_def Let_def]
  have masked: "bit (0xFF :: u8) i" if "i < 8" for i
    using that bit_mask_iff [where 'a = u8, of 8 i] by (simp add: mask_numeral)
  have idle: "bit v i" if "m AND NOT v = 0" "bit m i" for m v :: u8 and i using that by (rule subset_mask)
  show "bit (irr (pic_chip c p')) i \<Longrightarrow> bit (irr (pic_chip c p)) i" for c i
    using h by (auto simp: set_chip_def pic_chip_def split: if_splits icw_step.splits)
  show "i < 8 \<Longrightarrow> bit (irq_mask (pic_chip c p)) i \<Longrightarrow> bit (irr (pic_chip c p')) i \<Longrightarrow> bit (irq_mask (pic_chip c p')) i" for c i
    using h assms(2) masked
    by (auto simp: set_chip_def pic_chip_def output_pending_def split: if_splits icw_step.splits dest: idle)
  show "bit (irq_mask (master p)) 2 \<Longrightarrow> bit (irq_mask (master p')) 2"
    using h assms(2) masked [of 2]
    by (auto simp: set_chip_def pic_chip_def output_pending_def split: if_splits icw_step.splits dest: idle)
qed

text \<open>
  C33. No assertion of the INT output goes unannounced: whenever raising an IRQ or a port access
  takes the output from idle to asserted, \<^verbatim>\<open>notify\<close> is called, so the BSP is kicked. Raising
  latches the request whether or not it is masked.
\<close>

theorem pic_edge_notifies:
  "(case pic_raise irq p of (p', notified) \<Rightarrow>
      (output_pending p' \<and> \<not> output_pending p \<longrightarrow> notified) \<and>
      (0 \<le> irq \<and> irq \<le> 15 \<longrightarrow> bit (irr (pic_chip (8 \<le> irq) p')) (nat irq mod 8))) \<and>
   (case pic_handle b acc p of (p', acc', notified) \<Rightarrow> output_pending p' \<and> \<not> output_pending p \<longrightarrow> notified)"
proof -
  have "bit (w OR 2 ^ (nat irq mod 8) :: u8) (nat irq mod 8)" for w by (simp add: bit_simps)
  then have "case pic_raise irq p of (p', notified) \<Rightarrow> (output_pending p' \<and> \<not> output_pending p \<longrightarrow> notified) \<and>
      (0 \<le> irq \<and> irq \<le> 15 \<longrightarrow> bit (irr (pic_chip (8 \<le> irq) p')) (nat irq mod 8))"
    by (auto simp: pic_raise_def Let_def output_pending_def pic_chip_def set_chip_def)
  moreover have "case pic_handle b acc p of (p', acc', notified) \<Rightarrow> output_pending p' \<and> \<not> output_pending p \<longrightarrow> notified"
  proof -
    obtain p' acc' n where h: "pic_handle b acc p = (p', acc', n)" by (metis prod_cases3)
    show ?thesis using handle_pending [of b acc p p' acc'] h by (cases n) auto
  qed
  ultimately show ?thesis ..
qed

theorem pic_edge_notifies_witness:
  "snd (snd (pic_handle False \<lparr>port = 0x21, access_size = 1, is_write = True, io_value = 0xEF\<rparr>
     (fst (pic_raise 4 pic_new))))"
proof -
  let ?a = "\<lparr>port = 0x21, access_size = 1, is_write = True, io_value = 0xEF\<rparr>"
  let ?p = "fst (pic_raise 4 pic_new)"
  have "output_pending (fst (pic_handle False ?a ?p))" "\<not> output_pending ?p" by code_simp+
  with pic_edge_notifies [of ?p 4 False ?a] show ?thesis by (auto split: prod.splits)
qed

definition pic_out :: "bool \<Rightarrow> u16 \<Rightarrow> u8 \<Rightarrow> pic \<Rightarrow> pic" where
  "pic_out b pt v p = fst (pic_handle b \<lparr>port = pt, access_size = 1, is_write = True, io_value = ucast v\<rparr> p)"

text \<open>The effect of a write on the addressed chip alone.\<close>

definition chip_write :: "bool \<Rightarrow> u8 \<Rightarrow> chip \<Rightarrow> chip" where
  "chip_write cmd v c =
     (if cmd then (if v AND ICW1_IS_INIT \<noteq> 0
                   then c\<lparr>expect_icw4 := v AND ICW1_IC4 \<noteq> 0, irq_mask := 0xFF, irr := 0, icw := Icw2\<rparr> else c)
      else case icw c of
        Icw2 \<Rightarrow> c\<lparr>vector_base := v AND 0xF8, icw := Icw3\<rparr>
      | Icw3 \<Rightarrow> c\<lparr>icw := if expect_icw4 c then Icw4 else Idle\<rparr>
      | Icw4 \<Rightarrow> c\<lparr>icw := Idle\<rparr>
      | Idle \<Rightarrow> c\<lparr>irq_mask := v\<rparr>)"

lemma pic_chip_set [simp]: "pic_chip b (set_chip b c p) = c" "pic_chip (\<not> b) (set_chip b c p) = pic_chip (\<not> b) p"
  by (simp_all add: pic_chip_def set_chip_def)

lemma pic_out_chip:
  "pic_chip b (pic_out b pt v p) = chip_write (pt = 0x20 \<or> pt = 0xA0) v (pic_chip b p)"
  "pic_chip (\<not> b) (pic_out b pt v p) = pic_chip (\<not> b) p"
  by (simp_all add: pic_out_def pic_handle_def handle_chip_def chip_write_def Let_def split: icw_step.split)

text \<open>
  The initialisation sequence works from every state: ICW1 with IC4, the vector base, two
  more words and a mask leave the chip idle with that base (low three bits cleared), that mask
  and no latched request, the other chip untouched; and a snapshot restores any state.
\<close>

lemma pic_init_from_any_state:
  "pic_chip b (pic_out b 0x21 m (pic_out b 0x21 1 (pic_out b 0x21 w (pic_out b 0x21 base (pic_out b 0x20 0x11 p))))) =
     \<lparr>vector_base = base AND 0xF8, irq_mask = m, irr = 0, expect_icw4 = True, icw = Idle\<rparr> \<and>
   pic_chip (\<not> b) (pic_out b 0x21 m (pic_out b 0x21 1 (pic_out b 0x21 w (pic_out b 0x21 base (pic_out b 0x20 0x11 p))))) =
     pic_chip (\<not> b) p \<and>
   pic_snapshot_apply (pic_snapshot_capture p @ rest) q = p"
proof (intro conjI)
  show "pic_chip b (pic_out b 0x21 m (pic_out b 0x21 1 (pic_out b 0x21 w (pic_out b 0x21 base (pic_out b 0x20 0x11 p))))) =
     \<lparr>vector_base = base AND 0xF8, irq_mask = m, irr = 0, expect_icw4 = True, icw = Idle\<rparr>"
    unfolding pic_out_chip by (simp add: chip_write_def)
  show "pic_chip (\<not> b) (pic_out b 0x21 m (pic_out b 0x21 1 (pic_out b 0x21 w (pic_out b 0x21 base (pic_out b 0x20 0x11 p))))) =
     pic_chip (\<not> b) p"
    unfolding pic_out_chip ..
  have "byte_step (step_byte s) = s" for s by (cases s) (simp_all add: byte_step_def step_byte_def)
  then show "pic_snapshot_apply (pic_snapshot_capture p @ rest) q = p"
    by (simp add: pic_snapshot_apply_def pic_snapshot_capture_def chip_bytes_def bytes_chip_def)
qed

end
