(* ===== verification/Pit8254.thy ===== *)
theory Pit8254
  imports Port_Buses
begin

text \<open>
  The 8254 interval timer and system control port B (\<^verbatim>\<open>src/devices/pit.rs\<close>): three counters that
  are read against the host clock, the control word with its latch and read-back commands, the byte
  sequencing of counter accesses, port \<^verbatim>\<open>0x61\<close>, and the snapshot image. The host clock is
  the argument \<open>now\<close> of every operation, in ticks of the timer.
\<close>

section \<open>State\<close>

abbreviation PIT_HZ :: nat where "PIT_HZ \<equiv> 1193182"

datatype access_mode = Latch | LsbOnly | MsbOnly | LsbThenMsb

definition access_from_bits :: "u8 \<Rightarrow> access_mode" where
  "access_from_bits b = (let x = b AND 0x3
     in if x = 0 then Latch else if x = 1 then LsbOnly else if x = 2 then MsbOnly else LsbThenMsb)"

record channel =
  access :: access_mode
  ch_mode :: u8
  reload :: u16
  reload_have_lsb :: bool
  reload_lsb :: u8
  read_msb_next :: bool
  latch_valid :: bool
  latched :: u16
  latched_msb_next :: bool
  gate :: bool
  start_ticks :: u64
  ch_running :: bool

definition channel_default :: channel where
  "channel_default = \<lparr>access = LsbThenMsb, ch_mode = 0, reload = 0, reload_have_lsb = False, reload_lsb = 0,
     read_msb_next = False, latch_valid = False, latched = 0, latched_msb_next = False, gate = False,
     start_ticks = 0, ch_running = False\<rparr>"

record pit =
  ch :: "channel list"
  port61 :: u8

definition pit_new :: pit where
  "pit_new = \<lparr>ch = [channel_default\<lparr>gate := True\<rparr>, channel_default\<lparr>gate := True\<rparr>, channel_default\<lparr>gate := False\<rparr>],
              port61 = 0\<rparr>"

text \<open>The clock: the nanoseconds since the device was made, at the rate of the timer.\<close>

definition now_ticks :: "nat \<Rightarrow> u64" where
  "now_ticks elapsed_nanos = of_nat (elapsed_nanos * PIT_HZ div 1000000000)"

section \<open>Counters\<close>

definition read_count :: "channel \<Rightarrow> u64 \<Rightarrow> u16" where
  "read_count c now =
     (if \<not> ch_running c \<or> \<not> gate c then reload c
      else let elapsed = now - start_ticks c;
               rl = (if reload c = 0 then 0x10000 else ucast (reload c)) :: u32
           in if ch_mode c = 0
              then if ucast rl \<le> elapsed then 0 else ucast (rl - ucast elapsed)
              else let pos = ucast (elapsed mod ucast rl) :: u32
                   in ucast (rl - pos))"

definition latch_count :: "u64 \<Rightarrow> channel \<Rightarrow> channel" where
  "latch_count now c = c\<lparr>latched := read_count c now, latch_valid := True, latched_msb_next := False\<rparr>"

definition program_channel :: "u64 \<Rightarrow> nat \<Rightarrow> u8 \<Rightarrow> pit \<Rightarrow> pit" where
  "program_channel now i cw p =
     (let c = ch p ! i; acc = access_from_bits (drop_bit 4 (cw AND 0x30))
      in if acc = Latch then p\<lparr>ch := (ch p)[i := latch_count now c]\<rparr>
         else p\<lparr>ch := (ch p)[i := c\<lparr>access := acc, ch_mode := drop_bit 1 (cw AND 0x0E), reload_have_lsb := False,
                reload_lsb := 0, read_msb_next := False, latch_valid := False, ch_running := False\<rparr>]\<rparr>)"

definition read_back :: "u64 \<Rightarrow> u8 \<Rightarrow> pit \<Rightarrow> pit" where
  "read_back now cw p =
     fold (\<lambda>(i, m) q. if cw AND m \<noteq> 0 then q\<lparr>ch := (ch q)[i := latch_count now (ch q ! i)]\<rparr> else q)
       [(0, 0x02), (1, 0x04), (2, 0x08)] p"

definition handle_control :: "u64 \<Rightarrow> io_access \<Rightarrow> pit \<Rightarrow> pit \<times> io_access" where
  "handle_control now acc p =
     (if \<not> is_write acc then (p, acc\<lparr>io_value := 0xFF\<rparr>)
      else let cw = ucast (io_value acc AND 0xFF) :: u8;
               sel = unat (drop_bit 6 (cw AND 0xC0))
           in (if sel = 3 then read_back now cw p else program_channel now sel cw p, acc))"

definition counter_write :: "u64 \<Rightarrow> u8 \<Rightarrow> channel \<Rightarrow> channel" where
  "counter_write now b c = (case access c of
     LsbOnly \<Rightarrow> c\<lparr>reload := (reload c AND 0xFF00) OR ucast b, start_ticks := now, ch_running := True\<rparr>
   | MsbOnly \<Rightarrow> c\<lparr>reload := (reload c AND 0x00FF) OR push_bit 8 (ucast b), start_ticks := now, ch_running := True\<rparr>
   | LsbThenMsb \<Rightarrow>
       if \<not> reload_have_lsb c then c\<lparr>reload_lsb := b, reload_have_lsb := True\<rparr>
       else c\<lparr>reload := ucast (reload_lsb c) OR push_bit 8 (ucast b), reload_have_lsb := False,
              start_ticks := now, ch_running := True\<rparr>
   | Latch \<Rightarrow> c)"

definition counter_read :: "u64 \<Rightarrow> channel \<Rightarrow> channel \<times> u8" where
  "counter_read now c =
     (let from_latch = latch_valid c;
          val = if from_latch then latched c else read_count c now
      in case access c of
           LsbOnly \<Rightarrow> (c, ucast (val AND 0xFF))
         | MsbOnly \<Rightarrow> (c, ucast (drop_bit 8 val AND 0xFF))
         | LsbThenMsb \<Rightarrow>
             let msb_next = if from_latch then latched_msb_next c else read_msb_next c;
                 c' = if from_latch then c\<lparr>latched_msb_next := \<not> msb_next\<rparr> else c\<lparr>read_msb_next := \<not> msb_next\<rparr>
             in if \<not> msb_next then (c', ucast (val AND 0xFF))
                else (if from_latch then c'\<lparr>latch_valid := False\<rparr> else c', ucast (drop_bit 8 val AND 0xFF))
         | Latch \<Rightarrow> (c, 0xFF))"

definition handle_counter :: "u64 \<Rightarrow> nat \<Rightarrow> io_access \<Rightarrow> pit \<Rightarrow> pit \<times> io_access" where
  "handle_counter now i acc p =
     (if is_write acc
      then (p\<lparr>ch := (ch p)[i := counter_write now (ucast (io_value acc AND 0xFF)) (ch p ! i)]\<rparr>, acc)
      else case counter_read now (ch p ! i) of
             (c, out) \<Rightarrow> (p\<lparr>ch := (ch p)[i := c]\<rparr>, acc\<lparr>io_value := ucast out\<rparr>))"

definition handle_port61 :: "u64 \<Rightarrow> io_access \<Rightarrow> pit \<Rightarrow> pit \<times> io_access" where
  "handle_port61 now acc p =
     (let c = ch p ! 2
      in if is_write acc
         then let b = ucast (io_value acc AND 0xFF) :: u8;
                  new_gate = (b AND 0x01 \<noteq> 0);
                  c' = if new_gate = gate c then c
                       else if new_gate \<and> ch_running c then c\<lparr>gate := new_gate, start_ticks := now\<rparr>
                       else c\<lparr>gate := new_gate\<rparr>
              in (p\<lparr>port61 := b AND 0x0F, ch := (ch p)[2 := c']\<rparr>, acc)
         else let v = port61 p AND 0x03;
                  cnt = read_count c now;
                  v' = if ch_mode c = 0 \<and> ch_running c \<and> cnt = 0 then v OR 0x20 else v
              in (p, acc\<lparr>io_value := ucast v'\<rparr>))"

text \<open>The handlers that \<^verbatim>\<open>attach\<close> registers, by port.\<close>

definition pit_access :: "u64 \<Rightarrow> io_access \<Rightarrow> pit \<Rightarrow> pit \<times> io_access" where
  "pit_access now acc p =
     (if port acc = 0x43 then handle_control now acc p
      else if port acc = 0x61 then handle_port61 now acc p
      else handle_counter now (unat (port acc - 0x40)) acc p)"

section \<open>Snapshot\<close>

definition access_byte :: "access_mode \<Rightarrow> u8" where
  "access_byte a = (case a of Latch \<Rightarrow> 0 | LsbOnly \<Rightarrow> 1 | MsbOnly \<Rightarrow> 2 | LsbThenMsb \<Rightarrow> 3)"

abbreviation bool_byte :: "bool \<Rightarrow> u8" where "bool_byte b \<equiv> (if b then 1 else 0)"

definition channel_bytes :: "u64 \<Rightarrow> channel \<Rightarrow> bytes" where
  "channel_bytes now c =
     [access_byte (access c), ch_mode c] @ le16 (reload c) @
     [bool_byte (reload_have_lsb c), reload_lsb c, bool_byte (read_msb_next c), bool_byte (latch_valid c)] @
     le16 (latched c) @
     [bool_byte (latched_msb_next c), bool_byte (gate c), bool_byte (ch_running c)] @
     le64 (if ch_running c then now - start_ticks c else 0)"

definition pit_snapshot_capture :: "u64 \<Rightarrow> pit \<Rightarrow> bytes" where
  "pit_snapshot_capture now p = port61 p # concat (map (channel_bytes now) (ch p))"

definition bytes_channel :: "u64 \<Rightarrow> bytes \<Rightarrow> nat \<Rightarrow> channel" where
  "bytes_channel now b off = \<lparr>access = access_from_bits (b ! off AND 0x3), ch_mode = b ! (off + 1),
     reload = from_le16 [b ! (off + 2), b ! (off + 3)], reload_have_lsb = (b ! (off + 4) \<noteq> 0),
     reload_lsb = b ! (off + 5), read_msb_next = (b ! (off + 6) \<noteq> 0), latch_valid = (b ! (off + 7) \<noteq> 0),
     latched = from_le16 [b ! (off + 8), b ! (off + 9)], latched_msb_next = (b ! (off + 10) \<noteq> 0),
     gate = (b ! (off + 11) \<noteq> 0), start_ticks = now - from_le64 (byte_range b (off + 13) 8),
     ch_running = (b ! (off + 12) \<noteq> 0)\<rparr>"

abbreviation PER_CH :: nat where "PER_CH \<equiv> 21"

definition pit_snapshot_apply :: "u64 \<Rightarrow> bytes \<Rightarrow> pit \<Rightarrow> pit" where
  "pit_snapshot_apply now b p =
     (if length b < 1 + 3 * PER_CH then p
      else \<lparr>ch = map (\<lambda>i. bytes_channel now b (1 + i * PER_CH)) [0..<3], port61 = b ! 0\<rparr>)"

section \<open>The count as arithmetic\<close>

text \<open>
  What a counter shows \<open>e\<close> ticks after its reload value was written: a reload of 0 counts
  \<open>2^16\<close>; mode 0 stops at zero, the other modes start over.
\<close>

definition counter_value :: "nat \<Rightarrow> nat \<Rightarrow> nat \<Rightarrow> nat" where
  "counter_value m r e =
     (let n = if r = 0 then 65536 else r in (if m = 0 then n - e else n - e mod n) mod 65536)"

lemma unat_ucast_u32_u16: "unat (ucast (w :: u32) :: u16) = unat w mod 65536"
  by (simp add: unsigned_ucast_eq take_bit_eq_mod)

lemma read_count_value:
  assumes "ch_running c" and "gate c"
  shows "unat (read_count c now) = counter_value (unat (ch_mode c)) (unat (reload c)) (unat (now - start_ticks c))"
proof -
  define rl :: u32 where "rl = (if reload c = 0 then 0x10000 else ucast (reload c))"
  define n where "n = (if unat (reload c) = 0 then 65536 else unat (reload c))"
  define e where "e = now - start_ticks c"
  have rl: "unat rl = n" by (simp add: rl_def n_def unat_ucast_up unat_eq_zero)
  have n: "0 < n" "n \<le> 65536" using unat_lt [of "reload c"] by (auto simp: n_def)
  have rl64: "unat (ucast rl :: u64) = n" by (simp add: unat_ucast_up rl)
  have sub: "unat (ucast (rl - ucast w) :: u16) = (n - unat w) mod 65536" if "unat w < n" for w :: u64
  proof -
    have w: "unat (ucast w :: u32) = unat w" using that n by (intro unat_ucast_down) simp
    then have "unat (rl - ucast w) = n - unat w"
      using that rl by (subst unat_sub) (simp_all add: word_le_nat_alt)
    then show ?thesis by (simp add: unat_ucast_u32_u16)
  qed
  have mod: "unat (e mod ucast rl) = unat e mod n" by (simp add: unat_mod rl64)
  have "unat (e mod ucast rl) < n" unfolding mod using n by simp
  from sub [OF this] have wrap: "unat (ucast (rl - ucast (e mod ucast rl)) :: u16) = (n - unat e mod n) mod 65536"
    by (simp add: mod)
  have zero: "unat (ch_mode c) = 0 \<longleftrightarrow> ch_mode c = 0" by (simp add: unat_eq_zero)
  have "read_count c now = (if ch_mode c = 0 then if ucast rl \<le> e then 0 else ucast (rl - ucast e)
      else ucast (rl - ucast (e mod ucast rl)))"
    using assms by (simp add: read_count_def rl_def e_def Let_def)
  moreover have "ucast rl \<le> e \<longleftrightarrow> n \<le> unat e" by (simp add: word_le_nat_alt rl64)
  ultimately show ?thesis
    using sub [of e] wrap zero n by (simp add: counter_value_def Let_def n_def [symmetric] e_def [symmetric] not_le)
qed

lemma split_u16:
  "unat (ucast (v AND 0xFF) :: u8) + 256 * unat (ucast (drop_bit 8 v AND 0xFF) :: u8) = unat (v :: u16)"
proof -
  have "unat v < 65536" using unat_lt [of v] by simp
  then show ?thesis by (simp add: unsigned_ucast_eq take_bit_eq_mod unat_drop_bit)
qed

lemma join_u16: "unat (ucast (lo :: u8) OR push_bit 8 (ucast (hi :: u8)) :: u16) = unat lo + 256 * unat hi"
proof -
  have "unat lo < 256" "unat hi < 256" using unat_lt [of lo] unat_lt [of hi] by simp_all
  then show ?thesis by (subst unat_or_push_bit) (simp_all add: unat_ucast_up)
qed

section \<open>Accesses of the guest\<close>

abbreviation out_byte :: "u16 \<Rightarrow> u8 \<Rightarrow> io_access" where
  "out_byte pt v \<equiv> \<lparr>port = pt, access_size = 1, is_write = True, io_value = ucast v\<rparr>"

abbreviation in_byte :: "u16 \<Rightarrow> io_access" where
  "in_byte pt \<equiv> \<lparr>port = pt, access_size = 1, is_write = False, io_value = 0\<rparr>"

definition pit_out :: "u64 \<Rightarrow> u16 \<Rightarrow> u8 \<Rightarrow> pit \<Rightarrow> pit" where
  "pit_out now pt v p = fst (pit_access now (out_byte pt v) p)"

definition pit_in :: "u64 \<Rightarrow> u16 \<Rightarrow> pit \<Rightarrow> pit \<times> u8" where
  "pit_in now pt p = (case pit_access now (in_byte pt) p of (p', acc) \<Rightarrow> (p', ucast (io_value acc)))"

definition pit_port :: "nat \<Rightarrow> u16" where
  "pit_port i = 0x40 + of_nat i"

lemma pit_port_apart:
  assumes "i < 3"
  shows "pit_port i \<noteq> 0x43" "pit_port i \<noteq> 0x61" "unat (pit_port i - 0x40) = i"
  using assms by (auto simp: pit_port_def numeral_3_eq_3 less_Suc_eq)

lemma pit_counter_out:
  "i < 3 \<Longrightarrow> pit_out now (pit_port i) v p = p\<lparr>ch := (ch p)[i := counter_write now v (ch p ! i)]\<rparr>"
  by (simp add: pit_out_def pit_access_def handle_counter_def pit_port_apart)

lemma pit_counter_in:
  "i < 3 \<Longrightarrow> pit_in now (pit_port i) p =
     (case counter_read now (ch p ! i) of (c, out) \<Rightarrow> (p\<lparr>ch := (ch p)[i := c]\<rparr>, out))"
  by (simp add: pit_in_def pit_access_def handle_counter_def pit_port_apart split: prod.split)

lemma pit_control_out:
  "i < 3 \<Longrightarrow> unat (drop_bit 6 cw) = i \<Longrightarrow> pit_out now 0x43 cw p = program_channel now i cw p"
proof -
  assume i: "i < 3" "unat (drop_bit 6 cw) = i"
  have "drop_bit 6 (cw AND 0xC0) = drop_bit 6 cw"
  proof (rule bit_word_eqI)
    fix k
    have "bit cw (6 + k) \<Longrightarrow> k < 2" using bit_imp_le_length [of cw "6 + k"] by simp
    then show "bit (drop_bit 6 (cw AND 0xC0)) k = bit (drop_bit 6 cw) k"
      by (auto simp: bit_simps less_2_cases_iff)
  qed
  with i show ?thesis by (simp add: pit_out_def pit_access_def handle_control_def Let_def)
qed

section \<open>Reading a latched count\<close>

lemma program_both:
  assumes "cw AND 0x30 = 0x30"
  shows "program_channel now i cw p = p\<lparr>ch := (ch p)[i := (ch p ! i)\<lparr>access := LsbThenMsb, ch_mode := drop_bit 1 (cw AND 0x0E),
    reload_have_lsb := False, reload_lsb := 0, read_msb_next := False, latch_valid := False, ch_running := False\<rparr>]\<rparr>"
  using assms by (simp add: program_channel_def access_from_bits_def)

lemma program_latch:
  "cw AND 0x30 = 0 \<Longrightarrow> program_channel now i cw p = p\<lparr>ch := (ch p)[i := latch_count now (ch p ! i)]\<rparr>"
  by (simp add: program_channel_def access_from_bits_def)

text \<open>Two reads of a latched 16-bit counter give the latched value and release the latch.\<close>

lemma latched_pair:
  assumes "access c = LsbThenMsb" "latch_valid c" "\<not> latched_msb_next c"
  shows "counter_read t c = (c\<lparr>latched_msb_next := True\<rparr>, ucast (latched c AND 0xFF))"
    and "counter_read t (c\<lparr>latched_msb_next := True\<rparr>) = (c\<lparr>latched_msb_next := False, latch_valid := False\<rparr>, ucast (drop_bit 8 (latched c) AND 0xFF))"
  using assms by (simp_all add: counter_read_def)

text \<open>
  A counter is programmed, read and latched as on the hardware: after a control word with
  two-byte access, the two reload bytes at \<open>t2\<close> and a latch command at \<open>t3\<close>, the next two reads give
  the low and the high byte of the count at \<open>t3\<close>, whenever they happen: the reload value less the
  ticks since \<open>t2\<close>, stopping at zero in mode 0 and starting over in the other modes. The latch is
  then released and no other counter has changed.
\<close>

lemma pit_latched_read:
  assumes "length (ch p) = 3" and "i < 3" and "gate (ch p ! i)"
    and "unat (drop_bit 6 cw) = i" and "cw AND 0x30 = 0x30"
  shows "case pit_in t4 (pit_port i) (pit_out t3 0x43 (push_bit 6 (of_nat i)) (pit_out t2 (pit_port i) hi
           (pit_out t1 (pit_port i) lo (pit_out t0 0x43 cw p)))) of (p4, b0) \<Rightarrow>
         case pit_in t5 (pit_port i) p4 of (p5, b1) \<Rightarrow>
           unat b0 + 256 * unat b1 =
             counter_value (unat (drop_bit 1 (cw AND 0x0E))) (unat lo + 256 * unat hi) (unat (t3 - t2)) \<and>
           \<not> latch_valid (ch p5 ! i) \<and> (\<forall>j < 3. j \<noteq> i \<longrightarrow> ch p5 ! j = ch p ! j)"
proof -
  define c where "c = (ch p ! i)\<lparr>access := LsbThenMsb, ch_mode := drop_bit 1 (cw AND 0x0E), read_msb_next := False,
    latch_valid := False, reload_lsb := lo, reload := ucast lo OR push_bit 8 (ucast hi), reload_have_lsb := False,
    start_ticks := t2, ch_running := True\<rparr>"
  define l :: u8 where "l = push_bit 6 (of_nat i)"
  have l: "unat (drop_bit 6 l) = i" "l AND 0x30 = 0"
    using assms(2) by (auto simp: l_def numeral_3_eq_3 less_Suc_eq)
  have "pit_out t2 (pit_port i) hi (pit_out t1 (pit_port i) lo (pit_out t0 0x43 cw p)) = p\<lparr>ch := (ch p)[i := c]\<rparr>"
    using assms by (simp add: pit_counter_out pit_control_out program_both counter_write_def c_def)
  then have "pit_out t3 0x43 l (pit_out t2 (pit_port i) hi (pit_out t1 (pit_port i) lo (pit_out t0 0x43 cw p))) =
      p\<lparr>ch := (ch p)[i := latch_count t3 c]\<rparr>"
    using assms(1,2) l by (simp add: pit_control_out program_latch)
  moreover have "unat (read_count c t3) =
      counter_value (unat (drop_bit 1 (cw AND 0x0E))) (unat lo + 256 * unat hi) (unat (t3 - t2))"
    using assms(3) by (subst read_count_value) (simp_all add: c_def join_u16)
  moreover have "access (latch_count t3 c) = LsbThenMsb" "latch_valid (latch_count t3 c)"
      "\<not> latched_msb_next (latch_count t3 c)" "latched (latch_count t3 c) = read_count c t3"
    by (simp_all add: latch_count_def c_def)
  ultimately show ?thesis
    using assms(1,2) split_u16 [of "read_count c t3"]
    unfolding l_def [symmetric] by (simp add: pit_counter_in latched_pair)
qed

section \<open>The states a guest can reach\<close>

text \<open>
  No guest access puts a channel in the state \<^verbatim>\<open>AccessMode::Latch\<close>, in which reads give
  \<^verbatim>\<open>0xff\<close> and writes are dropped, nor gives it a mode past 7 or port \<^verbatim>\<open>0x61\<close> a bit past 3.
\<close>

definition channel_ok :: "channel \<Rightarrow> bool" where
  "channel_ok c \<longleftrightarrow> access c \<noteq> Latch \<and> ch_mode c \<le> 7"

definition pit_ok :: "pit \<Rightarrow> bool" where
  "pit_ok p \<longleftrightarrow> length (ch p) = 3 \<and> list_all channel_ok (ch p) \<and> port61 p \<le> 0x0F"

definition pit_ports :: "u16 list" where
  "pit_ports = [0x40, 0x41, 0x42, 0x43, 0x61]"

lemma pit_ok_update [inv_intros]:
  assumes "pit_ok p" and "i < 3" and "channel_ok (ch p ! i) \<Longrightarrow> channel_ok c"
  shows "pit_ok (p\<lparr>ch := (ch p)[i := c]\<rparr>)"
  using assms by (auto simp: pit_ok_def list_all_length nth_list_update)

lemma channel_ok_latch [inv_intros]: "channel_ok c \<Longrightarrow> channel_ok (latch_count now c)"
  by (simp add: channel_ok_def latch_count_def)

lemma channel_ok_write [inv_intros]: "channel_ok c \<Longrightarrow> channel_ok (counter_write now b c)"
  by (auto simp: channel_ok_def counter_write_def split: access_mode.split)

lemma channel_ok_read [inv_intros]: "channel_ok c \<Longrightarrow> channel_ok (fst (counter_read now c))"
  by (auto simp: channel_ok_def counter_read_def Let_def split: access_mode.split)

lemma pit_ok_program [inv_intros]: "pit_ok p \<Longrightarrow> i < 3 \<Longrightarrow> pit_ok (program_channel now i cw p)"
  unfolding program_channel_def Let_def
  by (auto intro!: pit_ok_update channel_ok_latch) (simp add: channel_ok_def word_and_le1)

lemma pit_ok_read_back [inv_intros]: "pit_ok p \<Longrightarrow> pit_ok (read_back now cw p)"
proof -
  have "list_all (\<lambda>(i, m). i < 3) ms \<Longrightarrow> pit_ok p \<Longrightarrow>
      pit_ok (fold (\<lambda>(i, m) q. if cw AND m \<noteq> 0 then q\<lparr>ch := (ch q)[i := latch_count now (ch q ! i)]\<rparr> else q) ms p)" for ms p
  proof (induction ms arbitrary: p)
    case (Cons x ms)
    obtain i m where x: "x = (i, m)" by (cases x)
    have "pit_ok (p\<lparr>ch := (ch p)[i := latch_count now (ch p ! i)]\<rparr>)"
      using Cons.prems unfolding x by (intro pit_ok_update channel_ok_latch) simp_all
    with Cons show ?case by (simp add: x)
  qed simp
  from this [of "[(0, 0x02), (1, 0x04), (2, 0x08)]"] show "pit_ok p \<Longrightarrow> pit_ok (read_back now cw p)"
    unfolding read_back_def by (simp only: list.pred_inject split_conv) simp
qed

lemma pit_ok_control [inv_intros]: "pit_ok p \<Longrightarrow> pit_ok (fst (handle_control now acc p))"
proof -
  assume p: "pit_ok p"
  have "unat (drop_bit 6 (ucast (io_value acc)) AND 3 :: u8) \<le> 3"
    using word_and_le1 [of "drop_bit 6 (ucast (io_value acc))" "3 :: u8"] by (simp add: word_le_nat_alt)
  with p show ?thesis by (auto simp: handle_control_def Let_def intro!: pit_ok_read_back pit_ok_program)
qed

lemma pit_ok_access:
  assumes "pit_ok p" and "port acc \<in> set pit_ports"
  shows "pit_ok (fst (pit_access now acc p))"
proof -
  have c2: "channel_ok (ch p ! 2)" "length (ch p) = 3" "port61 p \<le> 0x0F"
    using assms(1) by (auto simp: pit_ok_def list_all_length)
  have le: "b AND 0x0F \<le> (0x0F :: u8)" for b by (rule word_and_le1)
  have "pit_ok (fst (handle_port61 now acc p))"
  proof -
    have *: "pit_ok (p\<lparr>port61 := b AND 0x0F, ch := (ch p)[2 := c]\<rparr>)" "pit_ok (p\<lparr>port61 := b AND 0x0F\<rparr>)"
      if "channel_ok c" for b c
      using pit_ok_update [OF assms(1), of 2 c] assms(1) that le by (simp_all add: pit_ok_def)
    show ?thesis using assms(1) c2 unfolding handle_port61_def Let_def
      by (auto intro!: *(1) *(2) [OF c2(1)] simp: channel_ok_def)
  qed
  moreover have "pit_ok (fst (handle_counter now i acc p))" if "i < 3" for i
    using assms(1) that channel_ok_write channel_ok_read
    by (auto simp: handle_counter_def split: prod.split intro!: pit_ok_update) (metis fst_conv)
  moreover have "unat (port acc - 0x40) < 3" if "port acc \<noteq> 0x43" "port acc \<noteq> 0x61"
    using assms(2) that by (auto simp: pit_ports_def)
  ultimately show ?thesis using pit_ok_control [OF assms(1)] by (auto simp: pit_access_def)
qed

text \<open>
  C40. Whatever the guest does to the five ports of the timer, in any order and at any times, each
  channel stays in one of the three access modes that move bytes, with a mode of at most 7, and
  port \<^verbatim>\<open>0x61\<close> keeps only its low four bits.
\<close>

theorem pit_reachable_ok:
  assumes "list_all (\<lambda>(now, acc). port acc \<in> set pit_ports) accs"
  shows "pit_ok (fold (\<lambda>(now, acc) p. fst (pit_access now acc p)) accs pit_new)"
proof -
  have "pit_ok p \<Longrightarrow> pit_ok (fold (\<lambda>(now, acc) p. fst (pit_access now acc p)) accs p)" for p
    using assms by (induction accs arbitrary: p) (auto intro: pit_ok_access)
  moreover have "pit_ok pit_new" by code_simp
  ultimately show ?thesis .
qed

theorem pit_reachable_ok_witness:
  "pit_ok (fold (\<lambda>(now, acc) p. fst (pit_access now acc p))
     [(5, out_byte 0x43 0xC2), (6, in_byte 0x40), (7, out_byte 0x61 0xFF)] pit_new)"
  by (rule pit_reachable_ok) (simp add: pit_ports_def)

section \<open>Snapshots keep time\<close>

lemma access_byte_back: "access_from_bits (access_byte a) = a" "access_from_bits (access_byte a AND 3) = a"
  by (cases a; simp add: access_from_bits_def access_byte_def)+

lemma length_channel_bytes [simp]: "length (channel_bytes now c) = PER_CH"
  by (simp add: channel_bytes_def)

lemma le16_two: "from_le16 [le16 w ! 0, le16 w ! Suc 0] = w"
proof -
  have "[le16 w ! 0, le16 w ! Suc 0] = le16 w" by (intro nth_equalityI) (auto simp: less_Suc_eq numeral_2_eq_2)
  then show ?thesis by simp
qed

lemma channel_fields:
  fixes t :: u64 and c :: channel and rest :: bytes
  defines "b \<equiv> channel_bytes t c @ rest"
  shows "b ! 0 = access_byte (access c)" "b ! 1 = ch_mode c" "from_le16 [b ! 2, b ! 3] = reload c"
    "b ! 4 = bool_byte (reload_have_lsb c)" "b ! 5 = reload_lsb c" "b ! 6 = bool_byte (read_msb_next c)"
    "b ! 7 = bool_byte (latch_valid c)" "from_le16 [b ! 8, b ! 9] = latched c"
    "b ! 10 = bool_byte (latched_msb_next c)" "b ! 11 = bool_byte (gate c)" "b ! 12 = bool_byte (ch_running c)"
    "byte_range b 13 8 = le64 (if ch_running c then t - start_ticks c else 0)"
  unfolding b_def channel_bytes_def
  by (simp_all add: nth_append le16_two [simplified] slice_simps)

lemma bytes_channel_back:
  "bytes_channel t' (pre @ channel_bytes t c @ rest) (length pre) =
     c\<lparr>start_ticks := if ch_running c then t' - (t - start_ticks c) else t'\<rparr>"
proof -
  let ?b = "channel_bytes t c @ rest"
  have shift: "(pre @ ?b) ! (length pre + k) = ?b ! k" "(pre @ ?b) ! length pre = ?b ! 0"
      "byte_range (pre @ ?b) (length pre + k) 8 = byte_range ?b k 8" for k
    by (simp_all add: nth_append slice_simps)
  show ?thesis unfolding bytes_channel_def shift channel_fields
    by (simp add: access_byte_back)
qed

lemma pit_restore:
  assumes "length (ch p) = 3"
  shows "pit_snapshot_apply t' (pit_snapshot_capture t p @ rest) q =
    p\<lparr>ch := map (\<lambda>c. c\<lparr>start_ticks := if ch_running c then t' - (t - start_ticks c) else t'\<rparr>) (ch p)\<rparr>"
proof -
  obtain c0 c1 c2 where c: "ch p = [c0, c1, c2]" using assms by (auto simp: numeral_3_eq_3 length_Suc_conv)
  have up: "[0..<3] = [0, 1, 2 :: nat]" by (simp add: upt_rec)
  have b: "pit_snapshot_capture t p @ rest = [port61 p] @ channel_bytes t c0 @ channel_bytes t c1 @ channel_bytes t c2 @ rest"
    "pit_snapshot_capture t p @ rest = ([port61 p] @ channel_bytes t c0) @ channel_bytes t c1 @ channel_bytes t c2 @ rest"
    "pit_snapshot_capture t p @ rest = ([port61 p] @ channel_bytes t c0 @ channel_bytes t c1) @ channel_bytes t c2 @ rest"
    by (simp_all add: pit_snapshot_capture_def c)
  have "bytes_channel t' (pit_snapshot_capture t p @ rest) 1 = c0\<lparr>start_ticks := if ch_running c0 then t' - (t - start_ticks c0) else t'\<rparr>"
    using bytes_channel_back [of t' "[port61 p]" t c0] unfolding b(1) by simp
  moreover have "bytes_channel t' (pit_snapshot_capture t p @ rest) 22 = c1\<lparr>start_ticks := if ch_running c1 then t' - (t - start_ticks c1) else t'\<rparr>"
    using bytes_channel_back [of t' "[port61 p] @ channel_bytes t c0" t c1] unfolding b(2) by simp
  moreover have "bytes_channel t' (pit_snapshot_capture t p @ rest) 43 = c2\<lparr>start_ticks := if ch_running c2 then t' - (t - start_ticks c2) else t'\<rparr>"
    using bytes_channel_back [of t' "[port61 p] @ channel_bytes t c0 @ channel_bytes t c1" t c2] unfolding b(3) by simp
  moreover have "\<not> length (pit_snapshot_capture t p @ rest) < 64" unfolding b(1) by simp
  moreover have "(pit_snapshot_capture t p @ rest) ! 0 = port61 p" unfolding b(1) by simp
  ultimately show ?thesis unfolding pit_snapshot_apply_def up
    by (simp add: c)
qed

text \<open>
  A snapshot keeps time across hosts: restored at \<open>t'\<close> from an image taken at \<open>t\<close>, whatever the
  two clocks read, every channel has the registers it had and shows, \<open>d\<close> ticks later, the count the
  original would have shown \<open>d\<close> ticks after the image was taken.
\<close>

lemma pit_snapshot_keeps_time:
  assumes "length (ch p) = 3"
  shows "let q = pit_snapshot_apply t' (pit_snapshot_capture t p @ rest) q0
         in port61 q = port61 p \<and> length (ch q) = 3 \<and>
            (\<forall>i < 3. read_count (ch q ! i) (t' + d) = read_count (ch p ! i) (t + d) \<and>
                     (ch q ! i)\<lparr>start_ticks := start_ticks (ch p ! i)\<rparr> = ch p ! i)"
proof -
  have "read_count (c\<lparr>start_ticks := if ch_running c then t' - (t - start_ticks c) else t'\<rparr>) (t' + d) = read_count c (t + d)" for c
    by (simp add: read_count_def algebra_simps)
  with assms show ?thesis by (simp add: pit_restore Let_def)
qed

section \<open>Deviations\<close>

text \<open>
  A latched channel in one-byte access mode never releases its latch: reading it changes nothing and
  gives the same byte at every later time, although the hardware releases the latch on the read.
\<close>

lemma one_byte_latch_sticks:
  assumes "latch_valid c" and "access c \<in> {LsbOnly, MsbOnly}"
  shows "counter_read t c = (c, snd (counter_read t' c))"
  using assms by (auto simp: counter_read_def)

text \<open>Port \<^verbatim>\<open>0x61\<close> shows OUT2 high at the very tick a full \<open>2^16\<close> count starts in mode 0.\<close>

lemma out2_high_at_start:
  "ch_mode c = 0 \<Longrightarrow> ch_running c \<Longrightarrow> gate c \<Longrightarrow> reload c = 0 \<Longrightarrow> read_count c (start_ticks c) = 0"
  by (simp add: read_count_def)

end
