(* ===== verification/Serial8250.thy ===== *)
theory Serial8250
  imports Port_Buses
begin

text \<open>
  The transmit side of a 16550 UART (\<^verbatim>\<open>src/devices/serial.rs\<close>), the guest's early console. Every
  access returns, beside the new state and the access, the bytes it wrote to the host's standard
  output and whether it called the IRQ callback; \<open>has_irq\<close> says whether a callback was set.
\<close>

section \<open>State and operations\<close>

abbreviation LCR_DLAB :: u8 where "LCR_DLAB \<equiv> 0x80"
abbreviation IER_ETBEI :: u8 where "IER_ETBEI \<equiv> 0x02"
abbreviation LSR_ALWAYS_READY :: u8 where "LSR_ALWAYS_READY \<equiv> 0x60"
abbreviation IIR_NO_INTR :: u8 where "IIR_NO_INTR \<equiv> 0x01"
abbreviation IIR_THRE_INTR :: u8 where "IIR_THRE_INTR \<equiv> 0x02"
abbreviation MSR_DEFAULT :: u8 where "MSR_DEFAULT \<equiv> 0xB0"

record serial =
  ser_base :: u16
  ier :: u8
  lcr :: u8
  mcr :: u8
  scr :: u8
  fcr :: u8
  dll :: u8
  dlm :: u8
  tx_irq_pending :: bool
  tx_bytes :: u64

definition serial_new :: "u16 \<Rightarrow> serial" where
  "serial_new base_port = \<lparr>ser_base = base_port, ier = 0, lcr = 0, mcr = 0, scr = 0, fcr = 0, dll = 0, dlm = 0,
     tx_irq_pending = False, tx_bytes = 0\<rparr>"

text \<open>The new state and whether the callback ran.\<close>

definition maybe_raise_tx_irq :: "bool \<Rightarrow> serial \<Rightarrow> serial \<times> bool" where
  "maybe_raise_tx_irq has_irq s =
     (if \<not> has_irq then (s, False)
      else if ier s AND IER_ETBEI = 0 \<or> tx_irq_pending s then (s, False)
      else (s\<lparr>tx_irq_pending := True\<rparr>, True))"

definition serial_write_reg :: "bool \<Rightarrow> io_access \<Rightarrow> serial \<Rightarrow> serial \<times> bytes \<times> bool" where
  "serial_write_reg has_irq acc s =
     (let off = port acc - ser_base s;
          v = ucast (io_value acc AND 0xFF) :: u8;
          dlab = (lcr s AND LCR_DLAB \<noteq> 0)
      in if off = 0
         then if dlab then (s\<lparr>dll := v\<rparr>, [], False)
              else (case maybe_raise_tx_irq has_irq (s\<lparr>tx_bytes := tx_bytes s + 1\<rparr>) of (s', r) \<Rightarrow> (s', [v], r))
         else if off = 1
         then if dlab then (s\<lparr>dlm := v\<rparr>, [], False)
              else let s1 = s\<lparr>ier := v\<rparr>;
                       (s2, r) = if ier s AND IER_ETBEI = 0 \<and> v AND IER_ETBEI \<noteq> 0
                                 then maybe_raise_tx_irq has_irq s1 else (s1, False)
                   in (if v AND IER_ETBEI = 0 then s2\<lparr>tx_irq_pending := False\<rparr> else s2, [], r)
         else if off = 2 then (s\<lparr>fcr := v\<rparr>, [], False)
         else if off = 3 then (s\<lparr>lcr := v\<rparr>, [], False)
         else if off = 4 then (s\<lparr>mcr := v\<rparr>, [], False)
         else if off = 7 then (s\<lparr>scr := v\<rparr>, [], False)
         else (s, [], False))"

definition serial_read_reg :: "io_access \<Rightarrow> serial \<Rightarrow> serial \<times> u8" where
  "serial_read_reg acc s =
     (let off = port acc - ser_base s;
          dlab = (lcr s AND LCR_DLAB \<noteq> 0)
      in if off = 0 \<and> dlab then (s, dll s)
         else if off = 1 then (s, if dlab then dlm s else ier s)
         else if off = 2
         then if tx_irq_pending s then (s\<lparr>tx_irq_pending := False\<rparr>, IIR_THRE_INTR) else (s, IIR_NO_INTR)
         else if off = 3 then (s, lcr s)
         else if off = 4 then (s, mcr s)
         else if off = 5 then (s, LSR_ALWAYS_READY)
         else if off = 6 then (s, MSR_DEFAULT)
         else if off = 7 then (s, scr s)
         else (s, 0))"

definition serial_handle :: "bool \<Rightarrow> io_access \<Rightarrow> serial \<Rightarrow> serial \<times> io_access \<times> bytes \<times> bool" where
  "serial_handle has_irq acc s =
     (if is_write acc then (case serial_write_reg has_irq acc s of (s', out, r) \<Rightarrow> (s', acc, out, r))
      else (case serial_read_reg acc s of (s', v) \<Rightarrow> (s', acc\<lparr>io_value := ucast v\<rparr>, [], False)))"

definition serial_snapshot_capture :: "serial \<Rightarrow> bytes" where
  "serial_snapshot_capture s =
     [ier s, lcr s, mcr s, scr s, fcr s, dll s, dlm s, if tx_irq_pending s then 1 else 0] @ le64 (tx_bytes s)"

definition serial_snapshot_apply :: "bytes \<Rightarrow> serial \<Rightarrow> serial" where
  "serial_snapshot_apply b s =
     (if length b < 16 then s
      else s\<lparr>ier := b ! 0, lcr := b ! 1, mcr := b ! 2, scr := b ! 3, fcr := b ! 4, dll := b ! 5, dlm := b ! 6,
             tx_irq_pending := (b ! 7 \<noteq> 0), tx_bytes := from_le64 (byte_range b 8 8)\<rparr>)"

section \<open>A run of the device\<close>

text \<open>A sequence of accesses: the final state, what the console received, how often IRQ 4 was raised.\<close>

fun serial_run :: "bool \<Rightarrow> io_access list \<Rightarrow> serial \<Rightarrow> serial \<times> bytes \<times> nat" where
  "serial_run has_irq [] s = (s, [], 0)"
| "serial_run has_irq (acc # accs) s =
     (case serial_handle has_irq acc s of (s1, acc1, out, r) \<Rightarrow>
      case serial_run has_irq accs s1 of (s2, out2, n) \<Rightarrow> (s2, out @ out2, (if r then 1 else 0) + n))"

text \<open>
  The two ways the guest takes a raised interrupt back: the read of IIR that reports it, and the
  write of IER that turns the transmit interrupt off while one is pending.
\<close>

definition retires :: "io_access \<Rightarrow> serial \<Rightarrow> bool" where
  "retires acc s \<longleftrightarrow> tx_irq_pending s \<and>
     (if is_write acc then port acc - ser_base s = 1 \<and> lcr s AND LCR_DLAB = 0 \<and> ucast (io_value acc) AND IER_ETBEI = (0 :: u8)
      else port acc - ser_base s = 2)"

fun retired :: "bool \<Rightarrow> io_access list \<Rightarrow> serial \<Rightarrow> nat" where
  "retired has_irq [] s = 0"
| "retired has_irq (acc # accs) s =
     (if retires acc s then 1 else 0) + retired has_irq accs (fst (serial_handle has_irq acc s))"

text \<open>The bytes a sequence of accesses sends: those written to offset 0 while DLAB is clear.\<close>

fun transmitted :: "u16 \<Rightarrow> u8 \<Rightarrow> io_access list \<Rightarrow> bytes" where
  "transmitted base lc [] = []"
| "transmitted base lc (acc # accs) =
     (if is_write acc \<and> port acc = base + 3 then transmitted base (ucast (io_value acc)) accs
      else (if is_write acc \<and> port acc = base \<and> lc AND LCR_DLAB = 0 then [ucast (io_value acc)] else [])
           @ transmitted base lc accs)"

definition serial_ok :: "bool \<Rightarrow> serial \<Rightarrow> bool" where
  "serial_ok has_irq s \<longleftrightarrow> (tx_irq_pending s \<longrightarrow> has_irq \<and> ier s AND IER_ETBEI \<noteq> 0)"

lemma serial_handle_ok [inv_intros]:
  assumes "serial_ok has_irq s"
  shows "serial_ok has_irq (fst (serial_handle has_irq acc s))"
  using assms by (auto simp: serial_ok_def serial_handle_def serial_write_reg_def serial_read_reg_def
      maybe_raise_tx_irq_def Let_def split: if_splits prod.splits)

lemma serial_handle_step:
  assumes "serial_handle has_irq acc s = (s', acc', out, r)"
  shows "ser_base s' = ser_base s"
    and "lcr s' = (if is_write acc \<and> port acc = ser_base s + 3 then ucast (io_value acc) else lcr s)"
    and "out = (if is_write acc \<and> port acc = ser_base s \<and> lcr s AND LCR_DLAB = 0 then [ucast (io_value acc)] else [])"
    and "tx_bytes s' = tx_bytes s + of_nat (length out)"
proof -
  have off: "port acc - ser_base s = k \<longleftrightarrow> port acc = ser_base s + k" for k by (auto simp: algebra_simps)
  note defs = serial_handle_def serial_write_reg_def serial_read_reg_def maybe_raise_tx_irq_def Let_def off
  show "ser_base s' = ser_base s"
    using assms by (auto simp: defs split: if_splits prod.splits)
  show "lcr s' = (if is_write acc \<and> port acc = ser_base s + 3 then ucast (io_value acc) else lcr s)"
    using assms by (auto simp: defs split: if_splits prod.splits)
  show "out = (if is_write acc \<and> port acc = ser_base s \<and> lcr s AND LCR_DLAB = 0 then [ucast (io_value acc)] else [])"
    using assms by (auto simp: defs split: if_splits prod.splits)
  show "tx_bytes s' = tx_bytes s + of_nat (length out)"
    using assms by (auto simp: defs split: if_splits prod.splits)
qed

lemma serial_handle_balance:
  assumes "serial_ok has_irq s" and "serial_handle has_irq acc s = (s', acc', out, r)"
  shows "of_bool (tx_irq_pending s) + of_bool r = of_bool (tx_irq_pending s') + (of_bool (retires acc s) :: nat)"
  using assms by (auto simp: serial_ok_def retires_def serial_handle_def serial_write_reg_def serial_read_reg_def
      maybe_raise_tx_irq_def Let_def split: if_splits prod.splits)

lemma serial_run_console:
  "serial_run has_irq accs s = (s', out, n) \<Longrightarrow>
   out = transmitted (ser_base s) (lcr s) accs \<and> tx_bytes s' = tx_bytes s + of_nat (length out) \<and> ser_base s' = ser_base s"
proof (induction accs arbitrary: s s' out n)
  case (Cons acc accs)
  obtain s1 acc1 o1 r where h: "serial_handle has_irq acc s = (s1, acc1, o1, r)" by (metis prod_cases4)
  obtain o2 n2 where r2: "serial_run has_irq accs s1 = (s', o2, n2)" "out = o1 @ o2"
    using Cons.prems h by (auto split: prod.splits)
  note step = serial_handle_step [OF h]
  have o1: "o1 = []" if "is_write acc" "port acc = ser_base s + 3" using step(3) that by simp
  show ?case using Cons.IH [OF r2(1)] step(1,2,4) o1 r2(2) by (auto simp: step(3) algebra_simps)
qed simp

lemma serial_run_interrupts:
  "serial_ok has_irq s \<Longrightarrow> serial_run has_irq accs s = (s', out, n) \<Longrightarrow>
   serial_ok has_irq s' \<and> of_bool (tx_irq_pending s) + n = retired has_irq accs s + of_bool (tx_irq_pending s')"
proof (induction accs arbitrary: s s' out n)
  case (Cons acc accs)
  obtain s1 acc1 o1 r where h: "serial_handle has_irq acc s = (s1, acc1, o1, r)" by (metis prod_cases4)
  obtain o2 n2 where r2: "serial_run has_irq accs s1 = (s', o2, n2)" "n = (if r then 1 else 0) + n2"
    using Cons.prems h by (auto split: prod.splits)
  have "serial_ok has_irq s1" using serial_handle_ok [OF Cons.prems(1), of acc] h by simp
  from Cons.IH [OF this r2(1)] serial_handle_balance [OF Cons.prems(1) h] show ?case
    by (auto simp: h r2(2) of_bool_def split: if_splits)
qed simp

text \<open>
  The serial console delivers and signals: over any sequence of accesses from reset, standard
  output receives exactly the bytes written to the transmit register while DLAB was clear, in
  order, and \<^verbatim>\<open>tx_bytes\<close> counts them; IRQ 4 is raised once for every report the guest takes back,
  plus the one still pending; and with the transmit interrupt enabled, sending a byte leaves one
  pending, so an interrupt-driven writer is never left waiting.
\<close>

lemma serial_delivers_and_signals:
  assumes "serial_run has_irq accs (serial_new base) = (s, out, n)"
  shows "out = transmitted base 0 accs \<and> tx_bytes s = of_nat (length out) \<and>
    n = retired has_irq accs (serial_new base) + (if tx_irq_pending s then 1 else 0) \<and>
    (has_irq \<and> ier s AND IER_ETBEI \<noteq> 0 \<and> lcr s AND LCR_DLAB = 0 \<longrightarrow>
       tx_irq_pending (fst (serial_handle has_irq
         \<lparr>port = base, access_size = 1, is_write = True, io_value = v\<rparr> s)))"
proof -
  have new: "serial_ok has_irq (serial_new base)" "ser_base (serial_new base) = base" "lcr (serial_new base) = 0"
      "\<not> tx_irq_pending (serial_new base)" "tx_bytes (serial_new base) = 0"
    by (simp_all add: serial_ok_def serial_new_def)
  show ?thesis
    using serial_run_console [OF assms] serial_run_interrupts [OF new(1) assms] new
    by (auto simp: of_bool_def serial_handle_def serial_write_reg_def maybe_raise_tx_irq_def Let_def)
qed

text \<open>A snapshot restores every register, on a device at the same base.\<close>

lemma serial_snapshot_roundtrip:
  "ser_base q = ser_base s \<Longrightarrow> serial_snapshot_apply (serial_snapshot_capture s @ rest) q = s"
  by (simp add: serial_snapshot_apply_def serial_snapshot_capture_def slice_simps)

end
