(* ===== verification/Legacy_Isa.thy ===== *)
theory Legacy_Isa
  imports Port_Buses
begin

text \<open>
  The ISA stubs (\<^verbatim>\<open>src/devices/legacy.rs\<close>): the CMOS clock behind ports \<^verbatim>\<open>0x70\<close> and
  \<^verbatim>\<open>0x71\<close>, the POST port and system control port A. The host clock is the argument \<open>now\<close>, in
  seconds since 1970 (\<open>SystemTime::now\<close>). Days and years are natural numbers here: the largest day
  number is \<open>2^64 div 86400\<close>, so none of the \<^verbatim>\<open>u64\<close> operations on them wraps.
\<close>

section \<open>Calendar and registers\<close>

definition bcd :: "u8 \<Rightarrow> u8" where
  "bcd v = push_bit 4 (v div 10) OR (v mod 10)"

definition civil_from_days :: "nat \<Rightarrow> nat \<times> u8 \<times> u8" where
  "civil_from_days days =
     (let z = days + 719468;
          era = z div 146097;
          doe = z mod 146097;
          yoe = (doe - doe div 1460 + doe div 36524 - doe div 146096) div 365;
          doy = doe - (365 * yoe + yoe div 4 - yoe div 100);
          mp = (5 * doy + 2) div 153;
          day = of_nat (doy - (153 * mp + 2) div 5 + 1);
          month = of_nat (if mp < 10 then mp + 3 else mp - 9) :: u8
      in (era * 400 + yoe + (if month \<le> 2 then 1 else 0), month, day))"

abbreviation CMOS_SECONDS :: u8 where "CMOS_SECONDS \<equiv> 0x00"
abbreviation CMOS_MINUTES :: u8 where "CMOS_MINUTES \<equiv> 0x02"
abbreviation CMOS_HOURS :: u8 where "CMOS_HOURS \<equiv> 0x04"
abbreviation CMOS_DAY_OF_WEEK :: u8 where "CMOS_DAY_OF_WEEK \<equiv> 0x06"
abbreviation CMOS_DAY_OF_MONTH :: u8 where "CMOS_DAY_OF_MONTH \<equiv> 0x07"
abbreviation CMOS_MONTH :: u8 where "CMOS_MONTH \<equiv> 0x08"
abbreviation CMOS_YEAR :: u8 where "CMOS_YEAR \<equiv> 0x09"
abbreviation CMOS_STATUS_A :: u8 where "CMOS_STATUS_A \<equiv> 0x0A"
abbreviation CMOS_STATUS_B :: u8 where "CMOS_STATUS_B \<equiv> 0x0B"
abbreviation CMOS_STATUS_D :: u8 where "CMOS_STATUS_D \<equiv> 0x0D"
abbreviation CMOS_CENTURY :: u8 where "CMOS_CENTURY \<equiv> 0x32"

definition cmos_register :: "u8 \<Rightarrow> u64 \<Rightarrow> u8" where
  "cmos_register r unix_secs =
     (let days = unat unix_secs div 86400;
          secs = unat unix_secs mod 86400;
          (year, month, day) = civil_from_days days
      in if r = CMOS_SECONDS then bcd (of_nat (secs mod 60))
         else if r = CMOS_MINUTES then bcd (of_nat (secs div 60 mod 60))
         else if r = CMOS_HOURS then bcd (of_nat (secs div 3600))
         else if r = CMOS_DAY_OF_WEEK then bcd (of_nat ((days + 4) mod 7 + 1))
         else if r = CMOS_DAY_OF_MONTH then bcd day
         else if r = CMOS_MONTH then bcd month
         else if r = CMOS_YEAR then bcd (of_nat (year mod 100))
         else if r = CMOS_CENTURY then bcd (of_nat (year div 100))
         else if r = CMOS_STATUS_A then 0x26
         else if r = CMOS_STATUS_B then 0x02
         else if r = CMOS_STATUS_D then 0x80
         else 0)"

section \<open>Ports\<close>

record legacy =
  cmos_index :: u8
  port92 :: u8

definition legacy_new :: legacy where
  "legacy_new = \<lparr>cmos_index = 0, port92 = 0x02\<rparr>"

definition handle_port80 :: "io_access \<Rightarrow> io_access" where
  "handle_port80 acc = (if \<not> is_write acc then acc\<lparr>io_value := 0xFF\<rparr> else acc)"

definition handle_cmos_index :: "io_access \<Rightarrow> legacy \<Rightarrow> legacy \<times> io_access" where
  "handle_cmos_index acc l =
     (if is_write acc then (l\<lparr>cmos_index := ucast (io_value acc AND 0x7F)\<rparr>, acc)
      else (l, acc\<lparr>io_value := ucast (cmos_index l)\<rparr>))"

definition handle_cmos_data :: "u64 \<Rightarrow> io_access \<Rightarrow> legacy \<Rightarrow> legacy \<times> io_access" where
  "handle_cmos_data now acc l =
     (if is_write acc then (l, acc) else (l, acc\<lparr>io_value := ucast (cmos_register (cmos_index l) now)\<rparr>))"

definition handle_port92 :: "io_access \<Rightarrow> legacy \<Rightarrow> legacy \<times> io_access" where
  "handle_port92 acc l =
     (if is_write acc then (l\<lparr>port92 := ucast (io_value acc AND 0xFF)\<rparr>, acc)
      else (l, acc\<lparr>io_value := ucast (port92 l)\<rparr>))"

text \<open>The handlers that \<^verbatim>\<open>attach\<close> registers, by port.\<close>

definition legacy_access :: "u64 \<Rightarrow> io_access \<Rightarrow> legacy \<Rightarrow> legacy \<times> io_access" where
  "legacy_access now acc l =
     (if port acc = 0x70 then handle_cmos_index acc l
      else if port acc = 0x71 then handle_cmos_data now acc l
      else if port acc = 0x80 then (l, handle_port80 acc)
      else handle_port92 acc l)"

definition legacy_snapshot_capture :: "legacy \<Rightarrow> bytes" where
  "legacy_snapshot_capture l = [cmos_index l, port92 l]"

definition legacy_snapshot_apply :: "bytes \<Rightarrow> legacy \<Rightarrow> legacy" where
  "legacy_snapshot_apply b l = (if length b < 2 then l else \<lparr>cmos_index = b ! 0, port92 = b ! 1\<rparr>)"

section \<open>The Gregorian calendar\<close>

text \<open>The reference: the calendar one day at a time.\<close>

definition leap_year :: "nat \<Rightarrow> bool" where
  "leap_year y \<longleftrightarrow> y mod 4 = 0 \<and> (y mod 100 \<noteq> 0 \<or> y mod 400 = 0)"

definition days_in_month :: "nat \<Rightarrow> nat \<Rightarrow> nat" where
  "days_in_month y m = (if m = 2 then if leap_year y then 29 else 28
                        else if m \<in> {4, 6, 9, 11} then 30 else 31)"

fun next_day :: "nat \<times> nat \<times> nat \<Rightarrow> nat \<times> nat \<times> nat" where
  "next_day (y, m, d) =
     (if d < days_in_month y m then (y, m, d + 1)
      else if m < 12 then (y, m + 1, 1)
      else (y + 1, 1, 1))"

primrec date_of :: "nat \<Rightarrow> nat \<times> nat \<times> nat" where
  "date_of 0 = (1970, 1, 1)"
| "date_of (Suc n) = next_day (date_of n)"

text \<open>
  Years that start in March: \<open>year_start c q r\<close> is the first day, within the 400-year era, of year
  \<open>100 c + 4 q + r\<close>; the leap day, if the year has one, is its last.
\<close>

definition march_ok :: "nat \<Rightarrow> nat \<Rightarrow> nat \<Rightarrow> nat \<Rightarrow> bool" where
  "march_ok c q r doy \<longleftrightarrow> c < 4 \<and> q < 25 \<and> r < 4 \<and>
     (doy < 365 \<or> doy = 365 \<and> r = 3 \<and> (q < 24 \<or> c = 3))"

definition year_start :: "nat \<Rightarrow> nat \<Rightarrow> nat \<Rightarrow> nat" where
  "year_start c q r = 36524 * c + 1461 * q + 365 * r"

definition march_month :: "nat \<Rightarrow> nat" where
  "march_month doy = (let mp = (5 * doy + 2) div 153 in if mp < 10 then mp + 3 else mp - 9)"

definition march_day :: "nat \<Rightarrow> nat" where
  "march_day doy = doy - (153 * ((5 * doy + 2) div 153) + 2) div 5 + 1"

definition march_date :: "nat \<Rightarrow> nat \<Rightarrow> nat \<Rightarrow> nat \<Rightarrow> nat \<Rightarrow> nat \<times> nat \<times> nat" where
  "march_date era c q r doy =
     (era * 400 + (100 * c + 4 * q + r) + (if march_month doy \<le> 2 then 1 else 0), march_month doy, march_day doy)"

lemma year_of_era:
  assumes "march_ok c q r doy" and "doe = year_start c q r + doy"
  shows "(doe - doe div 1460 + doe div 36524 - doe div 146096) div 365 = 100 * c + 4 * q + r"
proof -
  have ok: "c \<le> 3" "q \<le> 24" "r \<le> 3" "doy \<le> 365" and leap: "doy = 365 \<Longrightarrow> r = 3"
    using assms(1) by (auto simp: march_ok_def)
  have last: "doe div 36524 = c + doe div 146096"
  proof (cases "doe = 146096")
    case False
    have "1461 * q + 365 * r + doy < 36524 \<or> doe = 146096"
      using assms by (auto simp: march_ok_def year_start_def)
    with False have "doe div 36524 = c" using assms(2) by (auto simp: year_start_def intro!: div_nat_eqI)
    moreover have "doe < 146096" using assms False by (auto simp: march_ok_def year_start_def)
    ultimately show ?thesis by simp
  next
    case True
    with assms have "c = 3" by (auto simp: march_ok_def year_start_def)
    with True show ?thesis by simp
  qed
  define w where "w = 24 * c + q + 365 * r + doy"
  have doe: "doe = 1460 * (25 * c + q) + w" unfolding assms(2) year_start_def w_def by simp
  have d: "doe div 1460 = 25 * c + q + w div 1460" unfolding doe by simp
  have w: "w div 1460 \<le> 1" "doy = 0 \<Longrightarrow> w div 1460 = 0" "doy = 365 \<Longrightarrow> w div 1460 = 1"
    using ok leap by (auto simp: w_def)
  then have b: "w div 1460 \<le> doy" "doy - w div 1460 < 365" using ok(4) by (cases "doy = 0"; cases "doy = 365"; linarith)+
  have "doe - doe div 1460 + c = 365 * (100 * c + 4 * q + r) + (doy - w div 1460)"
    using b(1) unfolding d by (simp add: assms(2) year_start_def)
  then have "(doe - doe div 1460 + doe div 36524 - doe div 146096) div 365 =
      (365 * (100 * c + 4 * q + r) + (doy - w div 1460)) div 365"
    unfolding last by simp
  also have "\<dots> = 100 * c + 4 * q + r" using b(2) by simp
  finally show ?thesis .
qed

text \<open>The months of a March year.\<close>

definition month_step :: "nat \<Rightarrow> bool" where
  "month_step doy =
     (let m = march_month doy; d = march_day doy; m' = march_month (doy + 1); d' = march_day (doy + 1)
      in if d < (if m = 2 then 28 else if m = 4 \<or> m = 6 \<or> m = 9 \<or> m = 11 then 30 else 31) then m' = m \<and> d' = d + 1
         else m \<noteq> 2 \<and> d' = 1 \<and> m' = (if m < 12 then m + 1 else 1) \<and>
              d = (if m = 4 \<or> m = 6 \<or> m = 9 \<or> m = 11 then 30 else 31))"

lemma march_mp: "153 * k \<le> 5 * doy + 2 \<Longrightarrow> 5 * doy + 2 < 153 * k + 153 \<Longrightarrow> (5 * doy + 2) div 153 = (k :: nat)"
  by (rule div_nat_eqI) simp_all

lemma month_steps:
  assumes "doy < 364"
  shows "month_step doy"
proof -
  define k where "k = (5 * doy + 2) div 153"
  have b: "153 * k \<le> 5 * doy + 2" "5 * doy + 2 < 153 * k + 153"
    unfolding k_def by (simp_all add: dividend_less_times_div)
  have k: "(5 * doy + 2) div 153 = k" by (simp add: k_def)
  have "(5 * (doy + 1) + 2) div 153 = (if 5 * doy + 7 < 153 * k + 153 then k else k + 1)"
    using b march_mp [of k "doy + 1"] march_mp [of "k + 1" "doy + 1"] by auto
  moreover have "k \<in> {0, 1, 2, 3, 4, 5, 6, 7, 8, 9, 10, 11}"
  proof -
    have "k < 12" using b(1) assms by linarith
    then show ?thesis by (auto simp: less_Suc_eq numeral_eq_Suc)
  qed
  ultimately show ?thesis
    using b assms unfolding month_step_def march_month_def march_day_def Let_def k by (elim insertE) auto
qed

lemma march_ends: "march_month 364 = 2" "march_day 364 = 28" "march_month 365 = 2" "march_day 365 = 29"
    "march_month 0 = 3" "march_day 0 = 1"
  by (simp_all add: march_month_def march_day_def)

lemma march_bounds: "doy \<le> 365 \<Longrightarrow> march_month doy \<le> 12 \<and> march_day doy \<le> 31"
proof -
  assume d: "doy \<le> 365"
  define mp where "mp = (5 * doy + 2) div 153"
  have "mp \<le> 11" using d by (simp add: mp_def)
  moreover have "doy \<le> (153 * mp + 2) div 5 + 30"
  proof -
    have "5 * doy + 2 < 153 * mp + 153" unfolding mp_def by (simp add: dividend_less_times_div)
    moreover have "153 * mp + 2 < 5 * ((153 * mp + 2) div 5) + 5" by (simp add: dividend_less_times_div)
    ultimately show ?thesis by linarith
  qed
  ultimately show ?thesis unfolding march_month_def march_day_def mp_def [symmetric] Let_def by auto
qed

lemma leap_march:
  assumes "c < 4" "q < 25" "r < 4"
  shows "leap_year (era * 400 + (100 * c + 4 * q + r) + 1) \<longleftrightarrow> r = 3 \<and> (q < 24 \<or> c = 3)"
proof -
  have "era * 400 + (100 * c + 4 * q + r) + 1 = (r + 1) + 4 * (100 * era + 25 * c + q)" by simp
  then have m4: "(era * 400 + (100 * c + 4 * q + r) + 1) mod 4 = (r + 1) mod 4" by (simp only: mod_mult_self2)
  have "era * 400 + (100 * c + 4 * q + r) + 1 = (4 * q + r + 1) + 100 * (4 * era + c)" by simp
  then have m100: "(era * 400 + (100 * c + 4 * q + r) + 1) mod 100 = (4 * q + r + 1) mod 100" by (simp only: mod_mult_self2)
  have "era * 400 + (100 * c + 4 * q + r) + 1 = (100 * c + 4 * q + r + 1) + 400 * era" by simp
  then have m400: "(era * 400 + (100 * c + 4 * q + r) + 1) mod 400 = (100 * c + 4 * q + r + 1) mod 400" by (simp only: mod_mult_self2)
  have "(r + 1) mod 4 = 0 \<longleftrightarrow> r = 3" using assms(3) by (cases "r = 3") (simp_all add: mod_less)
  moreover have "(4 * q + 4) mod 100 = 0 \<longleftrightarrow> q = 24"
    using assms(2) by (cases "q = 24") (simp_all add: mod_less)
  moreover have "(100 * c + 4 * 24 + 3 + 1) mod 400 = 0 \<longleftrightarrow> c = 3"
    using assms(1) by (cases "c = 3") (simp_all add: mod_less)
  ultimately show ?thesis using assms(2) unfolding leap_year_def m4 m100 m400
    by (cases "r = 3"; cases "q = 24") (auto simp del: mod_0_imp_dvd)
qed

lemma march_next:
  assumes "march_ok c q r doy" and "march_ok c q r (doy + 1)"
  shows "next_day (march_date era c q r doy) = march_date era c q r (doy + 1)"
proof (cases "doy < 364")
  case True
  then have step: "month_step doy" by (rule month_steps)
  let ?m = "march_month doy" and ?d = "march_day doy"
  let ?len = "if ?m = 2 then 28 else if ?m = 4 \<or> ?m = 6 \<or> ?m = 9 \<or> ?m = 11 then 30 else 31"
  show ?thesis
  proof (cases "?d < ?len")
    case True
    with step have "march_month (doy + 1) = ?m" "march_day (doy + 1) = ?d + 1" by (simp_all add: month_step_def Let_def)
    moreover have "?d < days_in_month y ?m" for y using True by (simp add: days_in_month_def split: if_splits)
    ultimately show ?thesis by (simp add: march_date_def)
  next
    case False
    with step have "?m \<noteq> 2" "march_day (doy + 1) = 1" "march_month (doy + 1) = (if ?m < 12 then ?m + 1 else 1)"
      by (simp_all only: month_step_def Let_def if_False simp_thms)
    moreover from this have "\<not> ?d < days_in_month y ?m" for y using False by (simp add: days_in_month_def split: if_splits)
    moreover have "?m \<noteq> 0" by (simp add: march_month_def Let_def)
    ultimately show ?thesis by (auto simp: march_date_def)
  qed
next
  case False
  with assms(2) have doy: "doy = 364" "r = 3 \<and> (q < 24 \<or> c = 3)" "c < 4" "q < 25" "r < 4" by (auto simp: march_ok_def)
  show ?thesis using leap_march [OF doy(3-5), of era] doy(1,2)
    by (simp add: march_date_def march_ends days_in_month_def)
qed

lemma march_next_year:
  assumes "march_ok c q r doy" and "\<not> march_ok c q r (doy + 1)"
  shows "next_day (march_date era c q r doy) =
    (era * 400 + (100 * c + 4 * q + r) + 1, 3, 1)"
proof -
  have b: "c < 4" "q < 25" "r < 4" using assms(1) by (auto simp: march_ok_def)
  have "doy = 365 \<or> doy = 364 \<and> \<not> (r = 3 \<and> (q < 24 \<or> c = 3))" using assms by (auto simp: march_ok_def)
  then show ?thesis
  proof
    assume "doy = 365"
    with leap_march [OF b, of era] assms(1) show ?thesis by (simp add: march_date_def march_ends days_in_month_def march_ok_def)
  next
    assume "doy = 364 \<and> \<not> (r = 3 \<and> (q < 24 \<or> c = 3))"
    with leap_march [OF b, of era] show ?thesis by (simp add: march_date_def march_ends days_in_month_def)
  qed
qed

text \<open>Every day after 1970 is the March date of its day number, and \<^verbatim>\<open>civil_from_days\<close> finds it.\<close>

lemma date_of_march:
  "\<exists>era c q r doy. march_ok c q r doy \<and> n + 719468 = 146097 * era + year_start c q r + doy \<and>
     date_of n = march_date era c q r doy"
proof (induction n)
  case 0
  have "march_ok 3 17 1 306 \<and> 0 + 719468 = 146097 * 4 + year_start 3 17 1 + 306 \<and> date_of 0 = march_date 4 3 17 1 306"
    by (simp add: march_ok_def year_start_def march_date_def march_month_def march_day_def)
  then show ?case by blast
next
  case (Suc n)
  then obtain era c q r doy where m: "march_ok c q r doy"
      "n + 719468 = 146097 * era + year_start c q r + doy" "date_of n = march_date era c q r doy"
    by blast
  show ?case
  proof (cases "march_ok c q r (doy + 1)")
    case True
    then show ?thesis using m march_next [OF m(1) True, of era]
      by (intro exI [of _ era] exI [of _ c] exI [of _ q] exI [of _ r] exI [of _ "doy + 1"]) simp
  next
    case False
    note next_year = march_next_year [OF m(1) False, of era]
    have first: "march_date e c' q' r' 0 = (e * 400 + (100 * c' + 4 * q' + r'), 3, 1)" for e c' q' r'
      by (simp add: march_date_def march_ends)
    have b: "c < 4" "q < 25" "r < 4" using m(1) by (auto simp: march_ok_def)
    have len: "doy = (if r = 3 \<and> (q < 24 \<or> c = 3) then 365 else 364)" using m(1) False by (auto simp: march_ok_def)
    have new: ?thesis if "c' < 4" "q' < 25" "r' < 4" "100 * (4 * e + c') + 4 * q' + r' = 100 * (4 * era + c) + 4 * q + r + 1"
        "146097 * e + year_start c' q' r' = 146097 * era + year_start c q r + doy + 1" for e c' q' r'
    proof -
      have "march_ok c' q' r' 0" using that by (simp add: march_ok_def)
      moreover have "Suc n + 719468 = 146097 * e + year_start c' q' r' + 0" using m(2) that(5) by linarith
      moreover have "date_of (Suc n) = march_date e c' q' r' 0"
        using that(4) by (simp add: m(3) next_year first)
      ultimately show ?thesis by blast
    qed
    consider "r < 3" | "r = 3" "q < 24" | "r = 3" "q = 24" "c < 3" | "r = 3" "q = 24" "c = 3" using b by linarith
    then show ?thesis
    proof cases
      case 1
      with len b show ?thesis by (intro new [of c q "r + 1" era]) (simp_all add: year_start_def)
    next
      case 2
      with len b show ?thesis by (intro new [of c "q + 1" 0 era]) (simp_all add: year_start_def)
    next
      case 3
      with len b show ?thesis by (intro new [of "c + 1" 0 0 era]) (simp_all add: year_start_def)
    next
      case 4
      with len b show ?thesis by (intro new [of 0 0 0 "era + 1"]) (simp_all add: year_start_def)
    qed
  qed
qed

lemma civil_of_march:
  assumes "march_ok c q r doy" and "days + 719468 = 146097 * era + year_start c q r + doy"
  shows "civil_from_days days = (case march_date era c q r doy of (y, m, d) \<Rightarrow> (y, of_nat m, of_nat d))"
proof -
  define doe where "doe = year_start c q r + doy"
  define y where "y = 100 * c + 4 * q + r"
  have b: "c < 4" "q < 25" "r < 4" "doy \<le> 365" using assms(1) by (auto simp: march_ok_def)
  have "doe < 146097" using assms(1) by (auto simp: doe_def march_ok_def year_start_def)
  then have z: "(days + 719468) div 146097 = era" "(days + 719468) mod 146097 = doe"
    using assms(2) by (simp_all add: doe_def add.assoc)
  have yoe: "(doe - doe div 1460 + doe div 36524 - doe div 146096) div 365 = y"
    using year_of_era [OF assms(1) doe_def] by (simp add: y_def)
  have "y div 4 = 25 * c + q" "y div 100 = c" using b by (simp_all add: y_def)
  then have doy: "doe - (365 * y + y div 4 - y div 100) = doy" by (simp add: doe_def year_start_def y_def)
  have "unat (of_nat (march_month doy) :: u8) = march_month doy"
    using march_bounds [OF b(4)] by (simp add: unat_of_nat take_bit_nat_eq_self)
  then have "(of_nat (march_month doy) :: u8) \<le> 2 \<longleftrightarrow> march_month doy \<le> 2" by (simp add: word_le_nat_alt)
  then show ?thesis
    unfolding civil_from_days_def Let_def z yoe doy march_month_def [unfolded Let_def, symmetric] march_day_def [symmetric]
    by (simp add: march_date_def y_def)
qed

definition from_bcd :: "u8 \<Rightarrow> nat" where
  "from_bcd b = 10 * unat (drop_bit 4 b) + unat (b AND 0x0F)"

lemma from_bcd_bcd:
  assumes "n < 100"
  shows "from_bcd (bcd (of_nat n)) = n"
proof -
  have n: "unat (of_nat n :: u8) = n" using assms by (simp add: unat_of_nat take_bit_nat_eq_self)
  have "unat (bcd (of_nat n)) = unat ((of_nat n mod 10 :: u8) OR push_bit 4 (of_nat n div 10))"
    by (simp add: bcd_def or.commute)
  also have "\<dots> = n mod 10 + n div 10 * 16"
    using assms by (subst unat_or_push_bit) (simp_all add: unat_mod unat_div n)
  finally have v: "unat (bcd (of_nat n)) = n mod 10 + n div 10 * 16" .
  have "unat (bcd (of_nat n) AND 0x0F) = unat (bcd (of_nat n)) mod 2 ^ 4"
    using unat_and_mask [of "bcd (of_nat n)" 4] by (simp add: mask_numeral)
  then show ?thesis by (simp add: from_bcd_def unat_drop_bit v)
qed

text \<open>
  C36. The clock the guest reads is the Gregorian calendar: for every host time before the year
  10000, the century, year, month and day registers decode to the date that the day-by-day calendar
  gives, the hour, minute and second registers to the time of day, and the weekday register counts
  from Thursday, 1 January 1970.
\<close>

theorem rtc_reads_the_calendar:
  assumes "date_of (unat t div 86400) = (y, m, d)" and "y < 10000"
  shows "100 * from_bcd (cmos_register CMOS_CENTURY t) + from_bcd (cmos_register CMOS_YEAR t) = y \<and>
    from_bcd (cmos_register CMOS_MONTH t) = m \<and> from_bcd (cmos_register CMOS_DAY_OF_MONTH t) = d \<and>
    3600 * from_bcd (cmos_register CMOS_HOURS t) + 60 * from_bcd (cmos_register CMOS_MINUTES t) +
      from_bcd (cmos_register CMOS_SECONDS t) = unat t mod 86400 \<and>
    from_bcd (cmos_register CMOS_DAY_OF_WEEK t) = (unat t div 86400 + 4) mod 7 + 1"
proof -
  define days where "days = unat t div 86400"
  define secs where "secs = unat t mod 86400"
  obtain era c q r doy where march: "march_ok c q r doy" "days + 719468 = 146097 * era + year_start c q r + doy"
      "date_of days = march_date era c q r doy"
    using date_of_march [of days] by blast
  have ymd: "march_date era c q r doy = (y, m, d)" using march(3) assms(1) by (simp add: days_def)
  then have civil: "civil_from_days days = (y, of_nat m, of_nat d)" using civil_of_march [OF march(1,2)] by simp
  have "doy \<le> 365" using march(1) by (auto simp: march_ok_def)
  with march_bounds ymd have md: "m \<le> 12" "d \<le> 31" by (auto simp: march_date_def)
  have secs: "secs < 86400" by (simp add: secs_def)
  have hms: "3600 * (secs div 3600) + 60 * (secs div 60 mod 60) + secs mod 60 = secs"
  proof -
    have "secs div 3600 = secs div 60 div 60" by (simp add: div_mult2_eq [symmetric])
    then show ?thesis using mult_div_mod_eq [of 60 "secs div 60"] mult_div_mod_eq [of 60 secs] by linarith
  qed
  have "secs div 3600 < 24" using secs by (simp add: div_less_iff_less_mult)
  then show ?thesis
    using md assms(2) hms unfolding cmos_register_def days_def [symmetric] secs_def [symmetric]
    by (simp add: civil from_bcd_bcd del: of_nat_Suc of_nat_add)
qed

theorem rtc_reads_the_calendar_witness:
  "from_bcd (cmos_register CMOS_DAY_OF_MONTH 86399) = 1 \<and>
   3600 * from_bcd (cmos_register CMOS_HOURS 86399) + 60 * from_bcd (cmos_register CMOS_MINUTES 86399) +
     from_bcd (cmos_register CMOS_SECONDS 86399) = 86399"
proof -
  have "date_of (unat (86399 :: u64) div 86400) = (1970, 1, 1)" by simp
  from rtc_reads_the_calendar [OF this] show ?thesis by simp
qed

text \<open>A snapshot restores the stubs.\<close>

lemma legacy_snapshot_roundtrip:
  "legacy_snapshot_apply (legacy_snapshot_capture l @ rest) q = l"
  by (simp add: legacy_snapshot_apply_def legacy_snapshot_capture_def)

end
