(* ===== verification/Power_Device.thy ===== *)
theory Power_Device
  imports Port_Buses
begin

text \<open>
  Guest power control (\<^verbatim>\<open>src/devices/power.rs\<close>): the ACPI PM1 registers as one six-byte block,
  the FADT reset register, and the reset command of the keyboard controller. An operation that may
  stop the machine returns whether \<^verbatim>\<open>raise\<close> was called, which records the first request and calls
  the callback that stops the VM.
\<close>

section \<open>State and operations\<close>

abbreviation PM1A_EVT_PORT :: u16 where "PM1A_EVT_PORT \<equiv> 0x600"
abbreviation PM1A_CNT_PORT :: u16 where "PM1A_CNT_PORT \<equiv> 0x604"
abbreviation RESET_PORT :: u16 where "RESET_PORT \<equiv> 0x60C"
abbreviation RESET_VALUE :: u8 where "RESET_VALUE \<equiv> 1"
abbreviation SLP_TYP_S5 :: u16 where "SLP_TYP_S5 \<equiv> 5"
abbreviation KBD_COMMAND_PORT :: u16 where "KBD_COMMAND_PORT \<equiv> 0x64"
abbreviation KBD_PULSE_RESET :: u8 where "KBD_PULSE_RESET \<equiv> 0xFE"
abbreviation PM1_BLOCK_LEN :: nat where "PM1_BLOCK_LEN \<equiv> 6"
abbreviation PM1_CNT_SCI_EN :: u16 where "PM1_CNT_SCI_EN \<equiv> 1"
abbreviation PM1_CNT_GBL_RLS :: u16 where "PM1_CNT_GBL_RLS \<equiv> 0x04"
abbreviation PM1_CNT_SLP_TYP_SHIFT :: nat where "PM1_CNT_SLP_TYP_SHIFT \<equiv> 10"
abbreviation PM1_CNT_SLP_EN :: u16 where "PM1_CNT_SLP_EN \<equiv> 0x2000"

datatype power_request = PowerOff | AcpiReset | KeyboardReset

record power =
  pm1_en :: u16
  pm1_cnt :: u16
  request :: "power_request option"

definition power_new :: power where
  "power_new = \<lparr>pm1_en = 0, pm1_cnt = 0, request = None\<rparr>"

definition power_raise :: "power_request \<Rightarrow> power \<Rightarrow> power" where
  "power_raise r p = p\<lparr>request := (case request p of None \<Rightarrow> Some r | Some r0 \<Rightarrow> Some r0)\<rparr>"

definition pm1_size :: "io_access \<Rightarrow> nat" where
  "pm1_size acc = min 4 (max 1 (unat (access_size acc)))"

definition pm1_read :: "io_access \<Rightarrow> power \<Rightarrow> u32" where
  "pm1_read acc p =
     (let off = unat (port acc - PM1A_EVT_PORT);
          cnt = pm1_cnt p OR PM1_CNT_SCI_EN;
          regs = le16 0 @ le16 (pm1_en p) @ le16 cnt
      in fold (\<lambda>i v. let byte = (if off + i < length regs then regs ! (off + i) else 0xFF)
                     in v OR push_bit (8 * i) (ucast byte)) [0..<pm1_size acc] 0)"

text \<open>One round of the write loop: the byte of index \<open>i\<close> of the value, at \<open>off + i\<close> of the block.\<close>

definition pm1_write_byte :: "nat \<Rightarrow> u32 \<Rightarrow> nat \<Rightarrow> power \<times> bool \<Rightarrow> power \<times> bool" where
  "pm1_write_byte off val i st = (case st of (p, sleep) \<Rightarrow>
     let pos = off + i;
         shift = 8 * (pos mod 2);
         bits = push_bit shift (ucast (ucast (drop_bit (8 * i) val) :: u8)) :: u16;
         keep = NOT (push_bit shift 0xFF) :: u16
     in if pos div 2 = 0 then (p, sleep)
        else if pos div 2 = 1 then (p\<lparr>pm1_en := (pm1_en p AND keep) OR bits\<rparr>, sleep)
        else (p\<lparr>pm1_cnt := (pm1_cnt p AND keep) OR (bits AND NOT (PM1_CNT_SLP_EN OR PM1_CNT_GBL_RLS))\<rparr>,
              sleep \<or> bits AND PM1_CNT_SLP_EN \<noteq> 0))"

definition handle_pm1 :: "io_access \<Rightarrow> power \<Rightarrow> power \<times> io_access \<times> bool" where
  "handle_pm1 acc p =
     (let off = unat (port acc - PM1A_EVT_PORT)
      in if \<not> is_write acc then (p, acc\<lparr>io_value := pm1_read acc p\<rparr>, False)
         else let (p', sleep) = fold (pm1_write_byte off (io_value acc))
                    (filter (\<lambda>i. off + i < PM1_BLOCK_LEN) [0..<pm1_size acc]) (p, False);
                  slp_typ = drop_bit PM1_CNT_SLP_TYP_SHIFT (pm1_cnt p') AND 7
              in if sleep \<and> slp_typ = SLP_TYP_S5 then (power_raise PowerOff p', acc, True)
                 else (p', acc, False))"

definition handle_reset :: "io_access \<Rightarrow> power \<Rightarrow> power \<times> io_access \<times> bool" where
  "handle_reset acc p =
     (if \<not> is_write acc then (p, acc\<lparr>io_value := 0\<rparr>, False)
      else if ucast (io_value acc) = RESET_VALUE then (power_raise AcpiReset p, acc, True)
      else (p, acc, False))"

definition handle_kbd :: "io_access \<Rightarrow> power \<Rightarrow> power \<times> io_access \<times> bool" where
  "handle_kbd acc p =
     (if \<not> is_write acc then (p, acc\<lparr>io_value := 0xFFFFFFFF\<rparr>, False)
      else if ucast (io_value acc) = KBD_PULSE_RESET then (power_raise KeyboardReset p, acc, True)
      else (p, acc, False))"

text \<open>The handlers that \<^verbatim>\<open>attach\<close> registers, by port.\<close>

definition power_access :: "io_access \<Rightarrow> power \<Rightarrow> power \<times> io_access \<times> bool" where
  "power_access acc p =
     (if port acc = RESET_PORT then handle_reset acc p
      else if port acc = KBD_COMMAND_PORT then handle_kbd acc p
      else handle_pm1 acc p)"

definition power_snapshot_capture :: "power \<Rightarrow> bytes" where
  "power_snapshot_capture p = le16 (pm1_en p) @ le16 (pm1_cnt p)"

definition power_snapshot_apply :: "bytes \<Rightarrow> power \<Rightarrow> power" where
  "power_snapshot_apply b p = (case b of
     en0 # en1 # cnt0 # cnt1 # _ \<Rightarrow> p\<lparr>pm1_en := from_le16 [en0, en1], pm1_cnt := from_le16 [cnt0, cnt1]\<rparr>
   | _ \<Rightarrow> p)"

section \<open>The block as six byte registers\<close>

text \<open>What a read of each byte of the block gives, and what a write of each byte keeps.\<close>

definition pm1_block :: "power \<Rightarrow> bytes" where
  "pm1_block p = [0, 0, ucast (pm1_en p), ucast (drop_bit 8 (pm1_en p)),
     ucast (pm1_cnt p) OR 0x01, ucast (drop_bit 8 (pm1_cnt p))]"

definition pm1_keeps :: "nat \<Rightarrow> u8 \<Rightarrow> u8" where
  "pm1_keeps pos b = (if pos < 2 then 0 else if pos = 4 then (b AND NOT 0x04) OR 0x01
                      else if pos = 5 then b AND NOT 0x20 else b)"

lemma length_pm1_block [simp]: "length (pm1_block p) = PM1_BLOCK_LEN"
  by (simp add: pm1_block_def)

lemma low_byte:
  "(ucast ((w AND NOT (push_bit 8 0xFF)) OR push_bit 8 x) :: u8) = ucast (w :: u16)"
  "(ucast ((w AND NOT 0xFF) OR x) :: u8) = ucast (x :: u16)"
  "(ucast (drop_bit 8 ((w AND NOT (push_bit 8 0xFF)) OR push_bit 8 (x :: u16))) :: u8) = ucast x"
  "(ucast (drop_bit 8 ((w AND NOT 0xFF) OR ucast (b :: u8) :: u16)) :: u8) = ucast (drop_bit 8 w)"
proof -
  have m: "(0xFF :: u16) = mask 8" by (simp add: mask_numeral)
  show "(ucast ((w AND NOT (push_bit 8 0xFF)) OR push_bit 8 x) :: u8) = ucast (w :: u16)"
    unfolding m by (rule bit_word_eqI) (auto simp: bit_simps)
  show "(ucast ((w AND NOT 0xFF) OR x) :: u8) = ucast (x :: u16)"
    unfolding m by (rule bit_word_eqI) (auto simp: bit_simps)
  show "(ucast (drop_bit 8 ((w AND NOT (push_bit 8 0xFF)) OR push_bit 8 (x :: u16))) :: u8) = ucast x"
    unfolding m by (rule bit_word_eqI) (auto simp: bit_simps)
  show "(ucast (drop_bit 8 ((w AND NOT 0xFF) OR ucast (b :: u8) :: u16)) :: u8) = ucast (drop_bit 8 w)"
    unfolding m by (rule bit_word_eqI) (auto simp: bit_simps dest: bit_imp_le_length)
qed

lemma cnt_bits:
  "(ucast (b :: u8) :: u16) AND NOT (PM1_CNT_SLP_EN OR PM1_CNT_GBL_RLS) = ucast (b AND NOT 0x04)"
  "push_bit 8 (ucast (b :: u8)) AND NOT (PM1_CNT_SLP_EN OR PM1_CNT_GBL_RLS) = (push_bit 8 (ucast (b AND NOT 0x20)) :: u16)"
  "(ucast (b :: u8) :: u16) AND PM1_CNT_SLP_EN = 0"
  "push_bit 8 (ucast (b :: u8)) AND PM1_CNT_SLP_EN = (0 :: u16) \<longleftrightarrow> \<not> bit b 5"
proof -
  have en: "PM1_CNT_SLP_EN = push_bit 13 1" "PM1_CNT_GBL_RLS = push_bit 2 1" "(0x04 :: u8) = push_bit 2 1" "(0x20 :: u8) = push_bit 5 1"
    by simp_all
  show "(ucast b :: u16) AND NOT (PM1_CNT_SLP_EN OR PM1_CNT_GBL_RLS) = ucast (b AND NOT 0x04)"
    unfolding en by (rule bit_word_eqI) (auto simp: bit_simps simp del: push_bit_of_1 dest: bit_imp_le_length)
  show "push_bit 8 (ucast (b :: u8)) AND NOT (PM1_CNT_SLP_EN OR PM1_CNT_GBL_RLS) = (push_bit 8 (ucast (b AND NOT 0x20)) :: u16)"
    unfolding en by (rule bit_word_eqI) (auto simp: bit_simps simp del: push_bit_of_1 dest: bit_imp_le_length)
  have "\<not> bit b 13" using bit_imp_le_length [of b 13] by auto
  then show "(ucast b :: u16) AND PM1_CNT_SLP_EN = 0"
    unfolding en push_bit_of_1 by (simp only: and_exp_eq_0_iff_not_bit bit_unsigned_iff) simp
  show "push_bit 8 (ucast (b :: u8)) AND PM1_CNT_SLP_EN = (0 :: u16) \<longleftrightarrow> \<not> bit b 5"
    unfolding en push_bit_of_1 by (simp only: and_exp_eq_0_iff_not_bit) (simp add: bit_simps)
qed

lemma pm1_write_byte_block:
  fixes val :: u32
  assumes "off + i < PM1_BLOCK_LEN"
  defines "b \<equiv> ucast (drop_bit (8 * i) val) :: u8"
  shows "case pm1_write_byte off val i (p, sleep) of (p', sleep') \<Rightarrow>
    pm1_block p' = (pm1_block p)[off + i := pm1_keeps (off + i) b] \<and>
    (sleep' \<longleftrightarrow> sleep \<or> off + i = 5 \<and> bit b 5) \<and> request p' = request p"
proof -
  have "off + i \<in> {0, 1, 2, 3, 4, 5}" using assms(1) by auto
  moreover define pos where "pos = off + i"
  ultimately have "pos \<in> {0, 1, 2, 3, 4, 5}" by simp
  then show ?thesis unfolding pm1_write_byte_def pos_def [symmetric] b_def [symmetric] Let_def split_conv
    by (elim insertE emptyE) (simp_all add: pm1_block_def pm1_keeps_def cnt_bits low_byte
      cnt_bits [simplified] low_byte [simplified])
qed

text \<open>The byte of the written value that lands at \<open>pos\<close>, if any does.\<close>

definition pm1_covers :: "io_access \<Rightarrow> nat \<Rightarrow> bool" where
  "pm1_covers acc pos \<longleftrightarrow> unat (port acc - PM1A_EVT_PORT) \<le> pos \<and> pos < unat (port acc - PM1A_EVT_PORT) + pm1_size acc"

definition pm1_byte :: "io_access \<Rightarrow> nat \<Rightarrow> u8" where
  "pm1_byte acc pos = ucast (drop_bit (8 * (pos - unat (port acc - PM1A_EVT_PORT))) (io_value acc))"

lemma pm1_write_loop:
  fixes val :: u32
  shows "case fold (pm1_write_byte off val) (filter (\<lambda>i. off + i < PM1_BLOCK_LEN) [0..<n]) (p, False) of (p', sleep) \<Rightarrow>
    (\<forall>j < PM1_BLOCK_LEN. pm1_block p' ! j =
       (if off \<le> j \<and> j < off + n then pm1_keeps j (ucast (drop_bit (8 * (j - off)) val)) else pm1_block p ! j)) \<and>
    (sleep \<longleftrightarrow> off \<le> 5 \<and> 5 < off + n \<and> bit (ucast (drop_bit (8 * (5 - off)) val) :: u8) 5) \<and> request p' = request p"
proof (induction n)
  case (Suc n)
  obtain p1 s1 where f: "fold (pm1_write_byte off val) (filter (\<lambda>i. off + i < PM1_BLOCK_LEN) [0..<n]) (p, False) = (p1, s1)"
    by (metis surj_pair)
  show ?case
  proof (cases "off + n < PM1_BLOCK_LEN")
    case True
    obtain p2 s2 where w: "pm1_write_byte off val n (p1, s1) = (p2, s2)" by (metis surj_pair)
    have "5 - off = n" if "off + n = 5" using that by simp
    then show ?thesis using Suc pm1_write_byte_block [OF True, where val = val and p = p1 and sleep = s1] True f w
      by (auto simp: nth_list_update)
  next
    case False
    then show ?thesis using Suc f by auto
  qed
qed auto

lemma fold_le_decode:
  fixes f :: "nat \<Rightarrow> u8"
  shows "fold (\<lambda>i v. v OR push_bit (8 * i) (ucast (f i))) [0..<n] 0 = (le_decode (map f [0..<n]) :: u32)"
proof (rule bit_word_eqI)
  fix k assume k: "k < LENGTH(32)"
  have "bit (fold (\<lambda>i v. v OR push_bit (8 * i) (ucast (f i))) [0..<n] 0 :: u32) k \<longleftrightarrow> k div 8 < n \<and> bit (f (k div 8)) (k mod 8)"
  proof (induction n)
    case (Suc n)
    have "bit (push_bit (8 * n) (ucast (f n)) :: u32) k \<longleftrightarrow> k div 8 = n \<and> bit (f n) (k mod 8)"
    proof -
      have "bit (f n) (k - 8 * n) \<Longrightarrow> k - 8 * n < 8" using bit_imp_le_length [of "f n"] by simp
      moreover have d: "k div 8 = n" if "8 * n \<le> k" "k - 8 * n < 8" using that by (intro div_nat_eqI) simp_all
      moreover have "k mod 8 = k - 8 * n" "8 * n \<le> k" if "k div 8 = n"
        using that minus_mult_div_eq_mod [of k 8] div_mult_mod_eq [of k 8] by auto
      ultimately have "8 * n \<le> k \<and> bit (f n) (k - 8 * n) \<longleftrightarrow> k div 8 = n \<and> bit (f n) (k mod 8)"
        by metis
      then show ?thesis using k by (auto simp: bit_simps)
    qed
    with Suc show ?case by (auto simp: bit_simps less_Suc_eq)
  qed simp
  then show "bit (fold (\<lambda>i v. v OR push_bit (8 * i) (ucast (f i))) [0..<n] 0 :: u32) k = bit (le_decode (map f [0..<n]) :: u32) k"
    using k by (auto simp: bit_le_decode)
qed

lemma pm1_read_block:
  "pm1_read acc p = le_decode (map (\<lambda>i. let pos = unat (port acc - PM1A_EVT_PORT) + i
     in if pos < PM1_BLOCK_LEN then pm1_block p ! pos else 0xFF) [0..<pm1_size acc])"
proof -
  have one: "(1 :: u16) = mask 1" "(1 :: u8) = mask 1" by (simp_all add: mask_numeral)
  have "(ucast (pm1_cnt p OR PM1_CNT_SCI_EN) :: u8) = ucast (pm1_cnt p) OR 1"
    unfolding one by (rule bit_word_eqI) (auto simp: bit_simps)
  moreover have "drop_bit 8 (pm1_cnt p OR PM1_CNT_SCI_EN) = drop_bit 8 (pm1_cnt p)"
    unfolding one by (rule bit_word_eqI) (auto simp: bit_simps)
  ultimately have block: "le16 0 @ le16 (pm1_en p) @ le16 (pm1_cnt p OR PM1_CNT_SCI_EN) = pm1_block p"
    by (simp add: pm1_block_def numeral_2_eq_2)
  show ?thesis unfolding pm1_read_def Let_def block length_pm1_block fold_le_decode ..
qed

lemma slp_typ_block:
  "drop_bit PM1_CNT_SLP_TYP_SHIFT (pm1_cnt p) AND 7 = SLP_TYP_S5 \<longleftrightarrow> drop_bit 2 (pm1_block p ! 5) AND 7 = 5"
proof -
  have "(ucast (drop_bit 2 (pm1_block p ! 5) AND 7) :: u16) = drop_bit 10 (pm1_cnt p) AND 7"
  proof -
    have m: "(7 :: u8) = mask 3" "(7 :: u16) = mask 3" by (simp_all add: mask_numeral)
    show ?thesis unfolding m
      by (rule bit_word_eqI) (auto simp: pm1_block_def bit_simps)
  qed
  moreover have "(ucast (x :: u8) :: u16) = 5 \<longleftrightarrow> x = 5" for x
    by (simp add: word_unat_eq_iff unat_ucast_up)
  ultimately show ?thesis by metis
qed

lemma slp_typ_keeps: "drop_bit 2 (pm1_keeps 5 b) AND 7 = drop_bit 2 b AND (7 :: u8)"
proof -
  have m: "(7 :: u8) = mask 3" "(0x20 :: u8) = push_bit 5 1" by (simp_all add: mask_numeral)
  show ?thesis unfolding pm1_keeps_def m
    by (rule bit_word_eqI) (auto simp: bit_simps simp del: push_bit_of_1)
qed

lemma pm1_block_access:
  "case handle_pm1 acc p of (p', acc', stopped) \<Rightarrow>
     if is_write acc
     then pm1_block p' = map (\<lambda>j. if pm1_covers acc j then pm1_keeps j (pm1_byte acc j) else pm1_block p ! j) [0..<PM1_BLOCK_LEN] \<and>
          (stopped \<longleftrightarrow> pm1_covers acc 5 \<and> bit (pm1_byte acc 5) 5 \<and> drop_bit 2 (pm1_byte acc 5) AND 7 = 5) \<and>
          request p' = (if stopped \<and> request p = None then Some PowerOff else request p)
     else p' = p \<and> \<not> stopped \<and>
          io_value acc' = le_decode (map (\<lambda>i. let pos = unat (port acc - PM1A_EVT_PORT) + i
            in if pos < PM1_BLOCK_LEN then pm1_block p ! pos else 0xFF) [0..<pm1_size acc])"
proof (cases "is_write acc")
  case False
  then show ?thesis by (simp add: handle_pm1_def pm1_read_block Let_def)
next
  case True
  define off where "off = unat (port acc - PM1A_EVT_PORT)"
  obtain p1 sleep where f: "fold (pm1_write_byte off (io_value acc))
      (filter (\<lambda>i. off + i < PM1_BLOCK_LEN) [0..<pm1_size acc]) (p, False) = (p1, sleep)"
    by (metis surj_pair)
  have raise: "pm1_block (q\<lparr>request := r\<rparr>) = pm1_block q" for r q by (simp add: pm1_block_def)
  note loop = pm1_write_loop [where off = off and val = "io_value acc" and n = "pm1_size acc" and p = p, unfolded f split_conv]
  have block: "pm1_block p1 = map (\<lambda>j. if pm1_covers acc j then pm1_keeps j (pm1_byte acc j) else pm1_block p ! j) [0..<PM1_BLOCK_LEN]"
    using loop by (intro nth_equalityI) (auto simp: pm1_covers_def pm1_byte_def off_def)
  have sleep: "sleep \<longleftrightarrow> pm1_covers acc 5 \<and> bit (pm1_byte acc 5) 5"
    using loop by (auto simp: pm1_covers_def pm1_byte_def off_def)
  have "drop_bit PM1_CNT_SLP_TYP_SHIFT (pm1_cnt p1) AND 7 = SLP_TYP_S5 \<longleftrightarrow> drop_bit 2 (pm1_byte acc 5) AND 7 = 5"
    if sleep using that sleep by (subst slp_typ_block) (simp add: block slp_typ_keeps)
  with loop sleep True show ?thesis
    unfolding handle_pm1_def Let_def off_def [symmetric] f split_conv block [symmetric]
    by (auto simp: raise power_raise_def split: option.split)
qed

text \<open>
  The PM1 block is six byte registers under accesses of any width and position: a write changes
  exactly the bytes it covers, each to what its register keeps (status reads 0, GBL_RLS and SLP_EN
  read 0, SCI_EN reads 1), and stops the machine exactly when it covers the high byte of PM1_CNT with
  SLP_EN set and sleep type 5, recording the power-off unless a request came first; a read gives
  the registers, and ones past the block.
\<close>

lemma pm1_is_a_register_file:
  "case handle_pm1 acc p of (p', acc', stopped) \<Rightarrow>
     if is_write acc
     then pm1_block p' = map (\<lambda>j. if pm1_covers acc j then pm1_keeps j (pm1_byte acc j) else pm1_block p ! j) [0..<PM1_BLOCK_LEN] \<and>
          (stopped \<longleftrightarrow> pm1_covers acc 5 \<and> bit (pm1_byte acc 5) 5 \<and> drop_bit 2 (pm1_byte acc 5) AND 7 = 5) \<and>
          request p' = (if stopped \<and> request p = None then Some PowerOff else request p)
     else p' = p \<and> \<not> stopped \<and>
          io_value acc' = le_decode (map (\<lambda>i. let pos = unat (port acc - PM1A_EVT_PORT) + i
            in if pos < PM1_BLOCK_LEN then pm1_block p ! pos else 0xFF) [0..<pm1_size acc])"
  by (rule pm1_block_access)

lemma power_snapshot_roundtrip:
  "power_snapshot_apply (power_snapshot_capture p @ rest) q = p\<lparr>request := request q\<rparr>"
proof -
  have "from_le16 [ucast w, ucast (drop_bit 8 w)] = w" for w :: u16
    using le_decode_encode [of 2 w] by (simp add: numeral_2_eq_2)
  then show ?thesis by (simp add: power_snapshot_apply_def power_snapshot_capture_def numeral_2_eq_2)
qed

end
