(* ===== verification/Pci_Config.thy ===== *)
theory Pci_Config
  imports Vmm_Prelude
begin

text \<open>
  A Type-0 PCI configuration space (\<^verbatim>\<open>src/pci/config.rs\<close>): the 256 configuration bytes with
  their write masks, the six base address registers, the capability list and the (un)mapping events
  that the MEM_SPACE bit of COMMAND causes. Offsets are natural numbers: the bus only passes offsets
  of at most 255 and sizes of 1, 2 and 4, so the sums of the code stay far below \<open>2^32\<close>.
\<close>

section \<open>State\<close>

abbreviation CFG_VENDOR_ID :: nat where "CFG_VENDOR_ID \<equiv> 0x00"
abbreviation CFG_DEVICE_ID :: nat where "CFG_DEVICE_ID \<equiv> 0x02"
abbreviation CFG_COMMAND :: nat where "CFG_COMMAND \<equiv> 0x04"
abbreviation CFG_STATUS :: nat where "CFG_STATUS \<equiv> 0x06"
abbreviation CFG_REVISION_ID :: nat where "CFG_REVISION_ID \<equiv> 0x08"
abbreviation CFG_PROG_IF :: nat where "CFG_PROG_IF \<equiv> 0x09"
abbreviation CFG_SUBCLASS :: nat where "CFG_SUBCLASS \<equiv> 0x0A"
abbreviation CFG_CLASS_CODE :: nat where "CFG_CLASS_CODE \<equiv> 0x0B"
abbreviation CFG_CACHE_LINE_SIZE :: nat where "CFG_CACHE_LINE_SIZE \<equiv> 0x0C"
abbreviation CFG_LATENCY_TIMER :: nat where "CFG_LATENCY_TIMER \<equiv> 0x0D"
abbreviation CFG_HEADER_TYPE :: nat where "CFG_HEADER_TYPE \<equiv> 0x0E"
abbreviation CFG_BAR0 :: nat where "CFG_BAR0 \<equiv> 0x10"
abbreviation CFG_SUBSYS_VENDOR_ID :: nat where "CFG_SUBSYS_VENDOR_ID \<equiv> 0x2C"
abbreviation CFG_SUBSYS_ID :: nat where "CFG_SUBSYS_ID \<equiv> 0x2E"
abbreviation CFG_CAP_PTR :: nat where "CFG_CAP_PTR \<equiv> 0x34"
abbreviation CFG_INTERRUPT_LINE :: nat where "CFG_INTERRUPT_LINE \<equiv> 0x3C"
abbreviation CFG_INTERRUPT_PIN :: nat where "CFG_INTERRUPT_PIN \<equiv> 0x3D"
abbreviation CFG_SPACE_SIZE :: nat where "CFG_SPACE_SIZE \<equiv> 0x100"
abbreviation CAP_LIST_START :: nat where "CAP_LIST_START \<equiv> 0x40"
abbreviation CMD_MEMORY_SPACE :: u16 where "CMD_MEMORY_SPACE \<equiv> 0x02"
abbreviation STATUS_CAP_LIST :: u16 where "STATUS_CAP_LIST \<equiv> 0x10"
abbreviation HEADER_TYPE_NORMAL :: u8 where "HEADER_TYPE_NORMAL \<equiv> 0x00"
abbreviation BAR_IO_MARKER :: u32 where "BAR_IO_MARKER \<equiv> 0x01"
abbreviation BAR_MMIO64 :: u32 where "BAR_MMIO64 \<equiv> 0x04"
abbreviation BAR_PREFETCHABLE :: u32 where "BAR_PREFETCHABLE \<equiv> 0x08"

datatype bar_kind = NoBar | IoBar | Mmio32 | Mmio64

record bar =
  bar_kind :: bar_kind
  prefetchable :: bool
  bar_size :: u32
  value_lo :: u32
  value_hi :: u32
  mapped :: bool
  mapped_gpa :: u64

definition bar_default :: bar where
  "bar_default = \<lparr>bar_kind = NoBar, prefetchable = False, bar_size = 0, value_lo = 0, value_hi = 0,
     mapped = False, mapped_gpa = 0\<rparr>"

datatype bar_event = Mapped nat u64 u32 | Unmapped nat

record pci_config =
  cfg :: bytes
  writable_mask :: bytes
  bars :: "bar list"
  cap_next_alloc :: nat

definition pci_config_new :: pci_config where
  "pci_config_new = \<lparr>cfg = replicate 256 0, writable_mask = replicate 256 0, bars = replicate 6 bar_default,
     cap_next_alloc = CAP_LIST_START\<rparr>"

definition is_pow2 :: "u32 \<Rightarrow> bool" where
  "is_pow2 v \<longleftrightarrow> v \<noteq> 0 \<and> v AND (v - 1) = 0"

definition read_le :: "bytes \<Rightarrow> nat \<Rightarrow> u32" where
  "read_le p sz = fold (\<lambda>(i, b) v. v OR push_bit (8 * i) (ucast b)) (enumerate 0 (take sz p)) 0"

section \<open>Construction\<close>

definition cfg_put16 :: "nat \<Rightarrow> u16 \<Rightarrow> pci_config \<Rightarrow> pci_config" where
  "cfg_put16 off v c = c\<lparr>cfg := (cfg c)[off := ucast (v AND 0xFF), off + 1 := ucast (drop_bit 8 v)]\<rparr>"

definition cfg_read16 :: "nat \<Rightarrow> pci_config \<Rightarrow> u16" where
  "cfg_read16 off c = ucast (read_le (drop off (cfg c)) 2)"

definition cfg_command :: "pci_config \<Rightarrow> u16" where
  "cfg_command c = cfg_read16 CFG_COMMAND c"

definition set_ids :: "u16 \<Rightarrow> u16 \<Rightarrow> u16 \<Rightarrow> u16 \<Rightarrow> pci_config \<Rightarrow> pci_config" where
  "set_ids vid did sub_vid sub_id c =
     (let c1 = cfg_put16 CFG_SUBSYS_ID sub_id (cfg_put16 CFG_SUBSYS_VENDOR_ID sub_vid
                (cfg_put16 CFG_DEVICE_ID did (cfg_put16 CFG_VENDOR_ID vid c)))
      in c1\<lparr>cfg := (cfg c1)[CFG_HEADER_TYPE := HEADER_TYPE_NORMAL],
            writable_mask := (writable_mask c1)[CFG_COMMAND := 0xFF, CFG_COMMAND + 1 := 0xFF,
              CFG_INTERRUPT_LINE := 0xFF, CFG_CACHE_LINE_SIZE := 0xFF, CFG_LATENCY_TIMER := 0xFF]\<rparr>)"

definition set_class :: "u8 \<Rightarrow> u8 \<Rightarrow> u8 \<Rightarrow> u8 \<Rightarrow> pci_config \<Rightarrow> pci_config" where
  "set_class class_code subclass prog_if revision c =
     c\<lparr>cfg := (cfg c)[CFG_REVISION_ID := revision, CFG_PROG_IF := prog_if, CFG_SUBCLASS := subclass, CFG_CLASS_CODE := class_code]\<rparr>"

definition set_interrupt_pin :: "u8 \<Rightarrow> pci_config \<Rightarrow> pci_config" where
  "set_interrupt_pin pin c = c\<lparr>cfg := (cfg c)[CFG_INTERRUPT_PIN := pin]\<rparr>"

text \<open>\<open>None\<close> stands for a failed assertion in the construction functions.\<close>

definition declare_mmio64_bar :: "nat \<Rightarrow> u32 \<Rightarrow> bool \<Rightarrow> pci_config \<Rightarrow> pci_config option" where
  "declare_mmio64_bar idx sz pref c =
     (if \<not> idx \<le> 4 then None
      else if \<not> (is_pow2 sz \<and> 16 \<le> sz) then None
      else if \<not> (bar_kind (bars c ! idx) = NoBar \<and> bar_kind (bars c ! (idx + 1)) = NoBar) then None
      else Some (c\<lparr>bars := (bars c)[idx := (bars c ! idx)\<lparr>bar_kind := Mmio64, bar_size := sz, prefetchable := pref\<rparr>],
                   writable_mask := fold (\<lambda>b m. m[CFG_BAR0 + 4 * idx + b := 0xFF]) [0..<8] (writable_mask c)\<rparr>))"

text \<open>
  The loop of \<^verbatim>\<open>append_capability\<close> that finds the last capability; \<open>None\<close> when it leaves the
  configuration space or the list is longer than the fuel, which it is given one step per byte of.
\<close>

fun cap_last :: "nat \<Rightarrow> bytes \<Rightarrow> nat \<Rightarrow> nat option" where
  "cap_last 0 b cur = None"
| "cap_last (Suc fuel) b cur =
     (if length b \<le> cur + 1 then None
      else let nxt = b ! (cur + 1) in if nxt = 0 then Some cur else cap_last fuel b (unat nxt))"

definition append_capability :: "u8 \<Rightarrow> nat \<Rightarrow> pci_config \<Rightarrow> (pci_config \<times> nat) option" where
  "append_capability cap_id payload_size c =
     (if \<not> 2 \<le> payload_size then None
      else if \<not> cap_next_alloc c + payload_size \<le> CFG_SPACE_SIZE then None
      else let off = cap_next_alloc c
           in case (if cfg c ! CFG_CAP_PTR = 0
                    then let c1 = c\<lparr>cfg := (cfg c)[CFG_CAP_PTR := of_nat off]\<rparr>
                         in Some (cfg_put16 CFG_STATUS (cfg_read16 CFG_STATUS c1 OR STATUS_CAP_LIST) c1)
                    else case cap_last 256 (cfg c) (unat (cfg c ! CFG_CAP_PTR)) of
                           None \<Rightarrow> None
                         | Some cur \<Rightarrow> Some (c\<lparr>cfg := (cfg c)[cur + 1 := of_nat off]\<rparr>)) of
                None \<Rightarrow> None
              | Some c2 \<Rightarrow> Some (c2\<lparr>cfg := (cfg c2)[off := cap_id, off + 1 := 0],
                                   cap_next_alloc := cap_next_alloc c2 + payload_size\<rparr>, off))"

definition set_writable_byte :: "nat \<Rightarrow> u8 \<Rightarrow> pci_config \<Rightarrow> pci_config" where
  "set_writable_byte off m c = c\<lparr>writable_mask := (writable_mask c)[off := writable_mask c ! off OR m]\<rparr>"

section \<open>Base address registers\<close>

definition bar_layout :: "pci_config \<Rightarrow> (bar_kind \<times> u32) list" where
  "bar_layout c = map (\<lambda>b. (bar_kind b, bar_size b)) (bars c)"

definition bar_size_mask_low :: "bar \<Rightarrow> u32" where
  "bar_size_mask_low b =
     (if bar_size b = 0 then 0
      else case bar_kind b of
        IoBar \<Rightarrow> NOT (bar_size b - 1) AND 0xFFFFFFFC
      | Mmio32 \<Rightarrow> NOT (bar_size b - 1) AND 0xFFFFFFF0
      | Mmio64 \<Rightarrow> NOT (bar_size b - 1) AND 0xFFFFFFF0
      | NoBar \<Rightarrow> 0)"

definition bar_size_mask_high :: "bar \<Rightarrow> u32" where
  "bar_size_mask_high b = (if bar_kind b \<noteq> Mmio64 \<or> bar_size b = 0 then 0 else 0xFFFFFFFF)"

definition read_bar_dword :: "nat \<Rightarrow> pci_config \<Rightarrow> u32" where
  "read_bar_dword idx c =
     (let b = bars c ! idx
      in if bar_kind b = NoBar
         then if 0 < idx \<and> bar_kind (bars c ! (idx - 1)) = Mmio64
              then value_hi (bars c ! (idx - 1)) AND bar_size_mask_high (bars c ! (idx - 1))
              else 0
         else let v = value_lo b AND bar_size_mask_low b
              in case bar_kind b of
                   IoBar \<Rightarrow> v OR BAR_IO_MARKER
                 | Mmio32 \<Rightarrow> if prefetchable b then v OR BAR_PREFETCHABLE else v
                 | Mmio64 \<Rightarrow> let v' = v OR BAR_MMIO64 in if prefetchable b then v' OR BAR_PREFETCHABLE else v'
                 | NoBar \<Rightarrow> v)"

definition write_bar_dword :: "nat \<Rightarrow> u32 \<Rightarrow> pci_config \<Rightarrow> pci_config" where
  "write_bar_dword idx val c =
     (let b = bars c ! idx
      in if bar_kind b = NoBar
         then if 0 < idx \<and> bar_kind (bars c ! (idx - 1)) = Mmio64
              then let p = bars c ! (idx - 1) in c\<lparr>bars := (bars c)[idx - 1 := p\<lparr>value_hi := val AND bar_size_mask_high p\<rparr>]\<rparr>
              else c
         else c\<lparr>bars := (bars c)[idx := b\<lparr>value_lo := val AND bar_size_mask_low b\<rparr>]\<rparr>)"

definition set_bar_base :: "nat \<Rightarrow> u64 \<Rightarrow> pci_config \<Rightarrow> pci_config" where
  "set_bar_base idx gpa c =
     (let b = bars c ! idx
      in case bar_kind b of
           IoBar \<Rightarrow> c\<lparr>bars := (bars c)[idx := b\<lparr>value_lo := ucast gpa\<rparr>]\<rparr>
         | Mmio32 \<Rightarrow> c\<lparr>bars := (bars c)[idx := b\<lparr>value_lo := ucast gpa\<rparr>]\<rparr>
         | Mmio64 \<Rightarrow> c\<lparr>bars := (bars c)[idx := b\<lparr>value_lo := ucast (gpa AND 0xFFFFFFFF), value_hi := ucast (drop_bit 32 gpa)\<rparr>]\<rparr>
         | NoBar \<Rightarrow> c)"

definition bar_gpa :: "bar \<Rightarrow> u64" where
  "bar_gpa b = (let g = ucast (value_lo b) AND NOT 0xF
                in if bar_kind b = Mmio64 then g OR push_bit 32 (ucast (value_hi b)) else g)"

text \<open>One round of the loop of \<^verbatim>\<open>recompute_mappings\<close>: the BAR and the events it emits.\<close>

definition recompute_bar :: "bool \<Rightarrow> nat \<Rightarrow> bar \<Rightarrow> bar \<times> bar_event list" where
  "recompute_bar mem_on i b =
     (if bar_kind b \<noteq> Mmio32 \<and> bar_kind b \<noteq> Mmio64 then (b, [])
      else let gpa = bar_gpa b; want = (mem_on \<and> gpa \<noteq> 0)
           in if want \<and> \<not> mapped b then (b\<lparr>mapped := True, mapped_gpa := gpa\<rparr>, [Mapped i gpa (bar_size b)])
              else if \<not> want \<and> mapped b then (b\<lparr>mapped := False\<rparr>, [Unmapped i])
              else if want \<and> mapped b \<and> mapped_gpa b \<noteq> gpa
              then (b\<lparr>mapped_gpa := gpa\<rparr>, [Unmapped i, Mapped i gpa (bar_size b)])
              else (b, []))"

definition recompute_mappings :: "u16 \<Rightarrow> pci_config \<Rightarrow> pci_config \<times> bar_event list" where
  "recompute_mappings new_cmd c =
     (let rs = map (\<lambda>i. recompute_bar (new_cmd AND CMD_MEMORY_SPACE \<noteq> 0) i (bars c ! i)) [0..<6]
      in (c\<lparr>bars := map fst rs\<rparr>, concat (map snd rs)))"

section \<open>Guest accesses\<close>

definition size_mask :: "nat \<Rightarrow> u32" where
  "size_mask sz = (if sz = 4 then 0xFFFFFFFF else push_bit (8 * sz) 1 - 1)"

definition write_byte :: "nat \<Rightarrow> u8 \<Rightarrow> pci_config \<Rightarrow> pci_config" where
  "write_byte off val c =
     (let m = writable_mask c ! off
      in c\<lparr>cfg := (cfg c)[off := (cfg c ! off AND NOT m) OR (val AND m)]\<rparr>)"

definition write_bytes_masked :: "nat \<Rightarrow> nat \<Rightarrow> u32 \<Rightarrow> pci_config \<Rightarrow> pci_config" where
  "write_bytes_masked off sz val c =
     fold (\<lambda>i. write_byte (off + i) (ucast (drop_bit (8 * i) val AND 0xFF))) [0..<sz] c"

definition pci_read :: "nat \<Rightarrow> nat \<Rightarrow> pci_config \<Rightarrow> u32" where
  "pci_read off sz c =
     (if CFG_SPACE_SIZE < off + sz then size_mask sz
      else if CFG_BAR0 \<le> off \<and> off + sz \<le> CFG_BAR0 + 6 * 4 \<and> (off - CFG_BAR0) div 4 = (off + sz - 1 - CFG_BAR0) div 4
      then drop_bit (8 * ((off - CFG_BAR0) mod 4)) (read_bar_dword ((off - CFG_BAR0) div 4) c) AND size_mask sz
      else read_le (drop off (cfg c)) sz)"

definition pci_write :: "nat \<Rightarrow> nat \<Rightarrow> u32 \<Rightarrow> pci_config \<Rightarrow> pci_config \<times> bar_event list" where
  "pci_write off sz val c =
     (if CFG_SPACE_SIZE < off + sz then (c, [])
      else if off \<le> CFG_COMMAND + 1 \<and> CFG_COMMAND < off + sz
      then let c1 = write_bytes_masked off sz val c
           in if cfg_command c \<noteq> cfg_command c1 then recompute_mappings (cfg_command c1) c1 else (c1, [])
      else if CFG_BAR0 \<le> off \<and> off + sz \<le> CFG_BAR0 + 6 * 4
      then let idx = (off - CFG_BAR0) div 4;
               byte_off = (off - CFG_BAR0) mod 4;
               cur = read_bar_dword idx c AND bar_size_mask_low (bars c ! idx);
               cur' = if sz = 4 \<and> byte_off = 0 then val
                      else let m = push_bit (8 * byte_off) (size_mask sz)
                           in (cur AND NOT m) OR (push_bit (8 * byte_off) val AND m)
           in (write_bar_dword idx cur' c, [])
      else (write_bytes_masked off sz val c, []))"

section \<open>Snapshot\<close>

definition cfg_snapshot_capture :: "pci_config \<Rightarrow> bytes \<times> (u32 \<times> u32) list" where
  "cfg_snapshot_capture c = (cfg c, map (\<lambda>b. (value_lo b, value_hi b)) (bars c))"

definition cfg_snapshot_apply :: "bytes \<Rightarrow> (u32 \<times> u32) list \<Rightarrow> pci_config \<Rightarrow> pci_config \<times> bar_event list" where
  "cfg_snapshot_apply b vals c =
     (let c1 = c\<lparr>cfg := b, bars := map2 (\<lambda>x (lo, hi). x\<lparr>value_lo := lo, value_hi := hi, mapped := False, mapped_gpa := 0\<rparr>) (bars c) vals\<rparr>
      in recompute_mappings (cfg_command c1) c1)"

section \<open>Mapping events\<close>

text \<open>
  What the receiver of the events has mapped, by BAR index. Replaying fails on an event that does
  not fit: mapping a BAR that is mapped, or unmapping one that is not.
\<close>

fun replay :: "bar_event list \<Rightarrow> (nat \<Rightarrow> (u64 \<times> u32) option) \<Rightarrow> (nat \<Rightarrow> (u64 \<times> u32) option) option" where
  "replay [] m = Some m"
| "replay (Mapped i g n # es) m = (if m i = None then replay es (m(i := Some (g, n))) else None)"
| "replay (Unmapped i # es) m = (if m i = None then None else replay es (m(i := None)))"

definition bar_view :: "bar \<Rightarrow> (u64 \<times> u32) option" where
  "bar_view b = (if mapped b then Some (mapped_gpa b, bar_size b) else None)"

definition cfg_view :: "pci_config \<Rightarrow> nat \<Rightarrow> (u64 \<times> u32) option" where
  "cfg_view c i = (if i < 6 then bar_view (bars c ! i) else None)"

definition is_mmio :: "bar \<Rightarrow> bool" where
  "is_mmio b \<longleftrightarrow> bar_kind b = Mmio32 \<or> bar_kind b = Mmio64"

definition bars_wf :: "pci_config \<Rightarrow> bool" where
  "bars_wf c \<longleftrightarrow> length (bars c) = 6 \<and> list_all (\<lambda>b. mapped b \<longrightarrow> is_mmio b) (bars c)"

text \<open>Where a BAR should be, given the COMMAND register.\<close>

definition bar_wanted :: "bool \<Rightarrow> bar \<Rightarrow> (u64 \<times> u32) option" where
  "bar_wanted mem_on b = (if is_mmio b \<and> mem_on \<and> bar_gpa b \<noteq> 0 then Some (bar_gpa b, bar_size b) else None)"

lemma replay_append: "replay (xs @ ys) m = (case replay xs m of None \<Rightarrow> None | Some m' \<Rightarrow> replay ys m')"
proof (induction xs arbitrary: m)
  case (Cons e es)
  then show ?case by (cases e) (simp_all add: fun_upd_def)
qed simp

lemma recompute_bar_view:
  assumes "mapped b \<longrightarrow> is_mmio b" and "m i = bar_view b"
  shows "replay (snd (recompute_bar on i b)) m = Some (m(i := bar_view (fst (recompute_bar on i b))))"
    and "bar_view (fst (recompute_bar on i b)) = bar_wanted on b"
    and "is_mmio (fst (recompute_bar on i b)) = is_mmio b" "bar_gpa (fst (recompute_bar on i b)) = bar_gpa b"
    and "bar_wanted on' (fst (recompute_bar on i b)) = bar_wanted on' b"
    and "mapped (fst (recompute_bar on i b)) \<longrightarrow> is_mmio (fst (recompute_bar on i b))"
  using assms by (auto simp: recompute_bar_def bar_view_def bar_wanted_def is_mmio_def bar_gpa_def Let_def fun_upd_idem)

lemma recompute_mappings_view:
  assumes "bars_wf c" and "recompute_mappings cmd c = (c', ev)"
  shows "replay ev (cfg_view c) = Some (cfg_view c')" and "bars_wf c'" and "cfg c' = cfg c"
    and "i < 6 \<Longrightarrow> cfg_view c' i = bar_wanted (cmd AND CMD_MEMORY_SPACE \<noteq> 0) (bars c' ! i)"
proof -
  define on where "on = (cmd AND CMD_MEMORY_SPACE \<noteq> 0)"
  define f where "f i = recompute_bar on i (bars c ! i)" for i
  have c': "c' = c\<lparr>bars := map (fst \<circ> f) [0..<6]\<rparr>" and ev: "ev = concat (map (snd \<circ> f) [0..<6])"
    using assms(2) by (auto simp: recompute_mappings_def f_def on_def [symmetric] Let_def o_def)
  have wf: "mapped (bars c ! i) \<longrightarrow> is_mmio (bars c ! i)" if "i < 6" for i
    using assms(1) that by (auto simp: bars_wf_def list_all_length)
  have "n \<le> 6 \<Longrightarrow> replay (concat (map (snd \<circ> f) [0..<n])) (cfg_view c) =
      Some (\<lambda>i. if i < n then bar_view (fst (f i)) else cfg_view c i)" for n
  proof (induction n)
    case (Suc n)
    let ?m = "\<lambda>i. if i < n then bar_view (fst (f i)) else cfg_view c i"
    have "replay (snd (f n)) ?m = Some (?m(n := bar_view (fst (f n))))"
      unfolding f_def using Suc.prems by (intro recompute_bar_view(1)) (auto simp: wf cfg_view_def)
    moreover have "?m(n := bar_view (fst (f n))) = (\<lambda>i. if i < Suc n then bar_view (fst (f i)) else cfg_view c i)"
      by (auto simp: less_Suc_eq)
    ultimately show ?case using Suc by (simp add: replay_append)
  qed simp
  from this [of 6] show "replay ev (cfg_view c) = Some (cfg_view c')"
    unfolding ev c' by (auto simp: cfg_view_def)
  show "bars_wf c'" unfolding c' bars_wf_def
    using recompute_bar_view(6) [where m = "\<lambda>_. bar_view b" for b] wf by (auto simp: list_all_length f_def)
  show "cfg c' = cfg c" by (simp add: c')
  show "cfg_view c' i = bar_wanted (cmd AND CMD_MEMORY_SPACE \<noteq> 0) (bars c' ! i)" if "i < 6"
  proof -
    have *: "bar_view (fst (f i)) = bar_wanted on (bars c ! i)" "bar_wanted on (fst (f i)) = bar_wanted on (bars c ! i)"
      unfolding f_def using wf that by (intro recompute_bar_view(2,5) [where m = "\<lambda>_. bar_view (bars c ! i)"]; simp)+
    have "cfg_view c' i = bar_view (fst (f i))" "bars c' ! i = fst (f i)"
      using that by (simp_all add: c' cfg_view_def)
    with * show ?thesis by (simp add: on_def)
  qed
qed

lemma bars_write_masked [simp]: "bars (write_bytes_masked off sz val c) = bars c"
proof -
  have "bars (fold (\<lambda>i. write_byte (off + i) (f i)) is c) = bars c" for f "is"
    by (induction "is" arbitrary: c) (simp_all add: write_byte_def Let_def)
  then show ?thesis by (simp add: write_bytes_masked_def)
qed

lemma write_bar_view:
  assumes "bars_wf c" and "idx < 6"
  shows "cfg_view (write_bar_dword idx val c) = cfg_view c" "bars_wf (write_bar_dword idx val c)"
    "cfg (write_bar_dword idx val c) = cfg c"
  using assms by (auto simp: write_bar_dword_def cfg_view_def bar_view_def bars_wf_def is_mmio_def list_all_length
      nth_list_update Let_def)

lemma read_le_two: "read_le (drop off b) 2 = read_le (byte_range b off 2) 2"
  by (simp add: read_le_def byte_range_def)

lemma byte_range_masked:
  assumes "off + sz \<le> a \<or> a + n \<le> off"
  shows "byte_range (cfg (write_bytes_masked off sz val c)) a n = byte_range (cfg c) a n"
proof -
  have "byte_range (xs[j := x]) a n = byte_range xs a n" if "j < a \<or> a + n \<le> j" for j and x :: u8 and xs
    using that by (intro nth_equalityI) (auto simp: nth_byte_range)
  then have "list_all (\<lambda>i. off + i < a \<or> a + n \<le> off + i) is \<Longrightarrow>
      byte_range (cfg (fold (\<lambda>i. write_byte (off + i) (f i)) is c)) a n = byte_range (cfg c) a n" for f "is"
    by (induction "is" arbitrary: c) (simp_all add: write_byte_def Let_def)
  then show ?thesis using assms unfolding write_bytes_masked_def by (auto simp: list_all_iff)
qed

lemma pci_write_replay:
  assumes "bars_wf c" and "sz \<in> {1, 2, 4}" and "pci_write off sz val c = (c', ev)"
  shows "replay ev (cfg_view c) = Some (cfg_view c') \<and> bars_wf c' \<and>
    (cfg_command c' \<noteq> cfg_command c \<longrightarrow>
      (\<forall>i < 6. cfg_view c' i = bar_wanted (cfg_command c' AND CMD_MEMORY_SPACE \<noteq> 0) (bars c' ! i)))"
proof -
  have masked: "bars_wf (write_bytes_masked off sz val c)" "cfg_view (write_bytes_masked off sz val c) = cfg_view c"
    using assms(1) by (auto simp: bars_wf_def cfg_view_def)
  consider "CFG_SPACE_SIZE < off + sz" | "\<not> CFG_SPACE_SIZE < off + sz" "off \<le> CFG_COMMAND + 1 \<and> CFG_COMMAND < off + sz"
    | "\<not> CFG_SPACE_SIZE < off + sz" "\<not> (off \<le> CFG_COMMAND + 1 \<and> CFG_COMMAND < off + sz)" by blast
  then show ?thesis
  proof cases
    case 1
    with assms(1,3) show ?thesis by (simp add: pci_write_def)
  next
    case 2
    let ?c1 = "write_bytes_masked off sz val c"
    show ?thesis
    proof (cases "cfg_command c = cfg_command ?c1")
      case True
      with 2 assms(1,3) masked show ?thesis by (simp add: pci_write_def Let_def)
    next
      case False
      then have r: "recompute_mappings (cfg_command ?c1) ?c1 = (c', ev)" using 2 assms(3) by (simp add: pci_write_def Let_def)
      note view = recompute_mappings_view [OF masked(1) r]
      have "cfg_command c' = cfg_command ?c1" using view(3) by (simp add: cfg_command_def cfg_read16_def)
      with view masked show ?thesis by simp
    qed
  next
    case 3
    show ?thesis
    proof (cases "CFG_BAR0 \<le> off \<and> off + sz \<le> CFG_BAR0 + 6 * 4")
      case True
      with assms(2) have idx: "(off - CFG_BAR0) div 4 < 6" by auto
      from assms(3) 3 True obtain cur where c': "c' = write_bar_dword ((off - CFG_BAR0) div 4) cur c" "ev = []"
        by (auto simp: pci_write_def Let_def)
      note view = write_bar_view [OF assms(1) idx, of cur]
      then have "cfg_command c' = cfg_command c" by (simp add: c' cfg_command_def cfg_read16_def)
      with view show ?thesis by (simp add: c')
    next
      case False
      with 3 assms(3) have c': "c' = write_bytes_masked off sz val c" "ev = []" by (auto simp: pci_write_def)
      have "cfg_command c' = cfg_command c"
        using 3(2) byte_range_masked [of off sz CFG_COMMAND 2 val c]
        unfolding c' cfg_command_def cfg_read16_def read_le_two by auto
      with masked show ?thesis by (simp add: c')
    qed
  qed
qed

text \<open>
  The events of one BAR are the shortest way from the old mapping to the new: none when nothing changed,
  else an unmap of what was mapped and a map of what is.
\<close>

fun event_bar :: "bar_event \<Rightarrow> nat" where
  "event_bar (Mapped i g n) = i"
| "event_bar (Unmapped i) = i"

definition bar_transition :: "nat \<Rightarrow> (u64 \<times> u32) option \<Rightarrow> (u64 \<times> u32) option \<Rightarrow> bar_event list" where
  "bar_transition i v v' = (if v = v' then []
     else (if v = None then [] else [Unmapped i]) @ (case v' of None \<Rightarrow> [] | Some (g, n) \<Rightarrow> [Mapped i g n]))"

lemma recompute_bar_transition:
  "(mapped b \<longrightarrow> is_mmio b) \<Longrightarrow> snd (recompute_bar on i b) = bar_transition i (bar_view b) (bar_view (fst (recompute_bar on i b)))"
  by (auto simp: recompute_bar_def bar_transition_def bar_view_def is_mmio_def Let_def)

lemma filter_transition: "filter (\<lambda>e. event_bar e = i) (bar_transition j v v') = (if i = j then bar_transition j v v' else [])"
  by (auto simp: bar_transition_def split: option.split)

lemma recompute_mappings_transition:
  assumes "bars_wf c" and "recompute_mappings cmd c = (c', ev)" and "i < 6"
  shows "filter (\<lambda>e. event_bar e = i) ev = bar_transition i (cfg_view c i) (cfg_view c' i)"
proof -
  define f where "f j = recompute_bar (cmd AND CMD_MEMORY_SPACE \<noteq> 0) j (bars c ! j)" for j
  have c': "bars c' = map (fst \<circ> f) [0..<6]" and ev: "ev = concat (map (snd \<circ> f) [0..<6])"
    using assms(2) by (auto simp: recompute_mappings_def f_def Let_def o_def)
  have step: "snd (f j) = bar_transition j (cfg_view c j) (cfg_view c' j)" if "j < 6" for j
    using assms(1) that recompute_bar_transition [of "bars c ! j"]
    by (simp add: f_def cfg_view_def c' bars_wf_def list_all_length)
  have "n \<le> 6 \<Longrightarrow> filter (\<lambda>e. event_bar e = i) (concat (map (snd \<circ> f) [0..<n])) =
      (if i < n then bar_transition i (cfg_view c i) (cfg_view c' i) else [])" for n
    by (induction n) (auto simp: step filter_transition less_Suc_eq)
  from this [of 6] show ?thesis using assms(3) by (simp only: ev order_refl if_True)
qed

lemma pci_write_transition:
  assumes "bars_wf c" and "sz \<in> {1, 2, 4}" and "pci_write off sz val c = (c', ev)" and "i < 6"
  shows "filter (\<lambda>e. event_bar e = i) ev = bar_transition i (cfg_view c i) (cfg_view c' i)"
proof -
  let ?c1 = "write_bytes_masked off sz val c"
  have masked: "bars_wf ?c1" "cfg_view ?c1 = cfg_view c" using assms(1) by (auto simp: bars_wf_def cfg_view_def)
  consider "ev = []" | "recompute_mappings (cfg_command ?c1) ?c1 = (c', ev)"
    using assms(3) by (auto simp: pci_write_def Let_def split: if_splits)
  then show ?thesis
  proof cases
    case 1
    then have "cfg_view c' = cfg_view c" using pci_write_replay [OF assms(1-3)] by simp
    with 1 show ?thesis by (simp add: bar_transition_def)
  next
    case 2
    from recompute_mappings_transition [OF masked(1) 2 assms(4)] show ?thesis by (simp add: masked(2))
  qed
qed

text \<open>
  C24. The BAR mappings follow the configuration space: the events of every guest write fit what is
  mapped, and replaying them gives exactly the mappings the registers record; after a write that
  changes COMMAND, the mapped BARs are those memory BARs that have a nonzero address, each at its
  programmed address, if MEM_SPACE is set, and none otherwise.
\<close>

theorem pci_bar_events:
  assumes "bars_wf c" and "sz \<in> {1, 2, 4}" and "pci_write off sz val c = (c', ev)"
  shows "replay ev (cfg_view c) = Some (cfg_view c') \<and> bars_wf c' \<and>
    (cfg_command c' \<noteq> cfg_command c \<longrightarrow>
      (\<forall>i < 6. cfg_view c' i = bar_wanted (cfg_command c' AND CMD_MEMORY_SPACE \<noteq> 0) (bars c' ! i)))"
  using assms by (rule pci_write_replay)

definition demo_cfg :: pci_config where
  "demo_cfg = set_bar_base 0 0xE0000000 (set_ids 0x1AF4 0x1042 0x1AF4 1 pci_config_new
     \<lparr>bars := (replicate 6 bar_default)[0 := bar_default\<lparr>bar_kind := Mmio64, bar_size := 0x4000\<rparr>]\<rparr>)"

lemma demo_cfg_wf: "bars_wf demo_cfg"
  by (auto simp: demo_cfg_def bars_wf_def set_bar_base_def set_ids_def cfg_put16_def bar_default_def
      list_all_length nth_list_update Let_def)

theorem pci_bar_events_witness:
  "case pci_write CFG_COMMAND 2 2 demo_cfg of (c', ev) \<Rightarrow> replay ev (cfg_view demo_cfg) = Some (cfg_view c')"
  using pci_bar_events [OF demo_cfg_wf, of 2 CFG_COMMAND 2] by (cases "pci_write CFG_COMMAND 2 2 demo_cfg") simp

section \<open>Sizing and programming a BAR\<close>

lemma pow2_nat: "0 < v \<Longrightarrow> v AND (v - 1) = 0 \<Longrightarrow> \<exists>k. v = (2 :: nat) ^ k"
proof (induction v rule: less_induct)
  case (less v)
  have half: "(v div 2) AND ((v - 1) div 2) = 0"
    using arg_cong [OF less.prems(2), of "drop_bit 1"] unfolding drop_bit_and by (simp add: drop_bit_eq_div)
  show ?case
  proof (cases "even v")
    case True
    then obtain w where w: "v = 2 * w" by blast
    then have "w AND (w - 1) = 0" using half less.prems(1) by (cases w) simp_all
    then obtain k where "w = 2 ^ k" using less.IH [of w] less.prems(1) by (auto simp: w)
    then show ?thesis by (auto simp: w intro!: exI [of _ "Suc k"])
  next
    case False
    then obtain w where w: "v = 2 * w + 1" by (elim oddE)
    then have "w = 0" using half by simp
    then show ?thesis by (auto simp: w intro!: exI [of _ 0])
  qed
qed

lemma is_pow2_exp:
  assumes "is_pow2 v" and "16 \<le> v"
  obtains k where "4 \<le> k" "k < 32" "v = 2 ^ k"
proof -
  have "v \<noteq> 0" using assms(1) by (simp add: is_pow2_def)
  then have "unat (v - 1) = unat v - 1" by (simp add: unat_minus_one)
  moreover have "unat (v AND (v - 1)) = 0" using assms(1) by (simp add: is_pow2_def)
  ultimately have "unat v AND (unat v - 1) = 0" by (simp add: unsigned_and_eq)
  moreover have "0 < unat v" using \<open>v \<noteq> 0\<close> by (simp add: unat_gt_0)
  ultimately obtain k where k: "unat v = 2 ^ k" using pow2_nat by blast
  have "(2 :: nat) ^ k < 2 ^ 32" using unat_lt [of v] k by simp
  then have "k < 32" by (rule power_less_imp_less_exp [rotated]) simp
  moreover have "(2 :: nat) ^ 4 \<le> 2 ^ k" using assms(2) k by (simp add: word_le_nat_alt)
  then have "4 \<le> k" by (rule power_le_imp_le_exp [rotated]) simp
  moreover have "v = 2 ^ k" using k \<open>k < 32\<close> by (simp add: word_unat_eq_iff unat_2p)
  ultimately show ?thesis using that by blast
qed

lemma pci_bar_dword:
  assumes "idx < 6"
  shows "pci_write (CFG_BAR0 + 4 * idx) 4 v c = (write_bar_dword idx v c, [])"
    and "pci_read (CFG_BAR0 + 4 * idx) 4 c = read_bar_dword idx c"
proof -
  have "(4 * idx + 3) div 4 = idx" by simp
  moreover have "x AND 0xFFFFFFFF = x" for x :: u32
  proof -
    have "(0xFFFFFFFF :: u32) = NOT 0" by simp
    then show ?thesis by (simp only:) simp
  qed
  ultimately show "pci_write (CFG_BAR0 + 4 * idx) 4 v c = (write_bar_dword idx v c, [])"
      "pci_read (CFG_BAR0 + 4 * idx) 4 c = read_bar_dword idx c"
    using assms by (simp_all add: pci_write_def pci_read_def size_mask_def)
qed

lemma mask_low_exp:
  assumes "bar_kind b = Mmio64" "bar_size b = 2 ^ k" "4 \<le> k" "k < 32"
  shows "bar_size_mask_low b = NOT (mask k)"
proof -
  have "(2 :: u32) ^ k \<noteq> 0" using assms(4) by (simp add: word_unat_eq_iff unat_2p)
  moreover have "NOT (2 ^ k - 1) AND 0xFFFFFFF0 = NOT (mask k :: u32)"
  proof -
    have m: "(0xFFFFFFF0 :: u32) = NOT (mask 4)" by (simp add: mask_numeral)
    show ?thesis unfolding m mask_eq_exp_minus_1 [symmetric]
      by (rule bit_word_eqI) (use assms(3) in \<open>auto simp: bit_simps\<close>)
  qed
  ultimately show ?thesis using assms by (simp add: bar_size_mask_low_def)
qed

text \<open>
  C31. A declared 64-bit BAR answers the guest's probing and programming: a dword read after a dword
  write gives the written address rounded down to the BAR's size, with the type bits; all ones
  decode to the declared size; and after both halves are written the decoded address is the written
  one rounded down to the size.
\<close>

theorem pci_bar_sizing:
  assumes "declare_mmio64_bar idx sz pref c0 = Some c" and "length (bars c0) = 6"
  shows "pci_read (CFG_BAR0 + 4 * idx) 4 (fst (pci_write (CFG_BAR0 + 4 * idx) 4 v c)) =
      (v AND NOT (sz - 1)) OR BAR_MMIO64 OR (if pref then BAR_PREFETCHABLE else 0) \<and>
    NOT (pci_read (CFG_BAR0 + 4 * idx) 4 (fst (pci_write (CFG_BAR0 + 4 * idx) 4 0xFFFFFFFF c)) AND 0xFFFFFFF0) + 1 = sz \<and>
    bar_gpa (bars (fst (pci_write (CFG_BAR0 + 4 * (idx + 1)) 4 w (fst (pci_write (CFG_BAR0 + 4 * idx) 4 v c)))) ! idx) =
      (push_bit 32 (ucast w) OR ucast v) AND NOT (ucast (sz - 1))"
proof -
  have idx: "idx \<le> 4" and p2: "is_pow2 sz" "16 \<le> sz" and nb: "bar_kind (bars c0 ! (idx + 1)) = NoBar"
    using assms(1) by (auto simp: declare_mmio64_bar_def split: if_splits)
  obtain k where k: "4 \<le> k" "k < 32" "sz = 2 ^ k" using is_pow2_exp [OF p2] by blast
  let ?b = "bars c ! idx"
  have b: "bar_kind ?b = Mmio64" "bar_size ?b = 2 ^ k" "prefetchable ?b = pref" "length (bars c) = 6"
      "bar_kind (bars c ! (idx + 1)) = NoBar"
    using assms idx nb by (auto simp: declare_mmio64_bar_def k(3) nth_list_update split: if_splits)
  have sz: "sz - 1 = mask k" by (simp add: k(3) mask_eq_exp_minus_1)
  note low = mask_low_exp [OF b(1,2) k(1,2)]
  have written: "bars (write_bar_dword idx x c) ! idx = ?b\<lparr>value_lo := x AND NOT (mask k)\<rparr>" for x
    using b idx low by (simp add: write_bar_dword_def)
  have low': "bar_size_mask_low (?b\<lparr>value_lo := x\<rparr>) = NOT (mask k)" for x using b k by (intro mask_low_exp) simp_all
  have r: "read_bar_dword idx (write_bar_dword idx x c) =
      (x AND NOT (mask k)) OR BAR_MMIO64 OR (if pref then BAR_PREFETCHABLE else 0)" for x
    using b by (simp add: read_bar_dword_def written low' and.assoc or.assoc Let_def)
  note dw = pci_bar_dword [of idx] pci_bar_dword [of "idx + 1"]
  have i6: "idx < 6" and i6': "idx + 1 < 6" using idx by simp_all
  have e2: "(2 :: u32) ^ k \<noteq> 0" using k(2) by (simp add: word_unat_eq_iff unat_2p)
  show ?thesis
  proof (intro conjI)
    show "pci_read (CFG_BAR0 + 4 * idx) 4 (fst (pci_write (CFG_BAR0 + 4 * idx) 4 v c)) =
      (v AND NOT (sz - 1)) OR BAR_MMIO64 OR (if pref then BAR_PREFETCHABLE else 0)"
      using idx r by (simp add: dw sz)
    have e: "(0xFFFFFFFF :: u32) = NOT 0" "(0xFFFFFFF0 :: u32) = NOT (mask 4)" "BAR_MMIO64 = push_bit 2 1" "BAR_PREFETCHABLE = push_bit 3 1"
      by (simp_all add: mask_numeral)
    have "NOT (((0xFFFFFFFF AND NOT (mask k)) OR BAR_MMIO64 OR (if pref then BAR_PREFETCHABLE else 0)) AND 0xFFFFFFF0) = mask k"
      unfolding e using k(1) by (intro bit_word_eqI) (auto simp: bit_simps simp del: push_bit_of_1)
    then show "NOT (pci_read (CFG_BAR0 + 4 * idx) 4 (fst (pci_write (CFG_BAR0 + 4 * idx) 4 0xFFFFFFFF c)) AND 0xFFFFFFF0) + 1 = sz"
      using idx unfolding dw(2) [OF i6] dw(1) [OF i6] fst_conv r by (simp add: k(3) mask_eq_exp_minus_1)
    have w: "w AND 0xFFFFFFFF = w" unfolding e by simp
    have "bars (write_bar_dword (idx + 1) w (write_bar_dword idx v c)) ! idx = ?b\<lparr>value_lo := v AND NOT (mask k), value_hi := w\<rparr>"
      using b idx low w k(2) by (simp add: write_bar_dword_def bar_size_mask_high_def k(3) Let_def e2)
    moreover have "bar_gpa (?b\<lparr>value_lo := v AND NOT (mask k), value_hi := w\<rparr>) = (push_bit 32 (ucast w) OR ucast v) AND NOT (ucast (sz - 1))"
    proof -
      have f: "(0xF :: u64) = mask 4" by (simp add: mask_numeral)
      show ?thesis unfolding bar_gpa_def f sz using b(1) k(1,2)
        by (simp add: Let_def) (rule bit_word_eqI, auto simp: bit_simps dest: bit_imp_le_length)
    qed
    ultimately show "bar_gpa (bars (fst (pci_write (CFG_BAR0 + 4 * (idx + 1)) 4 w (fst (pci_write (CFG_BAR0 + 4 * idx) 4 v c)))) ! idx) =
      (push_bit 32 (ucast w) OR ucast v) AND NOT (ucast (sz - 1))"
      unfolding dw(1) [OF i6] dw(3) [OF i6'] fst_conv by simp
  qed
qed

theorem pci_bar_sizing_witness:
  "\<exists>c. declare_mmio64_bar 2 0x1000 True pci_config_new = Some c \<and>
     NOT (pci_read (CFG_BAR0 + 4 * 2) 4 (fst (pci_write (CFG_BAR0 + 4 * 2) 4 0xFFFFFFFF c)) AND 0xFFFFFFF0) + 1 = 0x1000"
proof -
  have "declare_mmio64_bar 2 0x1000 True pci_config_new \<noteq> None"
    by (simp add: declare_mmio64_bar_def pci_config_new_def is_pow2_def bar_default_def)
  then obtain c where c: "declare_mmio64_bar 2 0x1000 True pci_config_new = Some c" by blast
  moreover have "length (bars pci_config_new) = 6" by (simp add: pci_config_new_def)
  ultimately show ?thesis using pci_bar_sizing [OF c] by blast
qed

section \<open>The capability list\<close>

text \<open>The construction of a device's list, and the walk of a guest that reads it back.\<close>

fun append_capabilities :: "(u8 \<times> nat) list \<Rightarrow> pci_config \<Rightarrow> (pci_config \<times> nat list) option" where
  "append_capabilities [] c = Some (c, [])"
| "append_capabilities ((cap_id, n) # caps) c = (case append_capability cap_id n c of
     None \<Rightarrow> None
   | Some (c1, off) \<Rightarrow> (case append_capabilities caps c1 of None \<Rightarrow> None | Some (c2, offs) \<Rightarrow> Some (c2, off # offs)))"

fun cap_walk :: "nat \<Rightarrow> bytes \<Rightarrow> nat \<Rightarrow> (nat \<times> u8) list option" where
  "cap_walk 0 b p = None"
| "cap_walk (Suc fuel) b p =
     (if p = 0 then Some []
      else if length b \<le> p + 1 then None
      else map_option ((#) (p, b ! p)) (cap_walk fuel b (unat (b ! (p + 1)))))"

fun linked :: "bytes \<Rightarrow> nat \<Rightarrow> (nat \<times> u8) list \<Rightarrow> bool" where
  "linked b p [] \<longleftrightarrow> p = 0"
| "linked b p ((off, cap_id) # xs) \<longleftrightarrow> p = off \<and> b ! off = cap_id \<and> linked b (unat (b ! (off + 1))) xs"

definition cap_list :: "pci_config \<Rightarrow> (nat \<times> u8) list \<Rightarrow> bool" where
  "cap_list c xs \<longleftrightarrow> length (cfg c) = 256 \<and> CAP_LIST_START \<le> cap_next_alloc c \<and>
     linked (cfg c) (unat (cfg c ! CFG_CAP_PTR)) xs \<and>
     sorted_wrt (\<lambda>x y. fst x + 2 \<le> fst y) xs \<and>
     (\<forall>x \<in> set xs. CAP_LIST_START \<le> fst x \<and> fst x + 2 \<le> cap_next_alloc c \<and> fst x + 2 \<le> 256) \<and>
     (xs \<noteq> [] \<longrightarrow> bit (cfg c ! CFG_STATUS) 4)"

lemma linked_cong:
  "\<forall>x \<in> set xs. b ! fst x = b' ! fst x \<and> b ! (fst x + 1) = b' ! (fst x + 1) \<Longrightarrow> linked b p xs \<longleftrightarrow> linked b' p xs"
  by (induction b p xs rule: linked.induct) auto

lemma linked_walk:
  "linked b p xs \<Longrightarrow> \<forall>x \<in> set xs. 0 < fst x \<and> fst x + 2 \<le> length b \<Longrightarrow> length xs < fuel \<Longrightarrow> cap_walk fuel b p = Some xs"
proof (induction b p xs arbitrary: fuel rule: linked.induct)
  case (1 b p)
  then show ?case by (cases fuel) auto
next
  case (2 b p off cap_id xs)
  then show ?case by (cases fuel) auto
qed

lemma linked_last:
  "linked b p xs \<Longrightarrow> xs \<noteq> [] \<Longrightarrow> \<forall>x \<in> set xs. 0 < fst x \<and> fst x + 2 \<le> length b \<Longrightarrow> length xs \<le> fuel \<Longrightarrow>
   cap_last fuel b p = Some (fst (last xs))"
proof (induction b p xs arbitrary: fuel rule: linked.induct)
  case (2 b p off cap_id xs)
  obtain f where f: "fuel = Suc f" using 2 by (cases fuel) auto
  show ?case
  proof (cases xs)
    case Nil
    with 2 show ?thesis by (simp add: f unat_eq_zero)
  next
    case (Cons y ys)
    then have "b ! (off + 1) \<noteq> 0" using 2 by (cases y) auto
    with 2 Cons show ?thesis by (auto simp: f)
  qed
qed simp

lemma linked_snoc:
  assumes "linked b p xs" and "xs \<noteq> []" and "sorted_wrt (\<lambda>x y. fst x + 2 \<le> fst y) xs"
    and "\<forall>x \<in> set xs. fst x + 2 \<le> off" and "off + 1 < length b" and "off < 256"
  shows "linked (b[fst (last xs) + 1 := of_nat off, off := cap_id, off + 1 := 0]) p (xs @ [(off, cap_id)])"
  using assms(1-4)
proof (induction xs arbitrary: p)
  case (Cons x xs)
  obtain o1 id1 where x: "x = (o1, id1)" by (cases x)
  have o1: "o1 + 2 \<le> off" using Cons.prems(4) by (simp add: x)
  show ?case
  proof (cases "xs = []")
    case True
    have "unat (of_nat off :: u8) = off" using assms(6) by (simp add: unat_of_nat take_bit_nat_eq_self)
    with Cons.prems(1) True o1 assms(5) show ?thesis by (simp add: x nth_list_update)
  next
    case False
    then have "last xs \<in> set xs" by simp
    then have l: "o1 + 2 \<le> fst (last xs)" using Cons.prems(3) by (auto simp: x)
    have "linked (b[fst (last xs) + 1 := of_nat off, off := cap_id, off + 1 := 0]) (unat (b ! (o1 + 1))) (xs @ [(off, cap_id)])"
      using Cons False by (auto simp: x)
    then show ?thesis using Cons.prems(1) False o1 l by (simp add: x nth_list_update)
  qed
qed simp

lemma cap_list_length: "cap_list c xs \<Longrightarrow> length xs < 256"
proof -
  assume c: "cap_list c xs"
  then have "sorted_wrt (\<lambda>x y. fst x + 2 \<le> fst y) xs" by (simp add: cap_list_def)
  then have "sorted_wrt (<) (map fst xs)" unfolding sorted_wrt_map by (rule sorted_wrt_mono_rel [rotated]) auto
  then have "length xs = card (set (map fst xs))" using distinct_card [of "map fst xs"] by (simp add: strict_sorted_iff)
  also have "set (map fst xs) \<subseteq> {64..<256}" using c by (force simp: cap_list_def)
  then have "card (set (map fst xs)) \<le> card {64..<256 :: nat}" by (intro card_mono) simp_all
  finally show "length xs < 256" by simp
qed

lemma cap_list_append:
  assumes "cap_list c xs" and "2 \<le> n" and "cap_next_alloc c + n \<le> CFG_SPACE_SIZE"
  shows "case append_capability cap_id n c of
      None \<Rightarrow> False
    | Some (c', off) \<Rightarrow> off = cap_next_alloc c \<and> cap_next_alloc c' = off + n \<and> cap_list c' (xs @ [(off, cap_id)])"
proof -
  define off where "off = cap_next_alloc c"
  have wf: "length (cfg c) = 256" "64 \<le> off" "off + 1 < 256" "off < 256"
    and lk: "linked (cfg c) (unat (cfg c ! CFG_CAP_PTR)) xs" "sorted_wrt (\<lambda>x y. fst x + 2 \<le> fst y) xs"
    and in_range: "\<forall>x \<in> set xs. 64 \<le> fst x \<and> fst x + 2 \<le> off \<and> fst x + 2 \<le> 256"
    and status: "xs \<noteq> [] \<longrightarrow> bit (cfg c ! CFG_STATUS) 4"
    using assms by (auto simp: cap_list_def off_def)
  have u8: "unat (of_nat off :: u8) = off" using wf by (simp add: unat_of_nat take_bit_nat_eq_self)
  then have nz: "(of_nat off :: u8) \<noteq> 0" using wf by (metis unat_0 not_numeral_le_zero)
  show ?thesis
  proof (cases "xs = []")
    case True
    then have "cfg c ! CFG_CAP_PTR = 0" using lk(1) by (simp add: unat_eq_zero)
    moreover have "bit (ucast (w OR STATUS_CAP_LIST) :: u8) 4" for w by (simp add: bit_simps)
    ultimately show ?thesis using assms wf u8 True
      by (simp add: append_capability_def off_def [symmetric] cfg_put16_def cap_list_def nth_list_update Let_def)
  next
    case False
    then have ptr: "cfg c ! CFG_CAP_PTR \<noteq> 0" using lk(1) in_range by (cases xs) auto
    have last: "cap_last 256 (cfg c) (unat (cfg c ! CFG_CAP_PTR)) = Some (fst (last xs))"
      using cap_list_length [OF assms(1)] in_range wf(1) False by (intro linked_last [OF lk(1)]) auto
    have "last xs \<in> set xs" using False by simp
    then have l: "64 \<le> fst (last xs)" "fst (last xs) + 2 \<le> off" using in_range by auto
    have "linked ((cfg c)[fst (last xs) + 1 := of_nat off, off := cap_id, off + 1 := 0]) (unat (cfg c ! CFG_CAP_PTR)) (xs @ [(off, cap_id)])"
      using in_range wf by (intro linked_snoc lk False) auto
    moreover define b where "b = (cfg c)[fst (last xs) + 1 := of_nat off, off := cap_id, off + 1 := 0]"
    moreover have "b ! CFG_CAP_PTR = cfg c ! CFG_CAP_PTR" "b ! CFG_STATUS = cfg c ! CFG_STATUS" "length b = 256"
      using wf l by (simp_all add: b_def)
    moreover have "append_capability cap_id n c = Some (c\<lparr>cfg := b, cap_next_alloc := off + n\<rparr>, off)"
      using assms(2,3) last ptr by (simp add: append_capability_def off_def [symmetric] b_def Let_def)
    ultimately show ?thesis using assms(2,3) wf in_range lk(2) status False
      by (fastforce simp: cap_list_def off_def [symmetric] sorted_wrt_append)
  qed
qed

lemma append_capabilities_list:
  assumes "cap_list c xs" and "list_all (\<lambda>(cap_id, n). 2 \<le> n) caps"
    and "cap_next_alloc c + sum_list (map snd caps) \<le> CFG_SPACE_SIZE"
  shows "case append_capabilities caps c of
      None \<Rightarrow> False
    | Some (c', offs) \<Rightarrow> length offs = length caps \<and> cap_list c' (xs @ zip offs (map fst caps))"
  using assms
proof (induction caps arbitrary: c xs)
  case (Cons cap caps)
  obtain cap_id n where cap: "cap = (cap_id, n)" by (cases cap)
  have "case append_capability cap_id n c of None \<Rightarrow> False
      | Some (c', off) \<Rightarrow> off = cap_next_alloc c \<and> cap_next_alloc c' = off + n \<and> cap_list c' (xs @ [(off, cap_id)])"
    using Cons.prems by (intro cap_list_append) (auto simp: cap)
  then obtain c1 off where a: "append_capability cap_id n c = Some (c1, off)" "cap_next_alloc c1 = cap_next_alloc c + n"
      "cap_list c1 (xs @ [(off, cap_id)])"
    by (auto split: option.splits)
  from Cons.IH [OF a(3)] Cons.prems(2,3) a(2) show ?case by (auto simp: cap a(1) split: option.splits)
qed simp

text \<open>
  Building a capability list never runs away or fails for want of a last element: on a fresh
  function, appending any capabilities that fit the configuration space succeeds, sets the
  capability bit of STATUS, and leaves a list that a guest walks to its end, finding exactly those
  capabilities in that order.
\<close>

lemma pci_capabilities_walk:
  assumes "length (cfg c) = 256" and "cfg c ! CFG_CAP_PTR = 0" and "cap_next_alloc c = CAP_LIST_START"
    and "caps \<noteq> []" and "list_all (\<lambda>(cap_id, n). 2 \<le> n) caps" and "sum_list (map snd caps) \<le> 192"
  shows "case append_capabilities caps c of
      None \<Rightarrow> False
    | Some (c', offs) \<Rightarrow> length offs = length caps \<and> bit (cfg c' ! CFG_STATUS) 4 \<and>
        cap_walk 256 (cfg c') (unat (cfg c' ! CFG_CAP_PTR)) = Some (zip offs (map fst caps))"
proof -
  have "cap_list c []" using assms by (simp add: cap_list_def)
  from append_capabilities_list [OF this assms(5)] assms(3,6)
  obtain c' offs where r: "append_capabilities caps c = Some (c', offs)" "length offs = length caps"
      "cap_list c' (zip offs (map fst caps))"
    by (auto split: option.splits)
  have ne: "zip offs (map fst caps) \<noteq> []" using r(2) assms(4) by (cases offs; cases caps) auto
  have "cap_walk 256 (cfg c') (unat (cfg c' ! CFG_CAP_PTR)) = Some (zip offs (map fst caps))"
    using r(3) cap_list_length [OF r(3)] by (intro linked_walk) (auto simp: cap_list_def)
  moreover have "bit (cfg c' ! CFG_STATUS) 4" using r(3) ne by (simp add: cap_list_def)
  ultimately show ?thesis using r by simp
qed

section \<open>A deviation\<close>

text \<open>
  A write of less than a dword to the upper half of a 64-bit BAR clears the bytes it does not cover:
  the merge masks the old value with the size mask of the empty BAR slot, which is 0.
\<close>

lemma high_half_partial_write_clears:
  assumes "length (bars c) = 6" and "idx < 5" and "bar_kind (bars c ! idx) = Mmio64" and "bar_size (bars c ! idx) \<noteq> 0"
    and "bar_kind (bars c ! (idx + 1)) = NoBar"
  shows "value_hi (bars (fst (pci_write (CFG_BAR0 + 4 * (idx + 1)) 1 val c)) ! idx) = val AND 0xFF"
proof -
  have "CFG_BAR0 + 4 * (idx + 1) \<le> 36" using assms(2) by simp
  moreover have "(val AND 0xFF) AND 0xFFFFFFFF = val AND (0xFF :: u32)" by (simp add: and.assoc)
  ultimately show ?thesis using assms
    by (simp add: pci_write_def read_bar_dword_def write_bar_dword_def bar_size_mask_low_def bar_size_mask_high_def
        size_mask_def Let_def and.assoc)
qed

end
