(* ===== verification/Pci_Host_Bus.thy ===== *)
theory Pci_Host_Bus
  imports Pci_Config Port_Buses
begin

text \<open>
  The PCI host bridge (\<^verbatim>\<open>src/pci/bus.rs\<close>, \<^verbatim>\<open>src/pci/mod.rs\<close>): the configuration address and data
  ports, the routing of a configuration cycle to a function, and the placement of BARs in the MMIO
  window. A function is any implementation of the trait \<^verbatim>\<open>PciFunction\<close>; the bridge takes its
  methods as arguments, and the locale \<open>pci_function\<close> says what placement relies on. The
  configuration space of \<open>Pci_Config\<close> is the interpretation.
\<close>

section \<open>Addresses\<close>

abbreviation CONFIG_ADDRESS_PORT :: u16 where "CONFIG_ADDRESS_PORT \<equiv> 0xCF8"
abbreviation CONFIG_DATA_PORT :: u16 where "CONFIG_DATA_PORT \<equiv> 0xCFC"
abbreviation CONFIG_ADDRESS_ENABLE :: u32 where "CONFIG_ADDRESS_ENABLE \<equiv> 0x80000000"
abbreviation MMIO_WINDOW_BASE :: u64 where "MMIO_WINDOW_BASE \<equiv> 0xE0000000"
abbreviation MMIO_WINDOW_END :: u64 where "MMIO_WINDOW_END \<equiv> 0xFEC00000"

record decoded_address =
  dec_enable :: bool
  dec_bus :: u8
  dec_dev :: u8
  dec_fn :: u8
  dec_reg :: u8

definition decode_config_address :: "u32 \<Rightarrow> decoded_address" where
  "decode_config_address addr = \<lparr>dec_enable = (addr AND CONFIG_ADDRESS_ENABLE \<noteq> 0),
     dec_bus = ucast (drop_bit 16 addr AND 0xFF), dec_dev = ucast (drop_bit 11 addr AND 0x1F),
     dec_fn = ucast (drop_bit 8 addr AND 0x07), dec_reg = ucast (addr AND 0xFC)\<rparr>"

record 'd slot =
  slot_bus :: u8
  slot_device :: u8
  slot_function :: u8
  slot_dev :: 'd

record 'd pci_bus =
  config_address :: u32
  devices :: "'d slot list"
  mmio_next :: u64

definition pci_bus_new :: "'d pci_bus" where
  "pci_bus_new = \<lparr>config_address = 0, devices = [], mmio_next = MMIO_WINDOW_BASE\<rparr>"

section \<open>Adding a device\<close>

text \<open>The loop of \<^verbatim>\<open>assign_bars\<close>; \<open>None\<close> is a panic: the window is full, or an I/O BAR.\<close>

fun assign_loop :: "(nat \<Rightarrow> u64 \<Rightarrow> 'd \<Rightarrow> 'd) \<Rightarrow> (nat \<times> bar_kind \<times> u32) list \<Rightarrow> 'd \<Rightarrow> u64 \<Rightarrow> ('d \<times> u64) option" where
  "assign_loop assign [] d nxt = Some (d, nxt)"
| "assign_loop assign ((i, kind, sz) # ls) d nxt =
     (if kind = Mmio32 \<or> kind = Mmio64
      then let m = ucast sz - 1; base = (nxt + m) AND NOT m
           in if MMIO_WINDOW_END < base + ucast sz then None
              else assign_loop assign ls (assign i base d) (base + ucast sz)
      else if kind = IoBar then None
      else assign_loop assign ls d nxt)"

definition assign_bars :: "('d \<Rightarrow> (bar_kind \<times> u32) list) \<Rightarrow> (nat \<Rightarrow> u64 \<Rightarrow> 'd \<Rightarrow> 'd) \<Rightarrow> 'd \<Rightarrow> 'd pci_bus \<Rightarrow> ('d \<times> 'd pci_bus) option" where
  "assign_bars layout assign d bus =
     (case assign_loop assign (enumerate 0 (layout d)) d (mmio_next bus) of
        None \<Rightarrow> None
      | Some (d', nxt) \<Rightarrow> Some (d', bus\<lparr>mmio_next := nxt\<rparr>))"

definition add_device :: "('d \<Rightarrow> (bar_kind \<times> u32) list) \<Rightarrow> (nat \<Rightarrow> u64 \<Rightarrow> 'd \<Rightarrow> 'd) \<Rightarrow> 'd \<Rightarrow> 'd pci_bus \<Rightarrow> 'd pci_bus option" where
  "add_device layout assign d bus =
     (case assign_bars layout assign d bus of
        None \<Rightarrow> None
      | Some (d', bus') \<Rightarrow>
          Some (bus'\<lparr>devices := devices bus' @
            [\<lparr>slot_bus = 0, slot_device = of_nat (length (devices bus')), slot_function = 0, slot_dev = d'\<rparr>]\<rparr>))"

section \<open>The ports\<close>

definition handle_address :: "io_access \<Rightarrow> 'd pci_bus \<Rightarrow> 'd pci_bus \<times> io_access" where
  "handle_address acc bus =
     (let byte_off = unat (port acc - CONFIG_ADDRESS_PORT);
          sz = unat (access_size acc)
      in if is_write acc
         then if access_size acc = 4 then (bus\<lparr>config_address := io_value acc\<rparr>, acc)
              else let m = push_bit (8 * byte_off) (push_bit (8 * sz) 1 - 1)
                   in (bus\<lparr>config_address := (config_address bus AND NOT m) OR (push_bit (8 * byte_off) (io_value acc) AND m)\<rparr>, acc)
         else let v = drop_bit (8 * byte_off) (config_address bus)
              in (bus, acc\<lparr>io_value := if access_size acc \<noteq> 4 then v AND (push_bit (8 * sz) 1 - 1) else v\<rparr>))"

fun pci_find :: "'d slot list \<Rightarrow> u8 \<Rightarrow> u8 \<Rightarrow> u8 \<Rightarrow> nat option" where
  "pci_find [] b d f = None"
| "pci_find (s # ss) b d f =
     (if slot_bus s = b \<and> slot_device s = d \<and> slot_function s = f then Some 0
      else map_option Suc (pci_find ss b d f))"

definition handle_data :: "(nat \<Rightarrow> nat \<Rightarrow> 'd \<Rightarrow> u32) \<Rightarrow> (nat \<Rightarrow> nat \<Rightarrow> u32 \<Rightarrow> 'd \<Rightarrow> 'd) \<Rightarrow> io_access \<Rightarrow> 'd pci_bus \<Rightarrow> 'd pci_bus \<times> io_access" where
  "handle_data config_read config_write acc bus =
     (let dec = decode_config_address (config_address bus);
          ones = (bus, if is_write acc then acc else acc\<lparr>io_value := 0xFFFFFFFF\<rparr>)
      in if \<not> dec_enable dec then ones
         else case pci_find (devices bus) (dec_bus dec) (dec_dev dec) (dec_fn dec) of
                None \<Rightarrow> ones
              | Some k \<Rightarrow>
                  let byte_off = unat (port acc - CONFIG_DATA_PORT);
                      reg_offset = unat (dec_reg dec) + byte_off;
                      s = devices bus ! k;
                      sz = unat (access_size acc)
                  in if is_write acc
                     then (bus\<lparr>devices := (devices bus)[k := s\<lparr>slot_dev := config_write reg_offset sz (io_value acc) (slot_dev s)\<rparr>]\<rparr>, acc)
                     else (bus, acc\<lparr>io_value := config_read reg_offset sz (slot_dev s)\<rparr>))"

text \<open>The handlers that \<^verbatim>\<open>attach_io_bus\<close> registers, by port.\<close>

definition pci_access :: "(nat \<Rightarrow> nat \<Rightarrow> 'd \<Rightarrow> u32) \<Rightarrow> (nat \<Rightarrow> nat \<Rightarrow> u32 \<Rightarrow> 'd \<Rightarrow> 'd) \<Rightarrow> io_access \<Rightarrow> 'd pci_bus \<Rightarrow> 'd pci_bus \<times> io_access" where
  "pci_access config_read config_write acc bus =
     (if port acc < CONFIG_DATA_PORT then handle_address acc bus else handle_data config_read config_write acc bus)"

definition bus_snapshot_capture :: "'d pci_bus \<Rightarrow> bytes" where
  "bus_snapshot_capture bus = le32 (config_address bus)"

definition bus_snapshot_apply :: "bytes \<Rightarrow> 'd pci_bus \<Rightarrow> 'd pci_bus" where
  "bus_snapshot_apply b bus = (if length b < 4 then bus else bus\<lparr>config_address := from_le32 (byte_range b 0 4)\<rparr>)"

section \<open>Placing BARs\<close>

abbreviation memory_kind :: "bar_kind \<Rightarrow> bool" where
  "memory_kind k \<equiv> k = Mmio32 \<or> k = Mmio64"

text \<open>The windows of a function's memory BARs from index \<open>k\<close> on, as address and size.\<close>

definition windows_from :: "('d \<Rightarrow> (bar_kind \<times> u32) list) \<Rightarrow> ('d \<Rightarrow> nat \<Rightarrow> u64) \<Rightarrow> nat \<Rightarrow> 'd \<Rightarrow> (nat \<times> nat) list" where
  "windows_from layout base k d =
     map (\<lambda>i. (unat (base d i), unat (snd (layout d ! i))))
       (filter (\<lambda>i. memory_kind (fst (layout d ! i))) [k..<length (layout d)])"

text \<open>Windows in ascending order between two bounds, none meeting the next, each aligned to its size.\<close>

fun placed :: "nat \<Rightarrow> (nat \<times> nat) list \<Rightarrow> nat \<Rightarrow> bool" where
  "placed lo [] hi \<longleftrightarrow> lo \<le> hi"
| "placed lo ((a, n) # ws) hi \<longleftrightarrow> lo \<le> a \<and> a mod n = 0 \<and> placed (a + n) ws hi"

lemma placed_bounds: "placed lo ws hi \<Longrightarrow> lo \<le> hi \<and> (\<forall>(a, n) \<in> set ws. lo \<le> a \<and> a + n \<le> hi \<and> a mod n = 0)"
  by (induction lo ws hi rule: placed.induct) fastforce+

lemma placed_sorted: "placed lo ws hi \<Longrightarrow> sorted_wrt (\<lambda>(a, n) (b, m). a + n \<le> b) ws"
proof (induction lo ws hi rule: placed.induct)
  case (2 lo a n ws hi)
  then show ?case using placed_bounds [of "a + n" ws hi] by auto
qed simp

lemma placed_append: "placed lo xs mid \<Longrightarrow> placed mid ys hi \<Longrightarrow> placed lo (xs @ ys) hi"
proof (induction lo xs mid rule: placed.induct)
  case (1 lo mid)
  then show ?case by (cases ys) auto
qed auto

lemma unat_ucast_exp: "e < 32 \<Longrightarrow> unat (ucast (2 ^ e :: u32) :: u64) = 2 ^ e"
  by (simp add: unat_ucast_up unat_2p)

lemma align_base:
  assumes "e < 32" and "unat nxt \<le> 2 ^ 32" and "sz = (2 :: u32) ^ e"
  defines "base \<equiv> (nxt + (ucast sz - 1)) AND NOT (ucast sz - 1) :: u64"
  shows "unat base = (unat nxt + 2 ^ e - 1) div 2 ^ e * 2 ^ e"
    and "unat base + 2 ^ e < 2 ^ 64 \<Longrightarrow> unat (base + ucast sz) = unat base + 2 ^ e"
proof -
  have "unat (ucast sz :: u64) = 2 ^ e" using assms(1) unfolding assms(3) by (rule unat_ucast_exp)
  then have "(ucast sz :: u64) = 2 ^ e" using assms(1) by (simp add: word_unat_eq_iff unat_2p)
  then have m: "ucast sz - 1 = (mask e :: u64)" by (simp add: mask_eq_exp_minus_1)
  have "unat nxt + (2 ^ e - 1) < 2 ^ 64"
  proof -
    have "(2 :: nat) ^ e \<le> 2 ^ 32" using assms(1) by (intro power_increasing) simp_all
    then show ?thesis using assms(2) by simp
  qed
  moreover have "unat (mask e :: u64) = 2 ^ e - 1" using assms(1) by (simp add: unat_mask)
  ultimately have "unat (nxt + mask e) = unat nxt + (2 ^ e - 1)" by (simp add: unat_add_no_wrap)
  moreover have "(1 :: nat) \<le> 2 ^ e" by simp
  ultimately show "unat base = (unat nxt + 2 ^ e - 1) div 2 ^ e * 2 ^ e"
    unfolding base_def m unat_and_not_mask by (simp add: Nat.add_diff_assoc)
  show "unat (base + ucast sz) = unat base + 2 ^ e" if "unat base + 2 ^ e < 2 ^ 64"
    using that assms(1,3) by (subst unat_add_no_wrap) (simp_all add: unat_ucast_exp)
qed

text \<open>
  What placement relies on: BARs keep their kinds and sizes, a memory BAR has a power-of-two size of
  at least 16, and programming the address of one BAR changes that address only.
\<close>

locale pci_function =
  fixes layout :: "'d \<Rightarrow> (bar_kind \<times> u32) list"
    and assign :: "nat \<Rightarrow> u64 \<Rightarrow> 'd \<Rightarrow> 'd"
    and base :: "'d \<Rightarrow> nat \<Rightarrow> u64"
    and good :: "'d \<Rightarrow> bool"
  assumes layout_assign: "good d \<Longrightarrow> i < length (layout d) \<Longrightarrow> layout (assign i g d) = layout d"
    and good_assign: "good d \<Longrightarrow> i < length (layout d) \<Longrightarrow> good (assign i g d)"
    and base_assign: "good d \<Longrightarrow> i < length (layout d) \<Longrightarrow> memory_kind (fst (layout d ! i)) \<Longrightarrow>
      unat g < 2 ^ 32 \<Longrightarrow> unat g mod 16 = 0 \<Longrightarrow> j < length (layout d) \<Longrightarrow>
      base (assign i g d) j = (if j = i then g else base d j)"
    and sizes: "good d \<Longrightarrow> i < length (layout d) \<Longrightarrow> memory_kind (fst (layout d ! i)) \<Longrightarrow>
      \<exists>e. 4 \<le> e \<and> e < 32 \<and> snd (layout d ! i) = 2 ^ e"
begin

lemma assign_loop_places:
  assumes "good d" and "nxt \<le> MMIO_WINDOW_END"
    and "assign_loop assign (enumerate k (drop k (layout d))) d nxt = Some (d', nxt')"
  shows "good d' \<and> layout d' = layout d \<and> (\<forall>j < k. j < length (layout d) \<longrightarrow> base d' j = base d j) \<and>
    placed (unat nxt) (windows_from layout base k d') (unat nxt') \<and> nxt' \<le> MMIO_WINDOW_END"
  using assms
proof (induction "length (layout d) - k" arbitrary: k d nxt)
  case 0
  then show ?case by (simp add: windows_from_def)
next
  case (Suc m)
  then have k: "k < length (layout d)" by simp
  obtain kind sz where ks: "layout d ! k = (kind, sz)" by (cases "layout d ! k")
  have dr: "enumerate k (drop k (layout d)) = (k, kind, sz) # enumerate (Suc k) (drop (Suc k) (layout d))"
    using k ks by (simp add: Cons_nth_drop_Suc [symmetric])
  have up: "[k..<length (layout d)] = k # [Suc k..<length (layout d)]" using k by (simp add: upt_conv_Cons)
  show ?case
  proof (cases "memory_kind kind")
    case True
    define b where "b = (nxt + (ucast sz - 1)) AND NOT (ucast sz - 1)"
    from sizes [OF Suc.prems(1) k] True obtain e where e: "4 \<le> e" "e < 32" "sz = 2 ^ e" by (auto simp: ks)
    have lim: "unat nxt \<le> 2 ^ 32" using Suc.prems(2) by (simp add: word_le_nat_alt)
    note al = align_base [OF e(2) lim e(3), folded b_def]
    have small: "(2 :: nat) ^ e \<le> 2 ^ 32" using e(2) by (intro power_increasing) simp_all
    have "unat b \<le> unat nxt + 2 ^ e - 1" unfolding al(1) by (rule div_times_less_eq_dividend)
    then have sum: "unat (b + ucast sz) = unat b + 2 ^ e" using lim small by (intro al(2)) simp
    have ge: "unat nxt \<le> unat b" unfolding al(1) by (rule round_up_ge) simp
    have aligned: "unat b mod 2 ^ e = 0" unfolding al(1) by simp
    from Suc.prems(3) True have fits: "b + ucast sz \<le> MMIO_WINDOW_END"
      and r: "assign_loop assign (enumerate (Suc k) (drop (Suc k) (layout d))) (assign k b d) (b + ucast sz) = Some (d', nxt')"
      by (auto simp: dr b_def [symmetric] Let_def not_less split: if_splits)
    have b32: "unat b < 2 ^ 32" using fits sum by (simp add: word_le_nat_alt)
    have "(2 :: nat) ^ 4 dvd 2 ^ e" using e(1) by (rule le_imp_power_dvd)
    then have "16 dvd unat b" using aligned by (auto intro: dvd_trans)
    then have based: "base (assign k b d) k = b" "j < length (layout d) \<Longrightarrow> j \<noteq> k \<Longrightarrow> base (assign k b d) j = base d j" for j
      using base_assign [OF Suc.prems(1) k _ b32] k True by (auto simp: ks)
    note d1 = layout_assign [OF Suc.prems(1) k, of b] good_assign [OF Suc.prems(1) k, of b]
    have "m = length (layout (assign k b d)) - Suc k" using Suc.hyps(2) by (simp add: d1)
    from Suc.hyps(1) [OF this d1(2) fits] r have IH: "good d'" "layout d' = layout d"
        "\<forall>j < Suc k. j < length (layout d) \<longrightarrow> base d' j = base (assign k b d) j"
        "placed (unat b + 2 ^ e) (windows_from layout base (Suc k) d') (unat nxt')" "nxt' \<le> MMIO_WINDOW_END"
      by (simp_all add: d1 sum)
    have "windows_from layout base k d' = (unat b, 2 ^ e) # windows_from layout base (Suc k) d'"
      using IH(2,3) k True e(2) based(1) by (simp add: windows_from_def up ks e(3) unat_2p)
    with IH ge aligned based(2) show ?thesis by (auto simp: less_Suc_eq)
  next
    case False
    with Suc.prems(3) have r: "assign_loop assign (enumerate (Suc k) (drop (Suc k) (layout d))) d nxt = Some (d', nxt')"
      by (cases kind) (auto simp: dr)
    have "m = length (layout d) - Suc k" using Suc.hyps(2) by simp
    from Suc.hyps(1) [OF this Suc.prems(1,2) r] False show ?thesis
      by (auto simp: windows_from_def up ks)
  qed
qed

end

section \<open>Configuration spaces on the bus\<close>

definition cfg_good :: "pci_config \<Rightarrow> bool" where
  "cfg_good c \<longleftrightarrow> length (bars c) = 6 \<and>
     list_all (\<lambda>b. memory_kind (bar_kind b) \<longrightarrow> is_pow2 (bar_size b) \<and> 16 \<le> bar_size b) (bars c)"

definition cfg_base :: "pci_config \<Rightarrow> nat \<Rightarrow> u64" where
  "cfg_base c i = bar_gpa (bars c ! i)"

lemma set_bar_gpa:
  assumes "unat g < 2 ^ 32" and "unat g mod 16 = 0"
  shows "bar_kind b = Mmio64 \<Longrightarrow>
      bar_gpa (b\<lparr>value_lo := ucast (g AND 0xFFFFFFFF), value_hi := ucast (drop_bit 32 g)\<rparr>) = g"
    and "bar_kind b = Mmio32 \<Longrightarrow> bar_gpa (b\<lparr>value_lo := ucast g\<rparr>) = g"
proof -
  have "unat (g AND NOT 0xF) = unat g"
    using unat_and_not_mask [of g 4] assms(2) by (simp add: mask_numeral mod_0_imp_dvd)
  then have lo: "g AND NOT 0xF = g" by (simp only: word_unat_eq_iff)
  have "unat (ucast (ucast g :: u32) :: u64) = unat g" using assms(1) by (simp add: unat_ucast_up unat_ucast_down)
  then have up: "ucast (ucast g :: u32) = g" by (simp only: word_unat_eq_iff)
  have "unat (drop_bit 32 g) = 0" using assms(1) unfolding unat_drop_bit by simp
  then have hi: "drop_bit 32 g = 0" by (simp only: unat_eq_zero)
  have m: "(0xFFFFFFFF :: u64) = mask 32" by (simp add: mask_numeral)
  have low: "(ucast (g AND 0xFFFFFFFF) :: u32) = ucast g" unfolding m by (rule bit_word_eqI) (auto simp: bit_simps)
  show "bar_kind b = Mmio64 \<Longrightarrow> bar_gpa (b\<lparr>value_lo := ucast (g AND 0xFFFFFFFF), value_hi := ucast (drop_bit 32 g)\<rparr>) = g"
    unfolding bar_gpa_def Let_def hi low using up lo by simp
  show "bar_kind b = Mmio32 \<Longrightarrow> bar_gpa (b\<lparr>value_lo := ucast g\<rparr>) = g"
    unfolding bar_gpa_def Let_def using up lo by simp
qed

interpretation cfgs: pci_function bar_layout set_bar_base cfg_base cfg_good
proof unfold_locales
  fix d :: pci_config and i g
  assume d: "cfg_good d" and i: "i < length (bar_layout d)"
  have len: "length (bars d) = 6" "i < 6" using d i by (simp_all add: cfg_good_def bar_layout_def)
  have ok: "memory_kind (bar_kind (bars d ! i)) \<Longrightarrow> is_pow2 (bar_size (bars d ! i)) \<and> 16 \<le> bar_size (bars d ! i)"
    using d len by (auto simp: cfg_good_def list_all_length)
  show "bar_layout (set_bar_base i g d) = bar_layout d"
    using len by (intro nth_equalityI) (auto simp: bar_layout_def set_bar_base_def Let_def nth_list_update split: bar_kind.split)
  show "cfg_good (set_bar_base i g d)"
    using d len by (auto simp: cfg_good_def set_bar_base_def Let_def list_all_length nth_list_update split: bar_kind.split)
  assume mem: "memory_kind (fst (bar_layout d ! i))"
  then have mem': "memory_kind (bar_kind (bars d ! i))" using len by (simp add: bar_layout_def)
  show "\<exists>e. 4 \<le> e \<and> e < 32 \<and> snd (bar_layout d ! i) = 2 ^ e"
    using is_pow2_exp ok [OF mem'] len by (simp add: bar_layout_def) metis
  fix j assume g: "unat g < 2 ^ 32" "unat g mod 16 = 0" and j: "j < length (bar_layout d)"
  show "cfg_base (set_bar_base i g d) j = (if j = i then g else cfg_base d j)"
    using mem' len j set_bar_gpa [OF g]
    by (auto simp: cfg_base_def set_bar_base_def Let_def nth_list_update bar_layout_def)
qed

text \<open>Adding several devices, and all their windows, in the order they were placed.\<close>

fun add_devices :: "pci_config list \<Rightarrow> pci_config pci_bus \<Rightarrow> pci_config pci_bus option" where
  "add_devices [] bus = Some bus"
| "add_devices (d # ds) bus = (case add_device bar_layout set_bar_base d bus of None \<Rightarrow> None | Some bus' \<Rightarrow> add_devices ds bus')"

definition bus_windows :: "pci_config pci_bus \<Rightarrow> (nat \<times> nat) list" where
  "bus_windows bus = concat (map (\<lambda>s. windows_from bar_layout cfg_base 0 (slot_dev s)) (devices bus))"

definition bus_ok :: "pci_config pci_bus \<Rightarrow> bool" where
  "bus_ok bus \<longleftrightarrow> placed (unat MMIO_WINDOW_BASE) (bus_windows bus) (unat (mmio_next bus)) \<and> mmio_next bus \<le> MMIO_WINDOW_END"

lemma add_device_ok:
  assumes "bus_ok bus" and "cfg_good d" and "add_device bar_layout set_bar_base d bus = Some bus'"
  shows "bus_ok bus' \<and> length (devices bus') = length (devices bus) + 1"
proof -
  from assms(3) obtain d' nxt where r: "assign_loop set_bar_base (enumerate 0 (bar_layout d)) d (mmio_next bus) = Some (d', nxt)"
    and bus': "bus' = bus\<lparr>mmio_next := nxt, devices := devices bus @ [\<lparr>slot_bus = 0, slot_device = of_nat (length (devices bus)), slot_function = 0, slot_dev = d'\<rparr>]\<rparr>"
    by (auto simp: add_device_def assign_bars_def split: option.splits)
  have "mmio_next bus \<le> MMIO_WINDOW_END" using assms(1) by (simp add: bus_ok_def)
  from cfgs.assign_loop_places [OF assms(2) this, of 0 d' nxt] r
  have "placed (unat (mmio_next bus)) (windows_from bar_layout cfg_base 0 d') (unat nxt)" "nxt \<le> MMIO_WINDOW_END" by simp_all
  then show ?thesis using assms(1) placed_append by (auto simp: bus_ok_def bus_windows_def bus')
qed

lemma add_devices_ok:
  "bus_ok bus \<Longrightarrow> list_all cfg_good ds \<Longrightarrow> add_devices ds bus = Some bus' \<Longrightarrow>
   bus_ok bus' \<and> length (devices bus') = length (devices bus) + length ds"
proof (induction ds arbitrary: bus)
  case (Cons d ds)
  then obtain b1 where "add_device bar_layout set_bar_base d bus = Some b1" "add_devices ds b1 = Some bus'"
    by (auto split: option.splits)
  with Cons add_device_ok [of bus d b1] show ?case by auto
qed simp

text \<open>
  C30. However many functions are added, the bridge gives every memory BAR its own piece of the MMIO
  window: the assigned ranges lie between \<^verbatim>\<open>MMIO_WINDOW_BASE\<close> and \<^verbatim>\<open>MMIO_WINDOW_END\<close>, in ascending order
  without meeting, each aligned to its power-of-two size.
\<close>

theorem pci_bars_placed:
  assumes "list_all cfg_good ds" and "add_devices ds pci_bus_new = Some bus"
  shows "length (devices bus) = length ds \<and>
    sorted_wrt (\<lambda>(a, n) (b, m). a + n \<le> b) (bus_windows bus) \<and>
    (\<forall>(a, n) \<in> set (bus_windows bus). unat MMIO_WINDOW_BASE \<le> a \<and> a + n \<le> unat MMIO_WINDOW_END \<and> a mod n = 0)"
proof -
  have "bus_ok pci_bus_new" by (simp add: bus_ok_def pci_bus_new_def bus_windows_def)
  from add_devices_ok [OF this assms] have ok: "bus_ok bus" "length (devices bus) = length ds"
    by (simp_all add: pci_bus_new_def)
  then have "placed (unat MMIO_WINDOW_BASE) (bus_windows bus) (unat (mmio_next bus))" "unat (mmio_next bus) \<le> unat MMIO_WINDOW_END"
    by (simp_all add: bus_ok_def word_le_nat_alt)
  with ok(2) placed_sorted placed_bounds show ?thesis by fastforce
qed

lemma demo_layout:
  "bar_layout demo_cfg = [(Mmio64, 0x4000), (NoBar, 0), (NoBar, 0), (NoBar, 0), (NoBar, 0), (NoBar, 0)]"
proof -
  have "replicate 6 bar_default = [bar_default, bar_default, bar_default, bar_default, bar_default, bar_default]"
    by (simp add: numeral_eq_Suc)
  then show ?thesis
    by (simp add: bar_layout_def demo_cfg_def set_bar_base_def set_ids_def cfg_put16_def bar_default_def Let_def)
qed

lemma demo_good: "cfg_good demo_cfg"
proof -
  have "map (\<lambda>b. (bar_kind b, bar_size b)) (bars demo_cfg) = bar_layout demo_cfg" by (simp add: bar_layout_def)
  then have "(bar_kind b, bar_size b) \<in> set (bar_layout demo_cfg)" if "b \<in> set (bars demo_cfg)" for b
    using that by (metis (no_types, lifting) image_eqI list.set_map)
  then have "list_all (\<lambda>b. memory_kind (bar_kind b) \<longrightarrow> is_pow2 (bar_size b) \<and> 16 \<le> bar_size b) (bars demo_cfg)"
    unfolding list_all_iff demo_layout by (fastforce simp: is_pow2_def)
  moreover have "length (bars demo_cfg) = 6"
    by (simp add: demo_cfg_def set_bar_base_def set_ids_def cfg_put16_def Let_def bar_default_def)
  ultimately show ?thesis by (simp add: cfg_good_def)
qed

theorem pci_bars_placed_witness:
  "\<exists>bus. add_devices [demo_cfg, demo_cfg] pci_bus_new = Some bus \<and>
     sorted_wrt (\<lambda>(a, n) (b, m). a + n \<le> b) (bus_windows bus)"
proof -
  have "add_devices [demo_cfg, demo_cfg] pci_bus_new \<noteq> None"
    by (simp add: add_device_def assign_bars_def demo_layout pci_bus_new_def)
  then obtain bus where bus: "add_devices [demo_cfg, demo_cfg] pci_bus_new = Some bus" by blast
  have "list_all cfg_good [demo_cfg, demo_cfg]" by (simp add: demo_good)
  from pci_bars_placed [OF this bus] bus show ?thesis by blast
qed

section \<open>A configuration cycle\<close>

definition slots_ok :: "'d pci_bus \<Rightarrow> bool" where
  "slots_ok bus \<longleftrightarrow> length (devices bus) \<le> 32 \<and>
     (\<forall>k < length (devices bus). slot_bus (devices bus ! k) = 0 \<and> slot_device (devices bus ! k) = of_nat k \<and>
        slot_function (devices bus ! k) = 0)"

lemma pci_find_at:
  assumes "\<forall>k < length ss. slot_bus (ss ! k) = 0 \<and> slot_device (ss ! k) = of_nat (n + k) \<and> slot_function (ss ! k) = 0"
    and "n + length ss \<le> 256" and "n \<le> m" and "m < 256"
  shows "pci_find ss 0 (of_nat m) 0 = (if m - n < length ss then Some (m - n) else None)"
  using assms
proof (induction ss arbitrary: n)
  case (Cons s ss)
  have s: "slot_bus s = 0" "slot_device s = of_nat n" "slot_function s = 0" using Cons.prems(1) by auto
  have eq: "(of_nat n :: u8) = of_nat m \<longleftrightarrow> n = m"
    using Cons.prems(2-4) by (auto simp: word_unat_eq_iff unat_of_nat take_bit_nat_eq_self)
  show ?case
  proof (cases "n = m")
    case True
    with s show ?thesis by simp
  next
    case False
    have "\<forall>k < length ss. slot_bus (ss ! k) = 0 \<and> slot_device (ss ! k) = of_nat (Suc n + k) \<and> slot_function (ss ! k) = 0"
    proof (intro allI impI)
      fix k assume "k < length ss"
      then show "slot_bus (ss ! k) = 0 \<and> slot_device (ss ! k) = of_nat (Suc n + k) \<and> slot_function (ss ! k) = 0"
        using Cons.prems(1) [rule_format, of "Suc k"] by simp
    qed
    from Cons.IH [OF this] Cons.prems False s eq show ?thesis by (auto simp: Suc_diff_Suc)
  qed
qed simp

definition config_addr :: "nat \<Rightarrow> u8 \<Rightarrow> u32" where
  "config_addr k r = CONFIG_ADDRESS_ENABLE OR push_bit 11 (of_nat k) OR ucast r"

lemma decode_config_addr:
  assumes "k < 32" and "r AND 0xFC = r"
  shows "decode_config_address (config_addr k r) =
    \<lparr>dec_enable = True, dec_bus = 0, dec_dev = of_nat k, dec_fn = 0, dec_reg = r\<rparr>"
proof -
  define w :: u32 where "w = of_nat k"
  have "unat w = k" using assms(1) by (simp add: w_def)
  then have "take_bit 5 w = w" using assms(1) by (simp add: word_unat_eq_iff unsigned_take_bit_eq take_bit_nat_eq_self)
  then have wb: "bit w i \<Longrightarrow> i < 5" for i by (metis bit_take_bit_iff)
  have k: "(of_nat k :: u8) = ucast w"
    using assms(1) by (simp add: word_unat_eq_iff unat_of_nat w_def unsigned_ucast_eq take_bit_nat_eq_self)
  have rb: "bit r i \<Longrightarrow> i < 8" for i using bit_imp_le_length [of r i] by simp
  have a: "config_addr k r = push_bit 31 1 OR push_bit 11 w OR ucast r" by (simp add: config_addr_def w_def)
  have m: "(0xFF :: u32) = mask 8" "(0x1F :: u32) = mask 5" "(0x07 :: u32) = mask 3" "CONFIG_ADDRESS_ENABLE = push_bit 31 1"
    by (simp_all add: mask_numeral)
  note bits = bit_simps
  have "bit (config_addr k r) 31" unfolding a by (simp add: bits)
  then have "config_addr k r AND CONFIG_ADDRESS_ENABLE \<noteq> 0"
    unfolding m push_bit_of_1 by (simp only: and_exp_eq_0_iff_not_bit) simp
  moreover have "(ucast (drop_bit 16 (config_addr k r) AND 0xFF) :: u8) = 0"
    unfolding a m by (rule bit_word_eqI) (auto simp: bits simp del: push_bit_of_1 dest: wb rb)
  moreover have "(ucast (drop_bit 11 (config_addr k r) AND 0x1F) :: u8) = of_nat k"
    unfolding a m k by (rule bit_word_eqI) (auto simp: bits simp del: push_bit_of_1 dest: wb rb)
  moreover have "(ucast (drop_bit 8 (config_addr k r) AND 0x07) :: u8) = 0"
    unfolding a m by (rule bit_word_eqI) (auto simp: bits simp del: push_bit_of_1 dest: wb rb)
  moreover have "(ucast (config_addr k r AND 0xFC) :: u8) = r"
  proof -
    have "(ucast (config_addr k r) :: u8) = r"
      unfolding a by (rule bit_word_eqI) (auto simp: bits simp del: push_bit_of_1 dest: wb rb)
    moreover have "(ucast (x AND 0xFC) :: u8) = ucast x AND 0xFC" for x :: u32
    proof -
      have c: "(0xFC :: u32) = ucast (0xFC :: u8)" by simp
      show ?thesis unfolding c by (rule bit_word_eqI) (auto simp: bit_unsigned_iff bit_and_iff)
    qed
    ultimately show ?thesis using assms(2) by simp
  qed
  ultimately show ?thesis by (simp add: decode_config_address_def)
qed

text \<open>The guest's two accesses: selecting a register, and an access to the data port.\<close>

definition select_register :: "nat \<Rightarrow> u8 \<Rightarrow> io_access" where
  "select_register k r = \<lparr>port = CONFIG_ADDRESS_PORT, access_size = 4, is_write = True, io_value = config_addr k r\<rparr>"

definition data_access :: "nat \<Rightarrow> u16 \<Rightarrow> bool \<Rightarrow> u32 \<Rightarrow> io_access" where
  "data_access off sz w x = \<lparr>port = CONFIG_DATA_PORT + of_nat off, access_size = sz, is_write = w, io_value = x\<rparr>"

text \<open>
  A configuration cycle reaches the function it addresses: after a dword write of enable bit,
  device number and register to the address port, an access to the data port at any byte offset is
  one read or write of that register of the device in that slot, and nothing else changes; with no
  device in the slot, reads give all ones and writes do nothing.
\<close>

lemma pci_config_cycle:
  assumes "slots_ok bus" and "k < 32" and "r AND 0xFC = r" and "off < 4"
    and "fst (pci_access rd wr (select_register k r) bus) = bus1"
  shows "if k < length (devices bus)
    then pci_access rd wr (data_access off sz False x) bus1 =
           (bus1, data_access off sz False (rd (unat r + off) (unat sz) (slot_dev (devices bus ! k)))) \<and>
         fst (pci_access rd wr (data_access off sz True x) bus1) = bus1\<lparr>devices := (devices bus)[k := (devices bus ! k)
           \<lparr>slot_dev := wr (unat r + off) (unat sz) x (slot_dev (devices bus ! k))\<rparr>]\<rparr>
    else pci_access rd wr (data_access off sz False x) bus1 = (bus1, data_access off sz False 0xFFFFFFFF) \<and>
         fst (pci_access rd wr (data_access off sz True x) bus1) = bus1"
proof -
  have bus1: "bus1 = bus\<lparr>config_address := config_addr k r\<rparr>"
    using assms(5) by (simp add: pci_access_def handle_address_def select_register_def)
  have p: "\<not> CONFIG_DATA_PORT + of_nat off < CONFIG_DATA_PORT" "unat (of_nat off :: u16) = off"
    using assms(4) unat_plus_of_nat [of CONFIG_DATA_PORT off] by (simp_all add: word_less_nat_alt)
  have "pci_find (devices bus) 0 (of_nat k) 0 = (if k < length (devices bus) then Some k else None)"
    using pci_find_at [of "devices bus" 0 k] assms(1,2) by (simp add: slots_ok_def)
  then show ?thesis
    using p(2) unfolding pci_access_def data_access_def
    by (simp add: p(1) handle_data_def bus1 decode_config_addr [OF assms(2,3)] Let_def)
qed

text \<open>Every bus built by adding up to 32 devices has its slots numbered so.\<close>

lemma add_devices_slots:
  "add_devices ds bus = Some bus' \<Longrightarrow> slots_ok bus \<Longrightarrow> length (devices bus) + length ds \<le> 32 \<Longrightarrow> slots_ok bus'"
proof (induction ds arbitrary: bus)
  case (Cons d ds)
  then obtain b1 where b1: "add_device bar_layout set_bar_base d bus = Some b1" "add_devices ds b1 = Some bus'"
    by (auto split: option.splits)
  then have "slots_ok b1" "length (devices b1) = length (devices bus) + 1" using Cons.prems(2,3)
    by (auto simp: add_device_def assign_bars_def slots_ok_def nth_append less_Suc_eq split: option.splits)
  with Cons.IH [OF b1(2)] Cons.prems(3) show ?case by simp
qed simp

end
