(* ===== verification/Msix.thy ===== *)
theory Msix
  imports Pci_Config Port_Buses
begin

text \<open>
  MSI-X (\<^verbatim>\<open>src/pci/msix.rs\<close>) and the decoding of a message into a hypervisor interrupt request
  (\<^verbatim>\<open>whpsys/src/msi.rs\<close>): the vector table and the pending bits behind the BAR, the control register
  pushed in by the transport, and \<^verbatim>\<open>trigger\<close>. Every operation that may inject returns the messages
  it passed to \<^verbatim>\<open>inject_msi\<close>, each with its vector. The mutex around the tables makes an operation one
  step; \<^verbatim>\<open>trigger\<close> and \<^verbatim>\<open>handle_table\<close> release it before they read the message again, and the
  model takes each as a whole.
\<close>

section \<open>State\<close>

record msix_entry =
  addr_lo :: u32
  addr_hi :: u32
  msg_data :: u32
  ctrl :: u32

record msix =
  num_vectors :: u32
  control :: u16
  vectors :: "msix_entry list"
  pba :: "u64 list"
  bar_idx :: u8
  table_offset :: u32
  pba_offset :: u32
  bar_base_gpa :: u64
  injected_count :: u64

definition div_ceil64 :: "u32 \<Rightarrow> u32" where
  "div_ceil64 n = n div 64 + (if n mod 64 = 0 then 0 else 1)"

text \<open>\<open>None\<close> is a failed assertion.\<close>

definition msix_new :: "u32 \<Rightarrow> u8 \<Rightarrow> u32 \<Rightarrow> u32 \<Rightarrow> msix option" where
  "msix_new n bar_ix table_off pba_off =
     (if \<not> (1 \<le> n \<and> n \<le> 2048) then None
      else if \<not> (table_off AND 0x7 = 0 \<and> pba_off AND 0x7 = 0) then None
      else Some \<lparr>num_vectors = n, control = 0,
        vectors = replicate (unat n) \<lparr>addr_lo = 0, addr_hi = 0, msg_data = 0, ctrl = 1\<rparr>,
        pba = replicate (unat (div_ceil64 n)) 0, bar_idx = bar_ix, table_offset = table_off, pba_offset = pba_off,
        bar_base_gpa = 0, injected_count = 0\<rparr>)"

text \<open>
  The loop of \<^verbatim>\<open>next_pow2\<close>, \<open>None\<close> when it does not end: past \<open>2^31\<close> the shift drops the only bit.
\<close>

partial_function (option) next_pow2_loop :: "u32 \<Rightarrow> u32 \<Rightarrow> u32 option" where
  "next_pow2_loop v r = (if r < v then next_pow2_loop v (push_bit 1 r) else Some r)"

definition next_pow2 :: "u32 \<Rightarrow> u32 option" where
  "next_pow2 v = (if v < 2 then Some 1 else next_pow2_loop v 1)"

definition required_bar_size :: "u32 \<Rightarrow> u32 \<Rightarrow> u32 \<Rightarrow> u32 option" where
  "required_bar_size n table_off pba_off =
     (let hi = max (table_off + n * 16) (pba_off + div_ceil64 n * 8)
      in if hi < 16 then Some 16 else next_pow2 hi)"

definition table_bytes :: "msix \<Rightarrow> u32" where
  "table_bytes m = num_vectors m * 16"

definition pba_bytes :: "msix \<Rightarrow> u32" where
  "pba_bytes m = div_ceil64 (num_vectors m) * 8"

definition add_msix_capability :: "msix \<Rightarrow> pci_config \<Rightarrow> (pci_config \<times> nat) option" where
  "add_msix_capability m c = (case append_capability 0x11 12 c of
     None \<Rightarrow> None
   | Some (c1, cap_off) \<Rightarrow>
       let mc = ucast (num_vectors m - 1) :: u16;
           toff = (table_offset m AND NOT 0x7) OR (ucast (bar_idx m) AND 0x7);
           poff = (pba_offset m AND NOT 0x7) OR (ucast (bar_idx m) AND 0x7);
           payload = [ucast (mc AND 0xFF), ucast (drop_bit 8 mc AND 0x07)] @ le32 toff @ le32 poff
       in Some (set_writable_byte (cap_off + 3) 0xC0 (c1\<lparr>cfg := overwrite (cfg c1) (cap_off + 2) payload\<rparr>), cap_off))"

definition set_control :: "u16 \<Rightarrow> msix \<Rightarrow> msix" where
  "set_control mc m = m\<lparr>control := mc\<rparr>"

definition msix_enabled :: "msix \<Rightarrow> bool" where
  "msix_enabled m \<longleftrightarrow> control m AND 0x8000 \<noteq> 0"

definition function_masked :: "msix \<Rightarrow> bool" where
  "function_masked m \<longleftrightarrow> control m AND 0x4000 \<noteq> 0"

section \<open>Messages\<close>

text \<open>The request \<^verbatim>\<open>inject_msi\<close> makes of the hypervisor: bit field, destination and vector.\<close>

definition msi_request :: "u64 \<Rightarrow> u32 \<Rightarrow> (u64 \<times> u32 \<times> u32) option" where
  "msi_request address msg =
     (let vector = msg AND 0xFF;
          delivery = drop_bit 8 msg AND 0x7;
          dest_mode = if address AND push_bit 2 1 \<noteq> 0 then 1 else 0 :: u64;
          trigger_mode = if msg AND push_bit 15 1 \<noteq> 0 then 1 else 0 :: u64;
          destination = ucast (drop_bit 12 address AND 0xFF)
      in if delivery \<in> {0, 1, 4, 5}
         then Some ((ucast delivery AND 0xFF) OR push_bit 8 (dest_mode AND 0xF) OR push_bit 12 (trigger_mode AND 0x3), destination, vector)
         else None)"

definition do_inject :: "nat \<Rightarrow> msix \<Rightarrow> msix \<times> (nat \<times> u64 \<times> u32) list" where
  "do_inject v m =
     (let e = vectors m ! v
      in (m\<lparr>injected_count := injected_count m + 1\<rparr>,
          [(v, push_bit 32 (ucast (addr_hi e)) OR ucast (addr_lo e), msg_data e)]))"

definition pba_set :: "nat \<Rightarrow> msix \<Rightarrow> msix" where
  "pba_set v m = m\<lparr>pba := (pba m)[v div 64 := pba m ! (v div 64) OR push_bit (v mod 64) 1]\<rparr>"

definition pba_clear :: "nat \<Rightarrow> msix \<Rightarrow> msix" where
  "pba_clear v m = m\<lparr>pba := (pba m)[v div 64 := pba m ! (v div 64) AND NOT (push_bit (v mod 64) 1)]\<rparr>"

definition pba_bit :: "nat \<Rightarrow> msix \<Rightarrow> bool" where
  "pba_bit v m \<longleftrightarrow> drop_bit (v mod 64) (pba m ! (v div 64)) AND 0x1 \<noteq> 0"

definition trigger :: "u32 \<Rightarrow> msix \<Rightarrow> msix \<times> (nat \<times> u64 \<times> u32) list" where
  "trigger vector m =
     (let v = unat vector
      in if num_vectors m \<le> vector then (m, [])
         else if \<not> msix_enabled m \<or> function_masked m then (pba_set v m, [])
         else if ctrl (vectors m ! v) AND 0x1 \<noteq> 0 then (pba_set v m, [])
         else do_inject v m)"

section \<open>The BAR\<close>

definition handle_table :: "mmio_access \<Rightarrow> msix \<Rightarrow> msix \<times> mmio_access \<times> (nat \<times> u64 \<times> u32) list" where
  "handle_table acc m =
     (let base = bar_base_gpa m + ucast (table_offset m);
          off = gpa acc - base;
          v = unat (off div 16);
          field = off mod 16;
          e = vectors m ! v
      in if mmio_size acc \<noteq> 4 \<or> off AND 0x3 \<noteq> 0 \<or> unat (num_vectors m) \<le> v
         then (m, if mmio_is_write acc then acc else acc\<lparr>data := replicate 8 0\<rparr>, [])
         else if mmio_is_write acc
         then let x = from_le32 (byte_range (data acc) 0 4)
              in if field = 0 then (m\<lparr>vectors := (vectors m)[v := e\<lparr>addr_lo := x\<rparr>]\<rparr>, acc, [])
                 else if field = 4 then (m\<lparr>vectors := (vectors m)[v := e\<lparr>addr_hi := x\<rparr>]\<rparr>, acc, [])
                 else if field = 8 then (m\<lparr>vectors := (vectors m)[v := e\<lparr>msg_data := x\<rparr>]\<rparr>, acc, [])
                 else if field = 12
                 then let new_ctrl = x AND 0x1;
                          was_masked = (ctrl e AND 0x1 \<noteq> 0);
                          m1 = m\<lparr>vectors := (vectors m)[v := e\<lparr>ctrl := new_ctrl\<rparr>]\<rparr>
                      in if was_masked \<and> new_ctrl AND 0x1 = 0 \<and> msix_enabled m1 \<and> \<not> function_masked m1 \<and> pba_bit v m1
                         then (case do_inject v (pba_clear v m1) of (m2, msgs) \<Rightarrow> (m2, acc, msgs))
                         else (m1, acc, [])
                 else (m, acc, [])
         else let x = if field = 0 then addr_lo e else if field = 4 then addr_hi e
                      else if field = 8 then msg_data e else if field = 12 then ctrl e else 0
              in (m, acc\<lparr>data := overwrite (data acc) 0 (le32 x)\<rparr>, []))"

definition handle_pba :: "mmio_access \<Rightarrow> msix \<Rightarrow> mmio_access" where
  "handle_pba acc m =
     (if mmio_is_write acc then acc
      else if mmio_size acc \<noteq> 4 \<and> mmio_size acc \<noteq> 8 then acc\<lparr>data := replicate 8 0\<rparr>
      else let base = bar_base_gpa m + ucast (pba_offset m);
               off = gpa acc - base;
               q = unat (off div 8);
               x = if q < length (pba m) then pba m ! q else 0
           in if mmio_size acc = 8 then acc\<lparr>data := le64 x\<rparr>
              else acc\<lparr>data := overwrite (data acc) 0 (le32 (ucast (drop_bit (unat ((off AND 4) * 8)) x)))\<rparr>)"

section \<open>Snapshot\<close>

definition msix_snapshot_capture :: "msix \<Rightarrow> u16 \<times> u32 list list \<times> u64 list" where
  "msix_snapshot_capture m = (control m, map (\<lambda>e. [addr_lo e, addr_hi e, msg_data e, ctrl e]) (vectors m), pba m)"

definition msix_snapshot_apply :: "u16 \<Rightarrow> u32 list list \<Rightarrow> u64 list \<Rightarrow> msix \<Rightarrow> msix" where
  "msix_snapshot_apply mc tbl pb m =
     m\<lparr>vectors := fold (\<lambda>(i, x) t. if i < length t
          then t[i := \<lparr>addr_lo = x ! 0, addr_hi = x ! 1, msg_data = x ! 2, ctrl = x ! 3\<rparr>] else t) (enumerate 0 tbl) (vectors m),
       pba := fold (\<lambda>(i, p) t. if i < length t then t[i := p] else t) (enumerate 0 pb) (pba m),
       control := mc\<rparr>"

section \<open>Pending bits\<close>

definition msix_wf :: "msix \<Rightarrow> bool" where
  "msix_wf m \<longleftrightarrow> length (vectors m) = unat (num_vectors m) \<and> unat (num_vectors m) \<le> 64 * length (pba m)"

lemma unat_div_ceil64:
  assumes "unat n \<le> 2048"
  shows "unat (div_ceil64 n) = unat n div 64 + (if unat n mod 64 = 0 then 0 else 1)"
proof -
  have "unat (n div 64) = unat n div 64" by (simp add: unat_div)
  moreover have m0: "n mod 64 = 0 \<longleftrightarrow> unat n mod 64 = 0" by (simp add: word_unat_eq_iff unat_mod)
  ultimately show ?thesis
    unfolding div_ceil64_def m0 using assms div_le_dividend [of "unat n" 64] by (subst unat_add_no_wrap) auto
qed

lemma msix_new_wf:
  assumes "msix_new n bx t p = Some m"
  shows "msix_wf m" and "num_vectors m = n" and "\<not> pba_bit v m \<or> unat n \<le> v"
proof -
  have n: "unat n \<le> 2048" using assms by (auto simp: msix_new_def word_le_nat_alt split: if_splits)
  note unat_div_ceil64 [OF n]
  then have len: "unat n \<le> 64 * unat (div_ceil64 n)" using mult_div_mod_eq [of 64 "unat n"] pos_mod_bound [of 64 "int (unat n)"] by (auto simp: algebra_simps)
  show "msix_wf m" "num_vectors m = n"
    using assms len by (auto simp: msix_new_def msix_wf_def split: if_splits)
  have "v div 64 < unat (div_ceil64 n)" if "v < unat n" using that len by (simp add: div_less_iff_less_mult mult.commute)
  then show "\<not> pba_bit v m \<or> unat n \<le> v"
    using assms by (auto simp: msix_new_def pba_bit_def not_le split: if_splits)
qed

lemma pba_bit_iff: "pba_bit v m \<longleftrightarrow> bit (pba m ! (v div 64)) (v mod 64)"
  by (simp add: pba_bit_def and_one_eq bit_iff_odd_drop_bit odd_iff_mod_2_eq_one)

lemma same_bit: "v div 64 = w div 64 \<Longrightarrow> v mod 64 = w mod 64 \<Longrightarrow> v = (w :: nat)"
  by (metis div_mult_mod_eq)

lemma pba_bit_set:
  assumes "msix_wf m" and "v < unat (num_vectors m)" and "w < unat (num_vectors m)"
  shows "pba_bit w (pba_set v m) \<longleftrightarrow> w = v \<or> pba_bit w m"
    and "pba_bit w (pba_clear v m) \<longleftrightarrow> w \<noteq> v \<and> pba_bit w m"
proof -
  have "v div 64 < length (pba m)" "w div 64 < length (pba m)"
    using assms by (auto simp: msix_wf_def div_less_iff_less_mult)
  then show "pba_bit w (pba_set v m) \<longleftrightarrow> w = v \<or> pba_bit w m" "pba_bit w (pba_clear v m) \<longleftrightarrow> w \<noteq> v \<and> pba_bit w m"
    using same_bit [of v w]
    by (auto simp: pba_bit_iff pba_set_def pba_clear_def nth_list_update bit_simps simp del: push_bit_of_1)
qed

section \<open>No interrupt is lost\<close>

text \<open>
  A history of the function: interrupts of the device, guest accesses to the table, and new values of
  the control register. \<open>owed v\<close> follows one vector: a trigger makes a message due, an injection of
  the vector pays it.
\<close>

datatype msix_op = Trigger u32 | Table mmio_access | Control u16

fun msix_step :: "msix_op \<Rightarrow> msix \<Rightarrow> msix \<times> (nat \<times> u64 \<times> u32) list" where
  "msix_step (Trigger v) m = trigger v m"
| "msix_step (Table acc) m = (case handle_table acc m of (m', acc', msgs) \<Rightarrow> (m', msgs))"
| "msix_step (Control mc) m = (set_control mc m, [])"

fun msix_run :: "nat \<Rightarrow> msix_op list \<Rightarrow> msix \<Rightarrow> bool \<Rightarrow> msix \<times> bool" where
  "msix_run v [] m owed = (m, owed)"
| "msix_run v (op1 # ops) m owed = (case msix_step op1 m of (m', msgs) \<Rightarrow>
     msix_run v ops m' ((owed \<or> (case op1 of Trigger w \<Rightarrow> unat w = v | _ \<Rightarrow> False)) \<and> v \<notin> set (map fst msgs)))"

text \<open>Deliverable: the function is enabled and unmasked, and so is the vector.\<close>

definition deliverable :: "nat \<Rightarrow> msix \<Rightarrow> bool" where
  "deliverable v m \<longleftrightarrow> msix_enabled m \<and> \<not> function_masked m \<and> ctrl (vectors m ! v) AND 0x1 = 0"

definition message :: "nat \<Rightarrow> msix \<Rightarrow> nat \<times> u64 \<times> u32" where
  "message v m = (let e = vectors m ! v in (v, push_bit 32 (ucast (addr_hi e)) OR ucast (addr_lo e), msg_data e))"

lemma do_inject_eq: "do_inject v m = (m\<lparr>injected_count := injected_count m + 1\<rparr>, [message v m])"
  by (simp add: do_inject_def message_def Let_def)

lemma message_upd [simp]:
  "message v (m\<lparr>injected_count := c\<rparr>) = message v m" "message v (m\<lparr>pba := b\<rparr>) = message v m"
  "message v (pba_clear w m) = message v m" "message v (pba_set w m) = message v m"
  "deliverable v (m\<lparr>injected_count := c\<rparr>) = deliverable v m" "deliverable v (pba_clear w m) = deliverable v m"
  "pba_bit v (m\<lparr>injected_count := c\<rparr>) = pba_bit v m" "pba_bit v (m\<lparr>vectors := t\<rparr>) = pba_bit v m"
  "msix_wf (m\<lparr>injected_count := c\<rparr>) = msix_wf m" "msix_wf (pba_clear w m) = msix_wf m" "msix_wf (pba_set w m) = msix_wf m"
  "num_vectors (pba_clear w m) = num_vectors m" "num_vectors (pba_set w m) = num_vectors m"
  by (simp_all add: message_def deliverable_def msix_enabled_def function_masked_def pba_bit_def msix_wf_def
      pba_clear_def pba_set_def)

lemma trigger_step:
  assumes "msix_wf m" and "trigger w m = (m', msgs)"
  shows "msix_wf m' \<and> num_vectors m' = num_vectors m \<and>
    (\<forall>x \<in> set msgs. x = message (unat w) m' \<and> deliverable (unat w) m') \<and>
    (\<forall>v < unat (num_vectors m). (pba_bit v m \<longrightarrow> pba_bit v m') \<and>
       (unat w = v \<longrightarrow> pba_bit v m' \<or> msgs = [message v m]))"
  using assms pba_bit_set [OF assms(1)]
  by (auto simp: trigger_def do_inject_eq deliverable_def msix_enabled_def function_masked_def word_le_nat_alt Let_def split: if_splits)

lemma handle_table_cases:
  assumes "handle_table acc m = (m', acc', msgs)"
  obtains (same) "m' = m" "msgs = []"
  | (entry) v e where "m' = m\<lparr>vectors := (vectors m)[v := e]\<rparr>" "msgs = []"
  | (inject) v e where "v < unat (num_vectors m)" "ctrl e AND 0x1 = 0" "msix_enabled m" "\<not> function_masked m" "pba_bit v m"
      "(m', msgs) = do_inject v (pba_clear v (m\<lparr>vectors := (vectors m)[v := e]\<rparr>))"
proof -
  define v where "v = unat ((gpa acc - (bar_base_gpa m + ucast (table_offset m))) div 16)"
  define field where "field = (gpa acc - (bar_base_gpa m + ucast (table_offset m))) mod 16"
  define x where "x = from_le32 (byte_range (data acc) 0 4)"
  let ?e = "(vectors m ! v)\<lparr>ctrl := x AND 0x1\<rparr>"
  let ?m1 = "m\<lparr>vectors := (vectors m)[v := ?e]\<rparr>"
  have same_flags: "msix_enabled ?m1 = msix_enabled m" "function_masked ?m1 = function_masked m"
    by (simp_all add: msix_enabled_def function_masked_def)
  show ?thesis
  proof (cases "field = 12 \<and> mmio_is_write acc \<and> x AND 0x1 = 0 \<and> msix_enabled m \<and> \<not> function_masked m \<and> pba_bit v m \<and>
      msgs \<noteq> []")
    case True
    then have "(m', msgs) = do_inject v (pba_clear v ?m1) \<and> v < unat (num_vectors m)"
      using assms same_flags unfolding handle_table_def Let_def v_def [symmetric] field_def [symmetric] x_def [symmetric]
      by (auto split: if_splits prod.splits)
    with True show ?thesis by (intro inject [of v ?e]) (simp_all add: and.assoc)
  next
    case False
    then have "msgs = [] \<and> (m' = m \<or> (\<exists>v e. m' = m\<lparr>vectors := (vectors m)[v := e]\<rparr>))"
      using assms same_flags unfolding handle_table_def Let_def v_def [symmetric] field_def [symmetric] x_def [symmetric]
      by (auto simp: do_inject_eq and.assoc split: if_splits prod.splits)
    then show ?thesis using same entry by blast
  qed
qed

lemma table_step:
  assumes "msix_wf m" and "handle_table acc m = (m', acc', msgs)"
  shows "msix_wf m' \<and> num_vectors m' = num_vectors m \<and>
    (\<forall>x \<in> set msgs. x = message (fst x) m' \<and> deliverable (fst x) m') \<and>
    (\<forall>v < unat (num_vectors m). pba_bit v m \<longrightarrow> pba_bit v m' \<or> v \<in> set (map fst msgs))"
  using assms(2)
proof (cases rule: handle_table_cases)
  case same
  with assms(1) show ?thesis by simp
next
  case (entry v e)
  with assms(1) show ?thesis by (simp add: msix_wf_def)
next
  case (inject v e)
  let ?m1 = "m\<lparr>vectors := (vectors m)[v := e]\<rparr>"
  have wf: "msix_wf ?m1" using assms(1) by (simp add: msix_wf_def)
  have m': "m' = (pba_clear v ?m1)\<lparr>injected_count := injected_count (pba_clear v ?m1) + 1\<rparr>" "msgs = [message v ?m1]"
    using inject(6) by (simp_all add: do_inject_eq)
  have "deliverable v ?m1" using inject assms(1)
    by (simp add: deliverable_def msix_enabled_def function_masked_def msix_wf_def)
  moreover have "fst (message v ?m1) = v" by (simp add: message_def Let_def)
  ultimately show ?thesis using wf inject(1) pba_bit_set(2) [OF wf]
    by (auto simp: m')
qed

text \<open>The history invariant: a message that is owed is pending.\<close>

lemma msix_run_owed:
  assumes "msix_wf m" and "v < unat (num_vectors m)" and "owed \<longrightarrow> pba_bit v m" and "msix_run v ops m owed = (m', owed')"
  shows "msix_wf m' \<and> num_vectors m' = num_vectors m \<and> (owed' \<longrightarrow> pba_bit v m')"
  using assms
proof (induction ops arbitrary: m owed)
  case (Cons op1 ops)
  obtain m1 msgs where st: "msix_step op1 m = (m1, msgs)" by (metis surj_pair)
  let ?owed = "(owed \<or> (case op1 of Trigger w \<Rightarrow> unat w = v | _ \<Rightarrow> False)) \<and> v \<notin> set (map fst msgs)"
  have "msix_wf m1 \<and> num_vectors m1 = num_vectors m \<and> (?owed \<longrightarrow> pba_bit v m1)"
  proof (cases op1)
    case (Trigger w)
    with trigger_step [OF Cons.prems(1), of w m1 msgs] st Cons.prems(2,3) show ?thesis
      by (auto simp: message_def Let_def)
  next
    case (Table acc)
    then obtain acc' where "handle_table acc m = (m1, acc', msgs)" using st by (auto split: prod.splits)
    from table_step [OF Cons.prems(1) this] Table Cons.prems(2,3) show ?thesis by auto
  next
    case (Control mc)
    with st Cons.prems show ?thesis by (auto simp: set_control_def msix_wf_def pba_bit_def)
  qed
  with Cons.IH [of m1 ?owed] Cons.prems st show ?case by simp
qed auto

text \<open>The guest's write that unmasks a vector.\<close>

definition unmask_access :: "nat \<Rightarrow> msix \<Rightarrow> mmio_access" where
  "unmask_access v m = \<lparr>gpa = bar_base_gpa m + ucast (table_offset m) + of_nat (16 * v + 12), mmio_size = 4,
     mmio_is_write = True, data = replicate 8 0\<rparr>"

lemma unmask_injects:
  assumes "msix_wf m" and "v < unat (num_vectors m)" and "msix_enabled m" "\<not> function_masked m"
    and "ctrl (vectors m ! v) AND 0x1 \<noteq> 0" and "pba_bit v m"
  shows "snd (snd (handle_table (unmask_access v m) m)) = [message v m]"
proof -
  have v32: "16 * v + 12 < 2 ^ 64" using assms(2) unat_lt [of "num_vectors m"] by simp
  have u: "unat (of_nat (16 * v + 12) :: u64) = 16 * v + 12" using v32 by (rule unat_of_nat_u64)
  have vi: "unat ((of_nat (16 * v + 12) :: u64) div 16) = v" by (simp only: unat_div u) simp
  have field: "(of_nat (16 * v + 12) :: u64) mod 16 = 12"
  proof -
    have "unat ((of_nat (16 * v + 12) :: u64) mod 16) = 12" by (simp only: unat_mod u) simp
    then show ?thesis by (simp add: word_unat_eq_iff)
  qed
  have al: "(of_nat (16 * v + 12) :: u64) AND 0x3 = 0"
  proof -
    have m: "(0x3 :: u64) = mask 2" by (simp add: mask_numeral)
    have "unat ((of_nat (16 * v + 12) :: u64) AND mask 2) = (16 * v + 12) mod 4" by (simp only: unat_and_mask u) simp
    also have "\<dots> = 0" using mod_mult_self4 [of 4 "4 * v" 12] by (simp add: algebra_simps)
    finally show ?thesis unfolding m by (simp only: unat_eq_zero)
  qed
  have zero: "from_le32 (byte_range (replicate 8 0) 0 4) = 0" by (simp add: byte_range_def numeral_eq_Suc)
  have off: "gpa (unmask_access v m) - (bar_base_gpa m + ucast (table_offset m)) = of_nat (16 * v + 12)"
    by (simp add: unmask_access_def)
  have up: "message v (m\<lparr>vectors := (vectors m)[v := (vectors m ! v)\<lparr>ctrl := 0\<rparr>]\<rparr>) = message v m"
    using assms(1,2) by (simp add: message_def msix_wf_def Let_def)
  have flags: "msix_enabled (m\<lparr>vectors := t\<rparr>) = msix_enabled m" "function_masked (m\<lparr>vectors := t\<rparr>) = function_masked m" for t
    by (simp_all add: msix_enabled_def function_masked_def)
  have acc: "mmio_size (unmask_access v m) = 4" "mmio_is_write (unmask_access v m)" "data (unmask_access v m) = replicate 8 0"
    by (simp_all add: unmask_access_def)
  show ?thesis
    using assms(2-6) unfolding handle_table_def off Let_def vi field al acc zero
    by (simp add: do_inject_eq up flags acc)
qed

text \<open>
  C14. MSI-X loses no interrupt at the vector: over any history of device interrupts, guest writes to
  the table and changes of the control register from reset, a vector triggered and not injected
  since has its pending bit set; a trigger of a deliverable vector injects its programmed message at
  once; unmasking a pending vector of an enabled, unmasked function injects it; and no message is
  ever sent for a vector that is not deliverable.
\<close>

theorem msix_no_lost_interrupt:
  assumes "msix_new n b t p = Some m0" and "v < unat n" and "msix_run v ops m0 False = (m, owed)"
  shows "(owed \<longrightarrow> pba_bit v m) \<and>
    (deliverable v m \<longrightarrow> snd (trigger (of_nat v) m) = [message v m]) \<and>
    (msix_enabled m \<and> \<not> function_masked m \<and> ctrl (vectors m ! v) AND 0x1 \<noteq> 0 \<and> pba_bit v m \<longrightarrow>
       snd (snd (handle_table (unmask_access v m) m)) = [message v m]) \<and>
    (case msix_step op1 m of (m', msgs) \<Rightarrow> \<forall>x \<in> set msgs. x = message (fst x) m' \<and> deliverable (fst x) m')"
proof -
  note new = msix_new_wf [OF assms(1)]
  have v: "v < unat (num_vectors m0)" using assms(2) new(2) by simp
  from msix_run_owed [OF new(1) v _ assms(3)] have m: "msix_wf m" "num_vectors m = n" "owed \<longrightarrow> pba_bit v m"
    using new(2) by simp_all
  have vw: "unat (of_nat v :: u32) = v" using assms(2) unat_lt [of n] by (intro unat_of_nat_u32) simp
  have "snd (trigger (of_nat v) m) = [message v m]" if "deliverable v m"
    using that assms(2) m(2) vw by (simp add: trigger_def deliverable_def do_inject_eq word_le_nat_alt Let_def)
  moreover have "case msix_step op1 m of (m', msgs) \<Rightarrow> \<forall>x \<in> set msgs. x = message (fst x) m' \<and> deliverable (fst x) m'"
  proof (cases op1)
    case (Trigger w)
    then show ?thesis using trigger_step [OF m(1), of w] by (cases "trigger w m") (auto simp: message_def Let_def)
  next
    case (Table acc)
    then show ?thesis using table_step [OF m(1), of acc] by (cases "handle_table acc m") auto
  qed simp
  ultimately show ?thesis using m unmask_injects [OF m(1)] assms(2) by auto
qed

theorem msix_no_lost_interrupt_witness:
  "\<exists>m0. msix_new 3 0 0 0x800 = Some m0 \<and> (case msix_run 2 [Trigger 2, Control 0x8000] m0 False of (m, owed) \<Rightarrow>
     owed \<longrightarrow> pba_bit 2 m)"
proof -
  obtain m0 where m0: "msix_new 3 0 0 0x800 = Some m0" by (simp add: msix_new_def)
  obtain m owed where r: "msix_run 2 [Trigger 2, Control 0x8000] m0 False = (m, owed)" by (metis surj_pair)
  have "2 < unat (3 :: u32)" by simp
  from msix_no_lost_interrupt [OF m0 this r] m0 r show ?thesis by auto
qed

text \<open>
  A deviation: pending bits that were latched while the whole function was masked are not replayed
  when the guest clears the function mask; the message waits for a write to the vector's own mask.
\<close>

lemma function_unmask_does_not_replay:
  "msix_step (Control 0x8000) m = (set_control 0x8000 m, []) \<and> pba_bit v (set_control 0x8000 m) = pba_bit v m"
  by (simp add: set_control_def pba_bit_def)

section \<open>The size of the BAR\<close>

lemma next_pow2_loop_ends:
  assumes "k \<le> 31" and "v \<le> 2 ^ 31"
  shows "\<exists>j. k \<le> j \<and> j \<le> 31 \<and> next_pow2_loop v (2 ^ k) = Some (2 ^ j) \<and> v \<le> 2 ^ j \<and> (k < j \<longrightarrow> 2 ^ (j - 1) < v)"
  using assms(1)
proof (induction "31 - k" arbitrary: k)
  case 0
  then have "k = 31" by simp
  moreover have "next_pow2_loop v (2 ^ 31) = Some (2 ^ 31)"
  proof -
    have "\<not> 2 ^ 31 < v" using assms(2) by (simp only: not_less)
    then show ?thesis by (subst next_pow2_loop.simps) (simp only: if_False)
  qed
  ultimately show ?case using assms(2) by blast
next
  case (Suc d)
  show ?case
  proof (cases "2 ^ k < v")
    case False
    then have "next_pow2_loop v (2 ^ k) = Some (2 ^ k)" by (subst next_pow2_loop.simps) simp
    with False Suc.prems show ?thesis by (auto simp: not_less)
  next
    case True
    have pb: "push_bit 1 (2 ^ k) = (2 ^ Suc k :: u32)" by (simp add: push_bit_eq_mult mult.commute)
    have r: "next_pow2_loop v (2 ^ k) = next_pow2_loop v (2 ^ Suc k)"
      by (subst next_pow2_loop.simps) (simp only: True if_True pb)
    have "d = 31 - Suc k" "Suc k \<le> 31" using Suc.hyps(2) by simp_all
    from Suc.hyps(1) [OF this] obtain j where j: "Suc k \<le> j" "j \<le> 31" "next_pow2_loop v (2 ^ Suc k) = Some (2 ^ j)" "v \<le> 2 ^ j"
        "Suc k < j \<longrightarrow> 2 ^ (j - 1) < v"
      by blast
    have "2 ^ (j - 1) < v" using j(1,5) True by (cases "j = Suc k") auto
    with j r show ?thesis by (intro exI [of _ j]) auto
  qed
qed

text \<open>
  The loop that sizes the MSI-X BAR ends for every size up to \<open>2^31\<close>, with the least power of two
  that holds it: for 1 to 2048 vectors and offsets up to 16 MiB the BAR size exists, is a power of
  two of at least 16, and covers both the table and the pending bits.
\<close>

lemma msix_bar_size_ends:
  assumes "n \<le> 2048" and "t \<le> 0x1000000" and "p \<le> 0x1000000"
  shows "case required_bar_size n t p of None \<Rightarrow> False
    | Some sz \<Rightarrow> is_pow2 sz \<and> 16 \<le> sz \<and> unat t + 16 * unat n \<le> unat sz \<and> unat p + 8 * unat (div_ceil64 n) \<le> unat sz \<and>
        (sz \<noteq> 16 \<longrightarrow> unat sz div 2 < max (unat t + 16 * unat n) (unat p + 8 * unat (div_ceil64 n)))"
proof -
  define hi where "hi = max (t + n * 16) (p + div_ceil64 n * 8)"
  have b: "unat n \<le> 2048" "unat t \<le> 0x1000000" "unat p \<le> 0x1000000" using assms by (simp_all add: word_le_nat_alt)
  have c: "unat (div_ceil64 n) \<le> 33" using unat_div_ceil64 [OF b(1)] b(1) by (auto simp: div_le_mono)
  have tb: "unat (n * 16) = 16 * unat n" using b(1) by (simp add: unat_word_ariths)
  have t: "unat (t + n * 16) = unat t + 16 * unat n" using b tb by (subst unat_add_no_wrap) simp_all
  have pb: "unat (div_ceil64 n * 8) = 8 * unat (div_ceil64 n)" using c by (simp add: unat_word_ariths)
  have p: "unat (p + div_ceil64 n * 8) = unat p + 8 * unat (div_ceil64 n)" using b c pb by (subst unat_add_no_wrap) simp_all
  have hi: "unat hi = max (unat t + 16 * unat n) (unat p + 8 * unat (div_ceil64 n))"
    unfolding hi_def t [symmetric] p [symmetric] by (simp add: max_def word_le_nat_alt)
  show ?thesis
  proof (cases "hi < 16")
    case True
    then have "required_bar_size n t p = Some 16" by (simp add: required_bar_size_def hi_def Let_def)
    moreover have "unat hi < 16" using True by (simp add: word_less_nat_alt)
    ultimately show ?thesis using hi by (simp add: is_pow2_def)
  next
    case False
    then have h16: "16 \<le> unat hi" by (simp add: word_less_nat_alt)
    have "unat hi \<le> unat (2 ^ 31 :: u32)" using hi b c by simp
    then have "hi \<le> 2 ^ 31" by (simp only: word_le_nat_alt)
    from next_pow2_loop_ends [of 0, OF _ this]
    obtain j where j: "j \<le> 31" "next_pow2_loop hi 1 = Some (2 ^ j)" "hi \<le> 2 ^ j" "0 < j \<longrightarrow> 2 ^ (j - 1) < hi" by auto
    have u: "unat (2 ^ i :: u32) = 2 ^ i" if "i \<le> 31" for i using that by (simp add: unat_2p)
    have le: "unat hi \<le> 2 ^ j" using j(1,3) u by (simp only: word_le_nat_alt)
    have "j \<noteq> 0" using le h16 by (cases j) auto
    have half: "2 ^ j div 2 < unat hi"
    proof -
      have "2 ^ (j - 1) < unat hi" using j(1,4) \<open>j \<noteq> 0\<close> u [of "j - 1"] by (simp add: word_less_nat_alt)
      moreover have "(2 :: nat) ^ j div 2 = 2 ^ (j - 1)" using \<open>j \<noteq> 0\<close> by (cases j) simp_all
      ultimately show ?thesis by simp
    qed
    have "required_bar_size n t p = Some (2 ^ j)"
      using False j(2) h16 by (simp add: required_bar_size_def hi_def [symmetric] next_pow2_def word_less_nat_alt Let_def)
    moreover have "is_pow2 (2 ^ j)"
    proof -
      have "(2 :: u32) ^ j \<noteq> 0" using u [OF j(1)] by (metis power_not_zero unat_0 zero_neq_numeral)
      moreover have "(2 :: u32) ^ j AND mask j = 0"
        using push_bit_of_1 [of j, where 'a = u32] by (intro bit_word_eqI) (auto simp: bit_simps)
      ultimately show ?thesis by (simp add: is_pow2_def mask_eq_exp_minus_1)
    qed
    moreover have "(16 :: u32) \<le> 2 ^ j" using le h16 u [OF j(1)] by (simp add: word_le_nat_alt)
    ultimately show ?thesis using le half hi u [OF j(1)] by simp
  qed
qed

end
