(* ===== verification/Virtio_Transport.thy ===== *)
theory Virtio_Transport
  imports Msix Virtqueue
begin

text \<open>
  The virtio-PCI transport (\<^verbatim>\<open>src/virtio/transport.rs\<close>) and the device interface it drives
  (\<^verbatim>\<open>src/virtio/device.rs\<close>): the common configuration registers, the status state machine, the ISR and
  notify registers, device configuration, the interrupts a device raises, and the wiring of BAR 0 on
  the MMIO bus. A device is its state \<open>'d\<close> with the record of its operations; an operation that can
  panic returns an option, and \<^verbatim>\<open>notify_queue\<close> returns the queues whose interrupt it raised. The
  doorbells, which only bypass the notify register, are not part of the model.
\<close>

section \<open>The device interface\<close>

abbreviation FEATURE_RING_EVENT_IDX :: u64 where "FEATURE_RING_EVENT_IDX \<equiv> 0x20000000"
abbreviation FEATURE_VERSION_1 :: u64 where "FEATURE_VERSION_1 \<equiv> 0x100000000"
abbreviation STATUS_DRIVER_OK :: u8 where "STATUS_DRIVER_OK \<equiv> 4"
abbreviation STATUS_FEATURES_OK :: u8 where "STATUS_FEATURES_OK \<equiv> 8"
abbreviation STATUS_NEEDS_RESET :: u8 where "STATUS_NEEDS_RESET \<equiv> 0x40"

record 'd virtio_device =
  device_id :: "'d \<Rightarrow> u32"
  device_features :: "'d \<Rightarrow> u64"
  set_driver_features :: "u64 \<Rightarrow> 'd \<Rightarrow> 'd \<times> bool"
  queue_count :: "'d \<Rightarrow> u32"
  queue_max :: "u32 \<Rightarrow> 'd \<Rightarrow> u32"
  enable_queue :: "u32 \<Rightarrow> u64 \<Rightarrow> u64 \<Rightarrow> u64 \<Rightarrow> u16 \<Rightarrow> bool \<Rightarrow> 'd \<Rightarrow> 'd"
  disable_queue :: "u32 \<Rightarrow> 'd \<Rightarrow> 'd"
  notify_queue :: "u32 \<Rightarrow> 'd \<Rightarrow> ('d \<times> u32 list) option"
  driver_ok :: "'d \<Rightarrow> 'd"
  device_reset :: "'d \<Rightarrow> 'd"
  reset_pending :: "'d \<Rightarrow> bool"
  read_config :: "u32 \<Rightarrow> u32 \<Rightarrow> 'd \<Rightarrow> u32"
  write_config :: "u32 \<Rightarrow> u32 \<Rightarrow> u32 \<Rightarrow> 'd \<Rightarrow> 'd"
  capture_queue :: "u32 \<Rightarrow> 'd \<Rightarrow> queue_state option"
  apply_queue :: "u32 \<Rightarrow> queue_state \<Rightarrow> 'd \<Rightarrow> 'd"
  capture_device_state :: "'d \<Rightarrow> bytes"
  apply_device_state :: "bytes \<Rightarrow> 'd \<Rightarrow> 'd"

section \<open>State\<close>

abbreviation BAR_SIZE :: u32 where "BAR_SIZE \<equiv> 0x4000"
abbreviation OFF_COMMON :: u64 where "OFF_COMMON \<equiv> 0x0000"
abbreviation OFF_ISR :: u64 where "OFF_ISR \<equiv> 0x0040"
abbreviation OFF_NOTIFY :: u64 where "OFF_NOTIFY \<equiv> 0x1000"
abbreviation NOTIFY_MULT :: u32 where "NOTIFY_MULT \<equiv> 4"
abbreviation OFF_DEVICE :: u64 where "OFF_DEVICE \<equiv> 0x2000"
abbreviation CC_DEVICE_FEATURE_SELECT :: u32 where "CC_DEVICE_FEATURE_SELECT \<equiv> 0x00"
abbreviation CC_DEVICE_FEATURE :: u32 where "CC_DEVICE_FEATURE \<equiv> 0x04"
abbreviation CC_DRIVER_FEATURE_SELECT :: u32 where "CC_DRIVER_FEATURE_SELECT \<equiv> 0x08"
abbreviation CC_DRIVER_FEATURE :: u32 where "CC_DRIVER_FEATURE \<equiv> 0x0C"
abbreviation CC_MSIX_CONFIG :: u32 where "CC_MSIX_CONFIG \<equiv> 0x10"
abbreviation CC_DEVICE_STATUS :: u32 where "CC_DEVICE_STATUS \<equiv> 0x14"
abbreviation CC_QUEUE_SIZE :: u32 where "CC_QUEUE_SIZE \<equiv> 0x18"
abbreviation CC_QUEUE_ENABLE :: u32 where "CC_QUEUE_ENABLE \<equiv> 0x1C"
abbreviation CC_QUEUE_DESC :: u32 where "CC_QUEUE_DESC \<equiv> 0x20"
abbreviation CC_QUEUE_DRIVER :: u32 where "CC_QUEUE_DRIVER \<equiv> 0x28"
abbreviation CC_QUEUE_DEVICE :: u32 where "CC_QUEUE_DEVICE \<equiv> 0x30"
abbreviation ISR_QUEUE_BIT :: u32 where "ISR_QUEUE_BIT \<equiv> 1"
abbreviation ISR_CONFIG_BIT :: u32 where "ISR_CONFIG_BIT \<equiv> 2"

record tqueue =
  tq_vector :: u16
  tq_enable :: u16
  tq_desc :: u64
  tq_driver :: u64
  tq_device :: u64
  tq_size :: u16

definition tqueue_default :: tqueue where
  "tqueue_default = \<lparr>tq_vector = 0xFFFF, tq_enable = 0, tq_desc = 0, tq_driver = 0, tq_device = 0, tq_size = 0\<rparr>"

record common =
  device_feature_select :: u32
  driver_feature_select :: u32
  driver_features :: u64
  msix_config :: u16
  status :: u8
  reset_from :: u8
  config_generation :: u8
  queue_select :: u16
  tqueues :: "tqueue list"

record 'd transport =
  tp_device :: 'd
  tp_msix :: msix
  tp_cap_off :: nat
  tp_cfg :: pci_config
  tp_common :: common
  isr_status :: u32
  tp_bar_gpa :: u64
  bar_mapped :: bool
  notify_count :: u64

definition common_new :: "nat \<Rightarrow> common" where
  "common_new qcount = \<lparr>device_feature_select = 0, driver_feature_select = 0, driver_features = 0, msix_config = 0xFFFF,
     status = 0, reset_from = 0, config_generation = 0, queue_select = 0, tqueues = replicate qcount tqueue_default\<rparr>"

record transport_options =
  opt_vendor_id :: u16
  opt_sub_vendor_id :: u16
  opt_sub_id :: u16
  opt_num_msix_vectors :: u16
  opt_pci_class :: u8
  opt_pci_subclass :: u8

abbreviation OFF_MSIX_TABLE :: u32 where "OFF_MSIX_TABLE \<equiv> 0x3000"
abbreviation OFF_MSIX_PBA :: u32 where "OFF_MSIX_PBA \<equiv> 0x3800"

text \<open>Construction. \<open>None\<close> is a failed assertion, as in the configuration space.\<close>

definition append_virtio_cap :: "u8 \<Rightarrow> u8 \<Rightarrow> u32 \<Rightarrow> u32 \<Rightarrow> u32 \<Rightarrow> pci_config \<Rightarrow> pci_config option" where
  "append_virtio_cap cfg_type bar offset len multiplier c =
     (let cap_len = if multiplier \<noteq> 0 then 20 else 16 :: nat
      in case append_capability 0x09 cap_len c of
           None \<Rightarrow> None
         | Some (c1, off) \<Rightarrow>
             Some (c1\<lparr>cfg := overwrite (cfg c1) (off + 2) ([of_nat cap_len, cfg_type, bar, 0, 0, 0] @ le32 offset @ le32 len @
               (if multiplier \<noteq> 0 then le32 multiplier else []))\<rparr>))"

definition virtio_caps :: "(u8 \<times> u32 \<times> u32 \<times> u32) list" where
  "virtio_caps = [(1, ucast OFF_COMMON, 0x40, 0), (2, ucast OFF_NOTIFY, 0x1000, NOTIFY_MULT), (3, ucast OFF_ISR, 4, 0),
     (4, ucast OFF_DEVICE, 0x100, 0)]"

fun append_virtio_caps :: "(u8 \<times> u32 \<times> u32 \<times> u32) list \<Rightarrow> pci_config \<Rightarrow> pci_config option" where
  "append_virtio_caps [] c = Some c"
| "append_virtio_caps ((ty, off, len, mult) # xs) c =
     (case append_virtio_cap ty 0 off len mult c of None \<Rightarrow> None | Some c1 \<Rightarrow> append_virtio_caps xs c1)"

definition transport_cfg :: "u32 \<Rightarrow> transport_options \<Rightarrow> pci_config option" where
  "transport_cfg devid opts =
     declare_mmio64_bar 0 BAR_SIZE True (set_interrupt_pin 0 (set_class (opt_pci_class opts) (opt_pci_subclass opts) 0 0
       (set_ids (opt_vendor_id opts) (0x1040 + ucast devid) (opt_sub_vendor_id opts)
         (if opt_sub_id opts \<noteq> 0 then opt_sub_id opts else ucast devid) pci_config_new)))"

definition transport_new :: "'d virtio_device \<Rightarrow> 'd \<Rightarrow> transport_options \<Rightarrow> 'd transport option" where
  "transport_new dv d opts =
     (if \<not> 1 \<le> opt_num_msix_vectors opts then None
      else case transport_cfg (device_id dv d) opts of
        None \<Rightarrow> None
      | Some c \<Rightarrow> (case append_virtio_caps virtio_caps c of
        None \<Rightarrow> None
      | Some c1 \<Rightarrow> (case msix_new (ucast (opt_num_msix_vectors opts)) 0 OFF_MSIX_TABLE OFF_MSIX_PBA of
        None \<Rightarrow> None
      | Some m \<Rightarrow> (case add_msix_capability m c1 of
        None \<Rightarrow> None
      | Some (c2, cap_off) \<Rightarrow>
          Some \<lparr>tp_device = d, tp_msix = m, tp_cap_off = cap_off, tp_cfg = c2, tp_common = common_new (unat (queue_count dv d)),
            isr_status = 0, tp_bar_gpa = 0, bar_mapped = False, notify_count = 0\<rparr>))))"

lemma transport_new_state:
  assumes "transport_new dv d opts = Some t"
  shows "tp_device t = d" and "tp_common t = common_new (unat (queue_count dv d))" and "tp_bar_gpa t = 0"
  using assms by (auto simp: transport_new_def split: if_splits option.splits prod.splits)

section \<open>Interrupts of the device\<close>

definition raise_queue_interrupt :: "u32 \<Rightarrow> 'd transport \<Rightarrow> 'd transport \<times> (nat \<times> u64 \<times> u32) list" where
  "raise_queue_interrupt qidx t =
     (let t1 = t\<lparr>isr_status := isr_status t OR ISR_QUEUE_BIT\<rparr>;
          qs = tqueues (tp_common t);
          v = if unat qidx < length qs then tq_vector (qs ! unat qidx) else 0xFFFF
      in if v \<noteq> 0xFFFF then (case trigger (ucast v) (tp_msix t1) of (m, msgs) \<Rightarrow> (t1\<lparr>tp_msix := m\<rparr>, msgs))
         else (t1, []))"

definition raise_config_change_interrupt :: "'d transport \<Rightarrow> 'd transport \<times> (nat \<times> u64 \<times> u32) list" where
  "raise_config_change_interrupt t =
     (let c = tp_common t;
          t1 = t\<lparr>isr_status := isr_status t OR ISR_CONFIG_BIT, tp_common := c\<lparr>config_generation := config_generation c + 1\<rparr>\<rparr>;
          v = msix_config c
      in if v \<noteq> 0xFFFF then (case trigger (ucast v) (tp_msix t1) of (m, msgs) \<Rightarrow> (t1\<lparr>tp_msix := m\<rparr>, msgs))
         else (t1, []))"

section \<open>Common configuration\<close>

definition low_half :: "u64 \<Rightarrow> u32 \<Rightarrow> u64" where
  "low_half old v = (old AND 0xFFFFFFFF00000000) OR ucast v"

definition high_half :: "u64 \<Rightarrow> u32 \<Rightarrow> u64" where
  "high_half old v = (old AND 0x00000000FFFFFFFF) OR push_bit 32 (ucast v)"

definition read_cc32 :: "'d virtio_device \<Rightarrow> 'd transport \<Rightarrow> u32 \<Rightarrow> u32" where
  "read_cc32 dv t off =
     (let c = tp_common t; d = tp_device t; sel = unat (queue_select c); qs = tqueues c
      in if off = CC_DEVICE_FEATURE_SELECT then device_feature_select c
         else if off = CC_DEVICE_FEATURE
         then (let f = device_features dv d
               in if device_feature_select c = 0 then ucast f
                  else if device_feature_select c = 1 then ucast (drop_bit 32 f) else 0)
         else if off = CC_DRIVER_FEATURE_SELECT then driver_feature_select c
         else if off = CC_DRIVER_FEATURE
         then (if driver_feature_select c = 0 then ucast (driver_features c)
               else if driver_feature_select c = 1 then ucast (drop_bit 32 (driver_features c)) else 0)
         else if off = CC_MSIX_CONFIG then ucast (msix_config c) OR push_bit 16 (queue_count dv d)
         else if off = CC_DEVICE_STATUS
         then ucast (status c) OR push_bit 8 (ucast (config_generation c)) OR push_bit 16 (ucast (queue_select c))
         else if off = CC_QUEUE_SIZE
         then (if sel < length qs
               then ucast (if tq_size (qs ! sel) \<noteq> 0 then tq_size (qs ! sel) else ucast (queue_max dv (ucast (queue_select c)) d)) OR
                    push_bit 16 (ucast (tq_vector (qs ! sel)))
               else push_bit 16 0xFFFF)
         else if off = CC_QUEUE_ENABLE
         then ucast (if sel < length qs then tq_enable (qs ! sel) else 0) OR push_bit 16 (ucast (queue_select c))
         else if sel < length qs
         then (if off = CC_QUEUE_DESC then ucast (tq_desc (qs ! sel))
               else if off = CC_QUEUE_DESC + 4 then ucast (drop_bit 32 (tq_desc (qs ! sel)))
               else if off = CC_QUEUE_DRIVER then ucast (tq_driver (qs ! sel))
               else if off = CC_QUEUE_DRIVER + 4 then ucast (drop_bit 32 (tq_driver (qs ! sel)))
               else if off = CC_QUEUE_DEVICE then ucast (tq_device (qs ! sel))
               else if off = CC_QUEUE_DEVICE + 4 then ucast (drop_bit 32 (tq_device (qs ! sel)))
               else 0)
         else 0)"

definition guest_read_cc32 :: "'d virtio_device \<Rightarrow> 'd transport \<Rightarrow> u32 \<Rightarrow> u32" where
  "guest_read_cc32 dv t off =
     (let v = read_cc32 dv t off
      in if off = CC_DEVICE_STATUS \<and> status (tp_common t) = 0 \<and> reset_pending dv (tp_device t)
         then (v AND NOT 0xFF) OR ucast (reset_from (tp_common t)) else v)"

definition apply_status_write :: "'d virtio_device \<Rightarrow> u8 \<Rightarrow> 'd transport \<Rightarrow> 'd transport" where
  "apply_status_write dv new_status t =
     (let c = tp_common t
      in if new_status = 0
         then t\<lparr>tp_common := c\<lparr>reset_from := status c, status := 0, device_feature_select := 0, driver_feature_select := 0,
                  driver_features := 0, msix_config := 0xFFFF, queue_select := 0,
                  tqueues := map (\<lambda>q. tqueue_default) (tqueues c)\<rparr>,
                isr_status := 0, tp_device := device_reset dv (tp_device t)\<rparr>
         else let adding = new_status AND NOT (status c);
                  (d1, refused) = (if adding AND STATUS_FEATURES_OK \<noteq> 0
                                   then (case set_driver_features dv (driver_features c) (tp_device t) of (d', ok) \<Rightarrow> (d', \<not> ok))
                                   else (tp_device t, False));
                  effective = (if refused then (new_status AND NOT STATUS_FEATURES_OK) OR STATUS_NEEDS_RESET else new_status);
                  d2 = (if adding AND STATUS_DRIVER_OK \<noteq> 0 then driver_ok dv d1 else d1)
              in t\<lparr>tp_common := c\<lparr>status := effective\<rparr>, tp_device := d2\<rparr>)"

definition is_power_of_two16 :: "u16 \<Rightarrow> bool" where
  "is_power_of_two16 v \<longleftrightarrow> v \<noteq> 0 \<and> v AND (v - 1) = 0"

definition set_tqueue :: "nat \<Rightarrow> tqueue \<Rightarrow> 'd transport \<Rightarrow> 'd transport" where
  "set_tqueue sel q t = t\<lparr>tp_common := (tp_common t)\<lparr>tqueues := (tqueues (tp_common t))[sel := q]\<rparr>\<rparr>"

definition write_queue_enable :: "'d virtio_device \<Rightarrow> u16 \<Rightarrow> 'd transport \<Rightarrow> 'd transport" where
  "write_queue_enable dv en t =
     (let c = tp_common t; sel = unat (queue_select c); qidx = ucast (queue_select c) :: u32
      in if sel < length (tqueues c)
         then let q = (tqueues c ! sel)\<lparr>tq_enable := en\<rparr>;
                  t1 = set_tqueue sel q t;
                  aligned = (tq_desc q AND 0xF = 0 \<and> tq_driver q AND 1 = 0 \<and> tq_device q AND 3 = 0)
              in if en \<noteq> 0 \<and> tq_size q \<noteq> 0 \<and> aligned
                 then t1\<lparr>tp_device := enable_queue dv qidx (tq_desc q) (tq_driver q) (tq_device q) (tq_size q)
                        (driver_features c AND FEATURE_RING_EVENT_IDX \<noteq> 0) (tp_device t)\<rparr>
                 else if en = 0 then t1\<lparr>tp_device := disable_queue dv qidx (tp_device t)\<rparr>
                 else t1
         else t)"

definition write_cc32 :: "'d virtio_device \<Rightarrow> u32 \<Rightarrow> u32 \<Rightarrow> 'd transport \<Rightarrow> 'd transport" where
  "write_cc32 dv off val t =
     (let c = tp_common t; sel = unat (queue_select c); qs = tqueues c; q = qs ! sel
      in if off = CC_DEVICE_FEATURE_SELECT then t\<lparr>tp_common := c\<lparr>device_feature_select := val\<rparr>\<rparr>
         else if off = CC_DEVICE_FEATURE then t
         else if off = CC_DRIVER_FEATURE_SELECT then t\<lparr>tp_common := c\<lparr>driver_feature_select := val\<rparr>\<rparr>
         else if off = CC_DRIVER_FEATURE
         then (if 1 < driver_feature_select c then t
               else if driver_feature_select c = 0
               then t\<lparr>tp_common := c\<lparr>driver_features := low_half (driver_features c) val\<rparr>\<rparr>
               else t\<lparr>tp_common := c\<lparr>driver_features := high_half (driver_features c) val\<rparr>\<rparr>)
         else if off = CC_MSIX_CONFIG then t\<lparr>tp_common := c\<lparr>msix_config := ucast (val AND 0xFFFF)\<rparr>\<rparr>
         else if off = CC_DEVICE_STATUS
         then (let new_status = ucast (val AND 0xFF);
                   t1 = (if new_status \<noteq> status c then apply_status_write dv new_status t else t)
               in t1\<lparr>tp_common := (tp_common t1)\<lparr>queue_select := ucast (drop_bit 16 val AND 0xFFFF)\<rparr>\<rparr>)
         else if off = CC_QUEUE_SIZE
         then (if sel < length qs
               then let n = ucast (val AND 0xFFFF) :: u16;
                        mx = ucast (queue_max dv (ucast (queue_select c)) (tp_device t)) :: u16;
                        q1 = (if n \<le> mx \<and> is_power_of_two16 n then q\<lparr>tq_size := n\<rparr> else q)
                    in set_tqueue sel (q1\<lparr>tq_vector := ucast (drop_bit 16 val AND 0xFFFF)\<rparr>) t
               else t)
         else if off = CC_QUEUE_ENABLE then write_queue_enable dv (ucast (val AND 0xFFFF)) t
         else if sel < length qs
         then (if off = CC_QUEUE_DESC then set_tqueue sel (q\<lparr>tq_desc := low_half (tq_desc q) val\<rparr>) t
               else if off = CC_QUEUE_DRIVER then set_tqueue sel (q\<lparr>tq_driver := low_half (tq_driver q) val\<rparr>) t
               else if off = CC_QUEUE_DEVICE then set_tqueue sel (q\<lparr>tq_device := low_half (tq_device q) val\<rparr>) t
               else if off = CC_QUEUE_DESC + 4 then set_tqueue sel (q\<lparr>tq_desc := high_half (tq_desc q) val\<rparr>) t
               else if off = CC_QUEUE_DRIVER + 4 then set_tqueue sel (q\<lparr>tq_driver := high_half (tq_driver q) val\<rparr>) t
               else if off = CC_QUEUE_DEVICE + 4 then set_tqueue sel (q\<lparr>tq_device := high_half (tq_device q) val\<rparr>) t
               else t)
         else t)"

text \<open>The first \<open>n\<close> bytes of an access as a dword, and a dword as the data of a read.\<close>

definition access_dword :: "bytes \<Rightarrow> nat \<Rightarrow> u32" where
  "access_dword b n = from_le32 (take n b @ replicate (4 - n) 0)"

definition dword_data :: "u32 \<Rightarrow> nat \<Rightarrow> bytes" where
  "dword_data v n = take n (le32 v) @ replicate (8 - n) 0"

definition common_write :: "'d virtio_device \<Rightarrow> u32 \<Rightarrow> u32 \<Rightarrow> bytes \<Rightarrow> 'd transport \<Rightarrow> 'd transport" where
  "common_write dv off sz b t =
     (if sz = 8 \<and> off AND 0x7 = 0
      then let v = from_le64 b
           in write_cc32 dv (off + 4) (ucast (drop_bit 32 v)) (write_cc32 dv off (ucast v) t)
      else let v = access_dword b (unat (min sz 4));
               aligned = off AND NOT 0x3;
               shift = unat ((off AND 0x3) * 8)
           in if sz < 4
              then let m = (if sz = 1 then 0xFF else if sz = 2 then 0xFFFF else 0xFFFFFFFF) :: u32;
                       cur = (read_cc32 dv t aligned AND NOT (push_bit shift m)) OR push_bit shift (v AND m)
                   in write_cc32 dv aligned cur t
              else write_cc32 dv aligned v t)"

definition common_read :: "'d virtio_device \<Rightarrow> u32 \<Rightarrow> u32 \<Rightarrow> 'd transport \<Rightarrow> bytes" where
  "common_read dv off sz t =
     (if sz = 8 \<and> off AND 0x7 = 0
      then le64 (ucast (guest_read_cc32 dv t off) OR push_bit 32 (ucast (guest_read_cc32 dv t (off + 4))))
      else dword_data (drop_bit (unat ((off AND 0x3) * 8)) (guest_read_cc32 dv t (off AND NOT 0x3))) (unat (min sz 4)))"

definition handle_common_cfg :: "'d virtio_device \<Rightarrow> mmio_access \<Rightarrow> 'd transport \<Rightarrow> 'd transport \<times> mmio_access" where
  "handle_common_cfg dv acc t =
     (let off = ucast (gpa acc - (tp_bar_gpa t + OFF_COMMON)) :: u32;
          sz = ucast (mmio_size acc) :: u32
      in if mmio_is_write acc then (common_write dv off sz (data acc) t, acc)
         else (t, acc\<lparr>data := common_read dv off sz t\<rparr>))"

section \<open>ISR, notify and device configuration\<close>

definition handle_isr :: "mmio_access \<Rightarrow> 'd transport \<Rightarrow> 'd transport \<times> mmio_access" where
  "handle_isr acc t =
     (if mmio_is_write acc then (t, acc)
      else (t\<lparr>isr_status := 0\<rparr>, acc\<lparr>data := dword_data (isr_status t) (min (unat (mmio_size acc)) 4)\<rparr>))"

definition raise_all :: "u32 list \<Rightarrow> 'd transport \<Rightarrow> 'd transport \<times> (nat \<times> u64 \<times> u32) list" where
  "raise_all qs t = fold (\<lambda>q (t1, msgs). case raise_queue_interrupt q t1 of (t2, ms) \<Rightarrow> (t2, msgs @ ms)) qs (t, [])"

definition handle_notify :: "'d virtio_device \<Rightarrow> mmio_access \<Rightarrow> 'd transport \<Rightarrow> ('d transport \<times> mmio_access \<times> (nat \<times> u64 \<times> u32) list) option" where
  "handle_notify dv acc t =
     (if \<not> mmio_is_write acc then Some (t, acc\<lparr>data := replicate 8 0\<rparr>, [])
      else let t1 = t\<lparr>notify_count := notify_count t + 1\<rparr>;
               off = ucast (gpa acc - (tp_bar_gpa t + OFF_NOTIFY)) :: u32;
               qidx = (if mmio_size acc = 2 then ucast (from_le16 (byte_range (data acc) 0 2))
                       else if mmio_size acc = 4 then from_le32 (byte_range (data acc) 0 4)
                       else off div NOTIFY_MULT)
           in case notify_queue dv qidx (tp_device t1) of
                None \<Rightarrow> None
              | Some (d', raised) \<Rightarrow> (case raise_all raised (t1\<lparr>tp_device := d'\<rparr>) of (t2, msgs) \<Rightarrow> Some (t2, acc, msgs)))"

definition handle_device_cfg :: "'d virtio_device \<Rightarrow> mmio_access \<Rightarrow> 'd transport \<Rightarrow> 'd transport \<times> mmio_access" where
  "handle_device_cfg dv acc t =
     (let off = ucast (gpa acc - (tp_bar_gpa t + OFF_DEVICE)) :: u32;
          sz = unat (mmio_size acc);
          n = min sz 4
      in if mmio_is_write acc
         then (if sz = 8
               then (t\<lparr>tp_device := write_config dv (off + 4) 4 (from_le32 (byte_range (data acc) 4 4))
                        (write_config dv off 4 (from_le32 (byte_range (data acc) 0 4)) (tp_device t))\<rparr>, acc)
               else (t\<lparr>tp_device := write_config dv off (of_nat n) (access_dword (data acc) n) (tp_device t)\<rparr>, acc))
         else if sz = 8
         then (t, acc\<lparr>data := le64 (ucast (read_config dv off 4 (tp_device t)) OR
                      push_bit 32 (ucast (read_config dv (off + 4) 4 (tp_device t))))\<rparr>)
         else (t, acc\<lparr>data := dword_data (read_config dv off (of_nat n) (tp_device t)) n\<rparr>))"

section \<open>BAR 0 on the MMIO bus\<close>

text \<open>A handler on the bus is a region of a transport, which a number identifies.\<close>

datatype region = RCommon | RIsr | RNotify | RDevice | RTable | RPba

type_synonym virtio_bus = "(nat \<times> region) mmio_bus"

fun register_all :: "(u64 \<times> u64 \<times> string \<times> nat \<times> region) list \<Rightarrow> virtio_bus \<Rightarrow> virtio_bus option" where
  "register_all [] bus = Some bus"
| "register_all ((base, n, name, h) # rs) bus =
     (case mmio_register bus base n name h of None \<Rightarrow> None | Some (bus', _) \<Rightarrow> register_all rs bus')"

definition msix_ranges :: "nat \<Rightarrow> u64 \<Rightarrow> msix \<Rightarrow> (u64 \<times> u64 \<times> string \<times> nat \<times> region) list" where
  "msix_ranges k bar m =
     [(bar + ucast (table_offset m), ucast (table_bytes m), ''msix-table'', k, RTable),
      (bar + ucast (pba_offset m), ucast (pba_bytes m), ''msix-pba'', k, RPba)]"

text \<open>What the transport claims of its BAR, and for which region.\<close>

definition bar_ranges :: "nat \<Rightarrow> u64 \<Rightarrow> msix \<Rightarrow> (u64 \<times> u64 \<times> string \<times> nat \<times> region) list" where
  "bar_ranges k bar m =
     [(bar + OFF_COMMON, 0x40, ''virtio:common'', k, RCommon), (bar + OFF_ISR, 4, ''virtio:isr'', k, RIsr),
      (bar + OFF_NOTIFY, 0x1000, ''virtio:notify'', k, RNotify), (bar + OFF_DEVICE, 0x100, ''virtio:device-cfg'', k, RDevice)] @
     msix_ranges k bar m"

definition install_bar_handlers :: "nat \<Rightarrow> u64 \<Rightarrow> 'd transport \<times> virtio_bus \<Rightarrow> ('d transport \<times> virtio_bus) option" where
  "install_bar_handlers k bar s = (case s of (t, bus) \<Rightarrow>
     let m = (tp_msix t)\<lparr>bar_base_gpa := bar\<rparr>
     in case register_all (bar_ranges k bar m) bus of
          None \<Rightarrow> None
        | Some bus' \<Rightarrow> Some (t\<lparr>tp_msix := m\<rparr>, bus'))"

definition on_bar_mapped :: "nat \<Rightarrow> u64 \<Rightarrow> 'd transport \<times> virtio_bus \<Rightarrow> ('d transport \<times> virtio_bus) option" where
  "on_bar_mapped k bar s = (case s of (t, bus) \<Rightarrow>
     if 0xE0000000 \<le> bar \<and> unat bar + unat BAR_SIZE < 2 ^ 64 \<and> bar + ucast BAR_SIZE \<le> 0xFEC00000 \<and> is_range_free bus bar (ucast BAR_SIZE)
     then install_bar_handlers k bar (t\<lparr>tp_bar_gpa := bar, bar_mapped := True\<rparr>, bus)
     else Some (t, bus))"

definition on_bar_unmapped :: "'d transport \<times> virtio_bus \<Rightarrow> 'd transport \<times> virtio_bus" where
  "on_bar_unmapped s = (case s of (t, bus) \<Rightarrow>
     if \<not> bar_mapped t then (t, bus)
     else let bar = tp_bar_gpa t; m = tp_msix t; mb = bar_base_gpa m
          in (t\<lparr>bar_mapped := False\<rparr>,
              fold (\<lambda>a b. fst (mmio_unregister b a)) [bar + OFF_COMMON, bar + OFF_ISR, bar + OFF_NOTIFY, bar + OFF_DEVICE,
                mb + ucast (table_offset m), mb + ucast (pba_offset m)] bus))"

fun handle_bar_events :: "nat \<Rightarrow> bar_event list \<Rightarrow> 'd transport \<times> virtio_bus \<Rightarrow> ('d transport \<times> virtio_bus) option" where
  "handle_bar_events k [] s = Some s"
| "handle_bar_events k (Mapped i g n # es) s =
     (if i = 0 then (case on_bar_mapped k g s of None \<Rightarrow> None | Some s' \<Rightarrow> handle_bar_events k es s') else handle_bar_events k es s)"
| "handle_bar_events k (Unmapped i # es) s = handle_bar_events k es (if i = 0 then on_bar_unmapped s else s)"

definition config_write :: "nat \<Rightarrow> nat \<Rightarrow> nat \<Rightarrow> u32 \<Rightarrow> 'd transport \<times> virtio_bus \<Rightarrow> ('d transport \<times> virtio_bus) option" where
  "config_write k off sz val s = (case s of (t, bus) \<Rightarrow>
     case pci_write off sz val (tp_cfg t) of (c, events) \<Rightarrow>
       let mc = cfg_read16 (tp_cap_off t + 2) c
       in handle_bar_events k events (t\<lparr>tp_cfg := c, tp_msix := set_control mc (tp_msix t)\<rparr>, bus))"

text \<open>Teardown, once the doorbell pump has been joined: every queue is marked not ready.\<close>

definition transport_stop :: "'d virtio_device \<Rightarrow> 'd transport \<Rightarrow> 'd transport" where
  "transport_stop dv t = t\<lparr>tp_device := fold (\<lambda>q. disable_queue dv (of_nat q)) [0..<unat (queue_count dv (tp_device t))] (tp_device t)\<rparr>"

section \<open>What the guest can do to a device\<close>

text \<open>
  The accesses that reach a transport. The MMIO bus routes an access to a region; \<open>None\<close> is a panic.
\<close>

datatype guest_op = AccCommon mmio_access | AccIsr mmio_access | AccNotify mmio_access | AccDevice mmio_access | AccTable mmio_access

fun transport_op :: "'d virtio_device \<Rightarrow> guest_op \<Rightarrow> 'd transport \<Rightarrow> 'd transport option" where
  "transport_op dv (AccCommon a) t = Some (fst (handle_common_cfg dv a t))"
| "transport_op dv (AccIsr a) t = Some (fst (handle_isr a t))"
| "transport_op dv (AccNotify a) t = map_option fst (handle_notify dv a t)"
| "transport_op dv (AccDevice a) t = Some (fst (handle_device_cfg dv a t))"
| "transport_op dv (AccTable a) t = Some (t\<lparr>tp_msix := fst (handle_table a (tp_msix t))\<rparr>)"

fun transport_run :: "'d virtio_device \<Rightarrow> guest_op list \<Rightarrow> 'd transport \<Rightarrow> 'd transport option" where
  "transport_run dv [] t = Some t"
| "transport_run dv (x # xs) t = (case transport_op dv x t of None \<Rightarrow> None | Some t' \<Rightarrow> transport_run dv xs t')"

text \<open>
  What the transport promises a device: a queue is only enabled with addresses aligned as its ring
  accesses need, and with a power-of-two size of at most the maximum the device named.
\<close>

definition enable_ok :: "(u32 \<Rightarrow> u32) \<Rightarrow> u32 \<Rightarrow> u64 \<Rightarrow> u64 \<Rightarrow> u64 \<Rightarrow> u16 \<Rightarrow> bool" where
  "enable_ok mx q da aa ua n \<longleftrightarrow> da AND 0xF = 0 \<and> aa AND 1 = 0 \<and> ua AND 3 = 0 \<and> is_power_of_two16 n \<and> n \<le> ucast (mx q)"

locale virtio_contract =
  fixes dv :: "'d virtio_device" and good :: "'d \<Rightarrow> bool" and mx :: "u32 \<Rightarrow> u32"
  assumes max_fixed: "good d \<Longrightarrow> queue_max dv q d = mx q"
    and good_features: "good d \<Longrightarrow> good (fst (set_driver_features dv f d))"
    and good_enable: "good d \<Longrightarrow> enable_ok mx q da aa ua n \<Longrightarrow> good (enable_queue dv q da aa ua n ev d)"
    and good_disable: "good d \<Longrightarrow> good (disable_queue dv q d)"
    and good_notify: "good d \<Longrightarrow> case notify_queue dv q d of None \<Rightarrow> False | Some (d', raised) \<Rightarrow> good d'"
    and good_driver_ok: "good d \<Longrightarrow> good (driver_ok dv d)"
    and good_reset: "good d \<Longrightarrow> good (device_reset dv d)"
    and good_write_config: "good d \<Longrightarrow> good (write_config dv off sz v d)"
begin

definition sizes_ok :: "common \<Rightarrow> bool" where
  "sizes_ok c \<longleftrightarrow> (\<forall>i < length (tqueues c). i < 2 ^ 16 \<longrightarrow> tq_size (tqueues c ! i) = 0 \<or>
     is_power_of_two16 (tq_size (tqueues c ! i)) \<and> tq_size (tqueues c ! i) \<le> ucast (mx (of_nat i)))"

definition safe :: "'d transport \<Rightarrow> bool" where
  "safe t \<longleftrightarrow> good (tp_device t) \<and> sizes_ok (tp_common t)"

lemma safe_simps:
  "safe (t\<lparr>tp_msix := m\<rparr>) = safe t" "safe (t\<lparr>isr_status := x\<rparr>) = safe t" "safe (t\<lparr>notify_count := y\<rparr>) = safe t"
  "sizes_ok (c\<lparr>device_feature_select := a\<rparr>) = sizes_ok c" "sizes_ok (c\<lparr>driver_feature_select := a\<rparr>) = sizes_ok c"
  "sizes_ok (c\<lparr>driver_features := f\<rparr>) = sizes_ok c" "sizes_ok (c\<lparr>msix_config := w\<rparr>) = sizes_ok c"
  "sizes_ok (c\<lparr>status := b\<rparr>) = sizes_ok c" "sizes_ok (c\<lparr>queue_select := w\<rparr>) = sizes_ok c"
  "sizes_ok (c\<lparr>config_generation := b\<rparr>) = sizes_ok c"
  by (simp_all add: safe_def sizes_ok_def)

lemma sel_index: "(of_nat (unat (w :: u16)) :: u32) = ucast w" "unat w < 2 ^ 16"
  using unat_lt [of w] by simp_all

lemma sizes_ok_set:
  assumes "sizes_ok c" and "unat (queue_select c) < length (tqueues c)"
    and "tq_size q = tq_size (tqueues c ! unat (queue_select c)) \<or>
      is_power_of_two16 (tq_size q) \<and> tq_size q \<le> ucast (mx (ucast (queue_select c)))"
  shows "sizes_ok (c\<lparr>tqueues := (tqueues c)[unat (queue_select c) := q]\<rparr>)"
  using assms sel_index [of "queue_select c"] by (auto simp: sizes_ok_def nth_list_update)

lemma safe_status: "safe t \<Longrightarrow> safe (apply_status_write dv s t)"
proof -
  assume t: "safe t"
  have "sizes_ok (c\<lparr>reset_from := a, status := 0, device_feature_select := 0, driver_feature_select := 0,
      driver_features := 0, msix_config := 0xFFFF, queue_select := 0, tqueues := map (\<lambda>q. tqueue_default) (tqueues c)\<rparr>)" for c a
    by (simp add: sizes_ok_def tqueue_default_def)
  moreover obtain d' ok where d': "set_driver_features dv (driver_features (tp_common t)) (tp_device t) = (d', ok)"
    by (metis surj_pair)
  moreover have "good d'" using good_features [of "tp_device t" "driver_features (tp_common t)"] t d' by (simp add: safe_def)
  ultimately show ?thesis using t good_reset good_driver_ok
    by (auto simp: safe_def apply_status_write_def safe_simps Let_def)
qed

lemma safe_enable: "safe t \<Longrightarrow> safe (write_queue_enable dv en t)"
proof -
  assume t: "safe t"
  let ?c = "tp_common t"
  let ?sel = "unat (queue_select ?c)"
  let ?q = "(tqueues ?c ! ?sel)\<lparr>tq_enable := en\<rparr>"
  show ?thesis
  proof (cases "?sel < length (tqueues ?c)")
    case True
    have c: "sizes_ok (?c\<lparr>tqueues := (tqueues ?c)[?sel := ?q]\<rparr>)"
      using t True by (intro sizes_ok_set) (auto simp: safe_def)
    have n: "tq_size ?q = 0 \<or> is_power_of_two16 (tq_size ?q) \<and> tq_size ?q \<le> ucast (mx (ucast (queue_select ?c)))"
      using t True sel_index [of "queue_select ?c"] unfolding safe_def sizes_ok_def by fastforce
    show ?thesis
      using t True c n good_enable [of "tp_device t" "ucast (queue_select ?c)"] good_disable [of "tp_device t"]
      unfolding write_queue_enable_def Let_def
      by (auto simp: safe_def set_tqueue_def enable_ok_def)
  next
    case False
    with t show ?thesis by (simp add: write_queue_enable_def Let_def)
  qed
qed

lemma safe_write_cc32: "safe t \<Longrightarrow> safe (write_cc32 dv off val t)"
proof -
  assume t: "safe t"
  let ?c = "tp_common t"
  let ?sel = "unat (queue_select ?c)"
  have set_q: "safe (set_tqueue ?sel q t)" if "?sel < length (tqueues ?c)" and
      "tq_size q = tq_size (tqueues ?c ! ?sel) \<or> is_power_of_two16 (tq_size q) \<and> tq_size q \<le> ucast (mx (ucast (queue_select ?c)))" for q
    using t that sizes_ok_set [of ?c q] by (simp add: safe_def set_tqueue_def)
  have sel: "safe (t1\<lparr>tp_common := (tp_common t1)\<lparr>queue_select := w\<rparr>\<rparr>)" if "safe t1" for t1 :: "'d transport" and w
    using that by (simp add: safe_def safe_simps)
  have mx: "queue_max dv q (tp_device t) = mx q" for q using t max_fixed by (simp add: safe_def)
  have common: "safe (t\<lparr>tp_common := c\<rparr>)" if "sizes_ok c" for c using t that by (simp add: safe_def)
  have c: "sizes_ok ?c" using t by (simp add: safe_def)
  show ?thesis
    unfolding write_cc32_def Let_def mx
    by (simp add: t c common safe_simps sel safe_status safe_enable set_q)
qed

lemma safe_common: "safe t \<Longrightarrow> safe (fst (handle_common_cfg dv acc t))"
  by (simp add: handle_common_cfg_def common_write_def Let_def safe_write_cc32)

lemma safe_raise: "safe t \<Longrightarrow> safe (fst (raise_queue_interrupt q t))"
  by (simp add: raise_queue_interrupt_def Let_def safe_simps split: prod.split)

lemma safe_raise_all: "safe t \<Longrightarrow> safe (fst (raise_all qs t))"
proof -
  have "safe (fst s) \<Longrightarrow> safe (fst (fold (\<lambda>q (t1, msgs). case raise_queue_interrupt q t1 of (t2, ms) \<Rightarrow> (t2, msgs @ ms)) qs s))"
    for s :: "'d transport \<times> (nat \<times> u64 \<times> u32) list"
    using safe_raise by (induction qs arbitrary: s) (auto split: prod.splits, metis fst_conv)
  then show "safe t \<Longrightarrow> safe (fst (raise_all qs t))" by (simp add: raise_all_def)
qed

lemma safe_op:
  assumes "safe t"
  shows "case transport_op dv x t of None \<Rightarrow> False | Some t' \<Rightarrow> safe t'"
proof (cases x)
  case (AccNotify a)
  have n: "case notify_queue dv q (tp_device t) of None \<Rightarrow> False | Some (d', raised) \<Rightarrow> good d'" for q
    using assms good_notify by (simp add: safe_def)
  have d: "safe (t\<lparr>notify_count := y, tp_device := d'\<rparr>)" if "good d'" for d' y using assms that by (simp add: safe_def)
  show ?thesis
  proof (cases "mmio_is_write a")
    case True
    define qidx where "qidx = (if mmio_size a = 2 then ucast (from_le16 (byte_range (data a) 0 2))
      else if mmio_size a = 4 then from_le32 (byte_range (data a) 0 4)
      else ucast (gpa a - (tp_bar_gpa t + OFF_NOTIFY)) div NOTIFY_MULT :: u32)"
    from n [of qidx] obtain d' raised where r: "notify_queue dv qidx (tp_device t) = Some (d', raised)" "good d'"
      by (auto split: option.splits)
    have "safe (fst (raise_all raised (t\<lparr>notify_count := notify_count t + 1, tp_device := d'\<rparr>)))"
      by (intro safe_raise_all d r)
    then show ?thesis using True r(1)
      by (auto simp: AccNotify handle_notify_def qidx_def Let_def split: prod.splits)
  next
    case False
    with assms show ?thesis by (simp add: AccNotify handle_notify_def)
  qed
next
  case (AccDevice a)
  then show ?thesis using assms good_write_config by (simp add: handle_device_cfg_def safe_def Let_def)
qed (use assms in \<open>simp_all add: safe_common handle_isr_def safe_simps\<close>)

lemma safe_run:
  assumes "safe t"
  shows "case transport_run dv xs t of None \<Rightarrow> False | Some t' \<Rightarrow> safe t'"
  using assms
proof (induction xs arbitrary: t)
  case (Cons x xs)
  obtain t' where t': "transport_op dv x t = Some t'" "safe t'"
    using safe_op [OF Cons.prems, of x] by (auto split: option.splits)
  then show ?case using Cons.IH [OF t'(2)] by simp
qed simp

end

section \<open>How a driver finds the registers\<close>

text \<open>\<open>cap_frame c xs c'\<close>: of the capability area of \<open>c\<close> only the links of the capabilities \<open>xs\<close> changed.\<close>

definition cap_frame :: "pci_config \<Rightarrow> (nat \<times> u8) list \<Rightarrow> pci_config \<Rightarrow> bool" where
  "cap_frame c xs c' \<longleftrightarrow> cap_next_alloc c \<le> cap_next_alloc c' \<and>
     (\<forall>i. CAP_LIST_START \<le> i \<longrightarrow> i < cap_next_alloc c \<longrightarrow> i \<notin> (\<lambda>x. fst x + 1) ` set xs \<longrightarrow> cfg c' ! i = cfg c ! i)"

lemma append_capability_frame:
  assumes "cap_list c xs" and "2 \<le> n" and "cap_next_alloc c + n \<le> CFG_SPACE_SIZE"
    and "append_capability cap_id n c = Some (c', off)"
  shows "cap_frame c xs c'"
proof -
  have len: "length (cfg c) = 256" "CAP_LIST_START \<le> cap_next_alloc c" using assms(1) by (simp_all add: cap_list_def)
  show ?thesis
  proof (cases "xs = []")
    case True
    then have "cfg c ! CFG_CAP_PTR = 0" using assms(1) by (simp add: cap_list_def unat_eq_zero)
    moreover define v where "v = cfg_read16 CFG_STATUS (c\<lparr>cfg := (cfg c)[CFG_CAP_PTR := of_nat (cap_next_alloc c)]\<rparr>) OR STATUS_CAP_LIST"
    ultimately have "cfg c' = (cfg c)[CFG_CAP_PTR := of_nat off, 6 := ucast (v AND 0xFF), 7 := ucast (drop_bit 8 v), off := cap_id, off + 1 := 0]"
        "off = cap_next_alloc c" "cap_next_alloc c' = off + n"
      using assms(2-4) by (auto simp: append_capability_def cfg_put16_def Let_def)
    then show ?thesis using len by (auto simp: cap_frame_def)
  next
    case False
    have lk: "linked (cfg c) (unat (cfg c ! CFG_CAP_PTR)) xs" using assms(1) by (simp add: cap_list_def)
    moreover have in_range: "\<forall>x \<in> set xs. 0 < fst x \<and> fst x + 2 \<le> length (cfg c)"
      using assms(1) len by (auto simp: cap_list_def)
    ultimately have last: "cap_last 256 (cfg c) (unat (cfg c ! CFG_CAP_PTR)) = Some (fst (last xs))"
      using cap_list_length [OF assms(1)] False by (intro linked_last) auto
    have ptr: "cfg c ! CFG_CAP_PTR \<noteq> 0"
      using lk in_range False by (cases xs) auto
    have "fst (last xs) + 1 \<in> (\<lambda>x. fst x + 1) ` set xs" using False by auto
    moreover have "cfg c' = (cfg c)[fst (last xs) + 1 := of_nat off, off := cap_id, off + 1 := 0]"
        "off = cap_next_alloc c" "cap_next_alloc c' = off + n"
      using assms(2-4) last ptr by (auto simp: append_capability_def Let_def)
    ultimately show ?thesis using len by (auto simp: cap_frame_def intro!: nth_list_update_neq)
  qed
qed

lemma cap_list_payload:
  assumes "cap_list c xs" and "CAP_LIST_START \<le> off" and "off + length bs \<le> cap_next_alloc c" and "cap_next_alloc c \<le> 256"
    and "\<forall>x \<in> set xs. fst x + 2 \<le> off \<or> off + length bs \<le> fst x"
  shows "cap_list (c\<lparr>cfg := overwrite (cfg c) off bs\<rparr>) xs"
proof -
  have len: "length (cfg c) = 256" using assms(1) by (simp add: cap_list_def)
  have same: "overwrite (cfg c) off bs ! i = cfg c ! i" if "i < off \<or> off + length bs \<le> i" "i < 256" for i
    using that assms(3,4) len by (subst nth_overwrite) auto
  have "\<forall>x \<in> set xs. overwrite (cfg c) off bs ! fst x = cfg c ! fst x \<and> overwrite (cfg c) off bs ! (fst x + 1) = cfg c ! (fst x + 1)"
    using assms(1,5) by (auto simp: cap_list_def intro!: same)
  from linked_cong [OF this] show ?thesis
    using assms same [of CFG_CAP_PTR] same [of CFG_STATUS] len by (simp add: cap_list_def length_overwrite)
qed

lemma cap_with_payload:
  assumes "cap_list c xs" and "length bs + 2 \<le> n" and "cap_next_alloc c + n \<le> CFG_SPACE_SIZE"
  shows "\<exists>c1. append_capability cap_id n c = Some (c1, cap_next_alloc c) \<and>
    (let c2 = c1\<lparr>cfg := overwrite (cfg c1) (cap_next_alloc c + 2) bs\<rparr> in
      cap_next_alloc c2 = cap_next_alloc c + n \<and> cap_list c2 (xs @ [(cap_next_alloc c, cap_id)]) \<and> cap_frame c xs c2 \<and>
      byte_range (cfg c2) (cap_next_alloc c + 2) (length bs) = bs)"
proof -
  let ?off = "cap_next_alloc c"
  have n: "2 \<le> n" using assms(2) by simp
  obtain c1 where c1: "append_capability cap_id n c = Some (c1, ?off)" "cap_next_alloc c1 = ?off + n"
      "cap_list c1 (xs @ [(?off, cap_id)])"
    using cap_list_append [OF assms(1) n assms(3), of cap_id] by (auto split: option.splits)
  have wf: "length (cfg c1) = 256" "CAP_LIST_START \<le> ?off" "\<forall>x \<in> set xs. fst x + 2 \<le> ?off"
    using c1(3) assms(1) by (auto simp: cap_list_def)
  have "cap_list (c1\<lparr>cfg := overwrite (cfg c1) (?off + 2) bs\<rparr>) (xs @ [(?off, cap_id)])"
    using c1 wf assms(2,3) by (intro cap_list_payload) auto
  moreover have "cap_frame c xs (c1\<lparr>cfg := overwrite (cfg c1) (?off + 2) bs\<rparr>)"
    using append_capability_frame [OF assms(1) n assms(3) c1(1)] wf assms(2,3)
    by (auto simp: cap_frame_def nth_overwrite)
  ultimately show ?thesis
    using c1 wf assms(2,3) by (auto simp: Let_def byte_range_overwrite_same)
qed

lemma cap_frame_range:
  assumes "cap_frame c xs c'" and "length (cfg c) = 256" and "length (cfg c') = 256" and "cap_next_alloc c \<le> 256"
    and "CAP_LIST_START \<le> a" and "a + n \<le> cap_next_alloc c"
    and "\<forall>x \<in> set xs. fst x + 1 < a \<or> a + n \<le> fst x + 1"
  shows "byte_range (cfg c') a n = byte_range (cfg c) a n"
proof (intro nth_equalityI)
  fix i
  assume "i < length (byte_range (cfg c') a n)"
  then have i: "i < n" by simp
  then have "a + i \<notin> (\<lambda>x. fst x + 1) ` set xs" using assms(7) by force
  with i assms show "byte_range (cfg c') a n ! i = byte_range (cfg c) a n ! i"
    by (auto simp: nth_byte_range cap_frame_def)
qed (use assms in simp)

lemma transport_cfg_ok:
  "\<exists>c. transport_cfg devid opts = Some c \<and> cap_list c [] \<and> cap_next_alloc c = 0x40"
  by (simp add: transport_cfg_def declare_mmio64_bar_def set_interrupt_pin_def set_class_def set_ids_def cfg_put16_def
      pci_config_new_def bar_default_def is_pow2_def cap_list_def Let_def)

definition virtio_cap_payload :: "u8 \<Rightarrow> u32 \<Rightarrow> u32 \<Rightarrow> u32 \<Rightarrow> bytes" where
  "virtio_cap_payload ty off len mult = [if mult \<noteq> 0 then 20 else 16, ty, 0, 0, 0, 0] @ le32 off @ le32 len @ (if mult \<noteq> 0 then le32 mult else [])"

text \<open>Capabilities with their payloads: \<open>caps_ok c es\<close> says that the list of \<open>c\<close> is \<open>es\<close>, each as position, id and payload.\<close>

definition caps_ok :: "pci_config \<Rightarrow> (nat \<times> u8 \<times> bytes) list \<Rightarrow> bool" where
  "caps_ok c es \<longleftrightarrow> cap_list c (map (\<lambda>(p, i, bs). (p, i)) es) \<and> cap_next_alloc c \<le> 256 \<and>
     sorted_wrt (\<lambda>(p, i, bs) (p', i', bs'). p + 2 + length bs \<le> p') es \<and>
     (\<forall>(p, i, bs) \<in> set es. CAP_LIST_START \<le> p \<and> p + 2 + length bs \<le> cap_next_alloc c \<and> byte_range (cfg c) (p + 2) (length bs) = bs)"

lemma sorted_wrt_cases: "sorted_wrt R xs \<Longrightarrow> x \<in> set xs \<Longrightarrow> y \<in> set xs \<Longrightarrow> x = y \<or> R x y \<or> R y x"
  by (induction xs) auto

lemma caps_ok_append:
  assumes "caps_ok c es" and "length bs + 2 \<le> n" and "cap_next_alloc c + n \<le> CFG_SPACE_SIZE"
  shows "\<exists>c1. append_capability cap_id n c = Some (c1, cap_next_alloc c) \<and>
    (let c2 = c1\<lparr>cfg := overwrite (cfg c1) (cap_next_alloc c + 2) bs\<rparr>
     in cap_next_alloc c2 = cap_next_alloc c + n \<and> caps_ok c2 (es @ [(cap_next_alloc c, cap_id, bs)]))"
proof -
  let ?xs = "map (\<lambda>(p, i, bs). (p, i)) es" and ?off = "cap_next_alloc c"
  have l: "cap_list c ?xs" and start: "CAP_LIST_START \<le> ?off" using assms(1) by (simp_all add: caps_ok_def cap_list_def)
  obtain c1 where c1: "append_capability cap_id n c = Some (c1, ?off)"
    and c2: "let c2 = c1\<lparr>cfg := overwrite (cfg c1) (?off + 2) bs\<rparr> in cap_next_alloc c2 = ?off + n \<and>
      cap_list c2 (?xs @ [(?off, cap_id)]) \<and> cap_frame c ?xs c2 \<and> byte_range (cfg c2) (?off + 2) (length bs) = bs"
    using cap_with_payload [OF l assms(2,3)] by blast
  define c2 where "c2 = c1\<lparr>cfg := overwrite (cfg c1) (?off + 2) bs\<rparr>"
  note c2 = c2 [unfolded Let_def, folded c2_def]
  have "byte_range (cfg c2) (p + 2) (length b) = b" if e: "(p, i, b) \<in> set es" for p i b
  proof -
    have "\<forall>x \<in> set ?xs. fst x + 1 < p + 2 \<or> p + 2 + length b \<le> fst x + 1"
    proof
      fix x assume "x \<in> set ?xs"
      then obtain p' i' b' where "(p', i', b') \<in> set es" "x = (p', i')" by auto
      with e show "fst x + 1 < p + 2 \<or> p + 2 + length b \<le> fst x + 1"
        using sorted_wrt_cases [of _ es "(p, i, b)" "(p', i', b')"] assms(1) by (fastforce simp: caps_ok_def)
    qed
    with e show ?thesis using assms(1) c2 l
      by (subst cap_frame_range [of c ?xs]) (auto simp: caps_ok_def cap_list_def)
  qed
  with assms c2 start have "caps_ok c2 (es @ [(?off, cap_id, bs)])"
    by (fastforce simp: caps_ok_def sorted_wrt_append)
  with c1 c2 show ?thesis by (simp add: Let_def c2_def)
qed

lemma append_virtio_cap_ok:
  assumes "caps_ok c es" and "cap_next_alloc c + (if mult \<noteq> 0 then 20 else 16) \<le> 256"
  shows "\<exists>c'. append_virtio_cap ty 0 off len mult c = Some c' \<and> cap_next_alloc c' = cap_next_alloc c + (if mult \<noteq> 0 then 20 else 16) \<and>
    caps_ok c' (es @ [(cap_next_alloc c, 9, virtio_cap_payload ty off len mult)])"
proof -
  let ?n = "if mult \<noteq> 0 then 20 else 16 :: nat" and ?bs = "virtio_cap_payload ty off len mult"
  have "length ?bs + 2 \<le> ?n" by (simp add: virtio_cap_payload_def)
  from caps_ok_append [OF assms(1) this] assms(2) obtain c1 where
    c1: "append_capability 9 ?n c = Some (c1, cap_next_alloc c)" and
    c2: "let c2 = c1\<lparr>cfg := overwrite (cfg c1) (cap_next_alloc c + 2) ?bs\<rparr> in cap_next_alloc c2 = cap_next_alloc c + ?n \<and>
      caps_ok c2 (es @ [(cap_next_alloc c, 9, ?bs)])"
    by (auto simp del: if_split)
  have "append_virtio_cap ty 0 off len mult c = Some (c1\<lparr>cfg := overwrite (cfg c1) (cap_next_alloc c + 2) ?bs\<rparr>)"
    unfolding append_virtio_cap_def Let_def c1 by (simp add: virtio_cap_payload_def)
  with c2 show ?thesis unfolding Let_def by blast
qed

text \<open>What a driver reads of a virtio capability: its type, its BAR, and the offset and length of the registers.\<close>

definition virtio_cap_read :: "pci_config \<Rightarrow> nat \<Rightarrow> u8 \<times> u8 \<times> u32 \<times> u32" where
  "virtio_cap_read c p = (cfg c ! (p + 3), cfg c ! (p + 4), le_decode (byte_range (cfg c) (p + 8) 4), le_decode (byte_range (cfg c) (p + 12) 4))"

lemma virtio_cap_read_payload:
  assumes "byte_range (cfg c) (p + 2) (length (virtio_cap_payload ty off len mult)) = virtio_cap_payload ty off len mult"
    and "length (cfg c) = 256" and "p + 20 \<le> 256"
  shows "virtio_cap_read c p = (ty, 0, off, len)"
proof -
  let ?bs = "virtio_cap_payload ty off len mult"
  have len: "14 \<le> length ?bs" by (simp add: virtio_cap_payload_def)
  have nth: "cfg c ! (p + 2 + i) = ?bs ! i" if "i < length ?bs" for i
    using arg_cong [OF assms(1), of "\<lambda>xs. xs ! i"] that assms(2,3) by (simp add: nth_byte_range virtio_cap_payload_def split: if_splits)
  have sub: "byte_range (cfg c) (p + 2 + i) 4 = byte_range ?bs i 4" if "i + 4 \<le> length ?bs" for i
    using that assms(2,3) nth [of "i + _"]
    by (intro nth_equalityI) (auto simp: nth_byte_range virtio_cap_payload_def add.assoc split: if_splits)
  have "byte_range ?bs 6 4 = le32 off" "byte_range ?bs 10 4 = le32 len" "?bs ! 1 = ty" "?bs ! 2 = 0"
    by (simp_all add: virtio_cap_payload_def slice_simps)
  moreover have "p + 3 = p + 2 + 1" "p + 4 = p + 2 + 2" "p + 8 = p + 2 + 6" "p + 12 = p + 2 + 10" by simp_all
  ultimately show ?thesis using nth [of 1] nth [of 2] sub [of 6] sub [of 10] len
    unfolding virtio_cap_read_def by (simp only:) simp
qed

lemma append_virtio_caps_ok:
  assumes "caps_ok c []" and "cap_next_alloc c = 0x40"
  shows "\<exists>c'. append_virtio_caps virtio_caps c = Some c' \<and> cap_next_alloc c' = 0x84 \<and> caps_ok c'
    [(0x40, 9, virtio_cap_payload 1 (ucast OFF_COMMON) 0x40 0), (0x50, 9, virtio_cap_payload 2 (ucast OFF_NOTIFY) 0x1000 NOTIFY_MULT),
     (0x64, 9, virtio_cap_payload 3 (ucast OFF_ISR) 4 0), (0x74, 9, virtio_cap_payload 4 (ucast OFF_DEVICE) 0x100 0)]"
proof -
  obtain c1 where c1: "append_virtio_cap 1 0 (ucast OFF_COMMON) 0x40 0 c = Some c1" "cap_next_alloc c1 = 0x50"
      "caps_ok c1 [(0x40, 9, virtio_cap_payload 1 (ucast OFF_COMMON) 0x40 0)]"
    using append_virtio_cap_ok [OF assms(1), where mult = 0 and ty = 1 and off = "ucast OFF_COMMON" and len = "0x40"] assms(2) by auto
  obtain c2 where c2: "append_virtio_cap 2 0 (ucast OFF_NOTIFY) 0x1000 NOTIFY_MULT c1 = Some c2" "cap_next_alloc c2 = 0x64"
      "caps_ok c2 [(0x40, 9, virtio_cap_payload 1 (ucast OFF_COMMON) 0x40 0), (0x50, 9, virtio_cap_payload 2 (ucast OFF_NOTIFY) 0x1000 NOTIFY_MULT)]"
    using append_virtio_cap_ok [OF c1(3), where mult = NOTIFY_MULT and ty = 2 and off = "ucast OFF_NOTIFY" and len = "0x1000"] c1(2) by auto
  obtain c3 where c3: "append_virtio_cap 3 0 (ucast OFF_ISR) 4 0 c2 = Some c3" "cap_next_alloc c3 = 0x74"
      "caps_ok c3 [(0x40, 9, virtio_cap_payload 1 (ucast OFF_COMMON) 0x40 0), (0x50, 9, virtio_cap_payload 2 (ucast OFF_NOTIFY) 0x1000 NOTIFY_MULT),
        (0x64, 9, virtio_cap_payload 3 (ucast OFF_ISR) 4 0)]"
    using append_virtio_cap_ok [OF c2(3), where mult = 0 and ty = 3 and off = "ucast OFF_ISR" and len = 4] c2(2) by auto
  show ?thesis
    using append_virtio_cap_ok [OF c3(3), where mult = 0 and ty = 4 and off = "ucast OFF_DEVICE" and len = "0x100"] c1(1) c2(1) c3(1,2)
    by (auto simp: virtio_caps_def)
qed

lemma add_msix_capability_ok:
  assumes "caps_ok c es" and "cap_next_alloc c + 12 \<le> 256"
  shows "\<exists>c' bs. add_msix_capability m c = Some (c', cap_next_alloc c) \<and> caps_ok c' (es @ [(cap_next_alloc c, 0x11, bs)])"
proof -
  define mc where "mc = (ucast (num_vectors m - 1) :: u16)"
  define bs where "bs = [ucast (mc AND 0xFF), ucast (drop_bit 8 mc AND 0x07)] @
    le32 ((table_offset m AND NOT 0x7) OR (ucast (bar_idx m) AND 0x7)) @ le32 ((pba_offset m AND NOT 0x7) OR (ucast (bar_idx m) AND 0x7))"
  have w: "caps_ok (set_writable_byte i x c') es' = caps_ok c' es'" for i x c' es'
    by (simp add: caps_ok_def cap_list_def set_writable_byte_def)
  have "length bs + 2 \<le> 12" by (simp add: bs_def)
  from caps_ok_append [OF assms(1) this] assms(2) obtain c1 where
    c1: "append_capability 0x11 12 c = Some (c1, cap_next_alloc c)"
      "caps_ok (c1\<lparr>cfg := overwrite (cfg c1) (cap_next_alloc c + 2) bs\<rparr>) (es @ [(cap_next_alloc c, 0x11, bs)])"
    by (auto simp: Let_def)
  have "add_msix_capability m c = Some (set_writable_byte (cap_next_alloc c + 3) 0xC0 (c1\<lparr>cfg := overwrite (cfg c1) (cap_next_alloc c + 2) bs\<rparr>), cap_next_alloc c)"
    by (simp add: add_msix_capability_def c1(1) bs_def mc_def Let_def)
  with c1(2) show ?thesis by (auto simp: w)
qed

lemma transport_new_total:
  assumes "1 \<le> opt_num_msix_vectors opts" and "opt_num_msix_vectors opts \<le> 2048"
  shows "\<exists>t. transport_new dv d opts = Some t \<and> tp_cap_off t = 0x84 \<and> length (cfg (tp_cfg t)) = 256 \<and>
    cap_walk 256 (cfg (tp_cfg t)) (unat (cfg (tp_cfg t) ! CFG_CAP_PTR)) =
      Some [(0x40, 0x09), (0x50, 0x09), (0x64, 0x09), (0x74, 0x09), (tp_cap_off t, 0x11)] \<and>
    map (virtio_cap_read (tp_cfg t)) [0x40, 0x50, 0x64, 0x74] =
      [(1, 0, ucast OFF_COMMON, 0x40), (2, 0, ucast OFF_NOTIFY, 0x1000), (3, 0, ucast OFF_ISR, 4), (4, 0, ucast OFF_DEVICE, 0x100)]"
proof -
  obtain c0 where c0: "transport_cfg (device_id dv d) opts = Some c0" "caps_ok c0 []" "cap_next_alloc c0 = 0x40"
    using transport_cfg_ok [of "device_id dv d" opts] by (auto simp: caps_ok_def)
  let ?es = "[(0x40, 9, virtio_cap_payload 1 (ucast OFF_COMMON) 0x40 0), (0x50, 9, virtio_cap_payload 2 (ucast OFF_NOTIFY) 0x1000 NOTIFY_MULT),
    (0x64, 9, virtio_cap_payload 3 (ucast OFF_ISR) 4 0), (0x74, 9, virtio_cap_payload 4 (ucast OFF_DEVICE) 0x100 0)]"
  obtain c1 where c1: "append_virtio_caps virtio_caps c0 = Some c1" "caps_ok c1 ?es" "cap_next_alloc c1 = 0x84"
    using append_virtio_caps_ok [OF c0(2,3)] by blast
  obtain m where m: "msix_new (ucast (opt_num_msix_vectors opts)) 0 OFF_MSIX_TABLE OFF_MSIX_PBA = Some m"
    using assms by (auto simp: msix_new_def word_le_nat_alt unat_ucast_up)
  obtain c2 bs where c2: "add_msix_capability m c1 = Some (c2, 0x84)" "caps_ok c2 (?es @ [(0x84, 0x11, bs)])"
    using add_msix_capability_ok [OF c1(2), of m] c1(3) by auto
  have wf: "length (cfg c2) = 256" "cap_list c2 [(0x40, 9), (0x50, 9), (0x64, 9), (0x74, 9), (0x84, 0x11)]"
    using c2(2) by (simp_all add: caps_ok_def cap_list_def)
  then have "cap_walk 256 (cfg c2) (unat (cfg c2 ! CFG_CAP_PTR)) = Some [(0x40, 9), (0x50, 9), (0x64, 9), (0x74, 9), (0x84, 0x11)]"
    by (intro linked_walk) (auto simp: cap_list_def)
  moreover have pay: "\<forall>(p, i, bs) \<in> set ?es. byte_range (cfg c2) (p + 2) (length bs) = bs \<and> p + 20 \<le> 256"
    using c2(2) by (simp add: caps_ok_def)
  have "virtio_cap_read c2 p = (ty, 0, off, len)" if "(p, 9, virtio_cap_payload ty off len mult) \<in> set ?es" for p ty off len mult
    using that wf(1) pay by (intro virtio_cap_read_payload [where mult = mult]) fast+
  ultimately show ?thesis using assms(1) c0(1) c1(1) m c2(1) wf(1)
    by (simp add: transport_new_def)
qed

lemma append_capability_bars: "append_capability cap_id n c = Some (c', off) \<Longrightarrow> bars c' = bars c"
  by (auto simp: append_capability_def cfg_put16_def Let_def split: if_splits option.splits)

lemma append_virtio_caps_bars: "append_virtio_caps xs c = Some c' \<Longrightarrow> bars c' = bars c"
proof (induction xs c rule: append_virtio_caps.induct)
  case (2 ty off len mult xs c)
  then obtain c1 where c1: "append_virtio_cap ty 0 off len mult c = Some c1" "append_virtio_caps xs c1 = Some c'"
    by (auto split: option.splits)
  then have "bars c1 = bars c"
    by (auto simp: append_virtio_cap_def Let_def dest: append_capability_bars split: option.splits)
  with 2(1) [OF c1] show ?case by simp
qed simp

text \<open>The one BAR of a function, unmapped at first.\<close>

definition virtio_bar :: bar where
  "virtio_bar = bar_default\<lparr>bar_kind := Mmio64, bar_size := BAR_SIZE, prefetchable := True\<rparr>"

lemma transport_new_parts:
  assumes "transport_new dv d opts = Some t"
  shows "bars (tp_cfg t) = virtio_bar # replicate 5 bar_default" and "bar_mapped t = False"
    and "msix_new (ucast (opt_num_msix_vectors opts)) 0 OFF_MSIX_TABLE OFF_MSIX_PBA = Some (tp_msix t)"
proof -
  from assms obtain c c1 c2 m off where n: "transport_cfg (device_id dv d) opts = Some c" "append_virtio_caps virtio_caps c = Some c1"
      "msix_new (ucast (opt_num_msix_vectors opts)) 0 OFF_MSIX_TABLE OFF_MSIX_PBA = Some m" "add_msix_capability m c1 = Some (c2, off)"
      and t: "tp_cfg t = c2" "tp_msix t = m" "bar_mapped t = False"
    by (auto simp: transport_new_def split: if_splits option.splits prod.splits)
  have "bars c2 = bars c1" using n(4)
    by (auto simp: add_msix_capability_def set_writable_byte_def Let_def dest: append_capability_bars split: option.splits prod.splits)
  moreover have "bars c = virtio_bar # replicate 5 bar_default"
    using n(1) by (auto simp: transport_cfg_def declare_mmio64_bar_def set_interrupt_pin_def set_class_def set_ids_def cfg_put16_def
        pci_config_new_def virtio_bar_def numeral_eq_Suc Let_def split: if_splits)
  ultimately show "bars (tp_cfg t) = virtio_bar # replicate 5 bar_default" using append_virtio_caps_bars [OF n(2)] t(1) by simp
  show "bar_mapped t = False" "msix_new (ucast (opt_num_msix_vectors opts)) 0 OFF_MSIX_TABLE OFF_MSIX_PBA = Some (tp_msix t)"
    using t n(3) by simp_all
qed

text \<open>
  C34. Every virtio function is discoverable: for 1 to 2048 vectors the transport is built without a
  failed assertion, whatever the ids, and a driver that walks the capability list finds the four
  virtio capabilities and MSI-X, and reads from them the offsets and lengths at which the transport
  registers the common, notify, ISR and device registers in BAR 0, with MSI-X where
  \<^verbatim>\<open>config_write\<close> looks for its control word.
\<close>

theorem virtio_function_discoverable:
  assumes "1 \<le> opt_num_msix_vectors opts" and "opt_num_msix_vectors opts \<le> 2048"
  shows "\<exists>t. transport_new dv d opts = Some t \<and> tp_cap_off t = 0x84 \<and>
    cap_walk 256 (cfg (tp_cfg t)) (unat (cfg (tp_cfg t) ! CFG_CAP_PTR)) =
      Some [(0x40, 0x09), (0x50, 0x09), (0x64, 0x09), (0x74, 0x09), (tp_cap_off t, 0x11)] \<and>
    map (virtio_cap_read (tp_cfg t)) [0x40, 0x50, 0x64, 0x74] =
      [(1, 0, ucast OFF_COMMON, 0x40), (2, 0, ucast OFF_NOTIFY, 0x1000), (3, 0, ucast OFF_ISR, 4), (4, 0, ucast OFF_DEVICE, 0x100)]"
  using transport_new_total [OF assms, of dv d] by (elim exE conjE) (intro exI conjI; assumption)

section \<open>A driver programs a queue\<close>

abbreviation lo16 :: "u32 \<Rightarrow> u16" where "lo16 w \<equiv> ucast (w AND 0xFFFF)"
abbreviation hi16 :: "u32 \<Rightarrow> u16" where "hi16 w \<equiv> ucast (drop_bit 16 w AND 0xFFFF)"

lemma halves_join:
  "lo16 (ucast (a :: u16) OR push_bit 16 (ucast (b :: u16))) = a" "hi16 (ucast (a :: u16) OR push_bit 16 (ucast (b :: u16))) = b"
proof -
  have m: "(0xFFFF :: u32) = mask 16" by (simp add: mask_numeral)
  show "lo16 (ucast a OR push_bit 16 (ucast b)) = a" unfolding m by (rule bit_word_eqI) (auto simp: bit_simps)
  show "hi16 (ucast a OR push_bit 16 (ucast b)) = b" unfolding m
    by (rule bit_word_eqI) (auto simp: bit_simps dest: bit_imp_le_length)
qed

lemma merge_halves:
  "lo16 ((x AND NOT (push_bit 0 0xFFFF)) OR push_bit 0 (ucast (v :: u16) AND 0xFFFF)) = v"
  "hi16 ((x AND NOT (push_bit 0 0xFFFF)) OR push_bit 0 (ucast (v :: u16) AND 0xFFFF)) = hi16 x"
  "lo16 ((x AND NOT (push_bit 16 0xFFFF)) OR push_bit 16 (ucast (v :: u16) AND 0xFFFF)) = lo16 x"
  "hi16 ((x AND NOT (push_bit 16 0xFFFF)) OR push_bit 16 (ucast (v :: u16) AND 0xFFFF)) = v"
proof -
  have m: "(0xFFFF :: u32) = mask 16" by (simp add: mask_numeral)
  show "lo16 ((x AND NOT (push_bit 0 0xFFFF)) OR push_bit 0 (ucast (v :: u16) AND 0xFFFF)) = v"
    unfolding m by (rule bit_word_eqI) (auto simp: bit_simps)
  show "hi16 ((x AND NOT (push_bit 0 0xFFFF)) OR push_bit 0 (ucast (v :: u16) AND 0xFFFF)) = hi16 x"
    unfolding m by (rule bit_word_eqI) (auto simp: bit_simps)
  show "lo16 ((x AND NOT (push_bit 16 0xFFFF)) OR push_bit 16 (ucast (v :: u16) AND 0xFFFF)) = lo16 x"
    unfolding m by (rule bit_word_eqI) (auto simp: bit_simps)
  show "hi16 ((x AND NOT (push_bit 16 0xFFFF)) OR push_bit 16 (ucast (v :: u16) AND 0xFFFF)) = v"
    unfolding m by (rule bit_word_eqI) (auto simp: bit_simps)
qed

lemma low_byte_of_half: "(ucast (w AND 0xFF) :: u8) = ucast (lo16 w)"
proof -
  have m: "(0xFFFF :: u32) = mask 16" by (simp add: mask_numeral)
  show ?thesis unfolding m ucast_and_0xFF by (rule bit_word_eqI) (auto simp: bit_simps)
qed

text \<open>The accesses of a driver: 2 and 4 bytes at an offset of the common configuration.\<close>

definition w16 :: "u64 \<Rightarrow> u64 \<Rightarrow> u16 \<Rightarrow> mmio_access" where
  "w16 bar off v = \<lparr>gpa = bar + off, mmio_size = 2, mmio_is_write = True, data = le16 v @ replicate 6 0\<rparr>"

definition w32 :: "u64 \<Rightarrow> u64 \<Rightarrow> u32 \<Rightarrow> mmio_access" where
  "w32 bar off v = \<lparr>gpa = bar + off, mmio_size = 4, mmio_is_write = True, data = le32 v @ replicate 4 0\<rparr>"

definition drive :: "'d virtio_device \<Rightarrow> mmio_access list \<Rightarrow> 'd transport \<Rightarrow> 'd transport" where
  "drive dv accs t = fold (\<lambda>a t. fst (handle_common_cfg dv a t)) accs t"

lemma drive_Nil: "drive dv [] t = t"
  by (simp add: drive_def)

lemma drive_Cons: "drive dv (a # accs) t = drive dv accs (fst (handle_common_cfg dv a t))"
  by (simp add: drive_def)

lemma access_dword_w16: "access_dword (le16 v @ replicate 6 0) 2 = ucast v"
proof (rule bit_word_eqI)
  fix k assume "k < LENGTH(32)"
  then show "bit (access_dword (le16 v @ replicate 6 0) 2) k = bit (ucast v :: u32) k"
    by (auto simp: access_dword_def bit_le_decode nth_append nth_le_encode bit_simps div_mult_mod_eq
        dest: bit_imp_le_length)
qed

lemma handle_w16:
  assumes "tp_bar_gpa t = bar"
  shows "fst (handle_common_cfg dv (w16 bar off v) t) =
    (let o32 = ucast off :: u32; x = read_cc32 dv t (o32 AND NOT 0x3); shift = unat ((o32 AND 0x3) * 8)
     in write_cc32 dv (o32 AND NOT 0x3) ((x AND NOT (push_bit shift 0xFFFF)) OR push_bit shift (ucast v AND 0xFFFF)) t)"
proof -
  have "unat (min 2 4 :: u32) = 2" by (simp add: min_def)
  then show ?thesis using assms
    by (simp add: handle_common_cfg_def w16_def common_write_def access_dword_w16 Let_def)
qed

lemma handle_w32:
  assumes "tp_bar_gpa t = bar"
  shows "fst (handle_common_cfg dv (w32 bar off v) t) = write_cc32 dv (ucast off AND NOT 0x3) v t"
  using assms by (simp add: handle_common_cfg_def w32_def common_write_def access_dword_def Let_def)

lemma status_byte:
  "(ucast (lo16 (ucast (st :: u8) OR push_bit 8 (ucast (g :: u8)) OR push_bit 16 (ucast (q :: u16)))) :: u8) = st"
proof -
  have m: "(0xFFFF :: u32) = mask 16" by (simp add: mask_numeral)
  show ?thesis unfolding m by (rule bit_word_eqI) (auto simp: bit_simps)
qed

lemma w_select:
  assumes "tp_bar_gpa t = bar"
  shows "fst (handle_common_cfg dv (w16 bar 0x16 q) t) = t\<lparr>tp_common := (tp_common t)\<lparr>queue_select := q\<rparr>\<rparr>"
proof -
  let ?x = "read_cc32 dv t CC_DEVICE_STATUS"
  define y where "y = (?x AND NOT (push_bit 16 0xFFFF)) OR push_bit 16 (ucast q AND 0xFFFF)"
  have x: "?x = ucast (status (tp_common t)) OR push_bit 8 (ucast (config_generation (tp_common t))) OR
      push_bit 16 (ucast (queue_select (tp_common t)))"
    by (simp add: read_cc32_def Let_def)
  have "(ucast (y AND 0xFF) :: u8) = ucast (lo16 ?x)" unfolding low_byte_of_half y_def merge_halves(3) ..
  then have st: "(ucast (y AND 0xFF) :: u8) = status (tp_common t)" unfolding x status_byte .
  have hi: "hi16 y = q" unfolding y_def by (rule merge_halves(4))
  have "fst (handle_common_cfg dv (w16 bar 0x16 q) t) = write_cc32 dv CC_DEVICE_STATUS y t"
    unfolding handle_w16 [OF assms] Let_def y_def by simp
  then show ?thesis using st hi by (simp add: write_cc32_def Let_def)
qed

lemma w_size:
  assumes "tp_bar_gpa t = bar" and "sel = unat (queue_select (tp_common t))" and "sel < length (tqueues (tp_common t))"
    and "is_power_of_two16 n" and "n \<le> ucast (queue_max dv (ucast (queue_select (tp_common t))) (tp_device t))"
  shows "fst (handle_common_cfg dv (w16 bar 0x18 n) t) = set_tqueue sel ((tqueues (tp_common t) ! sel)\<lparr>tq_size := n\<rparr>) t"
proof -
  let ?x = "read_cc32 dv t CC_QUEUE_SIZE"
  define y where "y = (?x AND NOT (push_bit 0 0xFFFF)) OR push_bit 0 (ucast n AND 0xFFFF)"
  obtain a :: u16 where x: "?x = ucast a OR push_bit 16 (ucast (tq_vector (tqueues (tp_common t) ! sel)))"
    using assms(3) that by (simp add: read_cc32_def assms(2) Let_def)
  have lo: "lo16 y = n" unfolding y_def by (rule merge_halves(1))
  have hi: "hi16 y = tq_vector (tqueues (tp_common t) ! sel)" unfolding y_def merge_halves(2) x halves_join ..
  have "fst (handle_common_cfg dv (w16 bar 0x18 n) t) = write_cc32 dv CC_QUEUE_SIZE y t"
    unfolding handle_w16 [OF assms(1)] Let_def y_def by simp
  then show ?thesis using lo hi assms(2-5) by (simp add: write_cc32_def Let_def)
qed

lemma w_vector:
  assumes "tp_bar_gpa t = bar" and "sel = unat (queue_select (tp_common t))" and "sel < length (tqueues (tp_common t))"
    and "tq_size (tqueues (tp_common t) ! sel) \<noteq> 0"
  shows "fst (handle_common_cfg dv (w16 bar 0x1A v) t) = set_tqueue sel ((tqueues (tp_common t) ! sel)\<lparr>tq_vector := v\<rparr>) t"
proof -
  let ?x = "read_cc32 dv t CC_QUEUE_SIZE" and ?q = "tqueues (tp_common t) ! sel"
  define y where "y = (?x AND NOT (push_bit 16 0xFFFF)) OR push_bit 16 (ucast v AND 0xFFFF)"
  have x: "?x = ucast (tq_size ?q) OR push_bit 16 (ucast (tq_vector ?q))"
    using assms(3,4) by (simp add: read_cc32_def assms(2) Let_def)
  have lo: "lo16 y = tq_size ?q" unfolding y_def merge_halves(3) x halves_join ..
  have hi: "hi16 y = v" unfolding y_def by (rule merge_halves(4))
  have "fst (handle_common_cfg dv (w16 bar 0x1A v) t) = write_cc32 dv CC_QUEUE_SIZE y t"
    unfolding handle_w16 [OF assms(1)] Let_def y_def by simp
  then show ?thesis using lo hi assms(2,3) by (simp add: write_cc32_def Let_def)
qed

lemma w_enable:
  assumes "tp_bar_gpa t = bar"
  shows "fst (handle_common_cfg dv (w16 bar 0x1C v) t) = write_queue_enable dv v t"
proof -
  let ?x = "read_cc32 dv t CC_QUEUE_ENABLE"
  define y where "y = (?x AND NOT (push_bit 0 0xFFFF)) OR push_bit 0 (ucast v AND 0xFFFF)"
  have lo: "lo16 y = v" unfolding y_def by (rule merge_halves(1))
  have "fst (handle_common_cfg dv (w16 bar 0x1C v) t) = write_cc32 dv CC_QUEUE_ENABLE y t"
    unfolding handle_w16 [OF assms(1)] Let_def y_def by simp
  then show ?thesis using lo by (simp add: write_cc32_def Let_def)
qed

lemma halves_of_u64: "high_half (low_half old (ucast (w :: u64))) (ucast (drop_bit 32 w)) = w"
proof -
  have m: "(0xFFFFFFFF00000000 :: u64) = NOT (mask 32)" "(0x00000000FFFFFFFF :: u64) = mask 32" by (simp_all add: mask_numeral)
  show ?thesis unfolding high_half_def low_half_def m by (rule bit_word_eqI) (auto simp: bit_simps)
qed

lemma set_tqueue_simps [simp]:
  "tp_bar_gpa (set_tqueue sel q t) = tp_bar_gpa t" "tp_device (set_tqueue sel q t) = tp_device t"
  "queue_select (tp_common (set_tqueue sel q t)) = queue_select (tp_common t)"
  "driver_features (tp_common (set_tqueue sel q t)) = driver_features (tp_common t)"
  "length (tqueues (tp_common (set_tqueue sel q t))) = length (tqueues (tp_common t))"
  "sel < length (tqueues (tp_common t)) \<Longrightarrow> tqueues (tp_common (set_tqueue sel q t)) ! sel = q"
  "set_tqueue sel q' (set_tqueue sel q t) = set_tqueue sel q' t"
  by (simp_all add: set_tqueue_def)

lemma w_addresses:
  assumes "tp_bar_gpa t = bar" and "sel = unat (queue_select (tp_common t))" and "sel < length (tqueues (tp_common t))"
  shows "drive dv [w32 bar 0x20 (ucast d), w32 bar 0x24 (ucast (drop_bit 32 d)), w32 bar 0x28 (ucast a),
      w32 bar 0x2C (ucast (drop_bit 32 a)), w32 bar 0x30 (ucast u), w32 bar 0x34 (ucast (drop_bit 32 u))] t =
    set_tqueue sel ((tqueues (tp_common t) ! sel)\<lparr>tq_desc := d, tq_driver := a, tq_device := u\<rparr>) t"
proof -
  have desc: "drive dv [w32 bar 0x20 (ucast d), w32 bar 0x24 (ucast (drop_bit 32 d))] t' =
      set_tqueue sel ((tqueues (tp_common t') ! sel)\<lparr>tq_desc := d\<rparr>) t'"
    if "tp_bar_gpa t' = bar" "sel = unat (queue_select (tp_common t'))" "sel < length (tqueues (tp_common t'))" for t'
    using that by (simp add: drive_Cons drive_Nil handle_w32 write_cc32_def halves_of_u64 Let_def)
  have driver: "drive dv [w32 bar 0x28 (ucast a), w32 bar 0x2C (ucast (drop_bit 32 a))] t' =
      set_tqueue sel ((tqueues (tp_common t') ! sel)\<lparr>tq_driver := a\<rparr>) t'"
    if "tp_bar_gpa t' = bar" "sel = unat (queue_select (tp_common t'))" "sel < length (tqueues (tp_common t'))" for t'
    using that by (simp add: drive_Cons drive_Nil handle_w32 write_cc32_def halves_of_u64 Let_def)
  have dev: "drive dv [w32 bar 0x30 (ucast u), w32 bar 0x34 (ucast (drop_bit 32 u))] t' =
      set_tqueue sel ((tqueues (tp_common t') ! sel)\<lparr>tq_device := u\<rparr>) t'"
    if "tp_bar_gpa t' = bar" "sel = unat (queue_select (tp_common t'))" "sel < length (tqueues (tp_common t'))" for t'
    using that by (simp add: drive_Cons drive_Nil handle_w32 write_cc32_def halves_of_u64 Let_def)
  have app: "drive dv (xs @ ys) t' = drive dv ys (drive dv xs t')" for xs ys t' by (simp add: drive_def)
  have "drive dv ([w32 bar 0x20 (ucast d), w32 bar 0x24 (ucast (drop_bit 32 d))] @ [w32 bar 0x28 (ucast a),
      w32 bar 0x2C (ucast (drop_bit 32 a))] @ [w32 bar 0x30 (ucast u), w32 bar 0x34 (ucast (drop_bit 32 u))]) t =
    set_tqueue sel ((tqueues (tp_common t) ! sel)\<lparr>tq_desc := d, tq_driver := a, tq_device := u\<rparr>) t"
    unfolding app using assms by (simp add: desc driver dev)
  then show ?thesis by simp
qed

lemma enable_effect:
  assumes "sel = unat (queue_select (tp_common t))" and "sel < length (tqueues (tp_common t))"
    and "tq_size (tqueues (tp_common t) ! sel) \<noteq> 0"
  defines "q \<equiv> tqueues (tp_common t) ! sel"
  shows "write_queue_enable dv 1 t = (set_tqueue sel (q\<lparr>tq_enable := 1\<rparr>) t)\<lparr>tp_device :=
    (if tq_desc q AND 0xF = 0 \<and> tq_driver q AND 1 = 0 \<and> tq_device q AND 3 = 0
     then enable_queue dv (ucast (queue_select (tp_common t))) (tq_desc q) (tq_driver q) (tq_device q) (tq_size q)
       (driver_features (tp_common t) AND FEATURE_RING_EVENT_IDX \<noteq> 0) (tp_device t)
     else tp_device t)\<rparr>"
proof -
  have "(set_tqueue sel x t)\<lparr>tp_device := tp_device t\<rparr> = set_tqueue sel x t" for x by (simp add: set_tqueue_def)
  with assms(2,3) show ?thesis unfolding write_queue_enable_def assms(1) [symmetric] q_def [symmetric] Let_def
    by (cases "tq_desc q AND 0xF = 0 \<and> tq_driver q AND 1 = 0 \<and> tq_device q AND 3 = 0") auto
qed

text \<open>The driver's sequence for one queue, as Linux issues it.\<close>

definition setup_queue :: "u64 \<Rightarrow> u16 \<Rightarrow> u16 \<Rightarrow> u64 \<Rightarrow> u64 \<Rightarrow> u64 \<Rightarrow> u16 \<Rightarrow> mmio_access list" where
  "setup_queue bar q n d a u vec =
     [w16 bar 0x16 q, w16 bar 0x18 n] @
     [w32 bar 0x20 (ucast d), w32 bar 0x24 (ucast (drop_bit 32 d)), w32 bar 0x28 (ucast a),
      w32 bar 0x2C (ucast (drop_bit 32 a)), w32 bar 0x30 (ucast u), w32 bar 0x34 (ucast (drop_bit 32 u))] @
     [w16 bar 0x1A vec, w16 bar 0x1C 1]"

text \<open>
  C16. A driver that follows the protocol gets the queue it programmed: selecting a queue, writing its
  size (a power of two the device allows), its three ring addresses dword by dword, its vector and
  then the enable register calls the device's \<^verbatim>\<open>enable_queue\<close> once, with exactly those addresses
  and that size and with EVENT_IDX as negotiated, if the addresses are aligned as the specification
  requires; if they are not, the device is not called. No other queue or register changes.
\<close>

theorem virtio_queue_setup:
  assumes "tp_bar_gpa t = bar" and "unat q < length (tqueues (tp_common t))"
    and "is_power_of_two16 n" and "n \<le> ucast (queue_max dv (ucast q) (tp_device t))"
  shows "drive dv (setup_queue bar q n d a u vec) t =
    t\<lparr>tp_common := (tp_common t)\<lparr>queue_select := q, tqueues := (tqueues (tp_common t))[unat q :=
        \<lparr>tq_vector = vec, tq_enable = 1, tq_desc = d, tq_driver = a, tq_device = u, tq_size = n\<rparr>]\<rparr>,
      tp_device := (if d AND 0xF = 0 \<and> a AND 1 = 0 \<and> u AND 3 = 0
        then enable_queue dv (ucast q) d a u n (driver_features (tp_common t) AND FEATURE_RING_EVENT_IDX \<noteq> 0) (tp_device t)
        else tp_device t)\<rparr>"
proof -
  define t1 where "t1 = t\<lparr>tp_common := (tp_common t)\<lparr>queue_select := q\<rparr>\<rparr>"
  let ?Q = "tqueues (tp_common t) ! unat q"
  have t1: "tp_bar_gpa t1 = bar" "tqueues (tp_common t1) = tqueues (tp_common t)"
      "tp_device t1 = tp_device t" "queue_select (tp_common t1) = q"
    using assms(1) by (simp_all add: t1_def)
  have n0: "n \<noteq> 0" using assms(3) by (simp add: is_power_of_two16_def)
  have app: "drive dv (xs @ ys) t' = drive dv ys (drive dv xs t')" for xs ys t' by (simp add: drive_def)
  let ?q2 = "?Q\<lparr>tq_size := n\<rparr>"
  let ?q3 = "?q2\<lparr>tq_desc := d, tq_driver := a, tq_device := u\<rparr>"
  let ?q4 = "?q3\<lparr>tq_vector := vec\<rparr>"
  have q5: "?q4\<lparr>tq_enable := 1\<rparr> = \<lparr>tq_vector = vec, tq_enable = 1, tq_desc = d, tq_driver = a, tq_device = u, tq_size = n\<rparr>"
    by simp
  have "drive dv [w16 bar 0x16 q, w16 bar 0x18 n] t = set_tqueue (unat q) ?q2 t1"
    using assms t1 by (simp add: drive_Cons drive_Nil w_select t1_def [symmetric] w_size [where sel = "unat q"])
  moreover have "drive dv [w32 bar 0x20 (ucast d), w32 bar 0x24 (ucast (drop_bit 32 d)), w32 bar 0x28 (ucast a),
      w32 bar 0x2C (ucast (drop_bit 32 a)), w32 bar 0x30 (ucast u), w32 bar 0x34 (ucast (drop_bit 32 u))]
      (set_tqueue (unat q) ?q2 t1) = set_tqueue (unat q) ?q3 t1"
    using assms(2) t1 by (subst w_addresses [where sel = "unat q"]) simp_all
  moreover have "drive dv [w16 bar 0x1A vec, w16 bar 0x1C 1] (set_tqueue (unat q) ?q3 t1) =
      write_queue_enable dv 1 (set_tqueue (unat q) ?q4 t1)"
    using assms(2) t1 n0 by (simp add: drive_Cons drive_Nil w_vector [where sel = "unat q"] w_enable)
  ultimately have "drive dv (setup_queue bar q n d a u vec) t = write_queue_enable dv 1 (set_tqueue (unat q) ?q4 t1)"
    unfolding setup_queue_def app by (simp only:)
  moreover have "write_queue_enable dv 1 (set_tqueue (unat q) ?q4 t1) = (set_tqueue (unat q) (?q4\<lparr>tq_enable := 1\<rparr>) t1)\<lparr>tp_device :=
      (if d AND 0xF = 0 \<and> a AND 1 = 0 \<and> u AND 3 = 0
        then enable_queue dv (ucast q) d a u n (driver_features (tp_common t) AND FEATURE_RING_EVENT_IDX \<noteq> 0) (tp_device t)
        else tp_device t)\<rparr>"
    using assms(2) n0 t1 by (subst enable_effect [where sel = "unat q"]) (simp_all add: t1_def)
  moreover have "set_tqueue (unat q) x t1 = t\<lparr>tp_common := (tp_common t)\<lparr>queue_select := q, tqueues := (tqueues (tp_common t))[unat q := x]\<rparr>\<rparr>" for x
    by (simp add: t1_def set_tqueue_def)
  ultimately show ?thesis unfolding q5 by (simp only:)
qed

section \<open>The status register\<close>

definition w8 :: "u64 \<Rightarrow> u64 \<Rightarrow> u8 \<Rightarrow> mmio_access" where
  "w8 bar off v = \<lparr>gpa = bar + off, mmio_size = 1, mmio_is_write = True, data = v # replicate 7 0\<rparr>"

lemma w_status:
  assumes "tp_bar_gpa t = bar" and "v \<noteq> status (tp_common t)"
  shows "fst (handle_common_cfg dv (w8 bar 0x14 v) t) =
    (let t1 = apply_status_write dv v t
     in t1\<lparr>tp_common := (tp_common t1)\<lparr>queue_select := queue_select (tp_common t)\<rparr>\<rparr>)"
proof -
  let ?x = "read_cc32 dv t CC_DEVICE_STATUS" and ?c = "tp_common t"
  define y where "y = (?x AND NOT (push_bit 0 0xFF)) OR push_bit 0 (ucast v AND 0xFF)"
  have x: "?x = ucast (status ?c) OR push_bit 8 (ucast (config_generation ?c)) OR push_bit 16 (ucast (queue_select ?c))"
    by (simp add: read_cc32_def Let_def)
  have m: "(0xFF :: u32) = mask 8" "(0xFFFF :: u32) = mask 16" by (simp_all add: mask_numeral)
  have lo: "(ucast (y AND 0xFF) :: u8) = v"
    unfolding y_def m by (rule bit_word_eqI) (auto simp: bit_simps)
  have hi: "hi16 y = queue_select ?c"
    unfolding y_def x m by (rule bit_word_eqI) (auto simp: bit_simps dest: bit_imp_le_length)
  have "access_dword (v # replicate 7 0) 1 = ucast v" by (simp add: access_dword_def numeral_eq_Suc)
  moreover have "unat (min 1 4 :: u32) = 1" by (simp add: min_def)
  ultimately have "fst (handle_common_cfg dv (w8 bar 0x14 v) t) = write_cc32 dv CC_DEVICE_STATUS y t"
    using assms(1) unfolding y_def by (simp add: handle_common_cfg_def w8_def common_write_def Let_def)
  then show ?thesis using lo hi assms(2) by (simp add: write_cc32_def Let_def)
qed

text \<open>The status byte a driver reads back.\<close>

definition read_status :: "'d virtio_device \<Rightarrow> 'd transport \<Rightarrow> u8" where
  "read_status dv t = data (snd (handle_common_cfg dv \<lparr>gpa = tp_bar_gpa t + 0x14, mmio_size = 1, mmio_is_write = False, data = replicate 8 0\<rparr> t)) ! 0"

lemma read_status_eq:
  "read_status dv t = (if status (tp_common t) = 0 \<and> reset_pending dv (tp_device t) then reset_from (tp_common t) else status (tp_common t))"
proof -
  let ?c = "tp_common t"
  have m: "(0xFF :: u32) = mask 8" by (simp add: mask_numeral)
  have "(ucast (ucast (status ?c) OR push_bit 8 (ucast (config_generation ?c)) OR push_bit 16 (ucast (queue_select ?c)) :: u32) :: u8) = status ?c"
    by (rule bit_word_eqI) (auto simp: bit_simps)
  moreover have "(ucast ((w AND NOT 0xFF) OR ucast b :: u32) :: u8) = b" for w and b :: u8
    unfolding m by (rule bit_word_eqI) (auto simp: bit_simps)
  moreover have "read_status dv t = ucast (guest_read_cc32 dv t CC_DEVICE_STATUS)"
  proof -
    have "dword_data w 1 ! 0 = ucast w" for w by (simp add: dword_data_def nth_append nth_le_encode)
    moreover have "unat (min 1 4 :: u32) = 1" by (simp add: min_def)
    ultimately show ?thesis by (simp add: read_status_def handle_common_cfg_def common_read_def Let_def)
  qed
  ultimately show ?thesis by (simp add: guest_read_cc32_def read_cc32_def Let_def)
qed

text \<open>
  C26. The status register is the negotiation. Writing a nonzero status that adds FEATURES_OK hands the
  driver's features to the device, and reads back as written if the device accepts them, and without
  FEATURES_OK and with NEEDS_RESET if it does not; one that does not add it reads back as written, and
  the device is told of DRIVER_OK when that bit is new; no other common register changes. Writing 0
  resets the device, both feature selectors, the driver's features, the configuration vector, the ISR
  and every queue, and reads back as the old status until the device has settled. The queue selector is
  not reset by it: it keeps its value.
\<close>

theorem virtio_status_negotiation:
  assumes "tp_bar_gpa t = bar" and "v \<noteq> status (tp_common t)"
    and "fst (handle_common_cfg dv (w8 bar 0x14 v) t) = t'"
  shows "(v \<noteq> 0 \<and> (v AND NOT (status (tp_common t))) AND STATUS_FEATURES_OK \<noteq> 0 \<longrightarrow>
      (case set_driver_features dv (driver_features (tp_common t)) (tp_device t) of (d, ok) \<Rightarrow>
        status (tp_common t') = (if ok then v else (v AND NOT STATUS_FEATURES_OK) OR STATUS_NEEDS_RESET) \<and>
        tp_device t' = (if (v AND NOT (status (tp_common t))) AND STATUS_DRIVER_OK \<noteq> 0 then driver_ok dv d else d) \<and>
        read_status dv t' = status (tp_common t'))) \<and>
    (v \<noteq> 0 \<and> (v AND NOT (status (tp_common t))) AND STATUS_FEATURES_OK = 0 \<longrightarrow>
      status (tp_common t') = v \<and> read_status dv t' = v \<and>
      tp_device t' = (if (v AND NOT (status (tp_common t))) AND STATUS_DRIVER_OK \<noteq> 0 then driver_ok dv (tp_device t) else tp_device t)) \<and>
    (v \<noteq> 0 \<longrightarrow> tp_common t' = (tp_common t)\<lparr>status := status (tp_common t')\<rparr> \<and> isr_status t' = isr_status t) \<and>
    (v = 0 \<longrightarrow> tp_device t' = device_reset dv (tp_device t) \<and> isr_status t' = 0 \<and> status (tp_common t') = 0 \<and>
       device_feature_select (tp_common t') = 0 \<and> driver_feature_select (tp_common t') = 0 \<and>
       driver_features (tp_common t') = 0 \<and> msix_config (tp_common t') = 0xFFFF \<and>
       tqueues (tp_common t') = replicate (length (tqueues (tp_common t))) tqueue_default \<and>
       queue_select (tp_common t') = queue_select (tp_common t) \<and>
       read_status dv t' = (if reset_pending dv (tp_device t') then status (tp_common t) else 0))"
proof -
  have t': "t' = (let t1 = apply_status_write dv v t in t1\<lparr>tp_common := (tp_common t1)\<lparr>queue_select := queue_select (tp_common t)\<rparr>\<rparr>)"
    using w_status [OF assms(1,2)] assms(3) by simp
  have nz: "(v AND NOT STATUS_FEATURES_OK) OR STATUS_NEEDS_RESET \<noteq> 0"
  proof
    assume "(v AND NOT STATUS_FEATURES_OK) OR STATUS_NEEDS_RESET = 0"
    then have "bit ((v AND NOT STATUS_FEATURES_OK) OR STATUS_NEEDS_RESET) 6 = bit (0 :: u8) 6" by (simp only:)
    then show False by (simp add: bit_simps)
  qed
  obtain d ok where f: "set_driver_features dv (driver_features (tp_common t)) (tp_device t) = (d, ok)" by (metis surj_pair)
  show ?thesis
  proof (cases "v = 0")
    case True
    then show ?thesis by (simp add: t' apply_status_write_def read_status_eq map_replicate_const Let_def)
  next
    case False
    with nz f show ?thesis by (auto simp: t' apply_status_write_def read_status_eq Let_def)
  qed
qed

text \<open>
  A deviation: the reset clears \<^verbatim>\<open>queue_select\<close>, but the status byte's dword is then written whole, so
  the selector is back at its old value.
\<close>

lemma reset_keeps_queue_select:
  "tp_bar_gpa t = bar \<Longrightarrow> status (tp_common t) \<noteq> 0 \<Longrightarrow>
   queue_select (tp_common (fst (handle_common_cfg dv (w8 bar 0x14 0) t))) = queue_select (tp_common t)"
  by (simp add: w_status Let_def)

end
