(* ===== verification/Virtio_Bus.thy ===== *)
theory Virtio_Bus
  imports Virtio_Transport
begin

text \<open>
  Several virtio functions on one MMIO bus. A guest writes the configuration space of any of them at
  any time (\<^verbatim>\<open>config_write\<close> in \<^verbatim>\<open>src/virtio/transport.rs\<close>), which maps, moves and unmaps BAR 0; the
  transport then registers or removes six ranges on the bus of \<^verbatim>\<open>src/devices/mmio_bus.rs\<close>. Whatever the
  guest does, the ranges of the functions never meet and each access reaches the function whose
  registers name the address.
\<close>

section \<open>Ranges on the bus\<close>

definition range_entry :: "u64 \<times> u64 \<times> string \<times> nat \<times> region \<Rightarrow> (nat \<times> region) mmio_entry" where
  "range_entry r = (case r of (base, n, name, h) \<Rightarrow> \<lparr>me_base = base, me_size = n, me_name = name, me_handler = h\<rparr>)"

definition range_of :: "u64 \<times> u64 \<times> string \<times> nat \<times> region \<Rightarrow> nat \<times> nat" where
  "range_of r = (unat (fst r), unat (fst (snd r)))"

definition disjoint_ranges :: "nat \<times> nat \<Rightarrow> nat \<times> nat \<Rightarrow> bool" where
  "disjoint_ranges r s \<longleftrightarrow> fst r + snd r \<le> fst s \<or> fst s + snd s \<le> fst r"

abbreviation entry_range :: "'h mmio_entry \<Rightarrow> nat \<times> nat" where
  "entry_range e \<equiv> (unat (me_base e), unat (me_size e))"

lemma disjoint_no_overlap:
  assumes "mmio_valid (unat a, unat m)" and "mmio_valid (unat b, unat n)"
  shows "mmio_ranges_overlap a m b n \<longleftrightarrow> \<not> disjoint_ranges (unat a, unat m) (unat b, unat n)"
  using mmio_overlap_nat [OF assms] by (auto simp: disjoint_ranges_def)

lemma register_all_free:
  assumes "mmio_good bus" and "\<forall>r \<in> set rs. mmio_valid (range_of r)"
    and "\<forall>r \<in> set rs. \<forall>e \<in> set bus. disjoint_ranges (range_of r) (entry_range e)"
    and "sorted_wrt (\<lambda>r s. disjoint_ranges (range_of s) (range_of r)) rs"
  shows "register_all rs bus = Some (bus @ map range_entry rs) \<and> mmio_good (bus @ map range_entry rs)"
  using assms
proof (induction rs arbitrary: bus)
  case (Cons r rs)
  obtain b n name h where r: "r = (b, n, name, h)" by (cases r)
  let ?e = "\<lparr>me_base = b, me_size = n, me_name = name, me_handler = h\<rparr>"
  have v: "mmio_valid (unat b, unat n)" using Cons.prems(2) by (simp add: r range_of_def)
  have "\<not> mmio_ranges_overlap b n (me_base e) (me_size e)" if "e \<in> set bus" for e
    using Cons.prems(1,3) v that by (subst disjoint_no_overlap) (auto simp: mmio_good_def r range_of_def)
  then have reg: "mmio_register bus b n name h = Some (bus @ [?e], True)"
    using v by (auto simp: mmio_register_def mmio_valid_def word_less_nat_alt list_ex_iff)
  then have g: "mmio_good (bus @ [?e])" using mmio_good_register [OF Cons.prems(1) v] by blast
  have "\<forall>s \<in> set rs. \<forall>e \<in> set (bus @ [?e]). disjoint_ranges (range_of s) (entry_range e)"
    using Cons.prems(3,4) by (auto simp: r range_of_def)
  with Cons.IH [OF g] Cons.prems(2,4) reg show ?case by (simp add: r range_entry_def)
qed (simp add: mmio_good_def)

lemma mmio_good_pairwise:
  assumes "mmio_good bus" and "e \<in> set bus" and "f \<in> set bus"
  shows "e = f \<or> disjoint_ranges (entry_range e) (entry_range f)"
proof -
  have v: "mmio_valid (entry_range e)" "mmio_valid (entry_range f)" using assms by (simp_all add: mmio_good_def)
  have "e = f \<or> \<not> mmio_ranges_overlap (me_base f) (me_size f) (me_base e) (me_size e) \<or> \<not> mmio_ranges_overlap (me_base e) (me_size e) (me_base f) (me_size f)"
    using sorted_wrt_cases [of _ bus e f] assms unfolding mmio_good_def by blast
  then show ?thesis using disjoint_no_overlap [OF v] disjoint_no_overlap [OF v(2,1)] by (auto simp: disjoint_ranges_def)
qed

lemma mmio_good_same_base:
  assumes "mmio_good bus" and "e \<in> set bus" and "f \<in> set bus" and "me_base e = me_base f"
  shows "e = f"
  using mmio_good_pairwise [OF assms(1-3)] assms by (auto simp: disjoint_ranges_def mmio_good_def mmio_valid_def)

lemma mmio_good_route:
  assumes "mmio_good bus" and "e \<in> set bus" and "a \<in> addrs (entry_range e)"
  shows "mmio_route bus a = Some (me_handler e)"
proof -
  let ?P = "\<lambda>e. unat (me_base e) \<le> a \<and> a < unat (me_base e) + unat (me_size e)"
  have e: "?P e" using assms(3) by simp
  then obtain f where f: "find ?P bus = Some f" using assms(2) by (metis (mono_tags, lifting) find_None_iff option.exhaust)
  then have "f \<in> set bus" "?P f" by (auto simp: find_Some_iff)
  then have "f = e" using mmio_good_pairwise [OF assms(1,2), of f] e by (auto simp: disjoint_ranges_def)
  with f show ?thesis by (simp add: mmio_route_def)
qed

lemma set_unregister:
  assumes "mmio_good bus" and "e \<in> set bus"
  shows "set (fst (mmio_unregister bus (me_base e))) = set bus - {e}"
  using assms
proof (induction bus)
  case (Cons f es)
  have distinct: "f \<notin> set es"
  proof
    assume "f \<in> set es"
    then have "\<not> mmio_ranges_overlap (me_base f) (me_size f) (me_base f) (me_size f)" "mmio_valid (entry_range f)"
      using Cons.prems(1) by (simp_all add: mmio_good_def)
    then show False using disjoint_no_overlap [of "me_base f" "me_size f" "me_base f" "me_size f"]
      by (simp add: disjoint_ranges_def mmio_valid_def)
  qed
  show ?case
  proof (cases "me_base f = me_base e")
    case True
    then have "f = e" using mmio_good_same_base [OF Cons.prems(1), of f e] Cons.prems(2) by simp
    with distinct show ?thesis by simp
  next
    case False
    then have "e \<in> set es" using Cons.prems(2) by auto
    moreover have "mmio_good es" using Cons.prems(1) by (simp add: mmio_good_def)
    ultimately have "set (fst (mmio_unregister es (me_base e))) = set es - {e}" using Cons.IH by blast
    moreover have "fst (mmio_unregister (f # es) (me_base e)) = f # fst (mmio_unregister es (me_base e))"
      using False by (simp add: case_prod_beta)
    moreover have "f \<noteq> e" using False by blast
    ultimately show ?thesis by auto
  qed
qed simp

lemma set_unregister_all:
  assumes "mmio_good bus" and "distinct es" and "set es \<subseteq> set bus"
  shows "set (fold (\<lambda>a b. fst (mmio_unregister b a)) (map me_base es) bus) = set bus - set es \<and>
    mmio_good (fold (\<lambda>a b. fst (mmio_unregister b a)) (map me_base es) bus)"
  using assms
proof (induction es arbitrary: bus)
  case (Cons e es)
  let ?b = "fst (mmio_unregister bus (me_base e))"
  have "set ?b = set bus - {e}" using Cons.prems by (intro set_unregister) auto
  moreover have "mmio_good ?b" using Cons.prems(1) by (rule mmio_good_unregister)
  ultimately show ?case using Cons.IH [of ?b] Cons.prems(2,3) by auto
qed simp

section \<open>The ranges of a BAR\<close>

definition geometry :: "msix \<Rightarrow> bool" where
  "geometry m \<longleftrightarrow> table_offset m = OFF_MSIX_TABLE \<and> pba_offset m = OFF_MSIX_PBA \<and> 1 \<le> num_vectors m \<and> num_vectors m \<le> 128"

definition in_window :: "u64 \<Rightarrow> bool" where
  "in_window g \<longleftrightarrow> 0xE0000000 \<le> unat g \<and> unat g + 0x4000 \<le> 0xFEC00000"

lemma geometry_upd [simp]: "geometry (m\<lparr>bar_base_gpa := b\<rparr>) = geometry m" "geometry (set_control mc m) = geometry m"
  by (simp_all add: geometry_def set_control_def)

lemma bar_ranges_upd [simp]: "bar_ranges k g (m\<lparr>bar_base_gpa := b\<rparr>) = bar_ranges k g m" "bar_ranges k g (set_control mc m) = bar_ranges k g m"
  by (simp_all add: bar_ranges_def msix_ranges_def set_control_def table_bytes_def pba_bytes_def)

lemma bar_range_list:
  assumes "geometry m" and "in_window g"
  shows "map range_of (bar_ranges k g m) = [(unat g, 0x40), (unat g + 0x40, 4), (unat g + 0x1000, 0x1000), (unat g + 0x2000, 0x100),
    (unat g + 0x3000, 16 * unat (num_vectors m)), (unat g + 0x3800, 8 * unat (div_ceil64 (num_vectors m)))]"
    and "1 \<le> unat (num_vectors m)" "unat (num_vectors m) \<le> 128" "1 \<le> unat (div_ceil64 (num_vectors m))" "unat (div_ceil64 (num_vectors m)) \<le> 2"
proof -
  let ?n = "num_vectors m"
  show n: "1 \<le> unat ?n" "unat ?n \<le> 128" using assms(1) by (simp_all add: geometry_def word_le_nat_alt)
  then have d: "unat (div_ceil64 ?n) = unat ?n div 64 + (if unat ?n mod 64 = 0 then 0 else 1)" by (intro unat_div_ceil64) simp
  show e: "1 \<le> unat (div_ceil64 ?n)" using n(1) unfolding d by (auto simp: dvd_eq_mod_eq_0 [symmetric] dest: dvd_imp_le)
  show f: "unat (div_ceil64 ?n) \<le> 2" using n(2) unfolding d by (cases "unat ?n = 128") auto
  have add: "unat (g + of_nat off) = unat g + off" if "off \<le> 0x3800" for off
    using that assms(2) by (simp add: unat_word_ariths unat_of_nat in_window_def)
  have "unat (table_bytes m) = 16 * unat ?n" "unat (pba_bytes m) = 8 * unat (div_ceil64 ?n)"
    using n f by (simp_all add: table_bytes_def pba_bytes_def unat_word_ariths)
  then show "map range_of (bar_ranges k g m) = [(unat g, 0x40), (unat g + 0x40, 4), (unat g + 0x1000, 0x1000), (unat g + 0x2000, 0x100),
      (unat g + 0x3000, 16 * unat (num_vectors m)), (unat g + 0x3800, 8 * unat (div_ceil64 (num_vectors m)))]"
    using add [of "0x40"] add [of "0x1000"] add [of "0x2000"] add [of "0x3000"] add [of "0x3800"] assms(1)
    by (simp add: bar_ranges_def msix_ranges_def range_of_def geometry_def unat_ucast_up)
qed

lemma bar_ranges_inside:
  assumes "geometry m" and "in_window g" and "r \<in> set (bar_ranges k g m)"
  shows "mmio_valid (range_of r)" and "unat g \<le> fst (range_of r)" and "fst (range_of r) + snd (range_of r) \<le> unat g + 0x4000"
proof -
  have "range_of r \<in> set (map range_of (bar_ranges k g m))" using assms(3) by simp
  then show "mmio_valid (range_of r)" "unat g \<le> fst (range_of r)" "fst (range_of r) + snd (range_of r) \<le> unat g + 0x4000"
    using bar_range_list(1) [OF assms(1,2), of k] bar_range_list(2-5) [OF assms(1,2)] assms(2) by (auto simp: mmio_valid_def in_window_def)
qed

lemma bar_ranges_disjoint:
  assumes "geometry m" and "in_window g"
  shows "sorted_wrt (\<lambda>r s. disjoint_ranges (range_of s) (range_of r)) (bar_ranges k g m)"
proof -
  have "sorted_wrt (\<lambda>r s. disjoint_ranges s r) (map range_of (bar_ranges k g m))"
    using bar_range_list(1) [OF assms, of k] bar_range_list(2-5) [OF assms] by (simp add: disjoint_ranges_def)
  then show ?thesis by (simp add: sorted_wrt_map)
qed

lemma range_entry_simps [simp]:
  "unat (me_base (range_entry r)) = fst (range_of r)" "unat (me_size (range_entry r)) = snd (range_of r)"
  by (simp_all add: range_entry_def range_of_def split: prod.split)

lemma bar_ranges_owner: "r \<in> set (bar_ranges k g m) \<Longrightarrow> fst (me_handler (range_entry r)) = k"
  by (auto simp: bar_ranges_def msix_ranges_def range_entry_def)

lemma distinct_bar_entries:
  assumes "geometry m" and "in_window g"
  shows "distinct (map range_entry (bar_ranges k g m))"
proof -
  have "distinct (map me_handler (map range_entry (bar_ranges k g m)))"
    by (simp add: bar_ranges_def msix_ranges_def range_entry_def)
  then show ?thesis by (rule distinct_map [THEN iffD1, THEN conjunct1])
qed

section \<open>One function\<close>

definition owned :: "nat \<Rightarrow> virtio_bus \<Rightarrow> (nat \<times> region) mmio_entry set" where
  "owned k bus = {e \<in> set bus. fst (me_handler e) = k}"

abbreviation claimed :: "nat \<Rightarrow> 'd transport \<Rightarrow> (nat \<times> region) mmio_entry set" where
  "claimed k t \<equiv> if bar_mapped t then range_entry ` set (bar_ranges k (tp_bar_gpa t) (tp_msix t)) else {}"

text \<open>A function is in step with what its configuration space has mapped (\<open>m\<close>) and with the bus.\<close>

definition fn_ok :: "nat \<Rightarrow> (nat \<Rightarrow> (u64 \<times> u32) option) \<Rightarrow> 'd transport \<Rightarrow> virtio_bus \<Rightarrow> bool" where
  "fn_ok k m t bus \<longleftrightarrow> geometry (tp_msix t) \<and> owned k bus = claimed k t \<and>
     (bar_mapped t \<longrightarrow> map_option fst (m 0) = Some (tp_bar_gpa t) \<and> in_window (tp_bar_gpa t) \<and> bar_base_gpa (tp_msix t) = tp_bar_gpa t)"

text \<open>There is room on the bus for function \<open>k\<close>'s BAR at \<open>g\<close>: in the window and clear of all other ranges.\<close>

definition room_at :: "nat \<Rightarrow> u64 \<Rightarrow> virtio_bus \<Rightarrow> bool" where
  "room_at k g bus \<longleftrightarrow> in_window g \<and> (\<forall>e \<in> set bus. fst (me_handler e) \<noteq> k \<longrightarrow> disjoint_ranges (unat g, 0x4000) (entry_range e))"

lemma room_at_owned: "(\<forall>j. j \<noteq> k \<longrightarrow> owned j bus' = owned j bus) \<Longrightarrow> room_at k g bus' = room_at k g bus"
  unfolding room_at_def owned_def by (intro conj_cong refl) blast

lemma window_guard: "0xE0000000 \<le> g \<and> unat g + unat BAR_SIZE < 2 ^ 64 \<and> g + ucast BAR_SIZE \<le> 0xFEC00000 \<longleftrightarrow> in_window g"
proof
  assume "in_window g"
  moreover from this have "unat (g + 0x4000) = unat g + 0x4000" using unat_plus_of_nat [of g "0x4000"] by (simp add: in_window_def)
  ultimately show "0xE0000000 \<le> g \<and> unat g + unat BAR_SIZE < 2 ^ 64 \<and> g + ucast BAR_SIZE \<le> 0xFEC00000"
    by (simp add: in_window_def word_le_nat_alt)
qed (auto simp: in_window_def word_le_nat_alt unat_word_ariths)

lemma range_free_room:
  assumes "mmio_good bus" and "owned k bus = {}" and "in_window g"
  shows "is_range_free bus g (ucast BAR_SIZE) \<longleftrightarrow> room_at k g bus"
proof -
  have v: "mmio_valid (unat g, unat (0x4000 :: u64))" using assms(3) by (simp add: mmio_valid_def in_window_def)
  have "fst (me_handler e) \<noteq> k" if "e \<in> set bus" for e using assms(2) that by (auto simp: owned_def)
  moreover have "mmio_ranges_overlap g 0x4000 (me_base e) (me_size e) \<longleftrightarrow> \<not> disjoint_ranges (unat g, 0x4000) (entry_range e)"
    if "e \<in> set bus" for e
    using disjoint_no_overlap [OF v, of "me_base e" "me_size e"] assms(1) that by (auto simp: mmio_good_def)
  ultimately show ?thesis using assms(3) by (auto simp: is_range_free_def list_ex_iff room_at_def)
qed

lemma on_bar_mapped_ok:
  assumes "mmio_good bus" and "fn_ok k m t bus" and "m 0 = None"
  shows "\<exists>t' bus'. on_bar_mapped k g (t, bus) = Some (t', bus') \<and> mmio_good bus' \<and> fn_ok k (m(0 := Some (g, n))) t' bus' \<and>
    (\<forall>j. j \<noteq> k \<longrightarrow> owned j bus' = owned j bus) \<and> tp_cfg t' = tp_cfg t \<and>
    bar_mapped t' = room_at k g bus"
proof -
  have un: "\<not> bar_mapped t" "owned k bus = {}" "geometry (tp_msix t)" using assms(2,3) by (auto simp: fn_ok_def)
  let ?m = "(tp_msix t)\<lparr>bar_base_gpa := g\<rparr>" and ?rs = "bar_ranges k g (tp_msix t)"
  show ?thesis
  proof (cases "room_at k g bus")
    case True
    then have w: "in_window g" by (simp add: room_at_def)
    have free: "is_range_free bus g (ucast BAR_SIZE)" using range_free_room [OF assms(1) un(2) w] True by simp
    have "disjoint_ranges (unat g, 0x4000) (entry_range e)" if "e \<in> set bus" for e
      using True un(2) that by (auto simp: room_at_def owned_def)
    then have "\<forall>r \<in> set ?rs. \<forall>e \<in> set bus. disjoint_ranges (range_of r) (entry_range e)"
      using bar_ranges_inside(2,3) [OF un(3) w, of _ k] unfolding disjoint_ranges_def by fastforce
    then have r: "register_all ?rs bus = Some (bus @ map range_entry ?rs)" "mmio_good (bus @ map range_entry ?rs)"
      using register_all_free [OF assms(1) _ _ bar_ranges_disjoint [OF un(3) w]] bar_ranges_inside(1) [OF un(3) w] by blast+
    have "on_bar_mapped k g (t, bus) = Some (t\<lparr>tp_bar_gpa := g, bar_mapped := True, tp_msix := ?m\<rparr>, bus @ map range_entry ?rs)"
      using free w r(1) by (simp add: on_bar_mapped_def window_guard [simplified] install_bar_handlers_def Let_def)
    moreover have "owned k (bus @ map range_entry ?rs) = range_entry ` set ?rs"
      using un(2) bar_ranges_owner [of _ k g "tp_msix t"] by (auto simp: owned_def)
    moreover have "owned j (bus @ map range_entry ?rs) = owned j bus" if "j \<noteq> k" for j
      using that bar_ranges_owner [of _ k g "tp_msix t"] by (auto simp: owned_def)
    ultimately show ?thesis using r(2) w un True by (simp add: fn_ok_def)
  next
    case False
    have "\<not> (0xE0000000 \<le> g \<and> unat g + unat BAR_SIZE < 2 ^ 64 \<and> g + ucast BAR_SIZE \<le> 0xFEC00000 \<and> is_range_free bus g (ucast BAR_SIZE))"
      using False range_free_room [OF assms(1) un(2)] window_guard [of g] by blast
    then have "on_bar_mapped k g (t, bus) = Some (t, bus)" by (simp only: on_bar_mapped_def prod.case if_False)
    then show ?thesis using assms(1,2) un False by (simp add: fn_ok_def)
  qed
qed

lemma on_bar_unmapped_ok:
  assumes "mmio_good bus" and "fn_ok k m t bus"
  shows "\<exists>t' bus'. on_bar_unmapped (t, bus) = (t', bus') \<and> mmio_good bus' \<and> fn_ok k (m(0 := None)) t' bus' \<and>
    (\<forall>j. j \<noteq> k \<longrightarrow> owned j bus' = owned j bus) \<and> tp_cfg t' = tp_cfg t \<and> \<not> bar_mapped t'"
proof (cases "bar_mapped t")
  case True
  let ?g = "tp_bar_gpa t" and ?es = "map range_entry (bar_ranges k (tp_bar_gpa t) (tp_msix t))"
  have g: "geometry (tp_msix t)" "in_window ?g" "bar_base_gpa (tp_msix t) = ?g" "owned k bus = set ?es"
    using True assms(2) by (simp_all add: fn_ok_def)
  define bus' where "bus' = fold (\<lambda>a b. fst (mmio_unregister b a)) (map me_base ?es) bus"
  have "set ?es \<subseteq> set bus" using g(4) by (auto simp: owned_def)
  from set_unregister_all [OF assms(1) distinct_bar_entries [OF g(1,2)] this]
  have b: "set bus' = set bus - owned k bus" "mmio_good bus'" unfolding bus'_def g(4) by blast+
  have "map me_base ?es = [?g + OFF_COMMON, ?g + OFF_ISR, ?g + OFF_NOTIFY, ?g + OFF_DEVICE,
      ?g + ucast (table_offset (tp_msix t)), ?g + ucast (pba_offset (tp_msix t))]"
    by (simp add: bar_ranges_def msix_ranges_def range_entry_def)
  then have "on_bar_unmapped (t, bus) = (t\<lparr>bar_mapped := False\<rparr>, bus')"
    using True g(3) by (simp add: on_bar_unmapped_def bus'_def Let_def)
  with b g(1) show ?thesis by (auto simp: fn_ok_def owned_def)
next
  case False
  with assms show ?thesis by (simp add: on_bar_unmapped_def fn_ok_def)
qed

lemma bar_events_ok:
  assumes "mmio_good bus" and "fn_ok k m t bus" and "replay es m = Some m'"
  shows "\<exists>t' bus'. handle_bar_events k es (t, bus) = Some (t', bus') \<and> mmio_good bus' \<and> fn_ok k m' t' bus' \<and>
    (\<forall>j. j \<noteq> k \<longrightarrow> owned j bus' = owned j bus) \<and> tp_cfg t' = tp_cfg t"
  using assms
proof (induction es arbitrary: m t bus)
  case (Cons e es)
  have other: "fn_ok k (m(i := x)) t bus" if "i \<noteq> 0" for i x using Cons.prems(2) that by (simp add: fn_ok_def)
  show ?case
  proof (cases e)
    case (Mapped i g n)
    with Cons.prems(3) have r: "m i = None" "replay es (m(i := Some (g, n))) = Some m'" by (auto split: if_splits)
    show ?thesis
    proof (cases "i = 0")
      case True
      with on_bar_mapped_ok [OF Cons.prems(1,2), of g n] r(1) obtain t1 bus1 where
        s: "on_bar_mapped k g (t, bus) = Some (t1, bus1)" "mmio_good bus1" "fn_ok k (m(0 := Some (g, n))) t1 bus1"
          "\<forall>j. j \<noteq> k \<longrightarrow> owned j bus1 = owned j bus" "tp_cfg t1 = tp_cfg t" by auto
      with Cons.IH [OF s(2,3) r(2) [unfolded True]] True Mapped show ?thesis by auto
    next
      case False
      with Cons.IH [OF Cons.prems(1) other r(2)] Mapped show ?thesis by auto
    qed
  next
    case (Unmapped i)
    with Cons.prems(3) have r: "replay es (m(i := None)) = Some m'" by (auto split: if_splits)
    show ?thesis
    proof (cases "i = 0")
      case True
      with on_bar_unmapped_ok [OF Cons.prems(1,2)] obtain t1 bus1 where
        s: "on_bar_unmapped (t, bus) = (t1, bus1)" "mmio_good bus1" "fn_ok k (m(0 := None)) t1 bus1"
          "\<forall>j. j \<noteq> k \<longrightarrow> owned j bus1 = owned j bus" "tp_cfg t1 = tp_cfg t" by auto
      with Cons.IH [OF s(2,3) r [unfolded True]] True Unmapped show ?thesis by auto
    next
      case False
      with Cons.IH [OF Cons.prems(1) other r] Unmapped show ?thesis by auto
    qed
  qed
qed auto

text \<open>
  What a write to a function's configuration space does to its BAR: nothing unless the address its
  registers have mapped changed; then the function is off the bus if nothing is mapped, and else on
  it at the new address, provided there is room.
\<close>

definition bar_answered :: "nat \<Rightarrow> 'd transport \<Rightarrow> virtio_bus \<Rightarrow> 'd transport \<Rightarrow> bool" where
  "bar_answered k t bus t' \<longleftrightarrow>
     (if cfg_view (tp_cfg t') 0 = cfg_view (tp_cfg t) 0 then bar_mapped t' = bar_mapped t \<and> tp_bar_gpa t' = tp_bar_gpa t
      else case cfg_view (tp_cfg t') 0 of
          None \<Rightarrow> \<not> bar_mapped t'
        | Some (g, n) \<Rightarrow> bar_mapped t' = room_at k g bus \<and> (bar_mapped t' \<longrightarrow> tp_bar_gpa t' = g))"

lemma handle_bar_0: "handle_bar_events k es s = handle_bar_events k (filter (\<lambda>e. event_bar e = 0) es) s"
  by (induction k es s rule: handle_bar_events.induct) (auto split: option.split)

lemma transition_answered:
  assumes "mmio_good bus" and "fn_ok k m t bus" and "handle_bar_events k (bar_transition 0 (m 0) v) (t, bus) = Some (t', bus')"
  shows "if v = m 0 then bar_mapped t' = bar_mapped t \<and> tp_bar_gpa t' = tp_bar_gpa t
    else case v of None \<Rightarrow> \<not> bar_mapped t' | Some (g, n) \<Rightarrow> bar_mapped t' = room_at k g bus"
proof -
  obtain t1 bus1 where u: "on_bar_unmapped (t, bus) = (t1, bus1)" "mmio_good bus1" "fn_ok k (m(0 := None)) t1 bus1"
      "\<forall>j. j \<noteq> k \<longrightarrow> owned j bus1 = owned j bus" "\<not> bar_mapped t1"
    using on_bar_unmapped_ok [OF assms(1,2)] by blast
  have map0: "bar_mapped t' = room_at k g bus" if "m 0 = None" "on_bar_mapped k g (t, bus) = Some (t', bus')" for g
    using on_bar_mapped_ok [OF assms(1,2) that(1), of g] that(2) by auto
  have map1: "bar_mapped t' = room_at k g bus" if "on_bar_mapped k g (t1, bus1) = Some (t', bus')" for g
    using on_bar_mapped_ok [OF u(2,3), of g] that room_at_owned [OF u(4)] by auto
  show ?thesis
    using assms(3) u(1,5) map0 map1
    by (cases "m 0"; cases v) (auto simp: bar_transition_def split: option.splits if_splits)
qed

lemma config_write_ok:
  assumes "mmio_good bus" and "bars_wf (tp_cfg t)" and "fn_ok k (cfg_view (tp_cfg t)) t bus" and "sz \<in> {1, 2, 4}"
  shows "\<exists>t' bus'. config_write k off sz val (t, bus) = Some (t', bus') \<and> mmio_good bus' \<and> bars_wf (tp_cfg t') \<and>
    fn_ok k (cfg_view (tp_cfg t')) t' bus' \<and> (\<forall>j. j \<noteq> k \<longrightarrow> owned j bus' = owned j bus) \<and>
    tp_cfg t' = fst (pci_write off sz val (tp_cfg t)) \<and> bar_answered k t bus t'"
proof -
  obtain c ev where w: "pci_write off sz val (tp_cfg t) = (c, ev)" by fastforce
  note r = pci_write_replay [OF assms(2,4) w]
  let ?t = "t\<lparr>tp_cfg := c, tp_msix := set_control (cfg_read16 (tp_cap_off t + 2) c) (tp_msix t)\<rparr>"
  have fn: "fn_ok k (cfg_view (tp_cfg t)) ?t bus"
    using assms(3) by (simp add: fn_ok_def set_control_def cong: if_cong) (simp add: bar_ranges_def msix_ranges_def table_bytes_def pba_bytes_def geometry_def)
  from bar_events_ok [OF assms(1) this conjunct1 [OF r]] obtain t' bus' where
    h: "handle_bar_events k ev (?t, bus) = Some (t', bus')" "mmio_good bus'" "fn_ok k (cfg_view c) t' bus'"
    "\<forall>j. j \<noteq> k \<longrightarrow> owned j bus' = owned j bus" "tp_cfg t' = c" by auto
  have "handle_bar_events k (bar_transition 0 (cfg_view (tp_cfg t) 0) (cfg_view c 0)) (?t, bus) = Some (t', bus')"
    using h(1) unfolding handle_bar_0 [of k ev] pci_write_transition [OF assms(2,4) w zero_less_numeral] .
  note a = transition_answered [OF assms(1) fn this]
  have "bar_answered k t bus t'" unfolding bar_answered_def h(5)
    using a h(3) by (auto simp: fn_ok_def split: option.splits if_splits)
  with r h show ?thesis by (auto simp: config_write_def w Let_def)
qed

section \<open>All functions of a bus\<close>

definition bus_config_write :: "nat \<times> nat \<times> nat \<times> u32 \<Rightarrow> 'd transport list \<times> virtio_bus \<Rightarrow> ('d transport list \<times> virtio_bus) option" where
  "bus_config_write w s = (case w of (k, off, sz, val) \<Rightarrow> case s of (ts, bus) \<Rightarrow>
     if k < length ts
     then (case config_write k off sz val (ts ! k, bus) of None \<Rightarrow> None | Some (t, bus') \<Rightarrow> Some (ts[k := t], bus'))
     else Some (ts, bus))"

fun bus_run :: "(nat \<times> nat \<times> nat \<times> u32) list \<Rightarrow> 'd transport list \<times> virtio_bus \<Rightarrow> ('d transport list \<times> virtio_bus) option" where
  "bus_run [] s = Some s"
| "bus_run (w # ws) s = (case bus_config_write w s of None \<Rightarrow> None | Some s' \<Rightarrow> bus_run ws s')"

definition bus_inv :: "'d transport list \<times> virtio_bus \<Rightarrow> bool" where
  "bus_inv s \<longleftrightarrow> mmio_good (snd s) \<and>
     (\<forall>k < length (fst s). bars_wf (tp_cfg (fst s ! k)) \<and> fn_ok k (cfg_view (tp_cfg (fst s ! k))) (fst s ! k) (snd s))"

lemma fn_ok_cong: "owned k bus' = owned k bus \<Longrightarrow> fn_ok k m t bus' = fn_ok k m t bus"
  by (simp add: fn_ok_def)

lemma bus_config_write_inv:
  assumes "bus_inv s" and "fst (snd (snd w)) \<in> {1, 2, 4}"
  shows "\<exists>s'. bus_config_write w s = Some s' \<and> bus_inv s' \<and> length (fst s') = length (fst s) \<and>
    (\<forall>j \<ge> length (fst s). owned j (snd s') = owned j (snd s))"
proof -
  obtain k off sz val ts bus where ws: "w = (k, off, sz, val)" "s = (ts, bus)" by (cases w, cases s)
  show ?thesis
  proof (cases "k < length ts")
    case True
    then obtain t' bus' where c: "config_write k off sz val (ts ! k, bus) = Some (t', bus')" "mmio_good bus'" "bars_wf (tp_cfg t')"
        "fn_ok k (cfg_view (tp_cfg t')) t' bus'" "\<forall>j. j \<noteq> k \<longrightarrow> owned j bus' = owned j bus"
      using config_write_ok [of bus "ts ! k" k sz off val] assms by (auto simp: bus_inv_def ws)
    have "fn_ok j (cfg_view (tp_cfg (ts ! j))) (ts ! j) bus'" if "j < length ts" "j \<noteq> k" for j
    proof -
      have "owned j bus' = owned j bus" using c(5) that(2) by blast
      then have "fn_ok j m t bus' = fn_ok j m t bus" for m and t :: "'a transport" by (rule fn_ok_cong)
      then show ?thesis using that(1) assms(1) by (simp add: bus_inv_def ws)
    qed
    then have "bus_inv (ts[k := t'], bus')"
      using assms(1) c(2-4) True by (auto simp: bus_inv_def ws nth_list_update)
    with c(1,5) True show ?thesis by (auto simp: bus_config_write_def ws)
  next
    case False
    with assms(1) show ?thesis by (simp add: bus_config_write_def ws)
  qed
qed

lemma bus_run_inv:
  assumes "bus_inv s" and "\<forall>w \<in> set ws. fst (snd (snd w)) \<in> {1, 2, 4}"
  shows "\<exists>s'. bus_run ws s = Some s' \<and> bus_inv s' \<and> length (fst s') = length (fst s) \<and>
    (\<forall>j \<ge> length (fst s). owned j (snd s') = owned j (snd s))"
  using assms
proof (induction ws arbitrary: s)
  case (Cons w ws)
  then obtain s1 where s1: "bus_config_write w s = Some s1" "bus_inv s1" "length (fst s1) = length (fst s)"
      "\<forall>j \<ge> length (fst s). owned j (snd s1) = owned j (snd s)"
    using bus_config_write_inv [of s w] by auto
  with Cons.IH [OF s1(2)] Cons.prems(2) show ?case by auto
qed simp

text \<open>A function as it is built, with at most the 128 vectors whose table fits its place in the BAR.\<close>

definition fresh_function :: "'d transport \<Rightarrow> bool" where
  "fresh_function t \<longleftrightarrow> bars (tp_cfg t) = virtio_bar # replicate 5 bar_default \<and> \<not> bar_mapped t \<and> geometry (tp_msix t)"

lemma bus_inv_fresh:
  fixes ts :: "'d transport list"
  assumes "mmio_good bus" and "\<forall>t \<in> set ts. fresh_function t" and "\<forall>k < length ts. owned k bus = {}"
  shows "bus_inv (ts, bus)"
proof -
  have "bars_wf (tp_cfg t) \<and> fn_ok k (cfg_view (tp_cfg t)) t bus" if "fresh_function t" "owned k bus = {}" for t :: "'d transport" and k
    using that by (simp add: fresh_function_def fn_ok_def bars_wf_def virtio_bar_def bar_default_def list_all_iff)
  then show ?thesis using assms by (auto simp: bus_inv_def)
qed

lemma msix_new_geometry: "msix_new n b t p = Some m \<Longrightarrow> table_offset m = t \<and> pba_offset m = p \<and> num_vectors m = n"
  by (auto simp: msix_new_def split: if_splits)

lemma transport_new_fresh:
  assumes "transport_new dv d opts = Some t" and "opt_num_msix_vectors opts \<le> 128"
  shows "fresh_function t"
proof -
  have "1 \<le> opt_num_msix_vectors opts" using assms(1) by (auto simp: transport_new_def split: if_splits)
  then show ?thesis using transport_new_parts [OF assms(1)] msix_new_geometry [OF transport_new_parts(3) [OF assms(1)]] assms(2)
    by (auto simp: fresh_function_def geometry_def word_le_nat_alt unat_ucast_up)
qed

text \<open>One write: the registers as the configuration space defines, the BAR as they demand, the other functions as they were.\<close>

lemma bus_config_write_answer:
  assumes "bus_inv (ts, bus)" and "k < length ts" and "sz \<in> {1, 2, 4}"
  shows "\<exists>t bus'. bus_config_write (k, off, sz, val) (ts, bus) = Some (ts[k := t], bus') \<and>
    tp_cfg t = fst (pci_write off sz val (tp_cfg (ts ! k))) \<and> bar_answered k (ts ! k) bus t \<and>
    (cfg_command (tp_cfg t) \<noteq> cfg_command (tp_cfg (ts ! k)) \<longrightarrow>
      cfg_view (tp_cfg t) 0 = bar_wanted (cfg_command (tp_cfg t) AND CMD_MEMORY_SPACE \<noteq> 0) (bars (tp_cfg t) ! 0))"
proof -
  have "mmio_good bus" "bars_wf (tp_cfg (ts ! k))" "fn_ok k (cfg_view (tp_cfg (ts ! k))) (ts ! k) bus"
    using assms(1,2) by (simp_all add: bus_inv_def)
  from config_write_ok [OF this assms(3), of off val] pci_write_replay [OF this(2) assms(3), of off val] assms(2)
  show ?thesis by (auto simp: bus_config_write_def prod_eq_iff)
qed

text \<open>
  C7. Guest-controlled BARs are harmless and effective: from freshly built functions beside any other
  devices on the MMIO bus, every sequence of configuration writes of the guest is carried out without a
  panic. At every point the ranges on the bus are disjoint, those of the other devices are as they were,
  and a function claims either nothing or exactly its six ranges, inside the PCI window and at the
  address its registers have mapped; each of their addresses is routed to that region of that function,
  and an address routed to a function lies in its BAR. And each further write does what it says: it
  changes the function's registers as the configuration space defines and no other function; a change of
  COMMAND maps the programmed address or unmaps it, as the memory bit says; when the write
  changes the address the registers have mapped, the function leaves the bus if they map nothing, and
  else is on the bus at the new address exactly if that lies in the window and clear of the ranges of
  everybody else; otherwise it stays as it was.
\<close>

theorem virtio_bars_share_the_bus:
  assumes "mmio_good bus" and "\<forall>t \<in> set ts. fresh_function t" and "\<forall>k < length ts. owned k bus = {}"
    and "\<forall>w \<in> set ws. fst (snd (snd w)) \<in> {1, 2, 4}"
  shows "\<exists>ts' bus'. bus_run ws (ts, bus) = Some (ts', bus') \<and> length ts' = length ts \<and> mmio_good bus' \<and>
    (\<forall>j \<ge> length ts. owned j bus' = owned j bus) \<and>
    (\<forall>k < length ts. owned k bus' = claimed k (ts' ! k) \<and>
      (bar_mapped (ts' ! k) \<longrightarrow> in_window (tp_bar_gpa (ts' ! k)) \<and>
        map_option fst (cfg_view (tp_cfg (ts' ! k)) 0) = Some (tp_bar_gpa (ts' ! k)) \<and>
        (\<forall>r \<in> set (bar_ranges k (tp_bar_gpa (ts' ! k)) (tp_msix (ts' ! k))). \<forall>a \<in> addrs (range_of r).
          mmio_route bus' a = Some (me_handler (range_entry r)))) \<and>
      (\<forall>a r. mmio_route bus' a = Some (k, r) \<longrightarrow> bar_mapped (ts' ! k) \<and> a \<in> addrs (unat (tp_bar_gpa (ts' ! k)), 0x4000)) \<and>
      (\<forall>off sz val. sz \<in> {1, 2, 4} \<longrightarrow> (\<exists>t bus2. bus_config_write (k, off, sz, val) (ts', bus') = Some (ts'[k := t], bus2) \<and>
        tp_cfg t = fst (pci_write off sz val (tp_cfg (ts' ! k))) \<and> bar_answered k (ts' ! k) bus' t \<and>
        (cfg_command (tp_cfg t) \<noteq> cfg_command (tp_cfg (ts' ! k)) \<longrightarrow>
          cfg_view (tp_cfg t) 0 = bar_wanted (cfg_command (tp_cfg t) AND CMD_MEMORY_SPACE \<noteq> 0) (bars (tp_cfg t) ! 0)))))"
proof -
  obtain ts' bus' where s: "bus_run ws (ts, bus) = Some (ts', bus')" "bus_inv (ts', bus')" "length ts' = length ts"
      "\<forall>j \<ge> length ts. owned j bus' = owned j bus"
    using bus_run_inv [OF bus_inv_fresh [OF assms(1-3)] assms(4)] by auto
  have fn: "fn_ok k (cfg_view (tp_cfg (ts' ! k))) (ts' ! k) bus'" if "k < length ts" for k
    using s(2,3) that by (simp add: bus_inv_def)
  have good: "mmio_good bus'" using s(2) by (simp add: bus_inv_def)
  have route: "mmio_route bus' a = Some (me_handler (range_entry r))"
    if "k < length ts" "bar_mapped (ts' ! k)" "r \<in> set (bar_ranges k (tp_bar_gpa (ts' ! k)) (tp_msix (ts' ! k)))" "a \<in> addrs (range_of r)" for k r a
  proof (rule mmio_good_route [OF good])
    show "range_entry r \<in> set bus'" using fn [OF that(1)] that(2,3) by (auto simp: fn_ok_def owned_def)
    show "a \<in> addrs (entry_range (range_entry r))" using that(4) by simp
  qed
  have within: "bar_mapped (ts' ! k) \<and> a \<in> addrs (unat (tp_bar_gpa (ts' ! k)), 0x4000)"
    if k: "k < length ts" and a: "mmio_route bus' a = Some (k, r)" for k a r
  proof -
    obtain e where e: "e \<in> set bus'" "me_handler e = (k, r)" "unat (me_base e) \<le> a" "a < unat (me_base e) + unat (me_size e)"
      using a by (auto simp: mmio_route_def find_Some_iff) (metis nth_mem)
    then have "e \<in> owned k bus'" by (simp add: owned_def)
    then have "e \<in> claimed k (ts' ! k)" using fn [OF k] by (simp only: fn_ok_def)
    then obtain x where x: "bar_mapped (ts' ! k)" "x \<in> set (bar_ranges k (tp_bar_gpa (ts' ! k)) (tp_msix (ts' ! k)))" "e = range_entry x"
      by (auto split: if_splits)
    then have "geometry (tp_msix (ts' ! k))" "in_window (tp_bar_gpa (ts' ! k))" using fn [OF k] by (simp_all add: fn_ok_def)
    from bar_ranges_inside(2,3) [OF this x(2)] e x show ?thesis by auto
  qed
  have win: "in_window (tp_bar_gpa (ts' ! k))" "map_option fst (cfg_view (tp_cfg (ts' ! k)) 0) = Some (tp_bar_gpa (ts' ! k))"
    if "k < length ts" "bar_mapped (ts' ! k)" for k
    using fn [OF that(1)] that(2) by (simp_all add: fn_ok_def)
  have own: "owned k bus' = claimed k (ts' ! k)" if "k < length ts" for k using fn [OF that] by (simp only: fn_ok_def)
  have step: "\<exists>t bus2. bus_config_write (k, off, sz, val) (ts', bus') = Some (ts'[k := t], bus2) \<and>
      tp_cfg t = fst (pci_write off sz val (tp_cfg (ts' ! k))) \<and> bar_answered k (ts' ! k) bus' t \<and>
      (cfg_command (tp_cfg t) \<noteq> cfg_command (tp_cfg (ts' ! k)) \<longrightarrow>
        cfg_view (tp_cfg t) 0 = bar_wanted (cfg_command (tp_cfg t) AND CMD_MEMORY_SPACE \<noteq> 0) (bars (tp_cfg t) ! 0))"
    if "k < length ts" "sz \<in> {1, 2, 4}" for k off sz val
    using bus_config_write_answer [OF s(2) _ that(2)] that(1) s(3) by simp
  show ?thesis
    by (intro exI [of _ ts'] exI [of _ bus'] conjI allI impI ballI)
      (rule s(1,3) good s(4) [rule_format] own win route within [THEN conjunct1] within [THEN conjunct2] step; assumption)+
qed

text \<open>
  Two functions as they come out of the transport's constructor. The guest programs BAR 0 of the first in
  the window and switches memory decoding on: the function is on the bus and its registers are routed.
  The second, programmed to the same address, stays off it.
\<close>

definition demo_function :: "unit transport" where
  "demo_function = \<lparr>tp_device = (), tp_msix = the (msix_new 2 0 OFF_MSIX_TABLE OFF_MSIX_PBA), tp_cap_off = 0x84,
     tp_cfg = the (transport_cfg 4 \<lparr>opt_vendor_id = 0x1AF4, opt_sub_vendor_id = 0x1AF4, opt_sub_id = 0,
       opt_num_msix_vectors = 2, opt_pci_class = 0xFF, opt_pci_subclass = 0\<rparr>),
     tp_common = common_new 1, isr_status = 0, tp_bar_gpa = 0, bar_mapped = False, notify_count = 0\<rparr>"

lemma demo_fresh: "fresh_function demo_function"
proof -
  have "bars (tp_cfg demo_function) = virtio_bar # replicate 5 bar_default" by code_simp
  then show ?thesis by (simp add: fresh_function_def geometry_def demo_function_def msix_new_def)
qed

lemma demo_views:
  "cfg_view (tp_cfg demo_function) 0 = None"
  "cfg_view (fst (pci_write 0x10 4 0xE0000000 (tp_cfg demo_function))) 0 = None"
  "cfg_view (fst (pci_write 4 2 2 (fst (pci_write 0x10 4 0xE0000000 (tp_cfg demo_function))))) 0 = Some (0xE0000000, 0x4000)"
  by code_simp+

theorem virtio_bars_share_the_bus_witness:
  "\<exists>t2 t3 t4 bus2 bus4. bus_run [(0, 0x10, 4, 0xE0000000), (0, 4, 2, 2)] ([demo_function, demo_function], []) = Some ([t2, demo_function], bus2) \<and>
     bar_mapped t2 \<and> tp_bar_gpa t2 = 0xE0000000 \<and> mmio_route bus2 0xE0000014 = Some (0, RCommon) \<and>
     bus_run [(0, 0x10, 4, 0xE0000000), (0, 4, 2, 2), (1, 0x10, 4, 0xE0000000), (1, 4, 2, 2)]
       ([demo_function, demo_function], []) = Some ([t2, t4], bus4) \<and> \<not> bar_mapped t4"
proof -
  let ?f = demo_function and ?w1 = "\<lambda>k. (k, 0x10, 4, 0xE0000000)" and ?w2 = "\<lambda>k. (k, 4, 2, 2)" and ?s = "([demo_function, demo_function], [])"
  have "mmio_good ([] :: virtio_bus)" "\<forall>t \<in> set [?f, ?f]. fresh_function t" "\<forall>k < length [?f, ?f]. owned k [] = {}"
    using demo_fresh by (simp_all add: mmio_good_def owned_def)
  note T = virtio_bars_share_the_bus [OF this]
  have own: "owned k bus = (if k < 2 then claimed k (ts ! k) else {})"
    if "bus_run ws ?s = Some (ts, bus)" "\<forall>w \<in> set ws. fst (snd (snd w)) \<in> {1, 2, 4}" for ws ts bus k
    using T [OF that(2)] that(1) by (auto simp: owned_def)
  have step: "\<exists>t b. bus_config_write (k, off, sz, val) (ts, bus) = Some (ts[k := t], b) \<and>
      tp_cfg t = fst (pci_write off sz val (tp_cfg (ts ! k))) \<and> bar_answered k (ts ! k) bus t"
    if "bus_run ws ?s = Some (ts, bus)" "\<forall>w \<in> set ws. fst (snd (snd w)) \<in> {1, 2, 4}" "k < length [?f, ?f]" "sz \<in> {1, 2, 4}" for ws ts bus k off sz val
    using T [OF that(2)] that(3,4) unfolding that(1) option.inject prod.inject by blast
  obtain t1 b1 where 1: "bus_config_write (?w1 0) ?s = Some ([t1, ?f], b1)" "tp_cfg t1 = fst (pci_write 0x10 4 0xE0000000 (tp_cfg ?f))" "bar_answered 0 ?f [] t1"
    using step [of "[]" "[?f, ?f]" "[]" 0 4 "0x10" "0xE0000000"] by auto
  have off: "\<not> bar_mapped ?f" by (simp add: demo_function_def)
  with 1 have off1: "\<not> bar_mapped t1" by (simp add: bar_answered_def demo_views)
  have r1: "bus_run [?w1 0] ?s = Some ([t1, ?f], b1)" using 1(1) by simp
  have "owned k b1 = {}" for k using own [OF r1, of k] off off1 by (auto simp: nth_Cons split: nat.splits)
  then have "e \<notin> set b1" for e unfolding owned_def by blast
  then have b1: "b1 = []" by (cases b1) auto
  obtain t2 b2 where 2: "bus_config_write (?w2 0) ([t1, ?f], b1) = Some ([t2, ?f], b2)" "tp_cfg t2 = fst (pci_write 4 2 2 (tp_cfg t1))" "bar_answered 0 t1 b1 t2"
    using step [OF r1, of 0 2 4 2] by auto
  then have on: "bar_mapped t2" "tp_bar_gpa t2 = 0xE0000000"
    by (simp_all add: bar_answered_def 1(2) demo_views b1 room_at_def in_window_def)
  have r2: "bus_run [?w1 0, ?w2 0] ?s = Some ([t2, ?f], b2)" using 1(1) 2(1) by simp
  obtain t3 b3 where 3: "bus_config_write (?w1 1) ([t2, ?f], b2) = Some ([t2, t3], b3)" "tp_cfg t3 = fst (pci_write 0x10 4 0xE0000000 (tp_cfg ?f))"
    using step [OF r2, of 1 4 "0x10" "0xE0000000"] by auto
  have r3: "bus_run [?w1 0, ?w2 0, ?w1 1] ?s = Some ([t2, t3], b3)" using 1(1) 2(1) 3(1) by simp
  obtain t4 b4 where 4: "bus_config_write (?w2 1) ([t2, t3], b3) = Some ([t2, t4], b4)" "tp_cfg t4 = fst (pci_write 4 2 2 (tp_cfg t3))" "bar_answered 1 t3 b3 t4"
    using step [OF r3, of 1 2 4 2] by auto
  define r where "r = (0xE0000000 :: u64, 0x40 :: u64, ''virtio:common'', 0 :: nat, RCommon)"
  have r: "r \<in> set (bar_ranges 0 (tp_bar_gpa t2) (tp_msix t2))" by (simp add: bar_ranges_def r_def on)
  have "room_at 1 0xE0000000 b3 = False"
  proof -
    have "range_entry r \<in> set b3" using own [OF r3, of 0] r on(1) by (auto simp: owned_def)
    then show ?thesis by (force simp: room_at_def range_entry_def r_def disjoint_ranges_def)
  qed
  then have "\<not> bar_mapped t4" using 4(3) by (simp add: bar_answered_def 4(2) 3(2) demo_views)
  moreover have "mmio_route b2 0xE0000014 = Some (0, RCommon)"
    using T [of "[?w1 0, ?w2 0]"] r2 r on(1) by (auto simp: range_of_def range_entry_def r_def dest!: spec [of _ "0 :: nat"])
  moreover have "bus_run [?w1 0, ?w2 0, ?w1 1, ?w2 1] ?s = Some ([t2, t4], b4)" using 1(1) 2(1) 3(1) 4(1) by simp
  ultimately show ?thesis using r2 on by blast
qed

end
