(* ===== verification/Byte_Reader.thy ===== *)
theory Byte_Reader
  imports Vmm_Prelude
begin

text \<open>
  The cursor that decodes little-endian snapshots (\<^verbatim>\<open>LeR\<close> in \<^verbatim>\<open>src/virtio/transport.rs\<close>) and what a
  decoder built from it keeps. A read past the end of the buffer is a panic of the slice access, which
  \<open>Panic\<close> stands for; \<open>Reject\<close> is the decoder's own \<^verbatim>\<open>return None\<close>. The lemmas compose: a decoder reads back
  what an encoder wrote field by field, and does not panic when every run of reads stands behind a
  check of its length.
\<close>

datatype 'a read_result = Panic | Reject | Got 'a nat

type_synonym 'a reader = "bytes \<Rightarrow> nat \<Rightarrow> 'a read_result"

definition rd_ret :: "'a \<Rightarrow> 'a reader" where
  "rd_ret x b p = Got x p"

definition rd_fail :: "'a reader" where
  "rd_fail b p = Reject"

definition rd_bind :: "'a reader \<Rightarrow> ('a \<Rightarrow> 'b reader) \<Rightarrow> 'b reader" where
  "rd_bind r f b p = (case r b p of Panic \<Rightarrow> Panic | Reject \<Rightarrow> Reject | Got x p' \<Rightarrow> f x b p')"

definition rd_need :: "nat \<Rightarrow> 'a reader \<Rightarrow> 'a reader" where
  "rd_need n r b p = (if p + n \<le> length b then r b p else Reject)"

definition rd_take :: "nat \<Rightarrow> bytes reader" where
  "rd_take n b p = (if p + n \<le> length b then Got (byte_range b p n) (p + n) else Panic)"

definition rd_word :: "nat \<Rightarrow> 'a::len word reader" where
  "rd_word n = rd_bind (rd_take n) (\<lambda>bs. rd_ret (le_decode bs))"

abbreviation rd_u8 :: "u8 reader" where "rd_u8 \<equiv> rd_word 1"
abbreviation rd_u16 :: "u16 reader" where "rd_u16 \<equiv> rd_word 2"
abbreviation rd_u32 :: "u32 reader" where "rd_u32 \<equiv> rd_word 4"
abbreviation rd_u64 :: "u64 reader" where "rd_u64 \<equiv> rd_word 8"

text \<open>A loop that reads \<open>n\<close> items.\<close>

primrec rd_times :: "nat \<Rightarrow> 'a reader \<Rightarrow> 'a list reader" where
  "rd_times 0 r = rd_ret []"
| "rd_times (Suc n) r = rd_bind r (\<lambda>x. rd_bind (rd_times n r) (\<lambda>xs. rd_ret (x # xs)))"

section \<open>Reading back what was written\<close>

definition reads :: "'a reader \<Rightarrow> bytes \<Rightarrow> 'a \<Rightarrow> bool" where
  "reads r bs x \<longleftrightarrow> (\<forall>pre post. r (pre @ bs @ post) (length pre) = Got x (length pre + length bs))"

lemma reads_ret [intro]: "reads (rd_ret x) [] x"
  by (simp add: reads_def rd_ret_def)

lemma reads_bind [intro]:
  assumes "reads r bs x" and "reads (f x) cs y"
  shows "reads (rd_bind r f) (bs @ cs) y"
proof -
  have "r (pre @ bs @ cs @ post) (length pre) = Got x (length pre + length bs)" for pre post
    using assms(1) by (auto simp: reads_def)
  moreover have "f x (pre @ bs @ cs @ post) (length pre + length bs) = Got y (length pre + length bs + length cs)" for pre post
    using assms(2) unfolding reads_def by (metis append_assoc length_append)
  ultimately show ?thesis by (simp add: reads_def rd_bind_def add.assoc)
qed

lemma reads_bind_ret: "reads r bs x \<Longrightarrow> reads (rd_bind r (\<lambda>x. rd_ret (f x))) bs (f x)"
  using reads_bind [of r bs x "\<lambda>x. rd_ret (f x)" "[]" "f x"] reads_ret by auto

lemma reads_need: "reads r bs x \<Longrightarrow> n \<le> length bs \<Longrightarrow> reads (rd_need n r) bs x"
  by (simp add: reads_def rd_need_def)

lemma reads_take: "length bs = n \<Longrightarrow> reads (rd_take n) bs bs"
  by (auto simp: reads_def rd_take_def slice_simps)

lemma reads_word: "8 * n = LENGTH('a) \<Longrightarrow> reads (rd_word n) (le_encode n w) (w :: 'a::len word)"
  unfolding rd_word_def using reads_bind_ret [OF reads_take, of "le_encode n w" n "le_decode :: bytes \<Rightarrow> 'a word"] by simp

lemma reads_times: "list_all (\<lambda>x. reads r (enc x) x) xs \<Longrightarrow> n = length xs \<Longrightarrow> reads (rd_times n r) (concat (map enc xs)) xs"
proof (induction xs arbitrary: n)
  case (Cons x xs)
  then have "reads (rd_times (length xs) r) (concat (map enc xs)) xs" by simp
  then have "reads (rd_bind r (\<lambda>x. rd_bind (rd_times (length xs) r) (\<lambda>xs. rd_ret (x # xs)))) (enc x @ concat (map enc xs)) (x # xs)"
    using Cons.prems by (intro reads_bind [of r "enc x" x] reads_bind_ret) simp_all
  then show ?case using Cons.prems(2) by simp
qed (simp add: reads_ret)

section \<open>Never panicking\<close>

text \<open>A run of reads of \<open>n\<close> bytes, and a decoder that stays inside the buffer.\<close>

definition reads_exactly :: "nat \<Rightarrow> 'a reader \<Rightarrow> bool" where
  "reads_exactly n r \<longleftrightarrow> (\<forall>b p. p + n \<le> length b \<longrightarrow> (\<exists>x. r b p = Got x (p + n)))"

definition no_panic :: "'a reader \<Rightarrow> bool" where
  "no_panic r \<longleftrightarrow> (\<forall>b p. p \<le> length b \<longrightarrow> (case r b p of Panic \<Rightarrow> False | Reject \<Rightarrow> True | Got x p' \<Rightarrow> p' \<le> length b))"

lemma reads_exactly_bind: "reads_exactly m r \<Longrightarrow> (\<And>x. reads_exactly n (f x)) \<Longrightarrow> reads_exactly (m + n) (rd_bind r f)"
proof -
  assume r: "reads_exactly m r" and f: "\<And>x. reads_exactly n (f x)"
  have "\<exists>y. rd_bind r f b p = Got y (p + (m + n))" if le: "p + (m + n) \<le> length b" for b p
  proof -
    obtain x where x: "r b p = Got x (p + m)" using r le unfolding reads_exactly_def by fastforce
    obtain y where "f x b (p + m) = Got y (p + m + n)" using f [of x] le unfolding reads_exactly_def by fastforce
    with x show ?thesis by (simp add: rd_bind_def add.assoc)
  qed
  then show ?thesis by (simp add: reads_exactly_def)
qed

lemma reads_exactly_ret: "reads_exactly 0 (rd_ret x)"
  by (simp add: reads_exactly_def rd_ret_def)

lemma reads_exactly_take: "reads_exactly n (rd_take n)"
  by (simp add: reads_exactly_def rd_take_def)

lemma reads_exactly_word: "reads_exactly n (rd_word n :: 'a::len word reader)"
  unfolding rd_word_def using reads_exactly_bind [OF reads_exactly_take reads_exactly_ret, of n] by simp

lemma reads_exactly_times: "reads_exactly n r \<Longrightarrow> reads_exactly (k * n) (rd_times k r)"
proof (induction k)
  case (Suc k)
  have "reads_exactly (k * n + 0) (rd_bind (rd_times k r) (\<lambda>xs. rd_ret (x # xs)))" for x
    by (rule reads_exactly_bind) (use Suc in \<open>simp_all add: reads_exactly_ret\<close>)
  then show ?case using Suc.prems by (simp add: reads_exactly_bind)
qed (simp add: reads_exactly_ret)

lemma no_panic_ret: "no_panic (rd_ret x)" and no_panic_fail: "no_panic rd_fail"
  by (simp_all add: no_panic_def rd_ret_def rd_fail_def)

lemma no_panic_bind:
  assumes "no_panic r" and "\<And>x. no_panic (f x)"
  shows "no_panic (rd_bind r f)"
  unfolding no_panic_def
proof (intro allI impI)
  fix b :: bytes and p :: nat
  assume p: "p \<le> length b"
  show "case rd_bind r f b p of Panic \<Rightarrow> False | Reject \<Rightarrow> True | Got x p' \<Rightarrow> p' \<le> length b"
  proof (cases "r b p")
    case (Got x p')
    then have "p' \<le> length b" using assms(1) p unfolding no_panic_def by force
    with Got assms(2) [of x] show ?thesis by (simp add: rd_bind_def no_panic_def)
  next
    case Panic
    then show ?thesis using assms(1) p unfolding no_panic_def by force
  qed (simp add: rd_bind_def)
qed

lemma no_panic_need:
  assumes "reads_exactly n r" and "\<And>x. no_panic (f x)"
  shows "no_panic (rd_need n (rd_bind r f))"
  unfolding no_panic_def
proof (intro allI impI)
  fix b :: bytes and p :: nat
  assume "p \<le> length b"
  show "case rd_need n (rd_bind r f) b p of Panic \<Rightarrow> False | Reject \<Rightarrow> True | Got x p' \<Rightarrow> p' \<le> length b"
  proof (cases "p + n \<le> length b")
    case True
    then obtain x where "r b p = Got x (p + n)" using assms(1) by (auto simp: reads_exactly_def)
    with True assms(2) [of x] show ?thesis by (simp add: rd_need_def rd_bind_def no_panic_def)
  qed (simp add: rd_need_def)
qed

lemma no_panic_times: "no_panic r \<Longrightarrow> no_panic (rd_times k r)"
  by (induction k) (simp_all add: no_panic_ret no_panic_bind)

end
