(* ===== verification/Virtq_Chains.thy ===== *)
theory Virtq_Chains
  imports Virtqueue
begin

text \<open>
  What the devices share in serving a queue (\<^verbatim>\<open>src/virtio/queue.rs\<close>): which bytes of RAM an operation may
  change, the round of popping a chain and returning it, for a driver that keeps its rings, tables and
  buffers apart, and which elements the driver then finds in the used ring.
\<close>

section \<open>Which bytes change\<close>

text \<open>\<open>only_at S gm gm'\<close>: the memory is still well formed and differs at most at the offsets \<open>S\<close>.\<close>

definition only_at :: "nat set \<Rightarrow> guest_memory \<Rightarrow> guest_memory \<Rightarrow> bool" where
  "only_at S gm gm' \<longleftrightarrow> (\<exists>r. gm' = gm\<lparr>gm_ram := r\<rparr> \<and> length r = length (gm_ram gm) \<and>
     (\<forall>i < length (gm_ram gm). i \<notin> S \<longrightarrow> r ! i = gm_ram gm ! i))"

lemma only_at_refl: "only_at S gm gm"
  unfolding only_at_def by (rule exI [of _ "gm_ram gm"]) simp

lemma only_at_trans: "only_at S gm gm' \<Longrightarrow> only_at T gm' gm'' \<Longrightarrow> only_at (S \<union> T) gm gm''"
  by (auto simp: only_at_def)

lemma only_at_mono: "only_at S gm gm' \<Longrightarrow> S \<subseteq> T \<Longrightarrow> only_at T gm gm'"
  by (auto simp: only_at_def)

lemma only_at_wf: "only_at S gm gm' \<Longrightarrow> wf_mem gm' = wf_mem gm"
  by (auto simp: only_at_def wf_mem_def split: option.splits)

lemma only_at_size: "only_at S gm gm' \<Longrightarrow> gm_size gm' = gm_size gm"
  by (auto simp: only_at_def)

lemma only_at_buf: "only_at S gm gm' \<Longrightarrow> buf_in_ram gm' b = buf_in_ram gm b"
  by (simp add: buf_in_ram_def only_at_size)

abbreviation buf_span :: "chain_buf \<Rightarrow> nat set" where "buf_span b \<equiv> {cb_ptr b..<cb_ptr b + cb_len b}"

lemma only_at_write:
  assumes "wf_mem gm" and "buf_in_ram gm b"
  shows "only_at (buf_span b) gm (fst (cb_write_at gm b off src))"
  using assms unfolding only_at_def
  by (intro exI [of _ "gm_ram (fst (cb_write_at gm b off src))"])
    (auto simp: cb_write_at_def buf_in_ram_def wf_mem_def length_overwrite nth_overwrite Let_def)

abbreviation writable_len :: "chain_buf list \<Rightarrow> nat" where
  "writable_len bs \<equiv> sum_list (map cb_len (filter cb_write bs))"

abbreviation writable_span :: "chain_buf list \<Rightarrow> nat set" where
  "writable_span bs \<equiv> (\<Union>b \<in> {b \<in> set bs. cb_write b}. buf_span b)"

lemma vq_push_ok:
  assumes "vq_ok q" and "wf_mem gm"
  shows "case vq_push head len (q, gm) of None \<Rightarrow> False
    | Some (q', gm') \<Rightarrow> vq_ok q' \<and> max_size q' = max_size q \<and> last_avail q' = last_avail q \<and> wf_mem gm'"
  using assms ucast_size_zero [OF assms(1)]
  by (auto simp: vq_push_def add_used_def publish_used_def store_used_ring_def store_used_idx_def store_release_u16_eq
      vq_ok_def Let_def intro!: write_bytes_wf)

text \<open>Popping from a queue of any shape and pushing to it, in the form the devices use.\<close>

lemma pop_fresh:
  assumes "wf_mem gm" and "vq_ok q"
  shows "\<exists>q' gm' ch r. pop_into q gm \<lparr>head_index = 0, bufs = []\<rparr> = Some (q', gm', ch, r) \<and> vq_ok q' \<and>
    max_size q' = max_size q \<and> wf_mem gm' \<and> (\<forall>b \<in> set (bufs ch). buf_in_ram gm' b) \<and>
    gm_size gm' = gm_size gm \<and> length (bufs ch) < 2 ^ 16"
proof -
  obtain q' gm' ch r where p: "pop_into q gm \<lparr>head_index = 0, bufs = []\<rparr> = Some (q', gm', ch, r)"
      "vq_ok q'" "bufs_ok gm' (vq_size q) (bufs ch)" "q' = q\<lparr>last_avail := last_avail q'\<rparr>" "wf_mem gm'" "gm_size gm' = gm_size gm"
    using pop_into_spec [OF assms, of "\<lparr>head_index = 0, bufs = []\<rparr>"] by (fastforce simp: same_but_def split: option.splits)
  have "max_size (q\<lparr>last_avail := x\<rparr>) = max_size q" for x by simp
  then have "max_size q' = max_size q" using p(4) by metis
  moreover have "unat (vq_size q) < 2 ^ 16" using vq_ok_size [OF assms(2)] .
  then have "length (bufs ch) < 2 ^ 16" using p(3) unfolding bufs_ok_def by (meson le_less_trans)
  ultimately show ?thesis using p by (auto simp: bufs_ok_def)
qed

lemma push_any:
  assumes "vq_ok q" and "wf_mem gm"
  shows "\<exists>q' gm'. vq_push h n (q, gm) = Some (q', gm') \<and> vq_ok q' \<and> max_size q' = max_size q \<and> wf_mem gm'"
  using vq_push_ok [OF assms, of h n] by (auto split: option.splits)

text \<open>The two fields by which driver and device tell each other how far they are do not overlap.\<close>

definition kick_apart :: "virtqueue \<Rightarrow> bool" where
  "kick_apart q \<longleftrightarrow> unat (avail_gpa q + 2) + 2 \<le> unat (avail_event_gpa q) \<or> unat (avail_event_gpa q) + 2 \<le> unat (avail_gpa q + 2)"

lemma avail_idx_armed:
  assumes "wf_mem gm" and "kick_apart q"
  shows "avail_idx q (store_avail_event q gm v) = avail_idx q gm"
proof -
  have "read_into (store_avail_event q gm v) (avail_gpa q + 2) 2 = read_into gm (avail_gpa q + 2) 2"
    using same_but_store_avail_event [OF assms(1), of q v] assms(2) by (auto simp: same_but_def kick_apart_def)
  then show ?thesis by (simp add: avail_idx_def load_acquire_u16_eq)
qed

section \<open>The bytes a queue writes\<close>

text \<open>The host bytes behind a range of guest-physical addresses: none when it is not mapped.\<close>

definition gpa_span :: "guest_memory \<Rightarrow> u64 \<Rightarrow> nat \<Rightarrow> nat set" where
  "gpa_span gm a n = (case host_range gm a (of_nat n) of None \<Rightarrow> {} | Some off \<Rightarrow> {off..<off + n})"

lemma host_range_only_at: "only_at S gm gm' \<Longrightarrow> host_range gm' a n = host_range gm a n"
  by (auto simp: only_at_def)

lemma gpa_span_only_at: "only_at S gm gm' \<Longrightarrow> gpa_span gm' a n = gpa_span gm a n"
  by (simp add: gpa_span_def host_range_only_at)

lemma only_at_write_bytes:
  assumes "wf_mem gm" and "length bs < 2 ^ 64"
  shows "only_at (gpa_span gm a (length bs)) gm (fst (write_bytes gm a bs))"
proof (cases "host_range gm a (of_nat (length bs))")
  case None
  then show ?thesis by (simp add: write_bytes_def only_at_refl)
next
  case (Some off)
  with assms have "off + length bs \<le> length (gm_ram gm)" by (intro host_range_bound)
  then show ?thesis using Some unfolding only_at_def
    by (intro exI [of _ "overwrite (gm_ram gm) off bs"]) (auto simp: write_bytes_def gpa_span_def length_overwrite nth_overwrite)
qed

lemma only_at_range:
  assumes "only_at S gm gm'" and "{p..<p + n} \<inter> S = {}" and "p + n \<le> length (gm_ram gm)"
  shows "byte_range (gm_ram gm') p n = byte_range (gm_ram gm) p n"
  using assms by (intro nth_equalityI) (auto simp: only_at_def nth_byte_range disjoint_iff)

lemma read_only_at:
  assumes "only_at S gm gm'" and "wf_mem gm" and "n < 2 ^ 64" and "gpa_span gm a n \<inter> S = {}"
  shows "read_into gm' a n = read_into gm a n"
proof (cases "host_range gm a (of_nat n)")
  case None
  then show ?thesis using host_range_only_at [OF assms(1)] by (simp add: read_into_def)
next
  case (Some off)
  with assms show ?thesis
    using only_at_range [OF assms(1), of off n] host_range_bound [of gm a n off]
    by (simp add: read_into_def host_range_only_at [OF assms(1)] gpa_span_def)
qed

definition used_cells :: "virtqueue \<Rightarrow> guest_memory \<Rightarrow> nat set" where
  "used_cells q gm = gpa_span gm (used_gpa q + 2) 2 \<union> gpa_span gm (avail_event_gpa q) 2 \<union>
     (\<Union>s :: u16 \<in> {s. s < ucast (vq_size q)}. gpa_span gm (used_gpa q + 4 + 8 * ucast s) 8)"

lemma used_cells_only_at: "only_at S gm gm' \<Longrightarrow> used_cells q gm' = used_cells q gm"
  by (simp add: used_cells_def gpa_span_only_at)

lemma used_cells_upd [simp]:
  "used_cells (q\<lparr>last_avail := x\<rparr>) gm = used_cells q gm" "used_cells (q\<lparr>last_used_idx := x\<rparr>) gm = used_cells q gm"
  by (simp_all add: used_cells_def avail_event_gpa_def)

lemma only_at_avail_event: "wf_mem gm \<Longrightarrow> only_at (used_cells q gm) gm (store_avail_event q gm v)"
  using only_at_write_bytes [of gm "le16 v" "avail_event_gpa q"]
  by (auto simp: store_avail_event_def store_release_u16_eq avail_event_gpa_def used_cells_def elim: only_at_mono)

lemma vq_push_only_at:
  assumes "wf_mem gm" and "vq_ok q" and "vq_ready q" and "vq_size q \<noteq> 0"
  shows "\<exists>gm'. vq_push h n (q, gm) = Some (q\<lparr>last_used_idx := last_used_idx q + 1\<rparr>, gm') \<and> only_at (used_cells q gm) gm gm'"
proof -
  let ?q = "q\<lparr>last_used_idx := last_used_idx q + 1\<rparr>"
  let ?s = "last_used_idx q mod ucast (vq_size q)"
  let ?gm1 = "store_used_ring q gm ?s (ucast h) n"
  let ?gm2 = "store_used_idx ?q ?gm1 (last_used_idx q + 1)"
  have nz: "(ucast (vq_size q) :: u16) \<noteq> 0" using assms(2,4) by (rule ucast_size_zero)
  have "?s < ucast (vq_size q)" using nz by (simp add: word_mod_less_divisor word_gt_0)
  then have "gpa_span gm (used_gpa q + 4 + 8 * ucast ?s) 8 \<subseteq> used_cells q gm" by (auto simp: used_cells_def)
  then have w1: "only_at (used_cells q gm) gm ?gm1"
    using only_at_write_bytes [OF assms(1), of "le32 (ucast h) @ le32 n" "used_gpa q + 4 + 8 * ucast ?s"]
    by (auto simp: store_used_ring_def elim: only_at_mono)
  moreover have "only_at (used_cells q gm) ?gm1 ?gm2"
    using only_at_write_bytes [of ?gm1 "le16 (last_used_idx q + 1)" "used_gpa q + 2"] assms(1) only_at_wf [OF w1] gpa_span_only_at [OF w1]
    by (auto simp: store_used_idx_def store_release_u16_eq used_cells_def elim: only_at_mono)
  ultimately have "only_at (used_cells q gm) gm ?gm2" using only_at_trans by fastforce
  then show ?thesis using assms nz by (auto simp: vq_push_def add_used_def publish_used_def Let_def)
qed

section \<open>What the buffers hold\<close>

abbreviation buf_bytes :: "guest_memory \<Rightarrow> chain_buf \<Rightarrow> bytes" where
  "buf_bytes gm b \<equiv> byte_range (gm_ram gm) (cb_ptr b) (cb_len b)"

text \<open>What the device may read of a chain, and the room it may write to, in order.\<close>

definition readable :: "guest_memory \<Rightarrow> chain_buf list \<Rightarrow> bytes" where
  "readable gm bs = concat (map (buf_bytes gm) (filter (\<lambda>b. \<not> cb_write b) bs))"

definition landing :: "guest_memory \<Rightarrow> chain_buf list \<Rightarrow> bytes" where
  "landing gm bs = concat (map (buf_bytes gm) (filter cb_write bs))"

abbreviation readable_len :: "chain_buf list \<Rightarrow> nat" where
  "readable_len bs \<equiv> sum_list (map cb_len (filter (\<lambda>b. \<not> cb_write b) bs))"

lemma length_landing:
  "wf_mem gm \<Longrightarrow> \<forall>b \<in> set bs. buf_in_ram gm b \<Longrightarrow> length (landing gm bs) = writable_len bs"
  by (induction bs) (auto simp: landing_def buf_in_ram_def wf_mem_def)

lemma landing_append: "landing gm (xs @ ys) = landing gm xs @ landing gm ys"
  by (simp add: landing_def)

lemma buf_bytes_only_at:
  "only_at S gm gm' \<Longrightarrow> wf_mem gm \<Longrightarrow> buf_in_ram gm b \<Longrightarrow> buf_span b \<inter> S = {} \<Longrightarrow> buf_bytes gm' b = buf_bytes gm b"
  by (intro only_at_range) (simp_all add: buf_in_ram_def wf_mem_def)

lemma landing_only_at:
  assumes "only_at S gm gm'" and "wf_mem gm" and "\<forall>b \<in> set bs. buf_in_ram gm b" and "writable_span bs \<inter> S = {}"
  shows "landing gm' bs = landing gm bs"
proof -
  have "buf_bytes gm' b = buf_bytes gm b" if "b \<in> set (filter cb_write bs)" for b
    using that assms by (intro buf_bytes_only_at [OF assms(1,2)]) auto
  then have "map (buf_bytes gm') (filter cb_write bs) = map (buf_bytes gm) (filter cb_write bs)" by (intro map_cong refl)
  then show ?thesis by (simp only: landing_def)
qed

lemma readable_only_at:
  assumes "only_at S gm gm'" and "wf_mem gm" and "\<forall>b \<in> set bs. buf_in_ram gm b \<and> (\<not> cb_write b \<longrightarrow> buf_span b \<inter> S = {})"
  shows "readable gm' bs = readable gm bs"
proof -
  have "buf_bytes gm' b = buf_bytes gm b" if "b \<in> set (filter (\<lambda>b. \<not> cb_write b) bs)" for b
    using that assms by (intro buf_bytes_only_at [OF assms(1,2)]) auto
  then have "map (buf_bytes gm') (filter (\<lambda>b. \<not> cb_write b) bs) = map (buf_bytes gm) (filter (\<lambda>b. \<not> cb_write b) bs)"
    by (intro map_cong refl)
  then show ?thesis by (simp only: readable_def)
qed

text \<open>The writable buffers of a list do not overlap.\<close>

definition bufs_apart :: "chain_buf list \<Rightarrow> bool" where
  "bufs_apart bs \<longleftrightarrow> sorted_wrt (\<lambda>x y. buf_span x \<inter> buf_span y = {}) (filter cb_write bs)"

lemma bufs_apart_Cons: "bufs_apart (b # bs) \<longleftrightarrow> (cb_write b \<longrightarrow> buf_span b \<inter> writable_span bs = {}) \<and> bufs_apart bs"
  by (cases "cb_write b") (simp_all only: bufs_apart_def filter.simps if_True if_False sorted_wrt.simps set_filter, blast+)

lemma bufs_apart_append: "bufs_apart (xs @ ys) \<longleftrightarrow> bufs_apart xs \<and> bufs_apart ys \<and> writable_span xs \<inter> writable_span ys = {}"
  by (simp only: bufs_apart_def filter_append sorted_wrt_append set_filter) blast

section \<open>A driver that keeps its memory apart\<close>

text \<open>
  \<open>S\<close> stands for the bytes the device writes while it serves the queue: at least its half of the rings.
  \<open>rings_apart\<close> says that the driver's half and its table are elsewhere; \<open>chain_ready\<close> that a head starts a
  chain of mapped buffers, laid out by the rules and elsewhere too; \<open>published\<close> that exactly the chains
  \<open>cs\<close> are waiting in the available ring, in this order.
\<close>

definition rings_apart :: "nat set \<Rightarrow> virtqueue \<Rightarrow> guest_memory \<Rightarrow> bool" where
  "rings_apart S q gm \<longleftrightarrow> wf_mem gm \<and> vq_ok q \<and> vq_ready q \<and> used_cells q gm \<subseteq> S \<and>
     host_range gm (desc_gpa q) (16 * ucast (vq_size q)) \<noteq> None \<and>
     gpa_span gm (avail_gpa q + 2) 2 \<inter> S = {} \<and>
     (\<forall>s :: u16. s < ucast (vq_size q) \<longrightarrow> gpa_span gm (avail_gpa q + 4 + 2 * ucast s) 2 \<inter> S = {} \<and>
        gpa_span gm (desc_gpa q + ucast s * 16) 16 \<inter> S = {})"

definition tables_apart :: "nat set \<Rightarrow> guest_memory \<Rightarrow> desc \<Rightarrow> bool" where
  "tables_apart S gm d \<longleftrightarrow> d_flags d AND VRING_DESC_F_INDIRECT \<noteq> 0 \<longrightarrow>
     (\<forall>i :: u16. i = 0 \<or> i < ucast (d_len d div 16) \<longrightarrow> gpa_span gm (d_addr d + ucast i * 16) 16 \<inter> S = {})"

definition chain_ready :: "nat set \<Rightarrow> virtqueue \<Rightarrow> guest_memory \<Rightarrow> u16 \<Rightarrow> chain_buf list \<Rightarrow> bool" where
  "chain_ready S q gm h bs \<longleftrightarrow> h < ucast (vq_size q) \<and> length bs \<le> unat (vq_size q) \<and>
     (\<exists>ds bss. table_chain gm (desc_gpa q) (ucast (vq_size q)) h ds \<and> list_all2 (expands gm) ds bss \<and> bs = concat bss \<and>
        (\<forall>d \<in> set ds. tables_apart S gm d))"

definition published :: "nat set \<Rightarrow> virtqueue \<Rightarrow> guest_memory \<Rightarrow> (u16 \<times> chain_buf list) list \<Rightarrow> bool" where
  "published S q gm cs \<longleftrightarrow> length cs < 2 ^ 16 \<and> avail_idx q gm = last_avail q + of_nat (length cs) \<and>
     (\<forall>k < length cs. avail_ring q gm ((last_avail q + of_nat k) mod ucast (vq_size q)) = fst (cs ! k) \<and>
        chain_ready S q gm (fst (cs ! k)) (snd (cs ! k)))"

lemma table_chain_stable:
  assumes "only_at S gm gm'" and "wf_mem gm" and "\<forall>j :: u16. j = i \<or> j < lim \<longrightarrow> gpa_span gm (base + ucast j * 16) 16 \<inter> S = {}"
    and "table_chain gm base lim i ds"
  shows "table_chain gm' base lim i ds"
  using assms(3,4)
proof (induction ds arbitrary: i)
  case (Cons d ds)
  have "desc_at gm' base i = desc_at gm base i"
    using read_only_at [OF assms(1,2), of 16 "base + ucast i * 16"] Cons.prems(1) by (simp add: desc_at_def read_array_def)
  with Cons show ?case by (auto split: if_splits)
qed simp

lemma buf_at_only_at: "only_at S gm gm' \<Longrightarrow> buf_at gm' = buf_at gm"
  by (rule ext) (simp add: buf_at_def host_range_only_at)

lemma expands_stable:
  assumes "only_at S gm gm'" and "wf_mem gm" and "tables_apart S gm d" and "expands gm d bs"
  shows "expands gm' d bs"
proof (cases "d_flags d AND VRING_DESC_F_INDIRECT = 0")
  case True
  with assms show ?thesis by (simp add: expands_def buf_at_only_at [OF assms(1)])
next
  case False
  then obtain ids where ids: "table_chain gm (d_addr d) (ucast (d_len d div 16)) 0 ids"
      "length ids \<le> unat (d_len d div 16)" "map (buf_at gm) ids = map Some bs" "host_range gm (d_addr d) (ucast (d_len d)) \<noteq> None"
    using assms(4) by (auto simp: expands_def)
  have "table_chain gm' (d_addr d) (ucast (d_len d div 16)) 0 ids"
    using assms(3) False by (intro table_chain_stable [OF assms(1,2) _ ids(1)]) (simp add: tables_apart_def)
  with False ids show ?thesis
    by (auto simp: expands_def buf_at_only_at [OF assms(1)] host_range_only_at [OF assms(1)])
qed

lemma chain_ready_stable:
  assumes "only_at S gm gm'" and "rings_apart S q gm" and "chain_ready S q gm h bs"
  shows "chain_ready S q gm' h bs"
proof -
  obtain ds bss where c: "table_chain gm (desc_gpa q) (ucast (vq_size q)) h ds" "list_all2 (expands gm) ds bss"
      "bs = concat bss" "\<forall>d \<in> set ds. tables_apart S gm d" "h < ucast (vq_size q)"
    using assms(3) by (auto simp: chain_ready_def)
  have wf: "wf_mem gm" using assms(2) by (simp add: rings_apart_def)
  have "table_chain gm' (desc_gpa q) (ucast (vq_size q)) h ds"
    using assms(2) c(5) by (intro table_chain_stable [OF assms(1) wf _ c(1)]) (auto simp: rings_apart_def)
  moreover have "list_all2 (expands gm') ds bss"
    using c(2) by (rule list.rel_mono_strong) (use c(4) expands_stable [OF assms(1) wf] in blast)
  ultimately show ?thesis
    using assms(3) c by (auto simp: chain_ready_def tables_apart_def gpa_span_only_at [OF assms(1)])
qed

lemma rings_apart_stable: "only_at S gm gm' \<Longrightarrow> rings_apart S q gm \<Longrightarrow> rings_apart S q gm'"
  by (simp add: rings_apart_def only_at_wf used_cells_only_at host_range_only_at gpa_span_only_at)

lemma rings_read_stable:
  assumes "only_at S gm gm'" and "rings_apart S q gm"
  shows "avail_idx q gm' = avail_idx q gm" and "s < ucast (vq_size q) \<Longrightarrow> avail_ring q gm' s = avail_ring q gm s"
proof -
  have wf: "wf_mem gm" using assms(2) by (simp add: rings_apart_def)
  show "avail_idx q gm' = avail_idx q gm"
    using read_only_at [OF assms(1) wf, of 2 "avail_gpa q + 2"] assms(2)
    by (simp add: avail_idx_def load_acquire_u16_eq rings_apart_def)
  show "avail_ring q gm' s = avail_ring q gm s" if "s < ucast (vq_size q)"
    using read_only_at [OF assms(1) wf, of 2 "avail_gpa q + 4 + 2 * ucast s"] assms(2) that
    by (simp add: avail_ring_def read_u16_def read_array_def rings_apart_def)
qed

lemma published_stable:
  assumes "only_at S gm gm'" and "rings_apart S q gm" and "published S q gm cs"
  shows "published S q gm' cs"
proof -
  have "(last_avail q + of_nat k) mod ucast (vq_size q) < ucast (vq_size q)" if "k < length cs" for k
    using assms(3) that by (intro word_mod_less_divisor) (auto simp: published_def chain_ready_def word_gt_0)
  then show ?thesis
    using assms(3) rings_read_stable [OF assms(1,2)] chain_ready_stable [OF assms(1,2)] by (simp add: published_def)
qed

lemma unat_of_nat_len: "n < 2 ^ 16 \<Longrightarrow> unat (of_nat n :: u16) = n"
  by (simp add: unat_of_nat take_bit_nat_eq_self)

lemma published_more: "published S q gm (c # cs) \<Longrightarrow> avail_idx q gm \<noteq> last_avail q"
proof -
  assume p: "published S q gm (c # cs)"
  then have "avail_idx q gm - last_avail q = of_nat (length (c # cs))" by (simp add: published_def)
  moreover have "(of_nat (length (c # cs)) :: u16) \<noteq> 0"
    using p unat_of_nat_len [of "length (c # cs)"] by (metis published_def unat_0 length_0_conv list.distinct(1))
  ultimately show ?thesis by auto
qed

lemma published_tail:
  assumes "published S q gm (c # cs)"
  shows "published S (q\<lparr>last_avail := last_avail q + 1\<rparr>) gm cs"
proof -
  let ?q = "q\<lparr>last_avail := last_avail q + 1\<rparr>"
  have "avail_idx ?q gm = last_avail q + of_nat (length (c # cs))"
    using assms published_more [OF assms] by (auto simp: published_def avail_idx_def split: option.splits)
  moreover have "avail_ring ?q gm ((last_avail ?q + of_nat k) mod ucast (vq_size ?q)) = fst (cs ! k) \<and>
      chain_ready S ?q gm (fst (cs ! k)) (snd (cs ! k))" if "k < length cs" for k
  proof -
    have "Suc k < length (c # cs)" using that by simp
    then have "avail_ring q gm ((last_avail q + of_nat (Suc k)) mod ucast (vq_size q)) = fst (cs ! k)"
        "chain_ready S q gm (fst (cs ! k)) (snd (cs ! k))"
      using assms unfolding published_def by (auto dest!: spec [of _ "Suc k"])
    then show ?thesis by (simp add: avail_ring_def chain_ready_def add.assoc)
  qed
  ultimately show ?thesis using assms by (auto simp: published_def add.assoc)
qed

text \<open>The round of a device that got a chain: pop it, and what the next rounds will find.\<close>

lemma pop_published:
  assumes "rings_apart S q gm" and "published S q gm ((h, bs) # cs)"
  shows "\<exists>gm1. pop_into q gm ch = Some (q\<lparr>last_avail := last_avail q + 1\<rparr>, gm1, \<lparr>head_index = h, bufs = bs\<rparr>, True) \<and>
    only_at (used_cells q gm) gm gm1"
proof -
  have r: "wf_mem gm" "vq_ok q" "vq_ready q" "host_range gm (desc_gpa q) (16 * ucast (vq_size q)) \<noteq> None"
    using assms(1) by (simp_all add: rings_apart_def)
  have "(0 :: nat) < length ((h, bs) # cs)" by simp
  then have at: "avail_ring q gm (last_avail q mod ucast (vq_size q)) = h" "chain_ready S q gm h bs"
    using assms(2) unfolding published_def by (auto dest!: spec [of _ 0])
  then obtain ds bss where c: "table_chain gm (desc_gpa q) (ucast (vq_size q)) h ds" "list_all2 (expands gm) ds bss"
      "bs = concat bss" "length bs \<le> unat (vq_size q)" "h < ucast (vq_size q)"
    unfolding chain_ready_def by blast
  have "length (concat bss) \<le> unat (vq_size q)" using c(3,4) by simp
  from pop_into_chain [OF r(2,3) published_more [OF assms(2)] at(1) [symmetric] c(5) r(4) c(1,2) this, of ch]
  show ?thesis unfolding c(3)
    using only_at_avail_event [OF r(1), of q "last_avail q + 1"] only_at_refl [of "used_cells q gm" gm]
    by (cases "event_idx q") (simp_all only: if_True if_False, blast+)
qed

lemma pop_drained:
  assumes "rings_apart S q gm" and "published S q gm []"
  shows "\<exists>gm1. pop_into q gm ch = Some (q, gm1, ch\<lparr>bufs := []\<rparr>, False) \<and> only_at (used_cells q gm) gm gm1"
proof -
  have r: "wf_mem gm" "vq_ok q" "used_cells q gm \<subseteq> S" "avail_idx q gm = last_avail q"
    using assms by (simp_all add: rings_apart_def published_def)
  note e = only_at_avail_event [OF r(1), of q "last_avail q"]
  have "avail_idx q (store_avail_event q gm (last_avail q)) = last_avail q"
    using rings_read_stable(1) [OF only_at_mono [OF e r(3)] assms(1)] r(4) by simp
  then show ?thesis using r e
    by (auto simp: pop_into_def pop_check_def arm_kick_and_recheck_def only_at_refl Let_def)
qed

text \<open>The buffers of such a chain are in RAM.\<close>

lemma buf_at_in_ram: "wf_mem gm \<Longrightarrow> buf_at gm d = Some b \<Longrightarrow> buf_in_ram gm b"
  using region_off_bound(2) [of gm "d_addr d" "ucast (d_len d)"]
  by (auto simp: buf_at_def buf_of_def buf_in_ram_def host_range_def unat_ucast_up)

lemma expands_in_ram:
  assumes "wf_mem gm" and "expands gm d bs" and "b \<in> set bs"
  shows "buf_in_ram gm b"
proof -
  obtain ids where "map (buf_at gm) ids = map Some bs" using assms(2) unfolding expands_def by (metis (full_types))
  then have "Some b \<in> set (map (buf_at gm) ids)" using assms(3) by simp
  then show ?thesis using buf_at_in_ram [OF assms(1)] by auto
qed

lemma chain_ready_in_ram:
  assumes "wf_mem gm" and "chain_ready S q gm h bs" and "b \<in> set bs"
  shows "buf_in_ram gm b"
proof -
  obtain ds bss where c: "list_all2 (expands gm) ds bss" "bs = concat bss" using assms(2) by (auto simp: chain_ready_def)
  from c(2) assms(3) obtain i where i: "i < length bss" "b \<in> set (bss ! i)" by (auto simp: in_set_conv_nth [of _ bss])
  then have "expands gm (ds ! i) (bss ! i)" using c(1) by (simp add: list_all2_conv_all_nth)
  from expands_in_ram [OF assms(1) this i(2)] show ?thesis .
qed

lemma published_in_ram:
  assumes "wf_mem gm" and "published S q gm cs" and "b \<in> set (concat (map snd cs))"
  shows "buf_in_ram gm b"
proof -
  from assms(3) obtain k where k: "k < length cs" "b \<in> set (snd (cs ! k))" by (auto simp: in_set_conv_nth [of _ cs])
  then have "chain_ready S q gm (fst (cs ! k)) (snd (cs ! k))" using assms(2) by (simp add: published_def)
  from chain_ready_in_ram [OF assms(1) this k(2)] show ?thesis .
qed

text \<open>What does not depend on how far the device has come.\<close>

lemma rings_apart_upd [simp]:
  "rings_apart S (q\<lparr>last_avail := x\<rparr>) gm = rings_apart S q gm"
  "rings_apart S (q\<lparr>last_used_idx := x\<rparr>) gm = rings_apart S q gm"
  by (simp_all add: rings_apart_def vq_ok_def)

lemma published_upd [simp]: "published S (q\<lparr>last_used_idx := x\<rparr>) gm cs = published S q gm cs"
  by (simp add: published_def chain_ready_def avail_idx_def avail_ring_def cong: option.case_cong)

text \<open>The chain is returned after the device wrote to bytes of \<open>S\<close>: the rest is still published.\<close>

lemma push_published:
  assumes "rings_apart S q gm" and "published S q gm (c # cs)" and "only_at S gm gm1"
  shows "\<exists>gm2. vq_push h n (q\<lparr>last_avail := last_avail q + 1\<rparr>, gm1) =
      Some (q\<lparr>last_avail := last_avail q + 1, last_used_idx := last_used_idx q + 1\<rparr>, gm2) \<and>
    only_at (used_cells q gm) gm1 gm2 \<and>
    rings_apart S (q\<lparr>last_avail := last_avail q + 1, last_used_idx := last_used_idx q + 1\<rparr>) gm2 \<and>
    published S (q\<lparr>last_avail := last_avail q + 1, last_used_idx := last_used_idx q + 1\<rparr>) gm2 cs"
proof -
  let ?q = "q\<lparr>last_avail := last_avail q + 1\<rparr>"
  note r1 = rings_apart_stable [OF assms(3,1)]
  have "chain_ready S q gm (fst c) (snd c)" using assms(2) by (auto simp: published_def)
  then have "vq_size q \<noteq> 0" by (auto simp: chain_ready_def)
  then obtain gm2 where gm2: "vq_push h n (?q, gm1) = Some (?q\<lparr>last_used_idx := last_used_idx q + 1\<rparr>, gm2)" "only_at (used_cells q gm) gm1 gm2"
    using vq_push_only_at [of gm1 ?q h n] r1 used_cells_only_at [OF assms(3), of q] by (auto simp: rings_apart_def vq_ok_def)
  have at: "only_at S gm1 gm2" using gm2(2) assms(1) by (auto simp: rings_apart_def elim: only_at_mono)
  have "published S ?q gm1 cs" using published_tail [OF published_stable [OF assms(3,1,2)]] .
  then have "published S ?q gm2 cs" using published_stable [OF at] r1 by simp
  then show ?thesis using gm2 rings_apart_stable [OF at r1] by (simp add: rings_apart_def vq_ok_def)
qed

section \<open>What the driver gets back\<close>

text \<open>
  \<open>returned q gm els gm'\<close>: from \<open>gm\<close> to \<open>gm'\<close> the device has handed the driver exactly the elements \<open>els\<close>, the
  head of a chain and the bytes written to it, in this order: they lie in the slots of the used ring that follow
  the cursor of \<open>q\<close>, the other slots are as they were, and the index the driver reads has advanced by their number.
\<close>

definition returned :: "virtqueue \<Rightarrow> guest_memory \<Rightarrow> (u16 \<times> u32) list \<Rightarrow> guest_memory \<Rightarrow> bool" where
  "returned q gm els gm' \<longleftrightarrow>
     load_acquire_u16 gm' (used_gpa q + 2) =
       (if els = [] then load_acquire_u16 gm (used_gpa q + 2) else Some (last_used_idx q + of_nat (length els))) \<and>
     (\<forall>i < unat (vq_size q). read_into gm' (used_elem_gpa q i) 8 =
       (if i < length els then Some (used_elem (els ! i)) else read_into gm (used_elem_gpa q i) 8))"

lemma returned_none: "returned q gm [] gm"
  by (simp add: returned_def)

text \<open>What the device does between two pushes leaves the ring alone.\<close>

lemma used_ring_ok_only_at: "only_at S gm gm' \<Longrightarrow> used_ring_ok q gm \<Longrightarrow> used_ring_ok q gm'"
proof -
  assume "only_at S gm gm'" and ok: "used_ring_ok q gm"
  then have "(read_into gm' a n = None) = (read_into gm a n = None)" for a n
    by (auto simp: read_into_def host_range_only_at split: option.split)
  then show "used_ring_ok q gm'" using ok only_at_wf [OF \<open>only_at S gm gm'\<close>] by (simp add: used_ring_ok_def)
qed

lemma returned_same_but:
  assumes "used_ring_ok q gm1" and "same_but (avail_event_gpa q) 2 gm1 gm2" and "returned q gm els gm1"
  shows "returned q gm els gm2"
proof -
  have sz: "unat (used_gpa q) + 4 + 8 * unat (vq_size q) < 2 ^ 64" and nz: "vq_size q \<noteq> 0" and ok: "vq_ok q"
    using assms(1) by (simp_all add: used_ring_ok_def)
  have "avail_event_gpa q = used_gpa q + of_nat (4 + 8 * unat (vq_size q))" by (simp add: avail_event_gpa_def)
  moreover have "unat (used_gpa q + of_nat (4 + 8 * unat (vq_size q))) = unat (used_gpa q) + (4 + 8 * unat (vq_size q))"
    using sz by (intro unat_plus_of_nat) simp
  ultimately have ev: "unat (avail_event_gpa q) = unat (used_gpa q) + 4 + 8 * unat (vq_size q)" by simp
  have same: "read_into gm2 b n = read_into gm1 b n" if "unat b + n \<le> unat (avail_event_gpa q)" "n < 2 ^ 64" for b n
    using assms(2) that unfolding same_but_def by blast
  have "unat (used_gpa q + 2) = unat (used_gpa q) + 2" using sz unat_plus_of_nat [of "used_gpa q" 2] by simp
  then have "read_into gm2 (used_gpa q + 2) 2 = read_into gm1 (used_gpa q + 2) 2" by (intro same) (simp_all add: ev)
  moreover have "read_into gm2 (used_elem_gpa q i) 8 = read_into gm1 (used_elem_gpa q i) 8" for i
    using used_slot_lt [OF nz, of i] by (intro same) (simp_all add: ev unat_used_elem_gpa [OF assms(1)])
  ultimately show ?thesis using assms(3) by (simp add: returned_def load_acquire_u16_eq)
qed

lemma returned_only_at:
  assumes "used_ring_ok q gm1" and "only_at T gm1 gm2" and "T \<inter> used_cells q gm1 = {}" and "returned q gm els gm1"
  shows "returned q gm els gm2"
proof -
  have wf: "wf_mem gm1" and ok: "vq_ok q" "unat (vq_size q) dvd 2 ^ 16" and nz: "vq_size q \<noteq> 0"
    using assms(1) by (simp_all add: used_ring_ok_def)
  have elem: "gpa_span gm1 (used_elem_gpa q i) 8 \<inter> T = {}" for i
  proof -
    define s where "s = (last_used_idx q + of_nat i) mod (ucast (vq_size q) :: u16)"
    have "s < ucast (vq_size q)" using ucast_size_zero [OF ok(1) nz] by (simp add: s_def word_mod_less_divisor word_gt_0)
    moreover have "used_elem_gpa q i = used_gpa q + 4 + 8 * ucast s" by (simp only: used_elem_gpa_def used_slot_word [OF ok] s_def)
    ultimately have "gpa_span gm1 (used_elem_gpa q i) 8 \<subseteq> used_cells q gm1" by (auto simp only: used_cells_def)
    then show ?thesis using assms(3) by blast
  qed
  have "gpa_span gm1 (used_gpa q + 2) 2 \<subseteq> used_cells q gm1" unfolding used_cells_def by blast
  then have idx: "gpa_span gm1 (used_gpa q + 2) 2 \<inter> T = {}" using assms(3) by blast
  have "read_into gm2 (used_elem_gpa q i) 8 = read_into gm1 (used_elem_gpa q i) 8" for i
    by (rule read_only_at [OF assms(2) wf _ elem]) simp
  moreover have "read_into gm2 (used_gpa q + 2) 2 = read_into gm1 (used_gpa q + 2) 2"
    by (rule read_only_at [OF assms(2) wf _ idx]) simp
  ultimately show ?thesis using assms(4) by (simp add: returned_def load_acquire_u16_eq)
qed

text \<open>A push hands over one more element.\<close>

lemma returned_push:
  assumes ok: "used_ring_ok q gm1" and ret: "returned q gm els gm1" and len: "length els < unat (vq_size q)"
    and q1: "q1 = q\<lparr>last_avail := a, last_used_idx := last_used_idx q + of_nat (length els)\<rparr>"
    and push: "vq_push h n (q1, gm1) = Some (q2, gm2)"
  shows "returned q gm (els @ [(h, n)]) gm2"
proof -
  let ?k = "length els"
  let ?idx = "le16 (last_used_idx q + (of_nat ?k + 1))"
  let ?ws = "[(used_elem_gpa q ?k, used_elem (h, n)), (used_gpa q + 2, ?idx)]"
  have wf: "wf_mem gm1" and vq: "vq_ok q" "vq_ready q" "vq_size q \<noteq> 0" "unat (vq_size q) dvd 2 ^ 16"
    and sz: "unat (used_gpa q) + 4 + 8 * unat (vq_size q) < 2 ^ 64"
    using ok by (simp_all add: used_ring_ok_def)
  have u2: "unat (used_gpa q + 2) = unat (used_gpa q) + 2" using sz unat_plus_of_nat [of "used_gpa q" 2] by simp
  have gm2: "gm2 = ram.wr_all ?ws gm1"
    using push vq ucast_size_zero [OF vq(1,3)] used_slot_word [OF vq(1,4), of ?k]
    by (simp add: q1 vq_push_def add_used_def publish_used_def store_used_ring_def store_used_idx_def store_release_u16_eq
        used_elem_gpa_def used_elem_def add.assoc Let_def)
  have ls: "\<forall>w \<in> set ?ws. length (snd w) < 2 ^ 64" by (simp add: used_elem_def)
  have sep: "sorted_wrt (\<lambda>w. ram.apart (fst w) (length (snd w))) ?ws"
    by (simp add: ram.apart_def u2 unat_used_elem_gpa [OF ok] used_elem_def)
  have each: "read_into gm2 (fst w) (length (snd w)) = Some (snd w)" if "w \<in> set ?ws" for w
    unfolding gm2 using that used_elem_mapped [OF ok] by (intro ram.rd_wr_all_each [OF wf ls sep]) (auto simp: used_elem_def)
  have "load_acquire_u16 gm2 (used_gpa q + 2) = Some (last_used_idx q + (of_nat ?k + 1))"
    using each [of "(used_gpa q + 2, ?idx)"] by (simp add: load_acquire_u16_eq)
  moreover have "read_into gm2 (used_elem_gpa q ?k) 8 = Some (used_elem (h, n))"
    using each [of "(used_elem_gpa q ?k, used_elem (h, n))"] by (simp add: used_elem_def)
  moreover have "read_into gm2 (used_elem_gpa q i) 8 = read_into gm1 (used_elem_gpa q i) 8" if "i < unat (vq_size q)" "i \<noteq> ?k" for i
  proof -
    have "used_slot q i \<noteq> used_slot q ?k"
      using used_slot_distinct [OF vq(3), of i ?k] used_slot_distinct [OF vq(3), of ?k i] that len by linarith
    then have "\<forall>w \<in> set ?ws. ram.apart (used_elem_gpa q i) 8 w"
      by (auto simp: ram.apart_def u2 unat_used_elem_gpa [OF ok] used_elem_def)
    then show ?thesis unfolding gm2 by (intro ram.rd_wr_all_other [OF wf ls]) simp_all
  qed
  ultimately show ?thesis using ret by (auto simp: returned_def nth_append less_Suc_eq add.commute [of 1])
qed

text \<open>
  The same from any point of a run: whatever the device at \<open>q\<close> had handed over before, it has handed over
  \<open>els\<close> more. This form composes along the device's loop.
\<close>

definition hands_back :: "virtqueue \<Rightarrow> guest_memory \<Rightarrow> (u16 \<times> u32) list \<Rightarrow> guest_memory \<Rightarrow> bool" where
  "hands_back q gm els gm' \<longleftrightarrow> (\<forall>q0 gm0 xs a. used_ring_ok q0 gm \<longrightarrow> length xs + length els \<le> unat (vq_size q0) \<longrightarrow>
     q = q0\<lparr>last_avail := a, last_used_idx := last_used_idx q0 + of_nat (length xs)\<rparr> \<longrightarrow>
     returned q0 gm0 xs gm \<longrightarrow> returned q0 gm0 (xs @ els) gm')"

lemma hands_back_refl: "hands_back q gm [] gm"
  by (simp add: hands_back_def)

lemma hands_back_returned:
  assumes "hands_back q gm els gm'" and "used_ring_ok q gm" and "length els \<le> unat (vq_size q)"
  shows "returned q gm els gm'"
  using assms(1) [unfolded hands_back_def, rule_format, of q "[]" "last_avail q" gm] assms(2,3) by (simp add: returned_none)

lemma hands_back_trans:
  assumes "hands_back q gm xs gm1" and "only_at S gm gm1"
    and "hands_back (q\<lparr>last_avail := a, last_used_idx := last_used_idx q + of_nat (length xs)\<rparr>) gm1 ys gm2"
  shows "hands_back q gm (xs @ ys) gm2"
  unfolding hands_back_def
proof (intro allI impI)
  fix q0 gm0 zs b
  assume ok: "used_ring_ok q0 gm" and len: "length zs + length (xs @ ys) \<le> unat (vq_size q0)"
    and q: "q = q0\<lparr>last_avail := b, last_used_idx := last_used_idx q0 + of_nat (length zs)\<rparr>" and ret: "returned q0 gm0 zs gm"
  have "returned q0 gm0 (zs @ xs) gm1" using assms(1) [unfolded hands_back_def, rule_format, OF ok _ q ret] len by simp
  then have "returned q0 gm0 ((zs @ xs) @ ys) gm2"
    using assms(3) [unfolded hands_back_def, rule_format, of q0 "zs @ xs" a gm0] used_ring_ok_only_at [OF assms(2) ok] len q
    by (simp add: add.assoc)
  then show "returned q0 gm0 (zs @ xs @ ys) gm2" by simp
qed

lemma hands_back_pop:
  assumes "pop_into q gm ch = Some (q1, gm1, ch1, r)"
  shows "hands_back q gm [] gm1"
  unfolding hands_back_def
proof (intro allI impI)
  fix q0 gm0 xs a
  assume ok: "used_ring_ok q0 gm" and q: "q = q0\<lparr>last_avail := a, last_used_idx := last_used_idx q0 + of_nat (length xs)\<rparr>"
    and ret: "returned q0 gm0 xs gm"
  have "wf_mem gm" "vq_ok q" using ok by (simp_all add: used_ring_ok_def q vq_ok_def)
  from pop_into_spec [OF this, of ch] have "same_but (avail_event_gpa q) 2 gm gm1" using assms by simp
  then have "same_but (avail_event_gpa q0) 2 gm gm1" by (simp add: q avail_event_gpa_def)
  from returned_same_but [OF ok this ret] show "returned q0 gm0 (xs @ []) gm1" by simp
qed

text \<open>Popping a chain, writing to its buffers, clear of the ring, and pushing it is one step of a device.\<close>

lemma hands_back_chain:
  assumes "pop_into q gm ch = Some (q\<lparr>last_avail := a\<rparr>, gm1, ch1, r)" and "only_at S gm gm1"
    and "only_at T gm1 gm2" and "T \<inter> used_cells q gm = {}" and "vq_push h n (q\<lparr>last_avail := a\<rparr>, gm2) = Some (q2, gm3)"
  shows "hands_back q gm [(h, n)] gm3"
  unfolding hands_back_def
proof (intro allI impI)
  fix q0 gm0 xs b
  assume ok: "used_ring_ok q0 gm" and len: "length xs + length [(h, n)] \<le> unat (vq_size q0)"
    and q: "q = q0\<lparr>last_avail := b, last_used_idx := last_used_idx q0 + of_nat (length xs)\<rparr>" and ret: "returned q0 gm0 xs gm"
  have "returned q0 gm0 (xs @ []) gm1"
    using hands_back_pop [OF assms(1), unfolded hands_back_def, rule_format, OF ok _ q ret] len by simp
  moreover have ok1: "used_ring_ok q0 gm1" using used_ring_ok_only_at [OF assms(2) ok] .
  moreover have "T \<inter> used_cells q0 gm1 = {}" using assms(4) by (simp add: q used_cells_only_at [OF assms(2)])
  ultimately have "returned q0 gm0 xs gm2" using returned_only_at [OF ok1 assms(3), of gm0 xs] by simp
  moreover have "used_ring_ok q0 gm2" using used_ring_ok_only_at [OF assms(3) ok1] .
  ultimately show "returned q0 gm0 (xs @ [(h, n)]) gm3"
    using returned_push [of q0 gm2 gm0 xs "q\<lparr>last_avail := a\<rparr>" a h n q2 gm3] len assms(5) by (simp add: q)
qed

section \<open>A concrete ring\<close>

text \<open>The ring of \<^verbatim>\<open>demo_mem\<close> with its one chain.\<close>

abbreviation demo_bufs :: "chain_buf list" where
  "demo_bufs \<equiv> [\<lparr>cb_ptr = 160, cb_len = 8, cb_write = False\<rparr>, \<lparr>cb_ptr = 168, cb_len = 8, cb_write = False\<rparr>,
     \<lparr>cb_ptr = 176, cb_len = 16, cb_write = True\<rparr>]"

lemma word_lt_4: "(s :: u16) < 4 \<Longrightarrow> s = 0 \<or> s = 1 \<or> s = 2 \<or> s = 3"
proof -
  assume "s < 4"
  then have "unat s = 0 \<or> unat s = 1 \<or> unat s = 2 \<or> unat s = 3" by (simp add: word_less_nat_alt) linarith
  then have "unat s = unat (0 :: u16) \<or> unat s = unat (1 :: u16) \<or> unat s = unat (2 :: u16) \<or> unat s = unat (3 :: u16)" by simp
  then show ?thesis by (simp only: unsigned_word_eqI word_unat_eq_iff)
qed

lemma demo_span: "gpa_span demo_mem a n = (if unat a < 192 \<and> unat a + n \<le> 192 then {unat a..<unat a + n} else {})" if "n < 2 ^ 64"
proof -
  have "of_nat n \<le> 192 - a \<longleftrightarrow> unat a + n \<le> 192" if "a < 192"
    using le_diff_iff_nat [OF that, of "of_nat n"] \<open>n < 2 ^ 64\<close> by simp
  then show ?thesis
    by (auto simp: gpa_span_def host_range_def region_off_def demo_mem_def word_less_nat_alt Let_def)
qed

lemma demo_used_cells: "used_cells (demo_vq\<lparr>max_size := 64\<rparr>) demo_mem \<subseteq> {80..<120}"
  by (auto simp: used_cells_def demo_vq_def vq_new_def avail_event_gpa_def demo_span dest!: word_lt_4)

lemma demo_published:
  assumes "used_cells (demo_vq\<lparr>max_size := 64\<rparr>) demo_mem \<subseteq> S" and "S \<subseteq> {80..<120} \<union> {176..<192}"
  shows "rings_apart S (demo_vq\<lparr>max_size := 64\<rparr>) demo_mem" and "published S (demo_vq\<lparr>max_size := 64\<rparr>) demo_mem [(0, demo_bufs)]"
proof -
  let ?q = "demo_vq\<lparr>max_size := 64\<rparr>"
  let ?d0 = "read_desc (desc_bytes 160 8 1 1)" and ?d1 = "read_desc (desc_bytes 128 32 4 0)"
  let ?i0 = "read_desc (desc_bytes 168 8 1 1)" and ?i1 = "read_desc (desc_bytes 176 16 2 0)"
  let ?b = "\<lambda>p n w. \<lparr>cb_ptr = p, cb_len = n, cb_write = w\<rparr>"
  have clear: "gpa_span demo_mem a n \<inter> S = {}" if "unat a + n \<le> 80 \<or> 120 \<le> unat a \<and> unat a + n \<le> 176" "n < 2 ^ 64" for a n
    using that assms(2) by (auto simp: demo_span)
  have q: "vq_size ?q = 4" "desc_gpa ?q = 0" "avail_gpa ?q = 64" "vq_ready ?q" "vq_ok ?q"
    by (simp_all add: demo_vq_def vq_new_def vq_ok_def)
  have "gpa_span demo_mem (68 + 2 * ucast s) 2 \<inter> S = {} \<and> gpa_span demo_mem (ucast s * 16) 16 \<inter> S = {}" if "s < 4" for s :: u16
    using word_lt_4 [OF that] by (elim disjE) (simp_all add: clear)
  moreover have "host_range demo_mem 0 64 \<noteq> None" by (simp add: host_range_def region_off_def demo_mem_def)
  ultimately show "rings_apart S ?q demo_mem"
    using assms(1) demo_ok(1) clear [of 66 2] by (simp add: rings_apart_def q)
  have tab: "table_chain demo_mem (desc_gpa ?q) (ucast (vq_size ?q)) 0 [?d0, ?d1]"
    "table_chain demo_mem (d_addr ?d1) (ucast (d_len ?d1 div 16)) 0 [?i0, ?i1]"
    by code_simp+
  have b: "map (buf_at demo_mem) [?d0] = map Some [?b 160 8 False]" "map (buf_at demo_mem) [?i0, ?i1] = map Some [?b 168 8 False, ?b 176 16 True]"
    by code_simp+
  have fl: "d_flags ?d0 AND VRING_DESC_F_INDIRECT = 0" "d_flags ?d1 AND VRING_DESC_F_INDIRECT \<noteq> 0"
    "host_range demo_mem (d_addr ?d1) (ucast (d_len ?d1)) \<noteq> None" "length [?i0, ?i1] \<le> unat (d_len ?d1 div 16)"
    "d_addr ?d1 = 128" "d_len ?d1 div 16 = 2"
    by code_simp+
  have "list_all2 (expands demo_mem) [?d0, ?d1] [[?b 160 8 False], [?b 168 8 False, ?b 176 16 True]]"
    using tab(2) b fl(1-4) unfolding expands_def list_all2_Cons list_all2_Nil by metis
  moreover have "\<forall>i :: u16. i = 0 \<or> i < 2 \<longrightarrow> gpa_span demo_mem (128 + ucast i * 16) 16 \<inter> S = {}"
  proof (intro allI impI)
    fix i :: u16 assume "i = 0 \<or> i < 2"
    then have "i = 0 \<or> i = 1" using word_lt_4 [of i] by (auto simp: word_less_nat_alt)
    then show "gpa_span demo_mem (128 + ucast i * 16) 16 \<inter> S = {}" by (elim disjE) (simp_all add: clear)
  qed
  then have "tables_apart S demo_mem ?d1" "tables_apart S demo_mem ?d0" using fl by (simp_all add: tables_apart_def)
  ultimately have ready: "chain_ready S ?q demo_mem 0 demo_bufs"
    unfolding chain_ready_def using tab(1) q
    by (intro conjI exI [of _ "[?d0, ?d1]"] exI [of _ "[[?b 160 8 False], [?b 168 8 False, ?b 176 16 True]]"]) simp_all
  have "avail_ring ?q demo_mem 0 = 0" "avail_idx ?q demo_mem = 1" "last_avail ?q = 0" by code_simp+
  with ready show "published S ?q demo_mem [(0, demo_bufs)]" by (simp add: published_def q)
qed

end
