(* ===== verification/Virtio_Rng.thy ===== *)
theory Virtio_Rng
  imports Virtio_Transport Virtq_Chains
begin

text \<open>
  The entropy device (\<^verbatim>\<open>src/virtio/rng.rs\<close>): one queue whose chains are filled with random bytes.
  The host's generator is a parameter \<open>rnd\<close>: the bytes its \<open>k\<close>-th call fills a buffer with, or \<open>None\<close> when
  that call fails. The device's record of operations satisfies the contract of the transport, so that
  no sequence of guest accesses makes it panic.
\<close>

section \<open>State\<close>

abbreviation RNG_REQUEST_QUEUE :: u32 where "RNG_REQUEST_QUEUE \<equiv> 0"
abbreviation RNG_QUEUE_MAX :: u32 where "RNG_QUEUE_MAX \<equiv> 64"
abbreviation RNG_MAX_FILL :: u32 where "RNG_MAX_FILL \<equiv> 0x100000"

type_synonym host_random = "nat \<Rightarrow> (nat \<Rightarrow> u8) option"

record rng_device =
  rng_mem :: guest_memory
  rng_queue :: virtqueue
  rng_driver_ok :: bool
  rng_acked :: u64
  ops_done :: u64
  bytes_out :: u64
  rng_calls :: nat

definition rng_new :: "guest_memory \<Rightarrow> rng_device" where
  "rng_new gm = \<lparr>rng_mem = gm, rng_queue = vq_new RNG_QUEUE_MAX, rng_driver_ok = False, rng_acked = 0,
     ops_done = 0, bytes_out = 0, rng_calls = 0\<rparr>"

section \<open>Serving the queue\<close>

text \<open>
  The loop that fills one buffer: \<open>room\<close> is what the chain may still get, \<open>k\<close> counts the calls of the
  generator.
\<close>

function rng_fill_loop :: "host_random \<Rightarrow> chain_buf \<Rightarrow> nat \<Rightarrow> nat \<Rightarrow> nat \<Rightarrow> guest_memory \<Rightarrow> nat \<times> nat \<times> guest_memory" where
  "rng_fill_loop rnd b room filled k gm =
     (let want = min (cb_len b) room
      in if filled < want
         then let n = min (want - filled) 4096
              in case rnd k of
                   None \<Rightarrow> (filled, Suc k, gm)
                 | Some byte \<Rightarrow> (case cb_write_at gm b filled (map byte [0..<n]) of
                     (gm', w) \<Rightarrow> rng_fill_loop rnd b room (filled + w) (Suc k) gm')
         else (filled, k, gm))"
  by pat_completeness auto
termination
  by (relation "measure (\<lambda>(rnd, b, room, filled, k, gm). cb_len b - filled)") (auto simp: cb_write_at_def Let_def)

declare rng_fill_loop.simps [simp del]

text \<open>The buffers of a chain, with the bytes written so far.\<close>

fun rng_fill_bufs :: "host_random \<Rightarrow> chain_buf list \<Rightarrow> u32 \<Rightarrow> nat \<Rightarrow> guest_memory \<Rightarrow> u32 \<times> nat \<times> guest_memory" where
  "rng_fill_bufs rnd [] tot k gm = (tot, k, gm)"
| "rng_fill_bufs rnd (b # bs) tot k gm =
     (if \<not> cb_write b \<or> cb_len b = 0 then rng_fill_bufs rnd bs tot k gm
      else if RNG_MAX_FILL \<le> tot then (tot, k, gm)
      else case rng_fill_loop rnd b (unat (RNG_MAX_FILL - tot)) 0 k gm of
             (filled, k', gm') \<Rightarrow> rng_fill_bufs rnd bs (tot + of_nat filled) k' gm')"

text \<open>One round of the drain loop: \<open>None\<close> is a panic, and without a chain the loop ends.\<close>

definition rng_step :: "host_random \<Rightarrow> rng_device \<Rightarrow> (rng_device \<times> u32 option) option" where
  "rng_step rnd d = (case pop_into (rng_queue d) (rng_mem d) \<lparr>head_index = 0, bufs = []\<rparr> of
     None \<Rightarrow> None
   | Some (q, gm, ch, r) \<Rightarrow>
       if \<not> r then Some (d\<lparr>rng_queue := q, rng_mem := gm\<rparr>, None)
       else case rng_fill_bufs rnd (bufs ch) 0 (rng_calls d) gm of (tot, k, gm') \<Rightarrow>
         (case vq_push (head_index ch) tot (q, gm') of
            None \<Rightarrow> None
          | Some (q', gm'') \<Rightarrow> Some (d\<lparr>rng_queue := q', rng_mem := gm'', rng_calls := k\<rparr>, Some tot)))"

text \<open>The loop itself, cut off after \<open>fuel\<close> chains; a guest that keeps refilling the ring keeps it going.\<close>

fun rng_drain_loop :: "host_random \<Rightarrow> nat \<Rightarrow> u64 \<Rightarrow> u64 \<Rightarrow> rng_device \<Rightarrow> (u64 \<times> u64 \<times> rng_device) option" where
  "rng_drain_loop rnd 0 ops byts d = Some (ops, byts, d)"
| "rng_drain_loop rnd (Suc fuel) ops byts d = (case rng_step rnd d of
     None \<Rightarrow> None
   | Some (d', None) \<Rightarrow> Some (ops, byts, d')
   | Some (d', Some tot) \<Rightarrow> rng_drain_loop rnd fuel (ops + 1) (byts + ucast tot) d')"

definition drain_request_queue :: "nat \<Rightarrow> host_random \<Rightarrow> rng_device \<Rightarrow> (rng_device \<times> u32 list) option" where
  "drain_request_queue fuel rnd d =
     (if \<not> vq_ready (rng_queue d) then Some (d, [])
      else case rng_drain_loop rnd fuel 0 0 d of
        None \<Rightarrow> None
      | Some (ops, byts, d1) \<Rightarrow>
          if 0 < ops
          then (case should_interrupt_driver (rng_queue d1) (rng_mem d1) of (q, interrupt) \<Rightarrow>
            Some (d1\<lparr>rng_queue := q, ops_done := ops_done d1 + ops, bytes_out := bytes_out d1 + byts\<rparr>,
                  if interrupt then [RNG_REQUEST_QUEUE] else []))
          else Some (d1, []))"

section \<open>The device interface\<close>

definition rng_features :: u64 where
  "rng_features = FEATURE_VERSION_1 OR FEATURE_RING_EVENT_IDX"

definition rng_set_driver_features :: "u64 \<Rightarrow> rng_device \<Rightarrow> rng_device \<times> bool" where
  "rng_set_driver_features acked d =
     (if acked AND FEATURE_VERSION_1 = 0 then (d, False)
      else if acked AND NOT rng_features \<noteq> 0 then (d, False)
      else (d\<lparr>rng_acked := acked\<rparr>, True))"

definition rng_queue_max :: "u32 \<Rightarrow> u32" where
  "rng_queue_max idx = (if idx = RNG_REQUEST_QUEUE then RNG_QUEUE_MAX else 0)"

definition rng_enable_queue :: "u32 \<Rightarrow> u64 \<Rightarrow> u64 \<Rightarrow> u64 \<Rightarrow> u16 \<Rightarrow> bool \<Rightarrow> rng_device \<Rightarrow> rng_device" where
  "rng_enable_queue idx da aa ua n ev d =
     (if idx \<noteq> RNG_REQUEST_QUEUE then d
      else d\<lparr>rng_queue := set_ready True (set_event_idx_enabled ev (set_size (ucast n)
             (set_used_gpa ua (set_avail_gpa aa (set_desc_gpa da (rng_queue d))))))\<rparr>)"

definition rng_disable_queue :: "u32 \<Rightarrow> rng_device \<Rightarrow> rng_device" where
  "rng_disable_queue idx d = (if idx = RNG_REQUEST_QUEUE then d\<lparr>rng_queue := set_ready False (rng_queue d)\<rparr> else d)"

definition rng_notify_queue :: "nat \<Rightarrow> host_random \<Rightarrow> u32 \<Rightarrow> rng_device \<Rightarrow> (rng_device \<times> u32 list) option" where
  "rng_notify_queue fuel rnd idx d = (if idx = RNG_REQUEST_QUEUE then drain_request_queue fuel rnd d else Some (d, []))"

definition rng_reset :: "rng_device \<Rightarrow> rng_device" where
  "rng_reset d = d\<lparr>rng_driver_ok := False, rng_acked := 0, rng_queue := vq_reset (rng_queue d)\<rparr>"

definition rng_capture_queue :: "u32 \<Rightarrow> rng_device \<Rightarrow> queue_state option" where
  "rng_capture_queue idx d = (if idx = RNG_REQUEST_QUEUE then Some (vq_capture (rng_queue d)) else None)"

definition rng_apply_queue :: "u32 \<Rightarrow> queue_state \<Rightarrow> rng_device \<Rightarrow> rng_device" where
  "rng_apply_queue idx s d = (if idx = RNG_REQUEST_QUEUE then d\<lparr>rng_queue := vq_apply (rng_queue d) s\<rparr> else d)"

definition rng_capture_device_state :: "rng_device \<Rightarrow> bytes" where
  "rng_capture_device_state d = bool_byte (rng_driver_ok d) # replicate 7 0 @ le64 (rng_acked d)"

definition rng_apply_device_state :: "bytes \<Rightarrow> rng_device \<Rightarrow> rng_device" where
  "rng_apply_device_state bs d =
     (if 16 \<le> length bs then d\<lparr>rng_driver_ok := (bs ! 0 \<noteq> 0), rng_acked := le_decode (byte_range bs 8 8)\<rparr> else d)"

definition rng_dev :: "nat \<Rightarrow> host_random \<Rightarrow> rng_device virtio_device" where
  "rng_dev fuel rnd = \<lparr>device_id = \<lambda>d. 4, device_features = \<lambda>d. rng_features, set_driver_features = rng_set_driver_features,
     queue_count = \<lambda>d. 1, queue_max = \<lambda>idx d. rng_queue_max idx, enable_queue = rng_enable_queue, disable_queue = rng_disable_queue,
     notify_queue = rng_notify_queue fuel rnd, driver_ok = \<lambda>d. d\<lparr>rng_driver_ok := True\<rparr>, device_reset = rng_reset,
     reset_pending = \<lambda>d. False, read_config = \<lambda>off sz d. 0, write_config = \<lambda>off sz v d. d,
     capture_queue = rng_capture_queue, apply_queue = rng_apply_queue,
     capture_device_state = rng_capture_device_state, apply_device_state = rng_apply_device_state\<rparr>"

section \<open>What the fill writes\<close>

lemma rng_fill_loop_spec:
  assumes "wf_mem gm" and "buf_in_ram gm b" and "filled \<le> min (cb_len b) room"
    and "rng_fill_loop rnd b room filled k gm = (f, k', gm')"
  shows "f \<le> min (cb_len b) room \<and> only_at (buf_span b) gm gm' \<and> ((\<forall>j. rnd j \<noteq> None) \<longrightarrow> f = min (cb_len b) room)"
  using assms
proof (induction rnd b room filled k gm arbitrary: f k' gm' rule: rng_fill_loop.induct)
  case (1 rnd b room filled k gm)
  let ?want = "min (cb_len b) room"
  let ?n = "min (?want - filled) 4096"
  show ?case
  proof (cases "filled < ?want \<and> rnd k \<noteq> None")
    case True
    then obtain byte where byte: "rnd k = Some byte" by auto
    let ?w = "cb_write_at gm b filled (map byte [0..<?n])"
    note at = only_at_write [OF 1(2,3), of filled "map byte [0..<?n]"]
    have n: "snd ?w = ?n" using True by (auto simp: cb_write_at_def Let_def)
    have "rng_fill_loop rnd b room (filled + snd ?w) (Suc k) (fst ?w) = (f, k', gm')"
      using True byte 1(5) rng_fill_loop.simps [of rnd b room filled k gm] by (simp add: Let_def case_prod_beta)
    moreover have "filled + snd ?w \<le> ?want" unfolding n using True by linarith
    moreover have "wf_mem (fst ?w)" "buf_in_ram (fst ?w) b"
      using 1(2,3) by (simp_all add: only_at_wf [OF at] only_at_buf [OF at])
    ultimately have "f \<le> ?want \<and> only_at (buf_span b) (fst ?w) gm' \<and> ((\<forall>j. rnd j \<noteq> None) \<longrightarrow> f = ?want)"
      using 1(1) [OF refl _ refl byte prod.collapse] True by blast
    then show ?thesis using only_at_trans [OF at, of "buf_span b" gm'] by simp
  next
    case False
    then have "f = filled \<and> gm' = gm"
      using 1(5) unfolding rng_fill_loop.simps [of rnd b room filled k gm] Let_def
      by (auto split: if_splits option.splits simp del: min_less_iff_conj)
    moreover have "(\<forall>j. rnd j \<noteq> None) \<longrightarrow> filled = ?want" using False 1(4) le_neq_implies_less by blast
    ultimately show ?thesis using 1(4) by (simp add: only_at_refl)
  qed
qed

lemma rng_fill_bufs_spec:
  assumes "wf_mem gm" and "\<forall>b \<in> set bs. buf_in_ram gm b" and "tot \<le> RNG_MAX_FILL"
    and "rng_fill_bufs rnd bs tot k gm = (t, k', gm')"
  shows "t \<le> RNG_MAX_FILL \<and> unat t \<le> unat tot + writable_len bs \<and> only_at (writable_span bs) gm gm' \<and>
    ((\<forall>j. rnd j \<noteq> None) \<longrightarrow> unat t = min (unat RNG_MAX_FILL) (unat tot + writable_len bs))"
  using assms
proof (induction bs arbitrary: tot k gm)
  case Nil
  then show ?case by (simp add: only_at_refl word_le_nat_alt)
next
  case (Cons b bs)
  show ?case
  proof (cases "\<not> cb_write b \<or> cb_len b = 0 \<or> RNG_MAX_FILL \<le> tot")
    case True
    moreover have "only_at (writable_span bs) gm gm' \<Longrightarrow> only_at (writable_span (b # bs)) gm gm'"
      by (erule only_at_mono) auto
    ultimately show ?thesis using Cons.IH [OF Cons.prems(1) _ Cons.prems(3)] Cons.prems
      by (cases "\<not> cb_write b \<or> cb_len b = 0") (auto simp: only_at_refl word_le_nat_alt)
  next
    case False
    obtain f k1 gm1 where f: "rng_fill_loop rnd b (unat (RNG_MAX_FILL - tot)) 0 k gm = (f, k1, gm1)"
      using prod_cases3 by blast
    have sub: "unat (RNG_MAX_FILL - tot) = unat RNG_MAX_FILL - unat tot" using Cons.prems(3) by (rule unat_sub)
    note s = rng_fill_loop_spec [OF Cons.prems(1) _ _ f]
    have b: "buf_in_ram gm b" using Cons.prems(2) by simp
    have fle: "f \<le> unat RNG_MAX_FILL - unat tot" "f \<le> cb_len b" and at: "only_at (buf_span b) gm gm1"
      using s b sub by auto
    have "unat tot + f < 2 ^ 32" using fle(1) Cons.prems(3) by (simp add: word_le_nat_alt)
    then have tot1: "unat (tot + of_nat f) = unat tot + f" by (simp add: unat_word_ariths(1) unat_of_nat take_bit_nat_eq_self mod_add_right_eq)
    then have "tot + of_nat f \<le> RNG_MAX_FILL" using fle Cons.prems(3) by (simp add: word_le_nat_alt)
    moreover have "rng_fill_bufs rnd bs (tot + of_nat f) k1 gm1 = (t, k', gm')" using Cons.prems(4) f False by simp
    ultimately have r: "t \<le> RNG_MAX_FILL \<and> unat t \<le> unat tot + f + writable_len bs \<and> only_at (writable_span bs) gm1 gm' \<and>
        ((\<forall>j. rnd j \<noteq> None) \<longrightarrow> unat t = min (unat RNG_MAX_FILL) (unat tot + f + writable_len bs))"
      using Cons.IH [of gm1 "tot + of_nat f" k1] Cons.prems(1,2) tot1 by (simp add: only_at_wf [OF at] only_at_buf [OF at])
    moreover have "only_at (writable_span (b # bs)) gm gm'"
    proof (rule only_at_mono)
      show "only_at (buf_span b \<union> writable_span bs) gm gm'" using only_at_trans [OF at] r by blast
      show "buf_span b \<union> writable_span bs \<subseteq> writable_span (b # bs)" using False by auto
    qed
    moreover have "(\<forall>j. rnd j \<noteq> None) \<longrightarrow> f = min (cb_len b) (unat RNG_MAX_FILL - unat tot)" using s b sub by simp
    ultimately show ?thesis using fle False Cons.prems(3) by (auto simp: word_le_nat_alt)
  qed
qed

section \<open>No guest makes the device panic\<close>

definition rng_good :: "rng_device \<Rightarrow> bool" where
  "rng_good d \<longleftrightarrow> wf_mem (rng_mem d) \<and> vq_ok (rng_queue d) \<and> max_size (rng_queue d) = RNG_QUEUE_MAX"

lemma rng_step_ok:
  assumes "rng_good d"
  shows "case rng_step rnd d of None \<Rightarrow> False
    | Some (d', r) \<Rightarrow> rng_good d' \<and> (r \<noteq> None \<longrightarrow> last_avail (rng_queue d') = last_avail (rng_queue d) + 1 \<and> the r \<le> RNG_MAX_FILL)"
proof -
  have wf: "wf_mem (rng_mem d)" "vq_ok (rng_queue d)" using assms by (simp_all add: rng_good_def)
  obtain q gm ch r where p: "pop_into (rng_queue d) (rng_mem d) \<lparr>head_index = 0, bufs = []\<rparr> = Some (q, gm, ch, r)"
      "vq_ok q" "bufs_ok gm (vq_size (rng_queue d)) (bufs ch)" "wf_mem gm" "max_size q = RNG_QUEUE_MAX"
      "r \<longrightarrow> last_avail q = last_avail (rng_queue d) + 1"
    using pop_into_spec [OF wf, of "\<lparr>head_index = 0, bufs = []\<rparr>"] assms
    by (fastforce simp: rng_good_def same_but_def split: option.splits if_splits)
  show ?thesis
  proof (cases r)
    case True
    obtain t k gm1 where f: "rng_fill_bufs rnd (bufs ch) 0 (rng_calls d) gm = (t, k, gm1)" using prod_cases3 by blast
    have s: "t \<le> RNG_MAX_FILL" "only_at (writable_span (bufs ch)) gm gm1"
      using rng_fill_bufs_spec [OF p(4) _ _ f] p(3) by (auto simp: bufs_ok_def)
    then have "wf_mem gm1" using p(4) only_at_wf by blast
    from vq_push_ok [OF p(2) this, of "head_index ch" t] True p f s show ?thesis
      by (auto simp: rng_step_def rng_good_def split: option.splits)
  next
    case False
    with p show ?thesis by (simp add: rng_step_def rng_good_def)
  qed
qed

lemma rng_drain_loop_ok:
  assumes "rng_good d"
  shows "case rng_drain_loop rnd fuel ops byts d of None \<Rightarrow> False | Some (o', b', d') \<Rightarrow> rng_good d'"
  using assms
proof (induction fuel arbitrary: ops byts d)
  case (Suc fuel)
  obtain d' r where "rng_step rnd d = Some (d', r)" "rng_good d'"
    using rng_step_ok [OF Suc.prems, of rnd] by (auto split: option.splits)
  then show ?case using Suc.IH by (cases r) simp_all
qed simp

lemma rng_notify_ok:
  assumes "rng_good d"
  shows "case rng_notify_queue fuel rnd idx d of None \<Rightarrow> False | Some (d', raised) \<Rightarrow> rng_good d'"
proof -
  obtain ops byts d' where r: "rng_drain_loop rnd fuel 0 0 d = Some (ops, byts, d')" "rng_good d'"
    using rng_drain_loop_ok [OF assms, of rnd fuel 0 0] by (auto split: option.splits)
  then show ?thesis using assms
    by (auto simp: rng_notify_queue_def drain_request_queue_def should_interrupt_driver_def rng_good_def vq_ok_def Let_def)
qed

interpretation rng: virtio_contract "rng_dev fuel rnd" rng_good rng_queue_max for fuel rnd
proof (unfold_locales, goal_cases)
  case (2 d f)
  then show ?case by (simp add: rng_dev_def rng_set_driver_features_def rng_good_def)
next
  case (3 d q da aa ua n ev)
  then show ?case
    by (auto simp: rng_dev_def rng_enable_queue_def rng_good_def vq_ok_def enable_ok_def rng_queue_max_def set_ready_def
        set_event_idx_enabled_def set_size_def set_used_gpa_def set_avail_gpa_def set_desc_gpa_def word_le_nat_alt unat_ucast_up)
next
  case (5 d q)
  then show ?case using rng_notify_ok [of d] by (simp add: rng_dev_def)
qed (auto simp: rng_dev_def rng_queue_max_def rng_good_def rng_disable_queue_def set_ready_def rng_reset_def vq_reset_def vq_ok_def)

text \<open>
  What a guest can do: access the device's registers, and change its RAM between two accesses in any
  way (the stores of all its processors).
\<close>

datatype rng_event = GuestAccess guest_op | GuestStores bytes

definition guest_stores :: "bytes \<Rightarrow> rng_device transport \<Rightarrow> rng_device transport" where
  "guest_stores r t = (let d = tp_device t; gm = rng_mem d
     in if length r = length (gm_ram gm) then t\<lparr>tp_device := d\<lparr>rng_mem := gm\<lparr>gm_ram := r\<rparr>\<rparr>\<rparr> else t)"

fun rng_run :: "nat \<Rightarrow> host_random \<Rightarrow> rng_event list \<Rightarrow> rng_device transport \<Rightarrow> rng_device transport option" where
  "rng_run fuel rnd [] t = Some t"
| "rng_run fuel rnd (GuestAccess x # es) t = (case transport_op (rng_dev fuel rnd) x t of None \<Rightarrow> None | Some t' \<Rightarrow> rng_run fuel rnd es t')"
| "rng_run fuel rnd (GuestStores r # es) t = rng_run fuel rnd es (guest_stores r t)"

lemma rng_safe_stores: "rng.safe t \<Longrightarrow> rng.safe (guest_stores r t)"
  by (auto simp: rng.safe_def guest_stores_def rng_good_def wf_mem_def Let_def split: option.splits)

lemma rng_run_safe:
  "rng.safe t \<Longrightarrow> case rng_run fuel rnd es t of None \<Rightarrow> False | Some t' \<Rightarrow> rng.safe t'"
proof (induction fuel rnd es t rule: rng_run.induct)
  case (2 fuel rnd x es t)
  obtain t' where "transport_op (rng_dev fuel rnd) x t = Some t'" "rng.safe t'"
    using rng.safe_op [OF "2.prems", of fuel rnd x] by (auto split: option.splits)
  with "2.IH" show ?case by simp
qed (simp_all add: rng_safe_stores)

lemma rng_safe_new:
  assumes "wf_mem gm" and "transport_new (rng_dev fuel rnd) (rng_new gm) opts = Some t"
  shows "rng.safe t"
  using assms(1) transport_new_state [OF assms(2)]
  by (simp add: rng.safe_def rng.sizes_ok_def rng_good_def rng_new_def vq_ok_def vq_new_def common_new_def tqueue_default_def)

text \<open>
  C4. No guest can make the entropy device panic the VMM: from the transport as it is built, any
  sequence of register accesses (common configuration, ISR, notify, device configuration, MSI-X table,
  of any size and at any offset), interleaved with arbitrary changes of the guest's RAM between
  them, is answered; the queue keeps a size its ring arithmetic can hold and the memory its shape.
\<close>

theorem rng_survives_any_guest:
  assumes "wf_mem gm" and "transport_new (rng_dev fuel rnd) (rng_new gm) opts = Some t"
  shows "case rng_run fuel rnd es t of None \<Rightarrow> False
    | Some t' \<Rightarrow> vq_ok (rng_queue (tp_device t')) \<and> max_size (rng_queue (tp_device t')) = RNG_QUEUE_MAX \<and> wf_mem (rng_mem (tp_device t'))"
  using rng_run_safe [OF rng_safe_new [OF assms], of fuel rnd es]
  by (auto simp: rng.safe_def rng_good_def split: option.splits)

text \<open>
  A chain gets what it asked for and nothing else is touched: the reported length never exceeds
  what the chain's writable buffers hold nor the cap of 1 MiB, and equals the smaller of the two as
  long as the host's generator does not fail; only bytes of the writable buffers change.
\<close>

lemma rng_fill_exact:
  assumes "wf_mem gm" and "\<forall>b \<in> set bs. buf_in_ram gm b" and "rng_fill_bufs rnd bs 0 k gm = (t, k', gm')"
  shows "t \<le> RNG_MAX_FILL \<and> unat t \<le> writable_len bs \<and>
    ((\<forall>j. rnd j \<noteq> None) \<longrightarrow> unat t = min (unat RNG_MAX_FILL) (writable_len bs)) \<and>
    wf_mem gm' \<and> only_at (writable_span bs) gm gm'"
  using rng_fill_bufs_spec [OF assms(1,2) _ assms(3)] assms(1) by (auto dest: only_at_wf)

section \<open>The drain loop ends\<close>

text \<open>The device after \<open>n\<close> rounds of the loop, or where it stopped before.\<close>

definition rng_after :: "host_random \<Rightarrow> nat \<Rightarrow> rng_device \<Rightarrow> rng_device option" where
  "rng_after rnd n d = map_option (\<lambda>r. snd (snd r)) (rng_drain_loop rnd n 0 0 d)"

lemma rng_after_any: "map_option (\<lambda>r. snd (snd r)) (rng_drain_loop rnd n ops byts d) = rng_after rnd n d"
proof -
  have "map_option (\<lambda>r. snd (snd r)) (rng_drain_loop rnd n ops byts d) = map_option (\<lambda>r. snd (snd r)) (rng_drain_loop rnd n ops' byts' d)" for ops' byts'
  proof (induction n arbitrary: ops byts ops' byts' d)
    case (Suc n)
    show ?case by (auto split: option.split intro: Suc)
  qed simp
  then show ?thesis by (simp add: rng_after_def)
qed

lemma rng_after_Suc: "rng_step rnd d = Some (d', Some t) \<Longrightarrow> rng_after rnd (Suc n) d = rng_after rnd n d'"
  using rng_after_any [of rnd n "0 + 1" "0 + ucast t" d'] by (simp add: rng_after_def)

lemma rng_step_empty:
  assumes "rng_good d" and "kick_apart (rng_queue d)" and "avail_idx (rng_queue d) (rng_mem d) = last_avail (rng_queue d)"
  shows "\<exists>d'. rng_step rnd d = Some (d', None)"
  using assms avail_idx_armed [of "rng_mem d" "rng_queue d"]
  by (auto simp: rng_step_def pop_into_def pop_check_def arm_kick_and_recheck_def rng_good_def Let_def)

lemma rng_step_kick_apart:
  assumes "rng_good d" and "rng_step rnd d = Some (d', r)"
  shows "kick_apart (rng_queue d') = kick_apart (rng_queue d)"
proof -
  have wf: "wf_mem (rng_mem d)" "vq_ok (rng_queue d)" using assms by (simp_all add: rng_good_def)
  obtain q gm ch rr where p: "pop_into (rng_queue d) (rng_mem d) \<lparr>head_index = 0, bufs = []\<rparr> = Some (q, gm, ch, rr)"
      "q = (rng_queue d)\<lparr>last_avail := last_avail q\<rparr>"
    using pop_into_spec [OF wf, of "\<lparr>head_index = 0, bufs = []\<rparr>"] by (fastforce split: option.splits)
  have upd: "kick_apart (q'\<lparr>last_avail := x\<rparr>) = kick_apart q'" "kick_apart (q'\<lparr>last_used_idx := x\<rparr>) = kick_apart q'" for q' x
    by (simp_all add: kick_apart_def avail_event_gpa_def)
  have "kick_apart q = kick_apart (rng_queue d)" using upd(1) p(2) by metis
  moreover have "kick_apart q' = kick_apart q" if "vq_push h l (q, gm') = Some (q', gm'')" for h l gm' q' gm''
    using that by (auto simp: vq_push_def add_used_def publish_used_def upd Let_def split: if_splits)
  ultimately show ?thesis using assms(2) p(1)
    by (auto simp: rng_step_def split: if_splits option.splits prod.splits)
qed

lemma rng_drain_loop_ends:
  assumes "rng_good d" and "kick_apart (rng_queue d)" and "unat (idx - last_avail (rng_queue d)) = N"
    and "\<forall>n \<le> N. \<forall>d'. rng_after rnd n d = Some d' \<longrightarrow> avail_idx (rng_queue d') (rng_mem d') = idx"
  shows "\<exists>r. \<forall>m > N. rng_drain_loop rnd m ops byts d = Some r"
  using assms
proof (induction N arbitrary: d ops byts)
  case 0
  then have "avail_idx (rng_queue d) (rng_mem d) = idx" by (simp add: rng_after_def)
  moreover have "idx = last_avail (rng_queue d)" using 0(3) by (simp add: unat_eq_0)
  ultimately obtain d' where "rng_step rnd d = Some (d', None)" using rng_step_empty [OF 0(1,2)] by auto
  then have "rng_drain_loop rnd m ops byts d = Some (ops, byts, d')" if "m > 0" for m using that by (cases m) simp_all
  then show ?case by blast
next
  case (Suc N)
  obtain d' t where st: "rng_step rnd d = Some (d', t)" "rng_good d'" "t \<noteq> None \<longrightarrow> last_avail (rng_queue d') = last_avail (rng_queue d) + 1"
    using rng_step_ok [OF Suc.prems(1), of rnd] by (auto split: option.splits)
  show ?case
  proof (cases t)
    case None
    with st(1) have "rng_drain_loop rnd m ops byts d = Some (ops, byts, d')" if "m > Suc N" for m using that by (cases m) simp_all
    then show ?thesis by blast
  next
    case (Some tot)
    have "unat (idx - last_avail (rng_queue d')) = N"
    proof -
      have "idx - last_avail (rng_queue d') = idx - last_avail (rng_queue d) - 1" using st(3) Some by simp
      moreover have "idx - last_avail (rng_queue d) \<noteq> 0" using Suc.prems(3) by (metis unat_0 nat.distinct(1))
      ultimately show ?thesis
        using Suc.prems(3) unat_minus_one [of "idx - last_avail (rng_queue d)"] by (simp only: diff_Suc_1 simp_thms)
    qed
    moreover have "\<forall>n \<le> N. \<forall>d2. rng_after rnd n d' = Some d2 \<longrightarrow> avail_idx (rng_queue d2) (rng_mem d2) = idx"
      using Suc.prems(4) rng_after_Suc [of rnd d d' tot] st(1) Some by auto
    ultimately obtain r where "\<forall>m > N. rng_drain_loop rnd m (ops + 1) (byts + ucast tot) d' = Some r"
      using Suc.IH [of d'] st rng_step_kick_apart [OF Suc.prems(1) st(1)] Suc.prems(2) by blast
    then have "rng_drain_loop rnd m ops byts d = Some r" if "m > Suc N" for m using that st(1) Some by (cases m) auto
    then show ?thesis by blast
  qed
qed

text \<open>
  C28. Notifying the device returns: as long as \<open>avail.idx\<close> stays where the driver left it (nobody
  publishes more, and no chain hands the index itself to the device as a buffer), the loop ends
  after at most one round per published chain and one that finds nothing. More fuel than that makes
  no difference, and the result is no panic.
\<close>

theorem rng_notify_returns:
  assumes "rng_good d" and "kick_apart (rng_queue d)" and "unat (idx - last_avail (rng_queue d)) = N"
    and "\<forall>n \<le> N. \<forall>d'. rng_after rnd n d = Some d' \<longrightarrow> avail_idx (rng_queue d') (rng_mem d') = idx"
  shows "\<exists>d' raised. \<forall>fuel > N. rng_notify_queue fuel rnd RNG_REQUEST_QUEUE d = Some (d', raised)"
proof -
  obtain r where r: "\<forall>m > N. rng_drain_loop rnd m 0 0 d = Some r" using rng_drain_loop_ends [OF assms] by blast
  obtain d' raised where "rng_notify_queue (Suc N) rnd RNG_REQUEST_QUEUE d = Some (d', raised)"
    using rng_notify_ok [OF assms(1), of "Suc N" rnd RNG_REQUEST_QUEUE] by (auto split: option.splits)
  moreover have "rng_notify_queue m rnd RNG_REQUEST_QUEUE d = rng_notify_queue (Suc N) rnd RNG_REQUEST_QUEUE d" if "m > N" for m
  proof -
    have "rng_drain_loop rnd m 0 0 d = rng_drain_loop rnd (Suc N) 0 0 d" using r that lessI by metis
    then show ?thesis by (simp only: rng_notify_queue_def drain_request_queue_def)
  qed
  ultimately show ?thesis by metis
qed

section \<open>Concrete runs\<close>

definition demo_options :: transport_options where
  "demo_options = \<lparr>opt_vendor_id = 0x1AF4, opt_sub_vendor_id = 0x1AF4, opt_sub_id = 0, opt_num_msix_vectors = 2,
     opt_pci_class = 0xFF, opt_pci_subclass = 0\<rparr>"

definition demo_rnd :: host_random where
  "demo_rnd k = Some (\<lambda>i. 7)"

lemma demo_transport: "\<exists>t. transport_new (rng_dev 8 demo_rnd) (rng_new demo_mem) demo_options = Some t"
  using transport_new_total [of demo_options "rng_dev 8 demo_rnd" "rng_new demo_mem"] by (auto simp: demo_options_def)

theorem virtio_function_discoverable_witness:
  "\<exists>t. transport_new (rng_dev 8 demo_rnd) (rng_new demo_mem) demo_options = Some t \<and> tp_cap_off t = 0x84 \<and>
     virtio_cap_read (tp_cfg t) 0x50 = (2, 0, 0x1000, 0x1000)"
  using virtio_function_discoverable [of demo_options "rng_dev 8 demo_rnd" "rng_new demo_mem"]
  by (auto simp: demo_options_def)

theorem rng_survives_any_guest_witness:
  "\<exists>t. transport_new (rng_dev 8 demo_rnd) (rng_new demo_mem) demo_options = Some t \<and>
    (\<forall>es. case rng_run 8 demo_rnd es t of None \<Rightarrow> False | Some t' \<Rightarrow> wf_mem (rng_mem (tp_device t')))"
proof -
  obtain t where t: "transport_new (rng_dev 8 demo_rnd) (rng_new demo_mem) demo_options = Some t"
    using demo_transport by blast
  have "case rng_run 8 demo_rnd es t of None \<Rightarrow> False | Some t' \<Rightarrow> wf_mem (rng_mem (tp_device t'))" for es
    using rng_survives_any_guest [OF demo_ok(1) t, of es] by (auto split: option.splits)
  with t show ?thesis by blast
qed

definition demo_rng :: rng_device where
  "demo_rng = (rng_new demo_mem)\<lparr>rng_queue := demo_vq\<lparr>max_size := RNG_QUEUE_MAX\<rparr>\<rparr>"

definition demo_filled :: guest_memory where
  "demo_filled = demo_mem\<lparr>gm_ram := overwrite demo_ram 176 (replicate 16 7)\<rparr>"

lemma demo_fill: "rng_fill_bufs demo_rnd demo_bufs 0 0 demo_mem = (16, 1, demo_filled)"
proof -
  let ?b = "\<lparr>cb_ptr = 176, cb_len = 16, cb_write = True\<rparr>"
  have "rng_fill_loop demo_rnd ?b 0x100000 16 1 demo_filled = (16, 1, demo_filled)"
    by (subst rng_fill_loop.simps) simp
  moreover have "cb_write_at demo_mem ?b 0 (map (\<lambda>i. 7) [0..<16]) = (demo_filled, 16)"
    by (simp add: cb_write_at_def demo_filled_def demo_mem_def map_replicate_const)
  ultimately have "rng_fill_loop demo_rnd ?b 0x100000 0 0 demo_mem = (16, 1, demo_filled)"
    by (subst rng_fill_loop.simps) (simp add: demo_rnd_def)
  then show ?thesis by simp
qed

lemma demo_pop: "pop_into (demo_vq\<lparr>max_size := RNG_QUEUE_MAX\<rparr>) demo_mem \<lparr>head_index = 0, bufs = []\<rparr> =
    Some (demo_vq\<lparr>max_size := RNG_QUEUE_MAX, last_avail := 1\<rparr>, demo_mem, \<lparr>head_index = 0, bufs = demo_bufs\<rparr>, True)"
  by code_simp

lemma demo_push:
  "map_option (\<lambda>(q, gm). avail_idx q gm) (vq_push 0 16 (demo_vq\<lparr>max_size := RNG_QUEUE_MAX, last_avail := 1\<rparr>, demo_filled)) = Some 1"
  by code_simp

lemma demo_rng_idx:
  "map_option (\<lambda>d. avail_idx (rng_queue d) (rng_mem d)) (rng_after demo_rnd 0 demo_rng) = Some 1"
  "map_option (\<lambda>d. avail_idx (rng_queue d) (rng_mem d)) (rng_after demo_rnd 1 demo_rng) = Some 1"
proof -
  show "map_option (\<lambda>d. avail_idx (rng_queue d) (rng_mem d)) (rng_after demo_rnd 0 demo_rng) = Some 1" by code_simp
  obtain q gm where p: "vq_push 0 16 (demo_vq\<lparr>max_size := RNG_QUEUE_MAX, last_avail := 1\<rparr>, demo_filled) = Some (q, gm)"
      "avail_idx q gm = 1"
    using demo_push by (auto split: prod.splits)
  have d: "rng_queue demo_rng = demo_vq\<lparr>max_size := RNG_QUEUE_MAX\<rparr>" "rng_mem demo_rng = demo_mem" "rng_calls demo_rng = 0"
    by (simp_all add: demo_rng_def rng_new_def)
  have "rng_step demo_rnd demo_rng = Some (demo_rng\<lparr>rng_queue := q, rng_mem := gm, rng_calls := 1\<rparr>, Some 16)"
    by (simp add: rng_step_def d demo_pop demo_fill p(1) del: rng_fill_bufs.simps)
  then show "map_option (\<lambda>d. avail_idx (rng_queue d) (rng_mem d)) (rng_after demo_rnd 1 demo_rng) = Some 1"
    using p(2) by (simp add: rng_after_def)
qed

theorem rng_notify_returns_witness:
  "\<exists>d' raised. \<forall>fuel > 1. rng_notify_queue fuel demo_rnd RNG_REQUEST_QUEUE demo_rng = Some (d', raised)"
proof -
  have "rng_good demo_rng" "kick_apart (rng_queue demo_rng)" "unat (1 - last_avail (rng_queue demo_rng)) = 1"
    using demo_ok by (simp_all add: rng_good_def demo_rng_def rng_new_def demo_vq_def vq_new_def vq_ok_def kick_apart_def avail_event_gpa_def)
  moreover have "\<forall>n \<le> 1. \<forall>d'. rng_after demo_rnd n demo_rng = Some d' \<longrightarrow> avail_idx (rng_queue d') (rng_mem d') = 1"
  proof (intro allI impI)
    fix n d'
    assume "n \<le> 1" and d': "rng_after demo_rnd n demo_rng = Some d'"
    then have "n = 0 \<or> n = 1" by linarith
    with d' demo_rng_idx show "avail_idx (rng_queue d') (rng_mem d') = 1" by (elim disjE) simp_all
  qed
  ultimately show ?thesis by (rule rng_notify_returns)
qed

theorem virtio_queue_setup_witness:
  "\<exists>t. transport_new (rng_dev 8 demo_rnd) (rng_new demo_mem) demo_options = Some t \<and>
    rng_queue (tp_device (drive (rng_dev 8 demo_rnd) (setup_queue 0 0 16 0x1000 0x2000 0x3000 1) t)) =
      (vq_new RNG_QUEUE_MAX)\<lparr>vq_size := 16, vq_ready := True, desc_gpa := 0x1000, avail_gpa := 0x2000, used_gpa := 0x3000\<rparr>"
proof -
  obtain t where t: "transport_new (rng_dev 8 demo_rnd) (rng_new demo_mem) demo_options = Some t"
    using demo_transport by blast
  note st = transport_new_state [OF t]
  have "is_power_of_two16 16" by code_simp
  moreover have "queue_max (rng_dev 8 demo_rnd) (ucast (0 :: u16)) (tp_device t) = 64" by (simp add: rng_dev_def rng_queue_max_def)
  moreover have "tqueues (tp_common t) = [tqueue_default]" using st(2) by (simp add: common_new_def rng_dev_def)
  ultimately have "drive (rng_dev 8 demo_rnd) (setup_queue 0 0 16 0x1000 0x2000 0x3000 1) t =
      t\<lparr>tp_common := (tp_common t)\<lparr>queue_select := 0, tqueues := [\<lparr>tq_vector = 1, tq_enable = 1, tq_desc = 0x1000, tq_driver = 0x2000, tq_device = 0x3000, tq_size = 16\<rparr>]\<rparr>,
        tp_device := enable_queue (rng_dev 8 demo_rnd) 0 0x1000 0x2000 0x3000 16 (driver_features (tp_common t) AND FEATURE_RING_EVENT_IDX \<noteq> 0) (tp_device t)\<rparr>"
    using virtio_queue_setup [where t = t and bar = 0 and q = 0 and n = 16 and dv = "rng_dev 8 demo_rnd" and d = "0x1000" and a = "0x2000" and u = "0x3000" and vec = 1] st(3)
    by simp
  moreover have "driver_features (tp_common t) = 0" "tp_device t = rng_new demo_mem" using st by (simp_all add: common_new_def)
  ultimately show ?thesis using t
    by (simp add: rng_dev_def rng_enable_queue_def rng_new_def vq_new_def set_ready_def
        set_event_idx_enabled_def set_size_def set_used_gpa_def set_avail_gpa_def set_desc_gpa_def)
qed

text \<open>A driver that acknowledges no feature is refused: FEATURES_OK reads back clear.\<close>

theorem virtio_status_negotiation_witness:
  "\<exists>t. transport_new (rng_dev 8 demo_rnd) (rng_new demo_mem) demo_options = Some t \<and>
    read_status (rng_dev 8 demo_rnd) (fst (handle_common_cfg (rng_dev 8 demo_rnd) (w8 0 0x14 8) t)) = STATUS_NEEDS_RESET"
proof -
  obtain t where t: "transport_new (rng_dev 8 demo_rnd) (rng_new demo_mem) demo_options = Some t"
    using demo_transport by blast
  note st = transport_new_state [OF t]
  have c: "status (tp_common t) = 0" "driver_features (tp_common t) = 0" using st by (simp_all add: common_new_def)
  then have "set_driver_features (rng_dev 8 demo_rnd) (driver_features (tp_common t)) (tp_device t) = (tp_device t, False)"
    by (simp add: rng_dev_def rng_set_driver_features_def)
  with c virtio_status_negotiation [where t = t and bar = 0 and v = 8 and dv = "rng_dev 8 demo_rnd", OF st(3) _ refl]
  have "read_status (rng_dev 8 demo_rnd) (fst (handle_common_cfg (rng_dev 8 demo_rnd) (w8 0 0x14 8) t)) = (8 AND NOT STATUS_FEATURES_OK) OR STATUS_NEEDS_RESET"
    by simp
  also have "(8 AND NOT STATUS_FEATURES_OK) OR STATUS_NEEDS_RESET = STATUS_NEEDS_RESET" by simp
  finally show ?thesis using t by blast
qed

end
