(* ===== verification/Virtio_Snapshot.thy ===== *)
theory Virtio_Snapshot
  imports Byte_Reader Virtio_Rng
begin

text \<open>
  Saving and restoring a virtio function (\<^verbatim>\<open>DeviceSnapshot\<close>, \<^verbatim>\<open>snapshot_capture\<close> and \<^verbatim>\<open>snapshot_apply\<close> in
  \<^verbatim>\<open>src/virtio/transport.rs\<close>): the byte format with its encoder and decoder, what a transport captures
  of itself, and the order in which a restore puts it back. The format is read back exactly, a corrupt
  file is refused without a panic, and the entropy device comes back as it was.
\<close>

section \<open>The format\<close>

record device_snapshot =
  sn_cfg :: bytes
  sn_bar_vals :: "(u32 \<times> u32) list"
  sn_device_feature_select :: u32
  sn_driver_feature_select :: u32
  sn_driver_features :: u64
  sn_msix_config :: u16
  sn_status :: u8
  sn_config_generation :: u8
  sn_queue_select :: u16
  sn_common_queues :: "tqueue list"
  sn_isr :: u32
  sn_msix_control :: u16
  sn_msix_table :: "u32 list list"
  sn_msix_pba :: "u64 list"
  sn_queues :: "(u32 \<times> queue_state) list"
  sn_device_state :: bytes

definition enc_bar :: "u32 \<times> u32 \<Rightarrow> bytes" where
  "enc_bar v = le32 (fst v) @ le32 (snd v)"

definition enc_tqueue :: "tqueue \<Rightarrow> bytes" where
  "enc_tqueue q = le16 (tq_vector q) @ le16 (tq_enable q) @ le16 (tq_size q) @ le64 (tq_desc q) @ le64 (tq_driver q) @ le64 (tq_device q)"

definition enc_entry :: "u32 list \<Rightarrow> bytes" where
  "enc_entry e = le32 (e ! 0) @ le32 (e ! 1) @ le32 (e ! 2) @ le32 (e ! 3)"

definition enc_queue :: "u32 \<times> queue_state \<Rightarrow> bytes" where
  "enc_queue x = le32 (fst x) @ qs_encode (snd x)"

definition snapshot_encode :: "device_snapshot \<Rightarrow> bytes" where
  "snapshot_encode s =
     (sn_cfg s @ concat (map enc_bar (sn_bar_vals s)) @ le32 (sn_device_feature_select s) @ le32 (sn_driver_feature_select s) @
      le64 (sn_driver_features s) @ le16 (sn_msix_config s) @ [sn_status s] @ [sn_config_generation s] @ le16 (sn_queue_select s) @
      le32 (sn_isr s) @ le16 (of_nat (length (sn_common_queues s)))) @
     concat (map enc_tqueue (sn_common_queues s)) @
     le16 (sn_msix_control s) @
     le16 (of_nat (length (sn_msix_table s))) @ concat (map enc_entry (sn_msix_table s)) @
     le16 (of_nat (length (sn_msix_pba s))) @ concat (map le64 (sn_msix_pba s)) @
     le16 (of_nat (length (sn_queues s))) @ concat (map enc_queue (sn_queues s)) @
     le32 (of_nat (length (sn_device_state s))) @ sn_device_state s"

definition rd_bar :: "(u32 \<times> u32) reader" where
  "rd_bar = rd_bind rd_u32 (\<lambda>lo. rd_bind rd_u32 (\<lambda>hi. rd_ret (lo, hi)))"

definition rd_tqueue :: "tqueue reader" where
  "rd_tqueue = rd_bind rd_u16 (\<lambda>v. rd_bind rd_u16 (\<lambda>en. rd_bind rd_u16 (\<lambda>n. rd_bind rd_u64 (\<lambda>d. rd_bind rd_u64 (\<lambda>a. rd_bind rd_u64 (\<lambda>u.
     rd_ret \<lparr>tq_vector = v, tq_enable = en, tq_desc = d, tq_driver = a, tq_device = u, tq_size = n\<rparr>))))))"

definition rd_entry :: "u32 list reader" where
  "rd_entry = rd_bind rd_u32 (\<lambda>a. rd_bind rd_u32 (\<lambda>b. rd_bind rd_u32 (\<lambda>c. rd_bind rd_u32 (\<lambda>d. rd_ret [a, b, c, d]))))"

definition rd_queue :: "(u32 \<times> queue_state) reader" where
  "rd_queue = rd_need (4 + QUEUE_STATE_ENCODED) (rd_bind (rd_bind rd_u32 (\<lambda>i. rd_bind (rd_take QUEUE_STATE_ENCODED) (\<lambda>b. rd_ret (i, b))))
     (\<lambda>(i, b). case qs_decode b of None \<Rightarrow> rd_fail | Some st \<Rightarrow> rd_ret (i, st)))"

text \<open>The fixed part, with the number of queues that follow.\<close>

definition rd_header :: "(device_snapshot \<times> u16) reader" where
  "rd_header = rd_bind (rd_take 256) (\<lambda>c. rd_bind (rd_times 6 rd_bar) (\<lambda>bars. rd_bind rd_u32 (\<lambda>dfs. rd_bind rd_u32 (\<lambda>gfs. rd_bind rd_u64 (\<lambda>gf.
     rd_bind rd_u16 (\<lambda>mc. rd_bind rd_u8 (\<lambda>st. rd_bind rd_u8 (\<lambda>gen. rd_bind rd_u16 (\<lambda>sel. rd_bind rd_u32 (\<lambda>isr. rd_bind rd_u16 (\<lambda>n.
       rd_ret (\<lparr>sn_cfg = c, sn_bar_vals = bars, sn_device_feature_select = dfs, sn_driver_feature_select = gfs, sn_driver_features = gf,
         sn_msix_config = mc, sn_status = st, sn_config_generation = gen, sn_queue_select = sel, sn_common_queues = [], sn_isr = isr,
         sn_msix_control = 0, sn_msix_table = [], sn_msix_pba = [], sn_queues = [], sn_device_state = []\<rparr>, n))))))))))))"

definition rd_device_state :: "device_snapshot \<Rightarrow> device_snapshot reader" where
  "rd_device_state s = rd_need 4 (rd_bind rd_u32 (\<lambda>n. rd_need (unat n) (rd_bind (rd_take (unat n)) (\<lambda>ds. rd_ret (s\<lparr>sn_device_state := ds\<rparr>)))))"

definition rd_queues :: "device_snapshot \<Rightarrow> device_snapshot reader" where
  "rd_queues s = rd_need 2 (rd_bind rd_u16 (\<lambda>n. rd_bind (rd_times (unat n) rd_queue) (\<lambda>qs. rd_device_state (s\<lparr>sn_queues := qs\<rparr>))))"

definition rd_pba :: "device_snapshot \<Rightarrow> device_snapshot reader" where
  "rd_pba s = rd_need 2 (rd_bind rd_u16 (\<lambda>n. rd_need (unat n * 8) (rd_bind (rd_times (unat n) rd_u64) (\<lambda>p. rd_queues (s\<lparr>sn_msix_pba := p\<rparr>)))))"

definition rd_msix :: "device_snapshot \<Rightarrow> device_snapshot reader" where
  "rd_msix s = rd_need 2 (rd_bind rd_u16 (\<lambda>mc. rd_need 2 (rd_bind rd_u16 (\<lambda>n.
     rd_need (unat n * 16) (rd_bind (rd_times (unat n) rd_entry) (\<lambda>t. rd_pba (s\<lparr>sn_msix_control := mc, sn_msix_table := t\<rparr>)))))))"

definition rd_snapshot :: "device_snapshot reader" where
  "rd_snapshot = rd_need (256 + 48 + 4 + 4 + 8 + 2 + 1 + 1 + 2 + 4 + 2) (rd_bind rd_header (\<lambda>(s, n).
     rd_need (unat n * (2 + 2 + 2 + 8 + 8 + 8)) (rd_bind (rd_times (unat n) rd_tqueue) (\<lambda>qs. rd_msix (s\<lparr>sn_common_queues := qs\<rparr>)))))"

text \<open>\<open>None\<close> is a panic; the inner option is the result of the code.\<close>

definition snapshot_decode :: "bytes \<Rightarrow> device_snapshot option option" where
  "snapshot_decode b = (case rd_snapshot b 0 of Panic \<Rightarrow> None | Reject \<Rightarrow> Some None | Got s p \<Rightarrow> Some (Some s))"

section \<open>Capture and restore\<close>

definition snapshot_capture :: "'d virtio_device \<Rightarrow> 'd transport \<Rightarrow> device_snapshot" where
  "snapshot_capture dv t =
     (let (c, vals) = cfg_snapshot_capture (tp_cfg t); (mc, tbl, pb) = msix_snapshot_capture (tp_msix t); k = tp_common t
      in \<lparr>sn_cfg = c, sn_bar_vals = vals, sn_device_feature_select = device_feature_select k,
          sn_driver_feature_select = driver_feature_select k, sn_driver_features = driver_features k, sn_msix_config = msix_config k,
          sn_status = status k, sn_config_generation = config_generation k, sn_queue_select = queue_select k,
          sn_common_queues = tqueues k, sn_isr = isr_status t, sn_msix_control = mc, sn_msix_table = tbl, sn_msix_pba = pb,
          sn_queues = List.map_filter (\<lambda>q. map_option (Pair q) (capture_queue dv q (tp_device t)))
            (map of_nat [0..<unat (queue_count dv (tp_device t))]),
          sn_device_state = capture_device_state dv (tp_device t)\<rparr>)"

definition snapshot_apply :: "'d virtio_device \<Rightarrow> nat \<Rightarrow> device_snapshot \<Rightarrow> 'd transport \<times> virtio_bus \<Rightarrow> ('d transport \<times> virtio_bus) option" where
  "snapshot_apply dv k s x = (case x of (t, bus) \<Rightarrow>
     case cfg_snapshot_apply (sn_cfg s) (sn_bar_vals s) (tp_cfg t) of (c, events) \<Rightarrow>
       (case handle_bar_events k events (t\<lparr>tp_cfg := c\<rparr>, bus) of
          None \<Rightarrow> None
        | Some (t1, bus1) \<Rightarrow>
            let cm = (tp_common t1)\<lparr>device_feature_select := sn_device_feature_select s, driver_feature_select := sn_driver_feature_select s,
                       driver_features := sn_driver_features s, msix_config := sn_msix_config s, status := sn_status s,
                       config_generation := sn_config_generation s, queue_select := sn_queue_select s, tqueues := sn_common_queues s\<rparr>;
                d1 = fold (\<lambda>(q, st). apply_queue dv q st) (sn_queues s) (tp_device t1)
            in Some (t1\<lparr>tp_common := cm, isr_status := sn_isr s,
                       tp_msix := msix_snapshot_apply (sn_msix_control s) (sn_msix_table s) (sn_msix_pba s) (tp_msix t1),
                       tp_device := apply_device_state dv (sn_device_state s) d1\<rparr>, bus1)))"

section \<open>Reading back what was written\<close>

definition snap_fits :: "device_snapshot \<Rightarrow> bool" where
  "snap_fits s \<longleftrightarrow> length (sn_cfg s) = 256 \<and> length (sn_bar_vals s) = 6 \<and> length (sn_common_queues s) < 2 ^ 16 \<and>
     length (sn_msix_table s) < 2 ^ 16 \<and> list_all (\<lambda>e. length e = 4) (sn_msix_table s) \<and> length (sn_msix_pba s) < 2 ^ 16 \<and>
     length (sn_queues s) < 2 ^ 16 \<and> length (sn_device_state s) < 2 ^ 32"

lemma unat_len16: "n < 2 ^ 16 \<Longrightarrow> unat (of_nat n :: u16) = n" and unat_len32: "m < 2 ^ 32 \<Longrightarrow> unat (of_nat m :: u32) = m"
  by (simp_all add: unat_of_nat take_bit_nat_eq_self)

lemma reads_u16: "reads rd_u16 (le16 a) a" and reads_u32: "reads rd_u32 (le32 b) b" and reads_u64: "reads rd_u64 (le64 c) c"
  by (rule reads_word, simp)+

lemma reads_u8: "reads rd_u8 [a] a"
  using reads_word [of 1 a] by simp

lemmas reads_words = reads_u8 reads_u16 reads_u32 reads_u64

lemma reads_bar: "reads rd_bar (enc_bar v) v"
  unfolding rd_bar_def enc_bar_def using reads_bind_ret [OF reads_u32, of "Pair (fst v)" "snd v"]
  by (intro reads_bind [OF reads_u32]) simp

lemma reads_tqueue: "reads rd_tqueue (enc_tqueue q) q"
proof -
  have q: "\<lparr>tq_vector = tq_vector q, tq_enable = tq_enable q, tq_desc = tq_desc q, tq_driver = tq_driver q, tq_device = tq_device q, tq_size = tq_size q\<rparr> = q"
    by simp
  show ?thesis
    unfolding rd_tqueue_def enc_tqueue_def
    using reads_bind_ret [OF reads_u64, of "\<lambda>u. \<lparr>tq_vector = tq_vector q, tq_enable = tq_enable q, tq_desc = tq_desc q, tq_driver = tq_driver q, tq_device = u, tq_size = tq_size q\<rparr>" "tq_device q"]
    by (intro reads_bind [OF reads_u16] reads_bind [OF reads_u64]) (simp add: q)
qed

lemma reads_entry: "length e = 4 \<Longrightarrow> reads rd_entry (enc_entry e) e"
proof -
  assume "length e = 4"
  then have e: "[e ! 0, e ! 1, e ! 2, e ! 3] = e" by (auto simp: numeral_eq_Suc length_Suc_conv)
  show ?thesis
    unfolding rd_entry_def enc_entry_def
    using reads_bind_ret [OF reads_u32, of "\<lambda>d. [e ! 0, e ! 1, e ! 2, d]" "e ! 3"] unfolding e
    by (intro reads_bind [OF reads_u32])
qed

lemma reads_queue: "reads rd_queue (enc_queue x) x"
proof -
  have r: "reads (rd_bind rd_u32 (\<lambda>i. rd_bind (rd_take QUEUE_STATE_ENCODED) (\<lambda>b. rd_ret (i, b)))) (enc_queue x) (fst x, qs_encode (snd x))"
    unfolding enc_queue_def by (intro reads_bind [OF reads_u32] reads_bind_ret reads_take) simp
  have "reads (rd_bind (rd_bind rd_u32 (\<lambda>i. rd_bind (rd_take QUEUE_STATE_ENCODED) (\<lambda>b. rd_ret (i, b))))
      (\<lambda>(i, b). case qs_decode b of None \<Rightarrow> rd_fail | Some st \<Rightarrow> rd_ret (i, st))) (enc_queue x @ []) x"
    using qs_decode_encode [of "snd x" "[]"] by (intro reads_bind [OF r]) (simp add: reads_ret)
  then show ?thesis unfolding rd_queue_def by (intro reads_need) (simp_all add: enc_queue_def)
qed

lemma length_items:
  "length (enc_bar v) = 8" "length (enc_tqueue q) = 30" "length (enc_entry e) = 16" "length (enc_queue x) = 44"
  by (simp_all add: enc_bar_def enc_tqueue_def enc_entry_def enc_queue_def)

lemma length_concat_const: "(\<And>x. length (f x) = n) \<Longrightarrow> length (concat (map f xs)) = length xs * n"
  by (induction xs) simp_all

lemmas length_lists = length_concat_const [OF length_items(1)] length_concat_const [OF length_items(2)]
  length_concat_const [OF length_items(3)] length_concat_const [OF length_items(4)] length_concat_const [of le64 8, simplified]

lemma reads_header:
  assumes "length (sn_cfg s) = 256" and "length (sn_bar_vals s) = 6"
  shows "reads rd_header (sn_cfg s @ concat (map enc_bar (sn_bar_vals s)) @ le32 (sn_device_feature_select s) @ le32 (sn_driver_feature_select s) @
      le64 (sn_driver_features s) @ le16 (sn_msix_config s) @ [sn_status s] @ [sn_config_generation s] @ le16 (sn_queue_select s) @
      le32 (sn_isr s) @ le16 n)
    (s\<lparr>sn_common_queues := [], sn_msix_control := 0, sn_msix_table := [], sn_msix_pba := [], sn_queues := [], sn_device_state := []\<rparr>, n)"
proof -
  let ?s = "s\<lparr>sn_common_queues := [], sn_msix_control := 0, sn_msix_table := [], sn_msix_pba := [], sn_queues := [], sn_device_state := []\<rparr>"
  have s: "\<lparr>sn_cfg = sn_cfg s, sn_bar_vals = sn_bar_vals s, sn_device_feature_select = sn_device_feature_select s,
      sn_driver_feature_select = sn_driver_feature_select s, sn_driver_features = sn_driver_features s, sn_msix_config = sn_msix_config s,
      sn_status = sn_status s, sn_config_generation = sn_config_generation s, sn_queue_select = sn_queue_select s, sn_common_queues = [],
      sn_isr = sn_isr s, sn_msix_control = 0, sn_msix_table = [], sn_msix_pba = [], sn_queues = [], sn_device_state = []\<rparr> = ?s"
    by simp
  have b: "reads (rd_times 6 rd_bar) (concat (map enc_bar (sn_bar_vals s))) (sn_bar_vals s)"
    using assms(2) by (intro reads_times) (simp_all add: reads_bar list_all_iff)
  show ?thesis
    unfolding rd_header_def
    by (intro reads_bind [OF reads_take [OF assms(1)]] reads_bind [OF b] reads_bind [OF reads_u32] reads_bind [OF reads_u64]
        reads_bind [OF reads_u16] reads_bind [OF reads_u8])
      (use reads_bind_ret [OF reads_u16, of "Pair ?s" n] in \<open>simp add: s\<close>)
qed

lemma reads_device_state:
  assumes "length ds < 2 ^ 32"
  shows "reads (rd_device_state s) (le32 (of_nat (length ds)) @ ds) (s\<lparr>sn_device_state := ds\<rparr>)"
  unfolding rd_device_state_def using assms
  by (intro reads_need reads_bind [OF reads_u32] reads_bind_ret reads_take) (simp_all add: unat_len32)

lemma reads_queues:
  assumes "length qs < 2 ^ 16" and "length ds < 2 ^ 32"
  shows "reads (rd_queues s) (le16 (of_nat (length qs)) @ concat (map enc_queue qs) @ le32 (of_nat (length ds)) @ ds)
    (s\<lparr>sn_queues := qs, sn_device_state := ds\<rparr>)"
proof -
  have "reads (rd_times (unat (of_nat (length qs) :: u16)) rd_queue) (concat (map enc_queue qs)) qs"
    using assms(1) by (intro reads_times) (simp_all add: reads_queue list_all_iff unat_len16)
  then show ?thesis unfolding rd_queues_def
    using reads_device_state [OF assms(2), of "s\<lparr>sn_queues := qs\<rparr>"]
    by (intro reads_need reads_bind [OF reads_u16] reads_bind [of _ "concat (map enc_queue qs)"]) simp_all
qed

lemma reads_pba:
  assumes "length pb < 2 ^ 16" and "length qs < 2 ^ 16" and "length ds < 2 ^ 32"
  shows "reads (rd_pba s) (le16 (of_nat (length pb)) @ concat (map le64 pb) @ le16 (of_nat (length qs)) @ concat (map enc_queue qs) @
      le32 (of_nat (length ds)) @ ds) (s\<lparr>sn_msix_pba := pb, sn_queues := qs, sn_device_state := ds\<rparr>)"
proof -
  have "reads (rd_times (unat (of_nat (length pb) :: u16)) rd_u64) (concat (map le64 pb)) pb"
    using assms(1) by (intro reads_times) (simp_all add: reads_u64 list_all_iff unat_len16)
  then show ?thesis unfolding rd_pba_def
    using reads_queues [OF assms(2,3), of "s\<lparr>sn_msix_pba := pb\<rparr>"] assms(1)
    by (intro reads_need reads_bind [OF reads_u16] reads_bind [of _ "concat (map le64 pb)"]) (simp_all add: length_lists unat_len16)
qed

lemma reads_msix:
  assumes "length tbl < 2 ^ 16" and "list_all (\<lambda>e. length e = 4) tbl" and "length pb < 2 ^ 16" and "length qs < 2 ^ 16" and "length ds < 2 ^ 32"
  shows "reads (rd_msix s) (le16 mc @ le16 (of_nat (length tbl)) @ concat (map enc_entry tbl) @ le16 (of_nat (length pb)) @ concat (map le64 pb) @
      le16 (of_nat (length qs)) @ concat (map enc_queue qs) @ le32 (of_nat (length ds)) @ ds)
    (s\<lparr>sn_msix_control := mc, sn_msix_table := tbl, sn_msix_pba := pb, sn_queues := qs, sn_device_state := ds\<rparr>)"
proof -
  have "reads (rd_times (unat (of_nat (length tbl) :: u16)) rd_entry) (concat (map enc_entry tbl)) tbl"
    using assms(1,2) by (intro reads_times) (auto simp: list_all_iff unat_len16 intro: reads_entry)
  then show ?thesis unfolding rd_msix_def
    using reads_pba [OF assms(3-5), of "s\<lparr>sn_msix_control := mc, sn_msix_table := tbl\<rparr>"] assms(1)
    by (intro reads_need reads_bind [OF reads_u16] reads_bind [of _ "concat (map enc_entry tbl)"]) (simp_all add: length_lists unat_len16)
qed

lemma reads_snapshot:
  assumes "snap_fits s"
  shows "reads rd_snapshot (snapshot_encode s) s"
proof -
  let ?h = "s\<lparr>sn_common_queues := [], sn_msix_control := 0, sn_msix_table := [], sn_msix_pba := [], sn_queues := [], sn_device_state := []\<rparr>"
  let ?n = "of_nat (length (sn_common_queues s)) :: u16"
  have fits: "length (sn_cfg s) = 256" "length (sn_bar_vals s) = 6" "length (sn_common_queues s) < 2 ^ 16" "length (sn_msix_table s) < 2 ^ 16"
      "list_all (\<lambda>e. length e = 4) (sn_msix_table s)" "length (sn_msix_pba s) < 2 ^ 16" "length (sn_queues s) < 2 ^ 16"
      "length (sn_device_state s) < 2 ^ 32"
    using assms by (simp_all add: snap_fits_def)
  have qs: "reads (rd_times (unat ?n) rd_tqueue) (concat (map enc_tqueue (sn_common_queues s))) (sn_common_queues s)"
    using fits(3) by (intro reads_times) (simp_all add: reads_tqueue list_all_iff unat_len16)
  note tail = reads_msix [OF fits(4-8), of "?h\<lparr>sn_common_queues := sn_common_queues s\<rparr>" "sn_msix_control s"]
  note body = reads_need [OF reads_bind [of _ _ _ "\<lambda>qs. rd_msix (?h\<lparr>sn_common_queues := qs\<rparr>)", OF qs tail], of "unat ?n * 30"]
  show ?thesis
    unfolding rd_snapshot_def snapshot_encode_def
    by (intro reads_need reads_bind [OF reads_header [OF fits(1,2)]])
      (use fits(3) body in
        \<open>simp_all add: length_lists unat_len16 fits(1,2)\<close>)
qed

section \<open>Corrupt files\<close>

lemma exact_items:
  "reads_exactly 8 rd_bar" "reads_exactly 30 rd_tqueue" "reads_exactly 16 rd_entry"
  "reads_exactly 44 (rd_bind rd_u32 (\<lambda>i. rd_bind (rd_take QUEUE_STATE_ENCODED) (\<lambda>b. rd_ret (i, b))))"
proof -
  note s = reads_exactly_bind [OF reads_exactly_word] and e = reads_exactly_ret
  have "reads_exactly (4 + (4 + 0)) rd_bar" unfolding rd_bar_def by (intro s e)
  moreover have "reads_exactly (2 + (2 + (2 + (8 + (8 + (8 + 0)))))) rd_tqueue" unfolding rd_tqueue_def by (intro s e)
  moreover have "reads_exactly (4 + (4 + (4 + (4 + 0)))) rd_entry" unfolding rd_entry_def by (intro s e)
  moreover have "reads_exactly (4 + (QUEUE_STATE_ENCODED + 0)) (rd_bind rd_u32 (\<lambda>i. rd_bind (rd_take QUEUE_STATE_ENCODED) (\<lambda>b. rd_ret (i, b))))"
    by (intro s reads_exactly_bind [OF reads_exactly_take] e)
  ultimately show "reads_exactly 8 rd_bar" "reads_exactly 30 rd_tqueue" "reads_exactly 16 rd_entry"
    "reads_exactly 44 (rd_bind rd_u32 (\<lambda>i. rd_bind (rd_take QUEUE_STATE_ENCODED) (\<lambda>b. rd_ret (i, b))))"
    by simp_all
qed

lemma exact_header: "reads_exactly 332 rd_header"
proof -
  have "reads_exactly (256 + (6 * 8 + (4 + (4 + (8 + (2 + (1 + (1 + (2 + (4 + (2 + 0))))))))))) rd_header"
    unfolding rd_header_def
    by (intro reads_exactly_bind [OF reads_exactly_take] reads_exactly_bind [OF reads_exactly_times [OF exact_items(1)]]
        reads_exactly_bind [OF reads_exactly_word] reads_exactly_ret)
  then show ?thesis by simp
qed

lemma no_panic_queue: "no_panic rd_queue"
proof -
  have "no_panic (rd_need 44 (rd_bind (rd_bind rd_u32 (\<lambda>i. rd_bind (rd_take QUEUE_STATE_ENCODED) (\<lambda>b. rd_ret (i, b))))
     (\<lambda>(i, b). case qs_decode b of None \<Rightarrow> rd_fail | Some st \<Rightarrow> rd_ret (i, st))))"
    by (intro no_panic_need exact_items) (auto simp: no_panic_ret no_panic_fail split: option.split)
  then show ?thesis by (simp add: rd_queue_def)
qed

lemma no_panic_snapshot: "no_panic rd_snapshot"
proof -
  note word = no_panic_need [OF reads_exactly_word] and times = no_panic_need [OF reads_exactly_times]
  have ds: "no_panic (rd_device_state s)" for s
    unfolding rd_device_state_def by (intro word no_panic_need [OF reads_exactly_take] no_panic_ret)
  have qs: "no_panic (rd_queues s)" for s
    unfolding rd_queues_def by (intro word no_panic_bind no_panic_times no_panic_queue ds)
  have pb: "no_panic (rd_pba s)" for s
    unfolding rd_pba_def by (intro word times [OF reads_exactly_word] qs)
  have ms: "no_panic (rd_msix s)" for s
    unfolding rd_msix_def by (intro word times [OF exact_items(3)] pb)
  have tq: "no_panic (rd_need (unat n * 30) (rd_bind (rd_times (unat n) rd_tqueue) (\<lambda>qs. rd_msix (s\<lparr>sn_common_queues := qs\<rparr>))))" for s and n :: u16
    by (intro times [OF exact_items(2)] ms)
  show ?thesis
    unfolding rd_snapshot_def using tq exact_header by (intro no_panic_need) (auto split: prod.split)
qed

lemma snapshot_reads_back: "snap_fits s \<Longrightarrow> snapshot_decode (snapshot_encode s @ rest) = Some (Some s)"
  using reads_snapshot unfolding reads_def snapshot_decode_def
  by (metis append_Nil list.size(3) read_result.simps(10))

text \<open>
  A snapshot is read back exactly: for every snapshot whose lists fit the 16-bit and 32-bit
  counts of the format, decoding what was encoded, with anything after it, gives the same snapshot.
\<close>

lemma snapshot_decode_encode:
  assumes "snap_fits s"
  shows "snapshot_decode (snapshot_encode s @ rest) = Some (Some s)"
  using assms by (rule snapshot_reads_back)

text \<open>
  Restoring from a corrupt or truncated file cannot take the monitor down: on any bytes the
  decoder either gives a snapshot or refuses, and never reads outside the buffer.
\<close>

lemma snapshot_decode_total: "snapshot_decode b \<noteq> None"
proof -
  have "case rd_snapshot b 0 of Panic \<Rightarrow> False | Reject \<Rightarrow> True | Got s p \<Rightarrow> p \<le> length b"
    using no_panic_snapshot by (simp add: no_panic_def)
  then show ?thesis by (simp add: snapshot_decode_def split: read_result.splits)
qed

section \<open>The entropy device comes back\<close>

lemma register_all_total:
  "list_all (\<lambda>r. fst (snd r) \<noteq> 0) rs \<Longrightarrow> register_all rs bus \<noteq> None"
proof (induction rs bus rule: register_all.induct)
  case (2 base n name h rs bus)
  then have "0 < n" by (simp add: word_gt_0)
  then have "\<exists>bus' b. mmio_register bus base n name h = Some (bus', b)" by (auto simp: mmio_register_def)
  with 2 show ?case by auto
qed simp

text \<open>The geometry of the vector table, as \<^verbatim>\<open>MsiX::new\<close> leaves it: both of its ranges are non-empty.\<close>

definition msix_sized :: "msix \<Rightarrow> bool" where
  "msix_sized m \<longleftrightarrow> table_bytes m \<noteq> 0 \<and> pba_bytes m \<noteq> 0"

lemma msix_sized_upd [simp]: "msix_sized (m\<lparr>bar_base_gpa := b\<rparr>) = msix_sized m"
  by (simp add: msix_sized_def table_bytes_def pba_bytes_def)

lemma u64_of_u32_zero: "(ucast (w :: u32) :: u64) = 0 \<longleftrightarrow> w = 0"
proof -
  have "unat (ucast w :: u64) = unat w" by (simp add: unat_ucast_up)
  then show ?thesis by (metis unat_eq_zero)
qed

lemma bar_events_keep:
  fixes t :: "'d transport"
  assumes "msix_sized (tp_msix t)"
  shows "\<exists>t' bus'. handle_bar_events k es (t, bus) = Some (t', bus') \<and> tp_common t' = tp_common t \<and> isr_status t' = isr_status t \<and>
    tp_device t' = tp_device t \<and> tp_cfg t' = tp_cfg t \<and> tp_msix t' = (tp_msix t)\<lparr>bar_base_gpa := bar_base_gpa (tp_msix t')\<rparr>"
  using assms
proof (induction es arbitrary: t bus)
  case (Cons e es)
  define same where "same t' \<longleftrightarrow> tp_common t' = tp_common t \<and> isr_status t' = isr_status t \<and> tp_device t' = tp_device t \<and>
    tp_cfg t' = tp_cfg t \<and> tp_msix t' = (tp_msix t)\<lparr>bar_base_gpa := bar_base_gpa (tp_msix t')\<rparr>" for t' :: "'d transport"
  have mp: "\<exists>t1 bus1. on_bar_mapped k g (t, bus) = Some (t1, bus1) \<and> same t1" for g
  proof -
    let ?m = "(tp_msix t)\<lparr>bar_base_gpa := g\<rparr>"
    have "list_all (\<lambda>r. fst (snd r) \<noteq> 0) (bar_ranges k g ?m)"
      using Cons.prems by (simp add: bar_ranges_def msix_ranges_def msix_sized_def u64_of_u32_zero table_bytes_def pba_bytes_def)
    from register_all_total [OF this, of bus] show ?thesis
      by (auto simp: on_bar_mapped_def install_bar_handlers_def same_def Let_def)
  qed
  have un: "\<exists>t1 bus1. on_bar_unmapped (t, bus) = (t1, bus1) \<and> same t1"
    by (auto simp: on_bar_unmapped_def same_def Let_def)
  have id: "same t" by (simp add: same_def)
  have "\<exists>t1 bus1. handle_bar_events k (e # es) (t, bus) = handle_bar_events k es (t1, bus1) \<and> same t1"
  proof (cases e)
    case (Mapped i g n)
    with mp [of g] id show ?thesis by (cases "i = 0") (auto, blast)
  next
    case (Unmapped i)
    with un id show ?thesis by (cases "i = 0") (auto, blast)
  qed
  then obtain t1 bus1 where step: "handle_bar_events k (e # es) (t, bus) = handle_bar_events k es (t1, bus1)" "same t1" by blast
  have m1: "tp_msix t1 = (tp_msix t)\<lparr>bar_base_gpa := bar_base_gpa (tp_msix t1)\<rparr>" using step(2) by (simp add: same_def)
  have "msix_sized ((tp_msix t)\<lparr>bar_base_gpa := bar_base_gpa (tp_msix t1)\<rparr>)" using Cons.prems by simp
  then have "msix_sized (tp_msix t1)" using m1 by simp
  from Cons.IH [OF this, of bus1] obtain t' bus' where t': "handle_bar_events k es (t1, bus1) = Some (t', bus')" "tp_common t' = tp_common t1"
      "isr_status t' = isr_status t1" "tp_device t' = tp_device t1" "tp_cfg t' = tp_cfg t1"
      "tp_msix t' = (tp_msix t1)\<lparr>bar_base_gpa := bar_base_gpa (tp_msix t')\<rparr>"
    by blast
  have "(tp_msix t1)\<lparr>bar_base_gpa := b\<rparr> = (tp_msix t)\<lparr>bar_base_gpa := b\<rparr>" for b by (subst m1) simp
  with t' step show ?case by (auto simp: same_def)
qed auto

lemma fold_store:
  "length done + length xs = length ys \<Longrightarrow> take (length done) ys = done \<Longrightarrow>
   fold (\<lambda>(i, x) t. if i < length t then t[i := f x] else t) (enumerate (length done) xs) ys = done @ map f xs"
proof (induction xs arbitrary: "done" ys)
  case (Cons x xs)
  let ?d = "done @ [f x]" and ?y = "ys[length done := f x]"
  have "take (Suc (length done)) ?y = done @ [f x]"
    using Cons.prems by (subst take_Suc_conv_app_nth) (simp_all add: take_update_cancel)
  then have "fold (\<lambda>(i, x) t. if i < length t then t[i := f x] else t) (enumerate (length ?d) xs) ?y = ?d @ map f xs"
    using Cons.prems(1) by (intro Cons.IH) simp_all
  then show ?case using Cons.prems(1) by simp
qed simp

lemma msix_restore:
  assumes "length (vectors m0) = length (vectors m)" and "length (pba m0) = length (pba m)"
  shows "case msix_snapshot_capture m of (mc, tbl, pb) \<Rightarrow> msix_snapshot_apply mc tbl pb m0 =
    m0\<lparr>vectors := vectors m, pba := pba m, control := control m\<rparr>"
proof -
  let ?f = "\<lambda>x. \<lparr>addr_lo = x ! 0, addr_hi = x ! 1, msg_data = x ! 2, ctrl = x ! 3\<rparr> :: msix_entry"
  have "map ?f (map (\<lambda>e. [addr_lo e, addr_hi e, msg_data e, ctrl e]) (vectors m)) = vectors m"
    by (simp add: comp_def map_idI)
  moreover have "fold (\<lambda>(i, x) t. if i < length t then t[i := ?f x] else t)
      (enumerate 0 (map (\<lambda>e. [addr_lo e, addr_hi e, msg_data e, ctrl e]) (vectors m))) (vectors m0) =
      map ?f (map (\<lambda>e. [addr_lo e, addr_hi e, msg_data e, ctrl e]) (vectors m))"
    using fold_store [of "[]" "map (\<lambda>e. [addr_lo e, addr_hi e, msg_data e, ctrl e]) (vectors m)" "vectors m0" ?f] assms by simp
  moreover have "fold (\<lambda>(i, p) t. if i < length t then t[i := p] else t) (enumerate 0 (pba m)) (pba m0) = pba m"
    using fold_store [of "[]" "pba m" "pba m0" "\<lambda>x. x"] assms by simp
  ultimately show ?thesis by (simp add: msix_snapshot_capture_def msix_snapshot_apply_def)
qed

abbreviation bar_values :: "pci_config \<Rightarrow> (u32 \<times> u32) list" where
  "bar_values c \<equiv> map (\<lambda>b. (value_lo b, value_hi b)) (bars c)"

lemma cfg_restore:
  assumes "length (bars c0) = 6" and "length (bars c) = 6"
  shows "case cfg_snapshot_capture c of (b, vals) \<Rightarrow>
    cfg (fst (cfg_snapshot_apply b vals c0)) = cfg c \<and> bar_values (fst (cfg_snapshot_apply b vals c0)) = bar_values c"
proof -
  have v: "value_lo (fst (recompute_bar on i b)) = value_lo b" "value_hi (fst (recompute_bar on i b)) = value_hi b" for on i b
    by (simp_all add: recompute_bar_def Let_def)
  show ?thesis using assms
    by (auto simp: cfg_snapshot_capture_def cfg_snapshot_apply_def recompute_mappings_def v Let_def intro!: nth_equalityI)
qed

definition same_shape :: "'d transport \<Rightarrow> 'd transport \<Rightarrow> bool" where
  "same_shape t0 t \<longleftrightarrow> length (bars (tp_cfg t0)) = 6 \<and> length (bars (tp_cfg t)) = 6 \<and> length (cfg (tp_cfg t)) = 256 \<and>
     length (vectors (tp_msix t0)) = length (vectors (tp_msix t)) \<and> length (pba (tp_msix t0)) = length (pba (tp_msix t)) \<and>
     length (vectors (tp_msix t)) < 2 ^ 16 \<and> length (pba (tp_msix t)) < 2 ^ 16 \<and> length (tqueues (tp_common t)) < 2 ^ 16 \<and> msix_sized (tp_msix t0)"

lemma rng_capture_fits:
  assumes "same_shape t0 t"
  shows "snap_fits (snapshot_capture (rng_dev fuel rnd) t)"
  using assms
  by (auto simp: snap_fits_def snapshot_capture_def same_shape_def rng_dev_def rng_capture_queue_def rng_capture_device_state_def
      cfg_snapshot_capture_def msix_snapshot_capture_def list_all_iff map_filter_def Let_def)

lemma rng_state_restore:
  "rng_apply_device_state (rng_capture_device_state d) d0 = d0\<lparr>rng_driver_ok := rng_driver_ok d, rng_acked := rng_acked d\<rparr>"
  by (simp add: rng_apply_device_state_def rng_capture_device_state_def slice_simps)

lemma rng_dev_apply:
  "apply_queue (rng_dev fuel rnd) = rng_apply_queue" "apply_device_state (rng_dev fuel rnd) = rng_apply_device_state"
  by (simp_all add: rng_dev_def)

lemma snapshot_capture_common:
  "c\<lparr>device_feature_select := sn_device_feature_select (snapshot_capture dv t), driver_feature_select := sn_driver_feature_select (snapshot_capture dv t),
     driver_features := sn_driver_features (snapshot_capture dv t), msix_config := sn_msix_config (snapshot_capture dv t),
     status := sn_status (snapshot_capture dv t), config_generation := sn_config_generation (snapshot_capture dv t),
     queue_select := sn_queue_select (snapshot_capture dv t), tqueues := sn_common_queues (snapshot_capture dv t)\<rparr> =
   (tp_common t)\<lparr>reset_from := reset_from c\<rparr>"
  "sn_isr (snapshot_capture dv t) = isr_status t"
  by (simp_all add: snapshot_capture_def Let_def split: prod.splits)

lemma rng_captured:
  "sn_queues (snapshot_capture (rng_dev fuel rnd) t) = [(0, vq_capture (rng_queue (tp_device t)))]"
  "sn_device_state (snapshot_capture (rng_dev fuel rnd) t) = rng_capture_device_state (tp_device t)"
  by (simp_all add: snapshot_capture_def rng_dev_def rng_capture_queue_def map_filter_def Let_def split: prod.splits)

text \<open>
  C23. The entropy device survives a save and restore: the bytes written for a function, decoded and
  applied to a function of the same build (on any bus), give back its configuration space with the BAR
  values, every common register and queue register, the ISR, the vector table with masks, pending bits
  and control, the virtqueue with its ring positions, and the negotiated features.
\<close>

theorem rng_snapshot_restores:
  assumes "rng_good (tp_device t)" and "rng_good (tp_device t0)" and "same_shape t0 t"
  shows "\<exists>s t' bus'. snapshot_decode (snapshot_encode (snapshot_capture (rng_dev fuel rnd) t)) = Some (Some s) \<and>
    snapshot_apply (rng_dev fuel rnd) k s (t0, bus) = Some (t', bus') \<and>
    cfg (tp_cfg t') = cfg (tp_cfg t) \<and> bar_values (tp_cfg t') = bar_values (tp_cfg t) \<and>
    tp_common t' = (tp_common t)\<lparr>reset_from := reset_from (tp_common t0)\<rparr> \<and> isr_status t' = isr_status t \<and>
    vectors (tp_msix t') = vectors (tp_msix t) \<and> pba (tp_msix t') = pba (tp_msix t) \<and> control (tp_msix t') = control (tp_msix t) \<and>
    rng_queue (tp_device t') = rng_queue (tp_device t) \<and> rng_driver_ok (tp_device t') = rng_driver_ok (tp_device t) \<and>
    rng_acked (tp_device t') = rng_acked (tp_device t)"
proof -
  let ?dv = "rng_dev fuel rnd" and ?s = "snapshot_capture (rng_dev fuel rnd) t"
  have dec: "snapshot_decode (snapshot_encode ?s) = Some (Some ?s)"
    using snapshot_reads_back [OF rng_capture_fits [OF assms(3)], of fuel rnd "[]"] by simp
  obtain c ev where c: "cfg_snapshot_apply (sn_cfg ?s) (sn_bar_vals ?s) (tp_cfg t0) = (c, ev)" by fastforce
  have cc: "cfg c = cfg (tp_cfg t)" "bar_values c = bar_values (tp_cfg t)"
    using cfg_restore [of "tp_cfg t0" "tp_cfg t"] assms(3) c by (auto simp: same_shape_def snapshot_capture_def cfg_snapshot_capture_def Let_def split: prod.splits)
  obtain t1 bus1 where t1: "handle_bar_events k ev (t0\<lparr>tp_cfg := c\<rparr>, bus) = Some (t1, bus1)" "tp_common t1 = tp_common t0"
      "tp_device t1 = tp_device t0" "tp_cfg t1 = c" "tp_msix t1 = (tp_msix t0)\<lparr>bar_base_gpa := bar_base_gpa (tp_msix t1)\<rparr>"
    using bar_events_keep [of "t0\<lparr>tp_cfg := c\<rparr>" k ev bus] assms(3) by (auto simp: same_shape_def)
  have "length (vectors (tp_msix t1)) = length (vectors (tp_msix t))" "length (pba (tp_msix t1)) = length (pba (tp_msix t))"
    using assms(3) by (subst t1(5), simp add: same_shape_def)+
  then have ms: "msix_snapshot_apply (sn_msix_control ?s) (sn_msix_table ?s) (sn_msix_pba ?s) (tp_msix t1) =
      (tp_msix t1)\<lparr>vectors := vectors (tp_msix t), pba := pba (tp_msix t), control := control (tp_msix t)\<rparr>"
    using msix_restore [of "tp_msix t1" "tp_msix t"] by (simp add: snapshot_capture_def Let_def split: prod.splits)
  have q: "vq_apply (rng_queue (tp_device t0)) (vq_capture (rng_queue (tp_device t))) = rng_queue (tp_device t)"
    using assms(1,2) by (intro vq_apply_capture) (simp_all add: rng_good_def)
  have "\<exists>t' bus'. snapshot_apply ?dv k ?s (t0, bus) = Some (t', bus') \<and>
    cfg (tp_cfg t') = cfg (tp_cfg t) \<and> bar_values (tp_cfg t') = bar_values (tp_cfg t) \<and>
    tp_common t' = (tp_common t)\<lparr>reset_from := reset_from (tp_common t0)\<rparr> \<and> isr_status t' = isr_status t \<and>
    vectors (tp_msix t') = vectors (tp_msix t) \<and> pba (tp_msix t') = pba (tp_msix t) \<and> control (tp_msix t') = control (tp_msix t) \<and>
    rng_queue (tp_device t') = rng_queue (tp_device t) \<and> rng_driver_ok (tp_device t') = rng_driver_ok (tp_device t) \<and>
    rng_acked (tp_device t') = rng_acked (tp_device t)"
    using c cc t1(1) ms q
    by (auto simp: snapshot_apply_def rng_captured rng_dev_apply rng_apply_queue_def rng_state_restore t1(2-4) snapshot_capture_common Let_def)
  with dec show ?thesis by blast
qed

lemma same_shape_new:
  assumes "transport_new dv d opts = Some t" and "opt_num_msix_vectors opts \<le> 2048" and "queue_count dv d < 2 ^ 16"
  shows "same_shape t t"
proof -
  have n: "1 \<le> opt_num_msix_vectors opts" using assms(1) by (auto simp: transport_new_def split: if_splits)
  note p = transport_new_parts [OF assms(1)]
  have len: "length (cfg (tp_cfg t)) = 256" using transport_new_total [OF n assms(2), of dv d] assms(1) by auto
  let ?k = "ucast (opt_num_msix_vectors opts) :: u32"
  have k: "unat ?k = unat (opt_num_msix_vectors opts)" "1 \<le> unat ?k" "unat ?k \<le> 2048"
    using n assms(2) by (simp_all add: unat_ucast_up word_le_nat_alt)
  have m: "tp_msix t = \<lparr>num_vectors = ?k, control = 0, vectors = replicate (unat ?k) \<lparr>addr_lo = 0, addr_hi = 0, msg_data = 0, ctrl = 1\<rparr>,
      pba = replicate (unat (div_ceil64 ?k)) 0, bar_idx = 0, table_offset = OFF_MSIX_TABLE, pba_offset = OFF_MSIX_PBA,
      bar_base_gpa = 0, injected_count = 0\<rparr>"
    using p(3) by (simp add: msix_new_def split: if_splits)
  have d: "unat (div_ceil64 ?k) = unat ?k div 64 + (if unat ?k mod 64 = 0 then 0 else 1)" using unat_div_ceil64 k(3) by blast
  then have d': "1 \<le> unat (div_ceil64 ?k)" "unat (div_ceil64 ?k) \<le> 33" using k(2,3) by (auto simp: dvd_eq_mod_eq_0 [symmetric] dest: dvd_imp_le)
  have "unat (?k * 16) = unat ?k * 16" "unat (div_ceil64 ?k * 8) = unat (div_ceil64 ?k) * 8"
    using k d' by (simp_all add: unat_word_ariths)
  then have "msix_sized (tp_msix t)" using k d' unfolding msix_sized_def m table_bytes_def pba_bytes_def by (auto simp: unat_eq_zero [symmetric])
  moreover have "length (tqueues (tp_common t)) < 2 ^ 16"
    using transport_new_state [OF assms(1)] assms(3) by (simp add: common_new_def word_less_nat_alt)
  ultimately show ?thesis using p(1) len k d' by (simp add: same_shape_def m)
qed

theorem rng_snapshot_restores_witness:
  "\<exists>t s t' bus'. transport_new (rng_dev 8 demo_rnd) (rng_new demo_mem) demo_options = Some t \<and>
    snapshot_decode (snapshot_encode (snapshot_capture (rng_dev 8 demo_rnd) t)) = Some (Some s) \<and>
    snapshot_apply (rng_dev 8 demo_rnd) 1 s (t, []) = Some (t', bus') \<and> rng_queue (tp_device t') = rng_queue (tp_device t)"
proof -
  obtain t where t: "transport_new (rng_dev 8 demo_rnd) (rng_new demo_mem) demo_options = Some t"
    using demo_transport by blast
  then have "same_shape t t" by (rule same_shape_new) (simp_all add: demo_options_def rng_dev_def)
  moreover have "rng_good (tp_device t)"
    using transport_new_state [OF t] demo_ok(1) by (simp add: rng_good_def rng_new_def vq_ok_def vq_new_def)
  ultimately show ?thesis using t rng_snapshot_restores [of t t 8 demo_rnd 1 "[]"] by blast
qed

end
