(* ===== verification/Virtio_Console.thy ===== *)
theory Virtio_Console
  imports Virtio_Transport Virtq_Chains
begin

text \<open>
  The console device (\<^verbatim>\<open>src/virtio/console.rs\<close>): the guest's transmit queue is copied to standard output,
  and input of the host goes to the guest's receive queue. Standard output is the list of bytes
  written to it, an observer the chunks it was called with. A \<^verbatim>\<open>VecDeque\<close> is a list; \<open>front\<close> stands for
  how many of its bytes \<^verbatim>\<open>as_slices\<close> returns in the first slice, which the library leaves open.
\<close>

section \<open>State\<close>

abbreviation CONSOLE_RX_QUEUE :: u32 where "CONSOLE_RX_QUEUE \<equiv> 0"
abbreviation CONSOLE_TX_QUEUE :: u32 where "CONSOLE_TX_QUEUE \<equiv> 1"
abbreviation CONSOLE_QUEUE_MAX :: u32 where "CONSOLE_QUEUE_MAX \<equiv> 64"

record console_device =
  con_mem :: guest_memory
  con_rxq :: virtqueue
  con_txq :: virtqueue
  rx_pending :: bytes
  con_driver_ok :: bool
  con_acked :: u64
  byte_observer :: "bytes list option"
  con_stdout :: bytes
  tx_bytes :: u64

definition console_new :: "guest_memory \<Rightarrow> console_device" where
  "console_new gm = \<lparr>con_mem = gm, con_rxq = vq_new CONSOLE_QUEUE_MAX, con_txq = vq_new CONSOLE_QUEUE_MAX, rx_pending = [],
     con_driver_ok = False, con_acked = 0, byte_observer = None, con_stdout = [], tx_bytes = 0\<rparr>"

definition set_byte_observer :: "console_device \<Rightarrow> console_device" where
  "set_byte_observer d = d\<lparr>byte_observer := Some []\<rparr>"

section \<open>Output\<close>

definition emit :: "bytes \<Rightarrow> console_device \<Rightarrow> console_device" where
  "emit bs d = d\<lparr>con_stdout := con_stdout d @ bs, byte_observer := map_option (\<lambda>cs. cs @ [bs]) (byte_observer d)\<rparr>"

text \<open>One buffer, in pieces of the 4096 bytes on the stack.\<close>

function tx_copy :: "chain_buf \<Rightarrow> nat \<Rightarrow> console_device \<Rightarrow> console_device" where
  "tx_copy b off d =
     (if off < cb_len b
      then tx_copy b (off + min (cb_len b - off) 4096) (emit (cb_read_at (con_mem d) b off 4096) d)
      else d)"
  by pat_completeness auto
termination
  by (relation "measure (\<lambda>(b, off, d). cb_len b - off)") auto

declare tx_copy.simps [simp del]

fun tx_bufs :: "chain_buf list \<Rightarrow> console_device \<Rightarrow> console_device" where
  "tx_bufs [] d = d"
| "tx_bufs (b # bs) d =
     (if cb_write b \<or> cb_len b = 0 then tx_bufs bs d
      else let d1 = tx_copy b 0 d in tx_bufs bs (d1\<lparr>tx_bytes := tx_bytes d1 + of_nat (cb_len b)\<rparr>))"

text \<open>A round of the loop of \<^verbatim>\<open>drain_tx\<close>; \<open>None\<close> is a panic, \<open>False\<close> says that there was no chain.\<close>

definition tx_step :: "console_device \<Rightarrow> (console_device \<times> bool) option" where
  "tx_step d = (case pop_into (con_txq d) (con_mem d) \<lparr>head_index = 0, bufs = []\<rparr> of
     None \<Rightarrow> None
   | Some (q, gm, ch, r) \<Rightarrow>
       (let d1 = d\<lparr>con_txq := q, con_mem := gm\<rparr>
        in if \<not> r then Some (d1, False)
           else let d2 = tx_bufs (bufs ch) d1
                in case vq_push (head_index ch) 0 (con_txq d2, con_mem d2) of
                     None \<Rightarrow> None
                   | Some (q', gm') \<Rightarrow> Some (d2\<lparr>con_txq := q', con_mem := gm'\<rparr>, True)))"

text \<open>The loop, cut off after \<open>fuel\<close> chains: a guest that keeps refilling the ring keeps it going.\<close>

fun tx_loop :: "nat \<Rightarrow> u64 \<Rightarrow> console_device \<Rightarrow> (u64 \<times> console_device) option" where
  "tx_loop 0 total_chains d = Some (total_chains, d)"
| "tx_loop (Suc fuel) total_chains d = (case tx_step d of
     None \<Rightarrow> None
   | Some (d', False) \<Rightarrow> Some (total_chains, d')
   | Some (d', True) \<Rightarrow> tx_loop fuel (total_chains + 1) d')"

definition drain_tx :: "nat \<Rightarrow> console_device \<Rightarrow> (console_device \<times> u32 list) option" where
  "drain_tx fuel d =
     (if \<not> vq_ready (con_txq d) then Some (d, [])
      else case tx_loop fuel 0 d of
        None \<Rightarrow> None
      | Some (total_chains, d1) \<Rightarrow>
          if 0 < total_chains
          then (case should_interrupt_driver (con_txq d1) (con_mem d1) of (q, interrupt) \<Rightarrow>
            Some (d1\<lparr>con_txq := q\<rparr>, if interrupt then [CONSOLE_TX_QUEUE] else []))
          else Some (d1, []))"

section \<open>Input\<close>

definition rx_put :: "(bytes \<Rightarrow> nat) \<Rightarrow> guest_memory \<Rightarrow> chain_buf \<Rightarrow> bytes \<Rightarrow> guest_memory \<times> nat" where
  "rx_put front gm b pending =
     (let s1 = take (front pending) pending; s2 = drop (front pending) pending
      in case cb_write_at gm b 0 s1 of (gm1, i) \<Rightarrow>
           if i = length s1
           then (case cb_write_at gm1 b i s2 of (gm2, j) \<Rightarrow> (gm2, i + j))
           else (gm1, i))"

fun rx_bufs :: "(bytes \<Rightarrow> nat) \<Rightarrow> chain_buf list \<Rightarrow> u32 \<Rightarrow> bytes \<Rightarrow> guest_memory \<Rightarrow> u32 \<times> bytes \<times> guest_memory" where
  "rx_bufs front [] tot pending gm = (tot, pending, gm)"
| "rx_bufs front (b # bs) tot pending gm =
     (if \<not> cb_write b \<or> cb_len b = 0 then rx_bufs front bs tot pending gm
      else case rx_put front gm b pending of (gm', i) \<Rightarrow>
        (let pending' = drop i pending; tot' = tot + of_nat i
         in if pending' = [] then (tot', pending', gm') else rx_bufs front bs tot' pending' gm'))"

lemma rx_bufs_shrinks:
  "rx_bufs front bs tot p gm = (t, p', gm') \<Longrightarrow> length p' \<le> length p \<and> (t \<noteq> tot \<longrightarrow> length p' < length p)"
proof (induction front bs tot p gm rule: rx_bufs.induct)
  case (2 front b bs tot p gm)
  obtain gm1 i where put: "rx_put front gm b p = (gm1, i)" by fastforce
  then have i: "i \<le> length p" by (auto simp: rx_put_def cb_write_at_def Let_def split: if_splits)
  show ?case
  proof (cases "\<not> cb_write b \<or> cb_len b = 0 \<or> drop i p = []")
    case True
    with 2 put i show ?thesis by (cases "i = 0") (auto simp: Let_def split: if_splits)
  next
    case False
    then have "rx_bufs front bs (tot + of_nat i) (drop i p) gm1 = (t, p', gm')"
      using "2.prems" put by (simp add: Let_def split: if_splits)
    moreover have "length (drop i p) < length p" if "i \<noteq> 0" using that i False by simp
    ultimately show ?thesis
      using "2.IH"(2) [OF _ put [symmetric] refl refl] False by (cases "i = 0") auto
  qed
qed simp

text \<open>
  \<^verbatim>\<open>drain_rx\<close>'s loop ends by itself: a round that goes on has taken input from the queue of pending bytes.
\<close>

function rx_loop :: "(bytes \<Rightarrow> nat) \<Rightarrow> bool \<Rightarrow> virtqueue \<Rightarrow> bytes \<Rightarrow> guest_memory \<Rightarrow> (bool \<times> virtqueue \<times> bytes \<times> guest_memory) option" where
  "rx_loop front some q pending gm =
     (if pending = [] then Some (some, q, pending, gm)
      else case pop_into q gm \<lparr>head_index = 0, bufs = []\<rparr> of
             None \<Rightarrow> None
           | Some (q1, gm1, ch, r) \<Rightarrow>
               if \<not> r then Some (some, q1, pending, gm1)
               else case rx_bufs front (bufs ch) 0 pending gm1 of (tot, pending', gm2) \<Rightarrow>
                 (case vq_push (head_index ch) tot (q1, gm2) of
                    None \<Rightarrow> None
                  | Some (q2, gm3) \<Rightarrow>
                      if tot = 0 then Some (True, q2, pending', gm3) else rx_loop front True q2 pending' gm3))"
  by pat_completeness auto
termination
  by (relation "measure (\<lambda>(front, some, q, pending, gm). length pending)") (auto dest!: sym [of "(_, _, _)" "rx_bufs _ _ _ _ _"] rx_bufs_shrinks)

declare rx_loop.simps [simp del]

definition drain_rx :: "(bytes \<Rightarrow> nat) \<Rightarrow> virtqueue \<Rightarrow> bytes \<Rightarrow> guest_memory \<Rightarrow> (virtqueue \<times> bytes \<times> guest_memory \<times> bool) option" where
  "drain_rx front q pending gm = (case rx_loop front False q pending gm of
     None \<Rightarrow> None
   | Some (some, q1, pending', gm') \<Rightarrow>
       if some then (case should_interrupt_driver q1 gm' of (q2, interrupt) \<Rightarrow> Some (q2, pending', gm', interrupt))
       else Some (q1, pending', gm', False))"

definition rx_service :: "(bytes \<Rightarrow> nat) \<Rightarrow> console_device \<Rightarrow> (console_device \<times> u32 list) option" where
  "rx_service front d =
     (if \<not> vq_ready (con_rxq d) then Some (d, [])
      else case drain_rx front (con_rxq d) (rx_pending d) (con_mem d) of
        None \<Rightarrow> None
      | Some (q, pending, gm, interrupt) \<Rightarrow>
          Some (d\<lparr>con_rxq := q, rx_pending := pending, con_mem := gm\<rparr>, if interrupt then [CONSOLE_RX_QUEUE] else []))"

definition write_host_input :: "(bytes \<Rightarrow> nat) \<Rightarrow> bytes \<Rightarrow> console_device \<Rightarrow> (console_device \<times> u32 list) option" where
  "write_host_input front bs d = (if bs = [] then Some (d, []) else rx_service front (d\<lparr>rx_pending := rx_pending d @ bs\<rparr>))"

section \<open>The device interface\<close>

definition console_features :: u64 where
  "console_features = FEATURE_VERSION_1 OR FEATURE_RING_EVENT_IDX"

definition console_set_driver_features :: "u64 \<Rightarrow> console_device \<Rightarrow> console_device \<times> bool" where
  "console_set_driver_features acked d =
     (if acked AND FEATURE_VERSION_1 = 0 then (d, False)
      else if acked AND NOT console_features \<noteq> 0 then (d, False)
      else (d\<lparr>con_acked := acked\<rparr>, True))"

definition console_queue_max :: "u32 \<Rightarrow> u32" where
  "console_queue_max idx = (if idx = CONSOLE_RX_QUEUE \<or> idx = CONSOLE_TX_QUEUE then CONSOLE_QUEUE_MAX else 0)"

text \<open>\<^verbatim>\<open>match idx { RX => &self.rxq, TX => &self.txq, _ => return }\<close>\<close>

definition on_queue :: "u32 \<Rightarrow> (virtqueue \<Rightarrow> virtqueue) \<Rightarrow> console_device \<Rightarrow> console_device" where
  "on_queue idx f d =
     (if idx = CONSOLE_RX_QUEUE then d\<lparr>con_rxq := f (con_rxq d)\<rparr>
      else if idx = CONSOLE_TX_QUEUE then d\<lparr>con_txq := f (con_txq d)\<rparr> else d)"

definition console_enable_queue :: "u32 \<Rightarrow> u64 \<Rightarrow> u64 \<Rightarrow> u64 \<Rightarrow> u16 \<Rightarrow> bool \<Rightarrow> console_device \<Rightarrow> console_device" where
  "console_enable_queue idx da aa ua n ev = on_queue idx (\<lambda>q. set_ready True (set_event_idx_enabled ev (set_size (ucast n)
     (set_used_gpa ua (set_avail_gpa aa (set_desc_gpa da q))))))"

definition console_disable_queue :: "u32 \<Rightarrow> console_device \<Rightarrow> console_device" where
  "console_disable_queue idx = on_queue idx (set_ready False)"

definition console_notify_queue :: "nat \<Rightarrow> (bytes \<Rightarrow> nat) \<Rightarrow> u32 \<Rightarrow> console_device \<Rightarrow> (console_device \<times> u32 list) option" where
  "console_notify_queue fuel front idx d =
     (if idx = CONSOLE_TX_QUEUE then drain_tx fuel d
      else if idx = CONSOLE_RX_QUEUE then rx_service front d
      else Some (d, []))"

definition console_reset :: "console_device \<Rightarrow> console_device" where
  "console_reset d = d\<lparr>con_driver_ok := False, con_acked := 0, rx_pending := [], con_rxq := vq_reset (con_rxq d),
     con_txq := vq_reset (con_txq d)\<rparr>"

definition console_capture_queue :: "u32 \<Rightarrow> console_device \<Rightarrow> queue_state option" where
  "console_capture_queue idx d =
     (if idx = CONSOLE_RX_QUEUE then Some (vq_capture (con_rxq d))
      else if idx = CONSOLE_TX_QUEUE then Some (vq_capture (con_txq d)) else None)"

definition console_apply_queue :: "u32 \<Rightarrow> queue_state \<Rightarrow> console_device \<Rightarrow> console_device" where
  "console_apply_queue idx s = on_queue idx (\<lambda>q. vq_apply q s)"

definition console_capture_device_state :: "console_device \<Rightarrow> bytes" where
  "console_capture_device_state d = bool_byte (con_driver_ok d) # replicate 7 0 @ le64 (con_acked d)"

definition console_apply_device_state :: "bytes \<Rightarrow> console_device \<Rightarrow> console_device" where
  "console_apply_device_state bs d =
     (if 16 \<le> length bs then d\<lparr>con_driver_ok := (bs ! 0 \<noteq> 0), con_acked := le_decode (byte_range bs 8 8)\<rparr> else d)"

definition console_dev :: "nat \<Rightarrow> (bytes \<Rightarrow> nat) \<Rightarrow> console_device virtio_device" where
  "console_dev fuel front = \<lparr>device_id = \<lambda>d. 3, device_features = \<lambda>d. console_features,
     set_driver_features = console_set_driver_features, queue_count = \<lambda>d. 2, queue_max = \<lambda>idx d. console_queue_max idx,
     enable_queue = console_enable_queue, disable_queue = console_disable_queue,
     notify_queue = console_notify_queue fuel front, driver_ok = \<lambda>d. d\<lparr>con_driver_ok := True\<rparr>, device_reset = console_reset,
     reset_pending = \<lambda>d. False, read_config = \<lambda>off sz d. 0, write_config = \<lambda>off sz v d. d,
     capture_queue = console_capture_queue, apply_queue = console_apply_queue,
     capture_device_state = console_capture_device_state, apply_device_state = console_apply_device_state\<rparr>"

section \<open>What the copies do\<close>

text \<open>\<open>printed out n d d'\<close>: \<open>d'\<close> is \<open>d\<close> after the bytes \<open>out\<close> went to standard output and, if there is one, to the observer.\<close>

definition printed :: "bytes \<Rightarrow> nat \<Rightarrow> console_device \<Rightarrow> console_device \<Rightarrow> bool" where
  "printed out n d d' \<longleftrightarrow> (\<exists>obs. d' = d\<lparr>con_stdout := con_stdout d @ out, byte_observer := obs, tx_bytes := tx_bytes d + of_nat n\<rparr> \<and>
     map_option concat obs = map_option (\<lambda>cs. concat cs @ out) (byte_observer d))"

lemma printed_refl: "printed [] 0 d d"
  unfolding printed_def by (rule exI [of _ "byte_observer d"]) (simp add: option.map_ident_strong)

lemma printed_trans: "printed xs m d d' \<Longrightarrow> printed ys n d' d'' \<Longrightarrow> printed (xs @ ys) (m + n) d d''"
  by (cases "byte_observer d") (fastforce simp: printed_def add.assoc)+

lemma tx_copy_printed: "off \<le> cb_len b \<Longrightarrow> printed (byte_range (gm_ram (con_mem d)) (cb_ptr b + off) (cb_len b - off)) 0 d (tx_copy b off d)"
proof (induction b off d rule: tx_copy.induct)
  case (1 b off d)
  show ?case
  proof (cases "off < cb_len b")
    case True
    let ?n = "min (cb_len b - off) 4096"
    let ?d = "emit (cb_read_at (con_mem d) b off 4096) d"
    have "printed (cb_read_at (con_mem d) b off 4096) 0 d ?d"
      unfolding printed_def by (intro exI [of _ "byte_observer ?d"]) (simp add: emit_def option.map_comp o_def)
    moreover have "printed (byte_range (gm_ram (con_mem ?d)) (cb_ptr b + (off + ?n)) (cb_len b - (off + ?n))) 0 ?d (tx_copy b (off + ?n) ?d)"
      using True by (intro "1.IH") auto
    moreover have "byte_range (gm_ram (con_mem d)) (cb_ptr b + off) (cb_len b - off) =
        cb_read_at (con_mem d) b off 4096 @ byte_range (gm_ram (con_mem d)) (cb_ptr b + (off + ?n)) (cb_len b - (off + ?n))"
      using byte_range_add [of "gm_ram (con_mem d)" "cb_ptr b + off" ?n "cb_len b - (off + ?n)"] True
      by (auto simp: cb_read_at_def min_def add.assoc)
    moreover have "con_mem ?d = con_mem d" by (simp add: emit_def)
    ultimately show ?thesis
      using printed_trans [of _ 0 d ?d _ 0] True by (simp only: tx_copy.simps [of b off d] if_True add_0)
  next
    case False
    then show ?thesis using 1 printed_refl by (simp add: tx_copy.simps)
  qed
qed

lemma tx_bufs_printed: "printed (readable (con_mem d) bs) (readable_len bs) d (tx_bufs bs d)"
proof (induction bs d rule: tx_bufs.induct)
  case (2 b bs d)
  show ?case
  proof (cases "cb_write b \<or> cb_len b = 0")
    case True
    with 2 show ?thesis by (auto simp: readable_def)
  next
    case False
    let ?d1 = "tx_copy b 0 d"
    let ?d2 = "?d1\<lparr>tx_bytes := tx_bytes ?d1 + of_nat (cb_len b)\<rparr>"
    have "printed (buf_bytes (con_mem d) b) 0 d ?d1" using tx_copy_printed [of 0 b d] by simp
    then have p: "printed (buf_bytes (con_mem d) b) (cb_len b) d ?d2" and "con_mem ?d2 = con_mem d"
      by (auto simp: printed_def)
    with printed_trans [OF p 2(2) [OF _ refl]] False show ?thesis by (simp add: readable_def Let_def)
  qed
qed (simp add: readable_def printed_refl)

lemma overwrite_append_0:
  "overwrite (xs @ ys) 0 zs = (if length zs \<le> length xs then overwrite xs 0 zs @ ys else take (length xs) zs @ overwrite ys 0 (drop (length xs) zs))"
  by (simp add: overwrite_def)

lemma byte_range_overwrite_prefix:
  assumes "length ys \<le> n" and "off + n \<le> length xs"
  shows "byte_range (overwrite xs off ys) off n = overwrite (byte_range xs off n) 0 ys"
  using assms by (intro nth_equalityI) (auto simp: nth_byte_range nth_overwrite length_overwrite)

lemma overwrite_adjacent:
  "off + length xs + length ys \<le> length r \<Longrightarrow> overwrite (overwrite r off xs) (off + length xs) ys = overwrite r off (xs @ ys)"
  by (simp add: overwrite_def ac_simps)

lemma cb_write_at_eq:
  "cb_write_at gm b off src = (gm\<lparr>gm_ram := overwrite (gm_ram gm) (cb_ptr b + off) (take (cb_len b - off) src)\<rparr>, min (cb_len b - off) (length src))"
proof (cases "min (cb_len b - off) (length src) = 0")
  case True
  then have "take (cb_len b - off) src = []" by (auto simp: min_def split: if_splits)
  with True show ?thesis by (simp add: cb_write_at_def del: take_eq_Nil)
next
  case False
  have "take (min (cb_len b - off) (length src)) src = take (cb_len b - off) src" by (simp add: min_def)
  with False show ?thesis by (simp add: cb_write_at_def)
qed

text \<open>However the deque's bytes are split into two slices, they land together.\<close>

lemma rx_put_eq:
  assumes "wf_mem gm" and "buf_in_ram gm b"
  shows "rx_put front gm b p = (gm\<lparr>gm_ram := overwrite (gm_ram gm) (cb_ptr b) (take (cb_len b) p)\<rparr>, min (cb_len b) (length p))"
proof -
  define s1 s2 where s: "s1 = take (front p) p" "s2 = drop (front p) p"
  then have p: "p = s1 @ s2" by simp
  have ram: "cb_ptr b + cb_len b \<le> length (gm_ram gm)" using assms by (simp add: wf_mem_def buf_in_ram_def)
  have put: "rx_put front gm b p = (case cb_write_at gm b 0 s1 of (gm1, i) \<Rightarrow>
      if i = length s1 then (case cb_write_at gm1 b i s2 of (gm2, j) \<Rightarrow> (gm2, i + j)) else (gm1, i))"
    unfolding rx_put_def s Let_def by (rule refl)
  show ?thesis
  proof (cases "length s1 \<le> cb_len b")
    case True
    have "overwrite (overwrite (gm_ram gm) (cb_ptr b) s1) (cb_ptr b + length s1) (take (cb_len b - length s1) s2) =
        overwrite (gm_ram gm) (cb_ptr b) (take (cb_len b) p)"
      using overwrite_adjacent [of "cb_ptr b" s1 "take (cb_len b - length s1) s2" "gm_ram gm"] ram True p by simp
    then show ?thesis using True unfolding put unfolding cb_write_at_eq p by simp
  next
    case False
    then show ?thesis unfolding put unfolding cb_write_at_eq p by simp
  qed
qed

lemma rx_bufs_spec:
  assumes "wf_mem gm" and "\<forall>b \<in> set bs. buf_in_ram gm b" and "n = min (length p) (writable_len bs)"
  shows "\<exists>gm'. rx_bufs front bs tot p gm = (tot + of_nat n, drop n p, gm') \<and> only_at (writable_span bs) gm gm' \<and>
    (bufs_apart bs \<longrightarrow> landing gm' bs = overwrite (landing gm bs) 0 (take n p))"
  using assms
proof (induction bs arbitrary: tot p gm n)
  case Nil
  then show ?case by (simp add: only_at_refl landing_def)
next
  case (Cons b bs)
  have b: "buf_in_ram gm b" and bs: "\<forall>b \<in> set bs. buf_in_ram gm b" using Cons.prems(2) by simp_all
  show ?case
  proof (cases "cb_write b \<and> cb_len b \<noteq> 0")
    case False
    then have len: "writable_len (b # bs) = writable_len bs" and land: "landing g (b # bs) = landing g bs" for g
      by (auto simp: landing_def)
    have "only_at (writable_span bs) gm gm' \<Longrightarrow> only_at (writable_span (b # bs)) gm gm'" for gm'
      by (erule only_at_mono) auto
    then show ?thesis using Cons.IH [OF Cons.prems(1) bs, of n p tot] Cons.prems(3) False len land bufs_apart_Cons by auto
  next
    case True
    let ?g = "gm\<lparr>gm_ram := overwrite (gm_ram gm) (cb_ptr b) (take (cb_len b) p)\<rparr>"
    let ?i = "min (cb_len b) (length p)"
    note put = rx_put_eq [OF Cons.prems(1) b, of front p]
    have g: "only_at (buf_span b) gm ?g" using only_at_write [OF Cons.prems(1) b, of 0 p] by (simp add: cb_write_at_eq)
    have ram: "cb_ptr b + cb_len b \<le> length (gm_ram gm)" using Cons.prems(1) b by (simp add: wf_mem_def buf_in_ram_def)
    have filled: "buf_bytes ?g b = overwrite (buf_bytes gm b) 0 (take (cb_len b) p)"
      using byte_range_overwrite_prefix [OF _ ram, of "take (cb_len b) p"] by simp
    have land: "landing x (b # bs) = buf_bytes x b @ landing x bs" for x using True by (simp add: landing_def)
    have lb: "length (buf_bytes gm b) = cb_len b" using ram by simp
    show ?thesis
    proof (cases "length p \<le> cb_len b")
      case short: True
      then have n: "n = length p" using Cons.prems(3) True by simp
      have "landing ?g (b # bs) = overwrite (landing gm (b # bs)) 0 (take n p)" if "bufs_apart (b # bs)"
        using that landing_only_at [OF g Cons.prems(1) bs] filled True short n lb
        by (auto simp: land bufs_apart_Cons overwrite_append_0)
      moreover have "only_at (writable_span (b # bs)) gm ?g" using g by (rule only_at_mono) (use True in auto)
      ultimately show ?thesis using True short n put by simp
    next
      case long: False
      then have i: "?i = cb_len b" and "drop (cb_len b) p \<noteq> []" by simp_all
      let ?m = "min (length (drop (cb_len b) p)) (writable_len bs)"
      have n: "n = cb_len b + ?m" using Cons.prems(3) True long by auto
      have "\<forall>b \<in> set bs. buf_in_ram ?g b" "wf_mem ?g" using bs Cons.prems(1) by (simp_all add: only_at_buf [OF g] only_at_wf [OF g])
      then obtain gm' where r: "rx_bufs front bs (tot + of_nat (cb_len b)) (drop (cb_len b) p) ?g = (tot + of_nat (cb_len b) + of_nat ?m, drop ?m (drop (cb_len b) p), gm')"
          "only_at (writable_span bs) ?g gm'" "bufs_apart bs \<longrightarrow> landing gm' bs = overwrite (landing ?g bs) 0 (take ?m (drop (cb_len b) p))"
        using Cons.IH [of ?g ?m "drop (cb_len b) p" "tot + of_nat (cb_len b)"] by blast
      have "rx_bufs front (b # bs) tot p gm = (tot + of_nat n, drop n p, gm')"
        using True long put i r(1) \<open>drop (cb_len b) p \<noteq> []\<close> unfolding n by (simp add: Let_def add.commute add.left_commute)
      moreover have "only_at (writable_span (b # bs)) gm gm'"
        using only_at_trans [OF g r(2)] by (rule only_at_mono) (use True in auto)
      moreover have "landing gm' (b # bs) = overwrite (landing gm (b # bs)) 0 (take n p)" if ap: "bufs_apart (b # bs)"
      proof -
        have "buf_bytes gm' b = buf_bytes ?g b"
          using ap True b Cons.prems(1) by (intro buf_bytes_only_at [OF r(2)]) (auto simp: bufs_apart_Cons only_at_buf [OF g] only_at_wf [OF g])
        moreover have "landing ?g bs = landing gm bs"
          using ap True by (intro landing_only_at [OF g Cons.prems(1) bs]) (auto simp: bufs_apart_Cons)
        moreover have "take n p = take (cb_len b) p @ take ?m (drop (cb_len b) p)" unfolding n by (rule take_add)
        moreover have "overwrite (buf_bytes gm b) 0 (take (cb_len b) p) = take (cb_len b) p" using long lb by (simp add: overwrite_def)
        ultimately show ?thesis using ap r(3) filled long lb
          by (cases "?m = 0") (auto simp: land bufs_apart_Cons overwrite_append_0)
      qed
      ultimately show ?thesis by blast
    qed
  qed
qed

section \<open>Everything the guest prints comes out\<close>

lemma printed_fields:
  "printed out n d d' \<Longrightarrow> con_mem d' = con_mem d \<and> con_txq d' = con_txq d \<and> con_rxq d' = con_rxq d \<and> rx_pending d' = rx_pending d"
  by (auto simp: printed_def)

text \<open>\<open>served out n q gm d d'\<close>: apart from queue and memory, \<open>d'\<close> is \<open>d\<close> after printing.\<close>

definition served :: "bytes \<Rightarrow> nat \<Rightarrow> virtqueue \<Rightarrow> guest_memory \<Rightarrow> console_device \<Rightarrow> console_device \<Rightarrow> bool" where
  "served out n q gm d d' \<longleftrightarrow> con_txq d' = q \<and> con_mem d' = gm \<and> printed out n d (d'\<lparr>con_txq := con_txq d, con_mem := con_mem d\<rparr>)"

lemma printed_cong: "printed out n d d' \<Longrightarrow> printed out n (d\<lparr>con_txq := q, con_mem := gm\<rparr>) (d'\<lparr>con_txq := q, con_mem := gm\<rparr>)"
  by (cases d) (auto simp: printed_def)

lemma served_fields:
  assumes "served out n q gm d d'"
  shows "con_txq d' = q" "con_mem d' = gm" "con_stdout d' = con_stdout d @ out" "tx_bytes d' = tx_bytes d + of_nat n"
    "con_rxq d' = con_rxq d" "rx_pending d' = rx_pending d"
    "map_option concat (byte_observer d') = map_option (\<lambda>os. concat os @ out) (byte_observer d)"
proof -
  obtain obs where e: "d'\<lparr>con_txq := con_txq d, con_mem := con_mem d\<rparr> =
      d\<lparr>con_stdout := con_stdout d @ out, byte_observer := obs, tx_bytes := tx_bytes d + of_nat n\<rparr>"
    and obs: "map_option concat obs = map_option (\<lambda>os. concat os @ out) (byte_observer d)"
    using assms by (auto simp: served_def printed_def)
  show "con_txq d' = q" "con_mem d' = gm" using assms by (simp_all add: served_def)
  show "con_stdout d' = con_stdout d @ out" using arg_cong [OF e, of con_stdout] by simp
  show "tx_bytes d' = tx_bytes d + of_nat n" using arg_cong [OF e, of tx_bytes] by simp
  show "con_rxq d' = con_rxq d" using arg_cong [OF e, of con_rxq] by simp
  show "rx_pending d' = rx_pending d" using arg_cong [OF e, of rx_pending] by simp
  show "map_option concat (byte_observer d') = map_option (\<lambda>os. concat os @ out) (byte_observer d)"
    using arg_cong [OF e, of byte_observer] obs by simp
qed

lemma served_trans:
  assumes "served xs m q gm d d'" and "served ys n q' gm' d' d''"
  shows "served (xs @ ys) (m + n) q' gm' d d''"
proof -
  have "printed ys n (d'\<lparr>con_txq := con_txq d, con_mem := con_mem d\<rparr>) (d''\<lparr>con_txq := con_txq d, con_mem := con_mem d\<rparr>)"
    using printed_cong [of ys n d' _ "con_mem d" "con_txq d"] assms(2) by (fastforce simp: served_def)
  with assms show ?thesis unfolding served_def using printed_trans by blast
qed

lemma tx_step_chain:
  assumes "rings_apart S (con_txq d) (con_mem d)" and "published S (con_txq d) (con_mem d) ((h, bs) # cs)"
    and "S = used_cells (con_txq d) (con_mem d)" and "\<forall>b \<in> set bs. \<not> cb_write b \<longrightarrow> buf_span b \<inter> S = {}"
  shows "\<exists>d' gm'. tx_step d = Some (d', True) \<and> only_at S (con_mem d) gm' \<and>
    served (readable (con_mem d) bs) (readable_len bs) ((con_txq d)\<lparr>last_avail := last_avail (con_txq d) + 1, last_used_idx := last_used_idx (con_txq d) + 1\<rparr>) gm' d d' \<and>
    rings_apart S (con_txq d') gm' \<and> published S (con_txq d') gm' cs \<and> hands_back (con_txq d) (con_mem d) [(h, 0)] gm'"
proof -
  let ?q = "con_txq d"
  let ?q1 = "?q\<lparr>last_avail := last_avail ?q + 1\<rparr>"
  have wf: "wf_mem (con_mem d)" using assms(1) by (simp add: rings_apart_def)
  obtain gm1 where p: "pop_into ?q (con_mem d) \<lparr>head_index = 0, bufs = []\<rparr> = Some (?q1, gm1, \<lparr>head_index = h, bufs = bs\<rparr>, True)"
      "only_at S (con_mem d) gm1"
    using pop_published [OF assms(1,2)] assms(3) by blast
  let ?d1 = "d\<lparr>con_txq := ?q1, con_mem := gm1\<rparr>"
  let ?d2 = "tx_bufs bs ?d1"
  obtain gm2 where v: "vq_push h 0 (?q1, gm1) = Some (?q1\<lparr>last_used_idx := last_used_idx ?q + 1\<rparr>, gm2)" "only_at S gm1 gm2"
      "rings_apart S (?q1\<lparr>last_used_idx := last_used_idx ?q + 1\<rparr>) gm2" "published S (?q1\<lparr>last_used_idx := last_used_idx ?q + 1\<rparr>) gm2 cs"
    using push_published [OF assms(1,2) p(2), of h 0] assms(3) by auto
  have pr: "printed (readable gm1 bs) (readable_len bs) ?d1 ?d2" using tx_bufs_printed [of ?d1 bs] by simp
  have "\<forall>b \<in> set bs. buf_in_ram (con_mem d) b" using published_in_ram [OF wf assms(2)] by simp
  then have same: "readable gm1 bs = readable (con_mem d) bs" using assms(4) by (intro readable_only_at [OF p(2) wf]) auto
  let ?d' = "?d2\<lparr>con_txq := ?q1\<lparr>last_used_idx := last_used_idx ?q + 1\<rparr>, con_mem := gm2\<rparr>"
  have "served (readable (con_mem d) bs) (readable_len bs) (?q1\<lparr>last_used_idx := last_used_idx ?q + 1\<rparr>) gm2 d ?d'"
    using printed_cong [OF pr, of "con_mem d" ?q] same by (simp add: served_def)
  moreover have "tx_step d = Some (?d', True)" using p(1) v(1) printed_fields [OF pr] by (simp add: tx_step_def Let_def)
  moreover have "only_at S (con_mem d) gm2" using only_at_trans [OF p(2) v(2)] by simp
  moreover have "hands_back ?q (con_mem d) [(h, 0)] gm2" using hands_back_chain [OF p(1,2) only_at_refl [of "{}"] _ v(1)] by simp
  ultimately show ?thesis using v(3,4) by (intro exI [of _ ?d'] exI [of _ gm2]) simp
qed

lemma tx_loop_published:
  assumes "rings_apart S (con_txq d) (con_mem d)" and "published S (con_txq d) (con_mem d) cs"
    and "S = used_cells (con_txq d) (con_mem d)" and "\<forall>b \<in> set (concat (map snd cs)). \<not> cb_write b \<longrightarrow> buf_span b \<inter> S = {}"
    and "length cs < fuel" and "out = readable (con_mem d) (concat (map snd cs))"
  shows "\<exists>d' gm'. tx_loop fuel n d = Some (n + of_nat (length cs), d') \<and> only_at S (con_mem d) gm' \<and>
    served out (readable_len (concat (map snd cs))) ((con_txq d)\<lparr>last_avail := last_avail (con_txq d) + of_nat (length cs), last_used_idx := last_used_idx (con_txq d) + of_nat (length cs)\<rparr>) gm' d d' \<and>
    hands_back (con_txq d) (con_mem d) (map (\<lambda>c. (fst c, 0)) cs) gm'"
  using assms
proof (induction cs arbitrary: d fuel n out)
  case Nil
  then obtain gm1 where p: "pop_into (con_txq d) (con_mem d) \<lparr>head_index = 0, bufs = []\<rparr> = Some (con_txq d, gm1, \<lparr>head_index = 0, bufs = []\<rparr>, False)"
      "only_at S (con_mem d) gm1"
    using pop_drained [of S "con_txq d" "con_mem d" "\<lparr>head_index = 0, bufs = []\<rparr>"] by auto
  show ?case using p hands_back_pop [OF p(1)] Nil.prems(5,6) printed_refl [of d]
    by (cases fuel) (auto simp: tx_step_def served_def readable_def Let_def)
next
  case (Cons c cs)
  obtain h bs where c: "c = (h, bs)" by fastforce
  obtain d' gm' where st: "tx_step d = Some (d', True)" "only_at S (con_mem d) gm'"
      "served (readable (con_mem d) bs) (readable_len bs) ((con_txq d)\<lparr>last_avail := last_avail (con_txq d) + 1, last_used_idx := last_used_idx (con_txq d) + 1\<rparr>) gm' d d'"
      "rings_apart S (con_txq d') gm'" "published S (con_txq d') gm' cs" "hands_back (con_txq d) (con_mem d) [(h, 0)] gm'"
    using tx_step_chain [of S d h bs cs] Cons.prems(1-4) c by auto
  have wf: "wf_mem (con_mem d)" using Cons.prems(1) by (simp add: rings_apart_def)
  have d': "con_mem d' = gm'" "con_txq d' = (con_txq d)\<lparr>last_avail := last_avail (con_txq d) + 1, last_used_idx := last_used_idx (con_txq d) + 1\<rparr>"
    using st(3) by (simp_all add: served_def)
  have S: "S = used_cells (con_txq d') (con_mem d')" using Cons.prems(3) used_cells_only_at [OF st(2)] by (simp add: d')
  have ram: "\<forall>b \<in> set (concat (map snd cs)). buf_in_ram (con_mem d) b" using published_in_ram [OF wf Cons.prems(2)] by simp
  have same: "readable gm' (concat (map snd cs)) = readable (con_mem d) (concat (map snd cs))"
    using Cons.prems(4) ram by (intro readable_only_at [OF st(2) wf]) auto
  obtain k where k: "fuel = Suc k" "length cs < k" using Cons.prems(5) by (cases fuel) auto
  have rest: "\<forall>b \<in> set (concat (map snd cs)). \<not> cb_write b \<longrightarrow> buf_span b \<inter> S = {}" using Cons.prems(4) by simp
  obtain d'' gm'' where r: "tx_loop k (n + 1) d' = Some (n + 1 + of_nat (length cs), d'')" "only_at S gm' gm''"
      "served (readable gm' (concat (map snd cs))) (readable_len (concat (map snd cs)))
        ((con_txq d')\<lparr>last_avail := last_avail (con_txq d') + of_nat (length cs), last_used_idx := last_used_idx (con_txq d') + of_nat (length cs)\<rparr>) gm'' d' d''"
      "hands_back (con_txq d') gm' (map (\<lambda>c. (fst c, 0)) cs) gm''"
    using Cons.IH [OF _ _ S rest k(2) refl, of "n + 1"] st(4,5) unfolding d'(1) by blast
  have "only_at S (con_mem d) gm''" using only_at_trans [OF st(2) r(2)] by simp
  moreover have "out = readable (con_mem d) bs @ readable gm' (concat (map snd cs))"
    unfolding same Cons.prems(6) by (simp add: readable_def c)
  moreover have "readable_len (concat (map snd (c # cs))) = readable_len bs + readable_len (concat (map snd cs))" by (simp add: c)
  moreover have "tx_loop fuel n d = Some (n + of_nat (length (c # cs)), d'')" using st(1) r(1) by (simp add: k(1) add.assoc)
  moreover have "hands_back (con_txq d) (con_mem d) (map (\<lambda>c. (fst c, 0)) (c # cs)) gm''"
    using hands_back_trans [OF st(6,2), of "last_avail (con_txq d) + 1"] r(4) by (simp add: d'(2) c)
  ultimately show ?case using served_trans [OF st(3) r(3)]
    by (intro exI [of _ d''] exI [of _ gm'']) (simp add: d'(2) add.assoc)
qed

section \<open>Everything the host types goes in\<close>

text \<open>The bytes input may land in; how many chains of the given capacities \<open>n\<close> bytes take.\<close>

definition landing_span :: "chain_buf list \<Rightarrow> nat set" where
  "landing_span bs = writable_span bs"

fun chains_for :: "nat \<Rightarrow> nat list \<Rightarrow> nat" where
  "chains_for n [] = 0"
| "chains_for n (c # cs) = (if n = 0 then 0 else Suc (chains_for (n - c) cs))"

text \<open>What the driver is told of them: the head of each chain they need, and how many bytes went into it.\<close>

fun shares_of :: "nat \<Rightarrow> (u16 \<times> chain_buf list) list \<Rightarrow> (u16 \<times> u32) list" where
  "shares_of n [] = []"
| "shares_of n (c # cs) = (if n = 0 then []
     else (fst c, of_nat (min n (writable_len (snd c)))) # shares_of (n - writable_len (snd c)) cs)"

definition chain_caps :: "(u16 \<times> chain_buf list) list \<Rightarrow> nat list" where
  "chain_caps cs = map (\<lambda>c. writable_len (snd c)) cs"

text \<open>
  The receive chains \<open>cs\<close> are usable: each has room, no two of their buffers overlap, and none touches the
  rings; \<open>S\<close> covers what the device will write.
\<close>

definition rx_room :: "nat set \<Rightarrow> virtqueue \<Rightarrow> guest_memory \<Rightarrow> (u16 \<times> chain_buf list) list \<Rightarrow> bool" where
  "rx_room S q gm cs \<longleftrightarrow> rings_apart S q gm \<and> published S q gm cs \<and> (\<forall>c \<in> set cs. 0 < writable_len (snd c)) \<and>
     bufs_apart (concat (map snd cs)) \<and> landing_span (concat (map snd cs)) \<inter> used_cells q gm = {} \<and>
     landing_span (concat (map snd cs)) \<subseteq> S"

lemma length_shares_of: "length (shares_of n cs) = chains_for n (chain_caps cs)"
  by (induction cs arbitrary: n) (simp_all add: chain_caps_def)

lemma chains_for_le: "chains_for n (chain_caps cs) \<le> length cs"
  by (induction cs arbitrary: n) (simp_all add: chain_caps_def)

lemma landing_span_append: "landing_span (xs @ ys) = landing_span xs \<union> landing_span ys"
  by (auto simp: landing_span_def)

lemma bufs_apart_chains: "bufs_apart (xs @ ys) \<longleftrightarrow> bufs_apart xs \<and> bufs_apart ys \<and> landing_span xs \<inter> landing_span ys = {}"
  unfolding landing_span_def by (rule bufs_apart_append)

lemmas landing_kept = landing_only_at [folded landing_span_def]

lemma rx_room_Cons:
  "rx_room S q gm (c # cs) \<longleftrightarrow> rings_apart S q gm \<and> published S q gm (c # cs) \<and> 0 < writable_len (snd c) \<and>
     (\<forall>c \<in> set cs. 0 < writable_len (snd c)) \<and> bufs_apart (snd c) \<and> bufs_apart (concat (map snd cs)) \<and>
     landing_span (snd c) \<inter> landing_span (concat (map snd cs)) = {} \<and> landing_span (snd c) \<inter> used_cells q gm = {} \<and>
     landing_span (concat (map snd cs)) \<inter> used_cells q gm = {} \<and> landing_span (snd c) \<subseteq> S \<and> landing_span (concat (map snd cs)) \<subseteq> S"
  by (simp add: rx_room_def bufs_apart_chains landing_span_append Int_Un_distrib2 del: set_concat sum_list_eq_0_iff)

lemma rx_room_tail:
  assumes "rx_room S q gm (c # cs)" and "only_at S gm gm1"
  shows "\<exists>gm2. vq_push h n (q\<lparr>last_avail := last_avail q + 1\<rparr>, gm1) =
      Some (q\<lparr>last_avail := last_avail q + 1, last_used_idx := last_used_idx q + 1\<rparr>, gm2) \<and>
    only_at (used_cells q gm) gm1 gm2 \<and> rx_room S (q\<lparr>last_avail := last_avail q + 1, last_used_idx := last_used_idx q + 1\<rparr>) gm2 cs"
proof -
  note room = assms(1) [unfolded rx_room_Cons]
  then have r: "rings_apart S q gm" "published S q gm (c # cs)" by simp_all
  obtain gm2 where gm2: "vq_push h n (q\<lparr>last_avail := last_avail q + 1\<rparr>, gm1) =
      Some (q\<lparr>last_avail := last_avail q + 1, last_used_idx := last_used_idx q + 1\<rparr>, gm2)"
      "only_at (used_cells q gm) gm1 gm2" "rings_apart S (q\<lparr>last_avail := last_avail q + 1, last_used_idx := last_used_idx q + 1\<rparr>) gm2"
      "published S (q\<lparr>last_avail := last_avail q + 1, last_used_idx := last_used_idx q + 1\<rparr>) gm2 cs"
    using push_published [OF r assms(2), of h n] by blast
  have "used_cells q gm2 = used_cells q gm" using used_cells_only_at [OF assms(2)] used_cells_only_at [OF gm2(2)] by simp
  then show ?thesis using gm2 room by (simp add: rx_room_def)
qed

lemma rx_loop_step:
  assumes "rx_room S q gm ((h, bs) # cs)" and "p \<noteq> []" and "length p < 2 ^ 32"
    and "n = min (length p) (writable_len bs)" and "q' = q\<lparr>last_avail := last_avail q + 1, last_used_idx := last_used_idx q + 1\<rparr>"
  shows "\<exists>gm'. rx_loop front some q p gm = rx_loop front True q' (drop n p) gm' \<and> rx_room S q' gm' cs \<and>
    only_at (used_cells q gm \<union> landing_span bs) gm gm' \<and> landing gm' bs = overwrite (landing gm bs) 0 (take n p) \<and>
    hands_back q gm [(h, of_nat n)] gm'"
proof -
  let ?q1 = "q\<lparr>last_avail := last_avail q + 1\<rparr>"
  have r: "rings_apart S q gm" "published S q gm ((h, bs) # cs)" "used_cells q gm \<subseteq> S" "wf_mem gm"
    and ap: "bufs_apart bs" and ws: "landing_span bs \<subseteq> S" "landing_span bs \<inter> used_cells q gm = {}"
    and pos: "0 < writable_len bs"
    using assms(1) by (simp_all add: rx_room_Cons rings_apart_def)
  obtain gm1 where p: "pop_into q gm \<lparr>head_index = 0, bufs = []\<rparr> = Some (?q1, gm1, \<lparr>head_index = h, bufs = bs\<rparr>, True)"
      "only_at (used_cells q gm) gm gm1"
    using pop_published [OF r(1,2)] by blast
  have ram: "\<forall>b \<in> set bs. buf_in_ram gm b" using published_in_ram [OF r(4,2)] by simp
  then have "\<forall>b \<in> set bs. buf_in_ram gm1 b" "wf_mem gm1" using r(4) by (simp_all add: only_at_buf [OF p(2)] only_at_wf [OF p(2)])
  then obtain gm2 where b: "rx_bufs front bs 0 p gm1 = (0 + of_nat n, drop n p, gm2)" "only_at (landing_span bs) gm1 gm2"
      "landing gm2 bs = overwrite (landing gm1 bs) 0 (take n p)"
    using rx_bufs_spec [of gm1 bs n p front 0, folded landing_span_def] ap assms(4) by blast
  have S: "only_at S gm gm2" using only_at_trans [OF p(2) b(2)] r(3) ws(1) by (auto elim: only_at_mono)
  obtain gm3 where v: "vq_push h (of_nat n) (?q1, gm2) = Some (q', gm3)" "only_at (used_cells q gm) gm2 gm3" "rx_room S q' gm3 cs"
    using rx_room_tail [OF assms(1) S, of h "of_nat n"] assms(5) by auto
  have "0 < n" "n < 2 ^ 32" using assms(2-4) pos by auto
  then have "(of_nat n :: u32) \<noteq> 0" by (auto simp: word_of_nat_eq_0_iff dest: dvd_imp_le)
  then have "rx_loop front some q p gm = rx_loop front True q' (drop n p) gm3"
    using assms(2) p(1) b(1) v(1) by (subst rx_loop.simps) simp
  moreover have "only_at (used_cells q gm \<union> landing_span bs) gm gm3"
    using only_at_trans [OF only_at_trans [OF p(2) b(2)] v(2)] by (rule only_at_mono) auto
  moreover have "landing gm3 bs = overwrite (landing gm bs) 0 (take n p)"
  proof -
    have "\<forall>b \<in> set bs. buf_in_ram gm2 b" "wf_mem gm2" using ram r(4) by (simp_all add: only_at_buf [OF S] only_at_wf [OF S])
    then have "landing gm3 bs = landing gm2 bs" using ws(2) by (intro landing_kept [OF v(2)])
    moreover have "landing gm1 bs = landing gm bs" using ws(2) ram r(4) by (intro landing_kept [OF p(2)])
    ultimately show ?thesis using b(3) by simp
  qed
  moreover have "hands_back q gm [(h, of_nat n)] gm3" using hands_back_chain [OF p b(2) ws(2) v(1)] .
  ultimately show ?thesis using v(3) by blast
qed

lemma rx_loop_published:
  assumes "rx_room S q gm cs" and "length p < 2 ^ 32" and "n = min (length p) (sum_list (chain_caps cs))"
    and "m = chains_for (length p) (chain_caps cs)"
  shows "\<exists>gm'. rx_loop front some q p gm =
      Some (some \<or> m \<noteq> 0, q\<lparr>last_avail := last_avail q + of_nat m, last_used_idx := last_used_idx q + of_nat m\<rparr>, drop n p, gm') \<and>
    only_at (used_cells q gm \<union> landing_span (concat (map snd cs))) gm gm' \<and>
    landing gm' (concat (map snd cs)) = overwrite (landing gm (concat (map snd cs))) 0 (take n p) \<and>
    hands_back q gm (shares_of (length p) cs) gm'"
  using assms
proof (induction cs arbitrary: some q gm p n m)
  case Nil
  then have "rings_apart S q gm" "published S q gm []" by (simp_all add: rx_room_def)
  then obtain gm1 where p: "pop_into q gm \<lparr>head_index = 0, bufs = []\<rparr> = Some (q, gm1, \<lparr>head_index = 0, bufs = []\<rparr>, False)"
      "only_at (used_cells q gm) gm gm1"
    using pop_drained [of S q gm "\<lparr>head_index = 0, bufs = []\<rparr>"] by auto
  show ?case using p hands_back_pop [OF p(1)] Nil.prems(3,4) by (subst rx_loop.simps) (auto simp: hands_back_refl chain_caps_def landing_def landing_span_def only_at_refl)
next
  case (Cons c cs)
  obtain h bs where c: "c = (h, bs)" by fastforce
  let ?L = "concat (map snd cs)"
  show ?case
  proof (cases "p = []")
    case True
    then show ?thesis using Cons.prems(3,4) by (subst rx_loop.simps) (simp add: chain_caps_def only_at_refl hands_back_refl)
  next
    case False
    let ?n = "min (length p) (writable_len bs)"
    let ?q = "q\<lparr>last_avail := last_avail q + 1, last_used_idx := last_used_idx q + 1\<rparr>"
    obtain gm1 where st: "rx_loop front some q p gm = rx_loop front True ?q (drop ?n p) gm1" "rx_room S ?q gm1 cs"
        "only_at (used_cells q gm \<union> landing_span bs) gm gm1" "landing gm1 bs = overwrite (landing gm bs) 0 (take ?n p)"
        "hands_back q gm [(h, of_nat ?n)] gm1"
      using rx_loop_step [OF _ False Cons.prems(2) refl refl] Cons.prems(1) c by blast
    let ?m = "chains_for (length (drop ?n p)) (chain_caps cs)"
    let ?k = "min (length (drop ?n p)) (sum_list (chain_caps cs))"
    have m: "m = Suc ?m" and n: "n = ?n + ?k" using False Cons.prems(3,4) c by (auto simp: chain_caps_def min_def)
    have room: "wf_mem gm" "\<forall>b \<in> set (bs @ ?L). buf_in_ram gm b" "bufs_apart bs" "landing_span bs \<inter> landing_span ?L = {}"
        "landing_span bs \<inter> used_cells q gm = {}" "landing_span ?L \<inter> used_cells q gm = {}"
      using Cons.prems(1) published_in_ram [of gm S q "c # cs"] 
      by (simp_all add: c rx_room_Cons rings_apart_def)
    have "length (drop ?n p) < 2 ^ 32" using Cons.prems(2) by simp
    from Cons.IH [OF st(2) this refl refl, of True] obtain gm2 where
      r: "rx_loop front True ?q (drop ?n p) gm1 = Some (True, ?q\<lparr>last_avail := last_avail ?q + of_nat ?m, last_used_idx := last_used_idx ?q + of_nat ?m\<rparr>, drop ?k (drop ?n p), gm2)"
        "only_at (used_cells q gm \<union> landing_span ?L) gm1 gm2" "landing gm2 ?L = overwrite (landing gm1 ?L) 0 (take ?k (drop ?n p))"
        "hands_back ?q gm1 (shares_of (length (drop ?n p)) cs) gm2"
      using used_cells_only_at [OF st(3), of q] by auto
    have "rx_loop front some q p gm = Some (some \<or> m \<noteq> 0, q\<lparr>last_avail := last_avail q + of_nat m, last_used_idx := last_used_idx q + of_nat m\<rparr>, drop n p, gm2)"
      unfolding st(1) r(1) m n by (simp add: add.commute add.left_commute)
    moreover have "only_at (used_cells q gm \<union> landing_span (bs @ ?L)) gm gm2"
      using only_at_trans [OF st(3) r(2)] by (rule only_at_mono) (auto simp: landing_span_append)
    moreover have "landing gm2 (bs @ ?L) = overwrite (landing gm (bs @ ?L)) 0 (take n p)"
    proof -
      have ram1: "\<forall>b \<in> set (bs @ ?L). buf_in_ram gm1 b" "wf_mem gm1"
        using room(1,2) by (simp_all add: only_at_buf [OF st(3)] only_at_wf [OF st(3)])
      have "landing gm2 bs = landing gm1 bs" using ram1 room(4,5) by (intro landing_kept [OF r(2)]) (simp_all add: Int_Un_distrib Int_commute)
      moreover have "landing gm1 ?L = landing gm ?L" using room(2,4,6) by (intro landing_kept [OF st(3) room(1)]) (simp_all add: Int_Un_distrib Int_commute)
      moreover have "length (landing gm bs) = writable_len bs" using room(1,2) by (intro length_landing) auto
      moreover have "take n p = take ?n p @ take ?k (drop ?n p)" unfolding n by (rule take_add)
      ultimately show ?thesis using r(3) st(4)
        by (cases "length p \<le> writable_len bs") (simp_all add: landing_append overwrite_append_0 overwrite_def)
    qed
    moreover have "hands_back q gm (shares_of (length p) (c # cs)) gm2"
    proof -
      have "length (drop ?n p) = length p - writable_len bs" by simp
      then show ?thesis using hands_back_trans [OF st(5,3), of "last_avail q + 1"] r(4) False by (simp add: c)
    qed
    ultimately show ?thesis by (auto simp: c)
  qed
qed

section \<open>No guest makes the device panic\<close>

definition con_good :: "console_device \<Rightarrow> bool" where
  "con_good d \<longleftrightarrow> wf_mem (con_mem d) \<and> vq_ok (con_rxq d) \<and> max_size (con_rxq d) = CONSOLE_QUEUE_MAX \<and>
     vq_ok (con_txq d) \<and> max_size (con_txq d) = CONSOLE_QUEUE_MAX"

lemma tx_step_ok:
  assumes "con_good d"
  shows "\<exists>d' r. tx_step d = Some (d', r) \<and> con_good d' \<and> (\<exists>out. con_stdout d' = con_stdout d @ out)"
proof -
  obtain q gm ch r where p: "pop_into (con_txq d) (con_mem d) \<lparr>head_index = 0, bufs = []\<rparr> = Some (q, gm, ch, r)"
      "vq_ok q" "max_size q = CONSOLE_QUEUE_MAX" "wf_mem gm"
    using pop_fresh [of "con_mem d" "con_txq d"] assms by (auto simp: con_good_def)
  let ?d1 = "d\<lparr>con_txq := q, con_mem := gm\<rparr>"
  have pr: "printed (readable gm (bufs ch)) (readable_len (bufs ch)) ?d1 (tx_bufs (bufs ch) ?d1)"
    using tx_bufs_printed [of ?d1 "bufs ch"] by simp
  obtain q' gm' where "vq_push (head_index ch) 0 (q, gm) = Some (q', gm')" "vq_ok q'" "max_size q' = max_size q" "wf_mem gm'"
    using push_any [OF p(2,4)] by blast
  then show ?thesis using p assms printed_fields [OF pr] pr
    by (auto simp: tx_step_def con_good_def printed_def Let_def)
qed

lemma tx_loop_ok:
  "con_good d \<Longrightarrow> \<exists>n' d'. tx_loop fuel n d = Some (n', d') \<and> con_good d' \<and> (\<exists>out. con_stdout d' = con_stdout d @ out)"
proof (induction fuel arbitrary: n d)
  case (Suc fuel)
  obtain d' r where st: "tx_step d = Some (d', r)" "con_good d'" "\<exists>out. con_stdout d' = con_stdout d @ out"
    using tx_step_ok [OF Suc.prems] by blast
  obtain n' d'' where "tx_loop fuel (n + 1) d' = Some (n', d'')" "con_good d''" "\<exists>out. con_stdout d'' = con_stdout d' @ out"
    using Suc.IH [OF st(2)] by blast
  then show ?case using st by (cases r) auto
qed simp

lemma signal_ok: "vq_ok q \<Longrightarrow> vq_ok (fst (should_interrupt_driver q gm)) \<and> max_size (fst (should_interrupt_driver q gm)) = max_size q"
  by (simp add: should_interrupt_driver_def vq_ok_def Let_def)

lemma drain_tx_ok:
  assumes "con_good d"
  shows "\<exists>d' raised. drain_tx fuel d = Some (d', raised) \<and> con_good d' \<and> (\<exists>out. con_stdout d' = con_stdout d @ out)"
proof -
  obtain n d1 where "tx_loop fuel 0 d = Some (n, d1)" "con_good d1" "\<exists>out. con_stdout d1 = con_stdout d @ out"
    using tx_loop_ok [OF assms] by blast
  then show ?thesis using assms signal_ok [of "con_txq d1" "con_mem d1"]
    by (auto simp: drain_tx_def con_good_def split: prod.split)
qed

lemma rx_loop_ok:
  "vq_ok q \<Longrightarrow> wf_mem gm \<Longrightarrow> \<exists>some' q' p' gm'. rx_loop front some q p gm = Some (some', q', p', gm') \<and> vq_ok q' \<and>
     max_size q' = max_size q \<and> wf_mem gm'"
proof (induction front some q p gm rule: rx_loop.induct)
  case (1 front some q p gm)
  obtain q1 gm1 ch r where p: "pop_into q gm \<lparr>head_index = 0, bufs = []\<rparr> = Some (q1, gm1, ch, r)" "vq_ok q1"
      "max_size q1 = max_size q" "wf_mem gm1" "\<forall>b \<in> set (bufs ch). buf_in_ram gm1 b"
    using pop_fresh [OF "1.prems"(2,1)] by blast
  obtain tot p2 gm2 where b: "rx_bufs front (bufs ch) 0 p gm1 = (tot, p2, gm2)" "wf_mem gm2"
    using rx_bufs_spec [OF p(4,5) refl, of front 0 p] p(4) by (auto dest: only_at_wf)
  obtain q2 gm3 where v: "vq_push (head_index ch) tot (q1, gm2) = Some (q2, gm3)" "vq_ok q2" "max_size q2 = max_size q1" "wf_mem gm3"
    using push_any [OF p(2) b(2)] by blast
  show ?case
  proof (cases "p = [] \<or> \<not> r \<or> tot = 0")
    case True
    then show ?thesis using "1.prems" p b v by (subst rx_loop.simps) auto
  next
    case False
    have "\<exists>some' q' p' gm'. rx_loop front True q2 p2 gm3 = Some (some', q', p', gm') \<and> vq_ok q' \<and> max_size q' = max_size q2 \<and> wf_mem gm'"
      using False by (intro "1.IH" [OF _ p(1) refl refl refl _ b(1) [symmetric] refl v(1) refl] v) auto
    then show ?thesis using False p b v by (subst rx_loop.simps) simp
  qed
qed

lemma rx_service_ok:
  assumes "con_good d"
  shows "\<exists>d' raised. rx_service front d = Some (d', raised) \<and> con_good d' \<and> con_stdout d' = con_stdout d"
proof -
  obtain s q p gm where "rx_loop front False (con_rxq d) (rx_pending d) (con_mem d) = Some (s, q, p, gm)"
      "vq_ok q" "max_size q = CONSOLE_QUEUE_MAX" "wf_mem gm"
    using rx_loop_ok [of "con_rxq d" "con_mem d" front False "rx_pending d"] assms by (auto simp: con_good_def)
  then show ?thesis using assms signal_ok [of q gm]
    by (auto simp: rx_service_def drain_rx_def con_good_def split: prod.split)
qed

lemma console_notify_ok:
  assumes "con_good d"
  shows "\<exists>d' raised. console_notify_queue fuel front idx d = Some (d', raised) \<and> con_good d' \<and> (\<exists>out. con_stdout d' = con_stdout d @ out)"
  using drain_tx_ok [OF assms] rx_service_ok [OF assms, of front] assms by (auto simp: console_notify_queue_def)

interpretation con: virtio_contract "console_dev fuel front" con_good console_queue_max for fuel front
proof (unfold_locales, goal_cases)
  case (3 d q da aa ua n ev)
  then show ?case
    by (auto simp: console_dev_def console_enable_queue_def on_queue_def con_good_def vq_ok_def enable_ok_def console_queue_max_def set_ready_def
        set_event_idx_enabled_def set_size_def set_used_gpa_def set_avail_gpa_def set_desc_gpa_def word_le_nat_alt unat_ucast_up)
next
  case (5 d q)
  then show ?case using console_notify_ok [of d fuel front q] by (auto simp: console_dev_def)
qed (auto simp: console_dev_def console_queue_max_def con_good_def console_disable_queue_def on_queue_def set_ready_def
    console_set_driver_features_def console_reset_def vq_reset_def vq_ok_def)

text \<open>
  What happens to a console: the guest accesses its registers and stores to its RAM, and the host's threads
  deliver input, whose interrupt goes through the transport.
\<close>

datatype console_event = ConAccess guest_op | ConStores bytes | ConInput bytes

fun console_event_step :: "nat \<Rightarrow> (bytes \<Rightarrow> nat) \<Rightarrow> console_event \<Rightarrow> console_device transport \<Rightarrow> console_device transport option" where
  "console_event_step fuel front (ConAccess x) t = transport_op (console_dev fuel front) x t"
| "console_event_step fuel front (ConStores r) t = (let d = tp_device t; gm = con_mem d
     in Some (if length r = length (gm_ram gm) then t\<lparr>tp_device := d\<lparr>con_mem := gm\<lparr>gm_ram := r\<rparr>\<rparr>\<rparr> else t))"
| "console_event_step fuel front (ConInput bs) t = (case write_host_input front bs (tp_device t) of
     None \<Rightarrow> None
   | Some (d', raised) \<Rightarrow> Some (fst (raise_all raised (t\<lparr>tp_device := d'\<rparr>))))"

fun console_run :: "nat \<Rightarrow> (bytes \<Rightarrow> nat) \<Rightarrow> console_event list \<Rightarrow> console_device transport \<Rightarrow> console_device transport option" where
  "console_run fuel front [] t = Some t"
| "console_run fuel front (e # es) t = (case console_event_step fuel front e t of None \<Rightarrow> None | Some t' \<Rightarrow> console_run fuel front es t')"

lemma console_step_safe:
  assumes "con.safe t"
  shows "\<exists>t'. console_event_step fuel front e t = Some t' \<and> con.safe t'"
proof (cases e)
  case (ConAccess x)
  then show ?thesis using con.safe_op [OF assms, of fuel front x] by (auto split: option.splits)
next
  case (ConStores r)
  then show ?thesis using assms by (auto simp: con.safe_def con_good_def wf_mem_def Let_def split: option.splits)
next
  case (ConInput bs)
  let ?d = "tp_device t"
  have g: "con_good ?d" "con_good (?d\<lparr>rx_pending := rx_pending ?d @ bs\<rparr>)" using assms by (simp_all add: con.safe_def con_good_def)
  obtain d' raised where w: "write_host_input front bs ?d = Some (d', raised)" "con_good d'"
    using rx_service_ok [OF g(2), of front] g(1) by (cases "bs = []") (auto simp: write_host_input_def)
  then have "con.safe (t\<lparr>tp_device := d'\<rparr>)" using assms by (simp add: con.safe_def)
  then show ?thesis using ConInput w(1) con.safe_raise_all by simp
qed

lemma console_run_safe: "con.safe t \<Longrightarrow> \<exists>t'. console_run fuel front es t = Some t' \<and> con.safe t'"
proof (induction es arbitrary: t)
  case (Cons e es)
  then show ?case using console_step_safe [OF Cons.prems, of fuel front e] by auto
qed simp

lemma con_safe_new:
  assumes "wf_mem gm" and "transport_new (console_dev fuel front) (console_new gm) opts = Some t"
  shows "con.safe t"
  using assms(1) transport_new_state [OF assms(2)]
  by (simp add: con.safe_def con.sizes_ok_def con_good_def console_new_def vq_ok_def vq_new_def common_new_def tqueue_default_def)

section \<open>Properties\<close>

text \<open>
  C8. What the guest prints comes out, completely, in order and once: when the transmit queue holds the
  chains \<open>cs\<close>, laid out by the rules by a driver that keeps its memory clear of the device's half of
  the rings, a notification returns after them; standard output has grown by exactly the readable
  bytes of the chains in ring order, an observer saw the same bytes, the counter advanced by their
  number, and every chain was taken. Each is returned: the driver finds the head of every chain, with
  no byte written to it, in the slots of the used ring that follow, in order, and the index advanced by
  their number. No other byte of RAM changed but the device's half of the ring; the receive side is
  untouched, and the driver is interrupted as the queue decides.
\<close>

theorem console_output_exact:
  assumes "rings_apart S (con_txq d) (con_mem d)" and "published S (con_txq d) (con_mem d) cs"
    and "S = used_cells (con_txq d) (con_mem d)" and "\<forall>b \<in> set (concat (map snd cs)). \<not> cb_write b \<longrightarrow> buf_span b \<inter> S = {}"
    and "length cs < fuel" and "out = readable (con_mem d) (concat (map snd cs))"
    and "q1 = (con_txq d)\<lparr>last_avail := last_avail (con_txq d) + of_nat (length cs), last_used_idx := last_used_idx (con_txq d) + of_nat (length cs)\<rparr>"
    and "used_ring_ok (con_txq d) (con_mem d)" and "length cs \<le> unat (vq_size (con_txq d))"
  shows "\<exists>d'. console_notify_queue fuel front CONSOLE_TX_QUEUE d =
      Some (d', if cs \<noteq> [] \<and> snd (should_interrupt_driver q1 (con_mem d')) then [CONSOLE_TX_QUEUE] else []) \<and>
    con_stdout d' = con_stdout d @ out \<and>
    map_option concat (byte_observer d') = map_option (\<lambda>os. concat os @ out) (byte_observer d) \<and>
    tx_bytes d' = tx_bytes d + of_nat (readable_len (concat (map snd cs))) \<and>
    con_txq d' = (if cs = [] then q1 else fst (should_interrupt_driver q1 (con_mem d'))) \<and>
    returned (con_txq d) (con_mem d) (map (\<lambda>c. (fst c, 0)) cs) (con_mem d') \<and>
    only_at S (con_mem d) (con_mem d') \<and> con_rxq d' = con_rxq d \<and> rx_pending d' = rx_pending d"
proof -
  obtain d1 gm1 where l: "tx_loop fuel 0 d = Some (0 + of_nat (length cs), d1)" "only_at S (con_mem d) gm1"
      "served out (readable_len (concat (map snd cs))) q1 gm1 d d1" "hands_back (con_txq d) (con_mem d) (map (\<lambda>c. (fst c, 0)) cs) gm1"
    using tx_loop_published [OF assms(1-6), of 0] assms(7) by blast
  have ready: "vq_ready (con_txq d)" using assms(1) by (simp add: rings_apart_def)
  have len: "length cs < 2 ^ 16" using assms(2) by (simp add: published_def)
  then have "unat (of_nat (length cs) :: u64) = length cs" by (simp add: unat_of_nat take_bit_nat_eq_self)
  then have pos: "0 < (of_nat (length cs) :: u64) \<longleftrightarrow> cs \<noteq> []" by (simp add: word_less_nat_alt)
  obtain q2 i where q2: "should_interrupt_driver q1 gm1 = (q2, i)" by fastforce
  note d1 = served_fields [OF l(3)]
  have ret: "returned (con_txq d) (con_mem d) (map (\<lambda>c. (fst c, 0)) cs) gm1" using hands_back_returned [OF l(4) assms(8)] assms(9) by simp
  show ?thesis
  proof (cases "cs = []")
    case True
    then have "console_notify_queue fuel front CONSOLE_TX_QUEUE d = Some (d1, [])"
      using l(1) ready by (simp add: console_notify_queue_def drain_tx_def)
    then show ?thesis using True d1 l(2) ret by auto
  next
    case False
    then have "console_notify_queue fuel front CONSOLE_TX_QUEUE d = Some (d1\<lparr>con_txq := q2\<rparr>, if i then [CONSOLE_TX_QUEUE] else [])"
      using l(1) ready pos q2 d1(1,2) by (simp add: console_notify_queue_def drain_tx_def)
    then show ?thesis using False d1 l(2) q2 ret by (intro exI [of _ "d1\<lparr>con_txq := q2\<rparr>"]) simp
  qed
qed

text \<open>
  C11. What the host types goes in, completely and in order: the pending input followed by the new bytes
  fills the writable buffers of the published receive chains from the front, however the deque lies
  in memory; what does not fit stays pending. Exactly as many chains are taken as that needs, and each
  is returned: the driver finds its head and the number of bytes that went into it in the slots of
  the used ring that follow, in order, and the index advanced by their number. Nothing else in RAM
  changes but the device's half of the ring, the transmit side is untouched, and the driver is
  interrupted as the queue decides.
\<close>

theorem console_input_delivered:
  assumes "rx_room S (con_rxq d) (con_mem d) cs" and "bs \<noteq> []" and "p = rx_pending d @ bs" and "length p < 2 ^ 32"
    and "n = min (length p) (sum_list (chain_caps cs))" and "m = chains_for (length p) (chain_caps cs)"
    and "used_ring_ok (con_rxq d) (con_mem d)" and "length cs \<le> unat (vq_size (con_rxq d))"
    and "q1 = (con_rxq d)\<lparr>last_avail := last_avail (con_rxq d) + of_nat m, last_used_idx := last_used_idx (con_rxq d) + of_nat m\<rparr>"
  shows "\<exists>d'. write_host_input front bs d =
      Some (d', if m \<noteq> 0 \<and> snd (should_interrupt_driver q1 (con_mem d')) then [CONSOLE_RX_QUEUE] else []) \<and> rx_pending d' = drop n p \<and>
    landing (con_mem d') (concat (map snd cs)) = overwrite (landing (con_mem d) (concat (map snd cs))) 0 (take n p) \<and>
    only_at (used_cells (con_rxq d) (con_mem d) \<union> landing_span (concat (map snd cs))) (con_mem d) (con_mem d') \<and>
    last_avail (con_rxq d') = last_avail (con_rxq d) + of_nat m \<and>
    last_used_idx (con_rxq d') = last_used_idx (con_rxq d) + of_nat m \<and>
    returned (con_rxq d) (con_mem d) (shares_of (length p) cs) (con_mem d') \<and> length (shares_of (length p) cs) = m \<and>
    con_txq d' = con_txq d \<and> con_stdout d' = con_stdout d"
proof -
  obtain gm' where l: "rx_loop front False (con_rxq d) p (con_mem d) = Some (False \<or> m \<noteq> 0, q1, drop n p, gm')"
      "only_at (used_cells (con_rxq d) (con_mem d) \<union> landing_span (concat (map snd cs))) (con_mem d) gm'"
      "landing gm' (concat (map snd cs)) = overwrite (landing (con_mem d) (concat (map snd cs))) 0 (take n p)"
      "hands_back (con_rxq d) (con_mem d) (shares_of (length p) cs) gm'"
    using rx_loop_published [OF assms(1,4-6), of front False] assms(9) by blast
  have ready: "vq_ready (con_rxq d)" using assms(1) by (simp add: rx_room_def rings_apart_def)
  have "length (shares_of (length p) cs) \<le> unat (vq_size (con_rxq d))"
    using chains_for_le [of "length p" cs] assms(8) by (simp add: length_shares_of)
  note ret = hands_back_returned [OF l(4) assms(7) this]
  obtain q2 i where q2: "should_interrupt_driver q1 gm' = (q2, i)" by fastforce
  then have sig: "last_avail q2 = last_avail q1" "last_used_idx q2 = last_used_idx q1"
    by (auto simp: should_interrupt_driver_def Let_def split: if_splits)
  let ?d = "d\<lparr>con_rxq := if m = 0 then q1 else q2, rx_pending := drop n p, con_mem := gm'\<rparr>"
  have "write_host_input front bs d = Some (?d, if m \<noteq> 0 \<and> i then [CONSOLE_RX_QUEUE] else [])"
    using l(1) q2 ready assms(2) unfolding assms(3)
    by (cases "m = 0") (simp_all add: write_host_input_def rx_service_def drain_rx_def)
  then show ?thesis using l(2,3) ret sig q2 assms(6)
    by (intro exI [of _ ?d]) (simp add: assms(9) length_shares_of)
qed

text \<open>
  Neither a guest nor the host's input threads can make the console panic: from the transport as it is
  built, every interleaving of register accesses, arbitrary changes of RAM and input is served, and
  both queues keep sizes their ring arithmetic can hold.
\<close>

lemma console_survives_any_guest:
  assumes "wf_mem gm" and "transport_new (console_dev fuel front) (console_new gm) opts = Some t"
  shows "\<exists>t'. console_run fuel front es t = Some t' \<and> vq_ok (con_rxq (tp_device t')) \<and> vq_ok (con_txq (tp_device t')) \<and>
    max_size (con_rxq (tp_device t')) = CONSOLE_QUEUE_MAX \<and> max_size (con_txq (tp_device t')) = CONSOLE_QUEUE_MAX \<and>
    wf_mem (con_mem (tp_device t'))"
  using console_run_safe [OF con_safe_new [OF assms], of fuel front es] by (auto simp: con.safe_def con_good_def)

section \<open>Concrete runs\<close>

definition demo_console :: console_device where
  "demo_console = (console_new demo_mem)\<lparr>con_txq := demo_vq\<lparr>max_size := 64\<rparr>, con_rxq := demo_vq\<lparr>max_size := 64\<rparr>\<rparr>"

lemma demo_console_fields: "con_txq demo_console = demo_vq\<lparr>max_size := 64\<rparr>" "con_rxq demo_console = demo_vq\<lparr>max_size := 64\<rparr>"
    "con_mem demo_console = demo_mem" "rx_pending demo_console = []" "con_stdout demo_console = []"
  by (simp_all add: demo_console_def console_new_def)

lemma demo_console_ring: "used_ring_ok (demo_vq\<lparr>max_size := 64\<rparr>) demo_mem" "1 \<le> unat (vq_size (demo_vq\<lparr>max_size := 64\<rparr>))"
  using demo_used_ring_ok by (simp_all add: used_ring_ok_def vq_ok_def demo_vq_def vq_new_def)

lemma demo_returned:
  "returned (demo_vq\<lparr>max_size := 64\<rparr>) demo_mem [(0, n)] gm \<Longrightarrow>
     load_acquire_u16 gm 82 = Some 1 \<and> read_into gm 84 8 = Some (le32 0 @ le32 n)"
  by (auto simp: returned_def used_elem_gpa_def used_elem_def used_slot_def demo_vq_def vq_new_def dest!: spec [of _ "0 :: nat"])

theorem console_output_exact_witness:
  "\<exists>d' raised. console_notify_queue 2 (\<lambda>p. 0) CONSOLE_TX_QUEUE demo_console = Some (d', raised) \<and>
     con_stdout d' = replicate 16 0 \<and> tx_bytes d' = 16 \<and>
     load_acquire_u16 (con_mem d') 82 = Some 1 \<and> read_into (con_mem d') 84 8 = Some (le32 0 @ le32 0)"
proof -
  let ?S = "used_cells (demo_vq\<lparr>max_size := 64\<rparr>) demo_mem"
  have s: "?S \<subseteq> {80..<120} \<union> {176..<192}" using demo_used_cells by blast
  have "\<forall>b \<in> set (concat (map snd [(0 :: u16, demo_bufs)])). \<not> cb_write b \<longrightarrow> buf_span b \<inter> ?S = {}"
    using demo_used_cells by auto
  note e = console_output_exact [of ?S demo_console "[(0, demo_bufs)]", unfolded demo_console_fields, OF demo_published [OF _ s] refl this, of 2]
  have "readable demo_mem demo_bufs = replicate 16 0" by code_simp
  moreover have "tx_bytes demo_console = 0" by (simp add: demo_console_def console_new_def)
  ultimately show ?thesis using e [OF order_refl order_refl _ refl refl demo_console_ring(1), of "\<lambda>p. 0"] demo_console_ring(2) demo_returned by auto
qed

theorem console_input_delivered_witness:
  "\<exists>d' raised. write_host_input (\<lambda>p. 1) [104, 105] demo_console = Some (d', raised) \<and> rx_pending d' = [] \<and>
     landing (con_mem d') demo_bufs = [104, 105] @ replicate 14 0 \<and> last_avail (con_rxq d') = 1 \<and>
     load_acquire_u16 (con_mem d') 82 = Some 1 \<and> read_into (con_mem d') 84 8 = Some (le32 0 @ le32 2)"
proof -
  let ?q = "demo_vq\<lparr>max_size := 64\<rparr>"
  let ?S = "used_cells ?q demo_mem \<union> {176..<192}"
  have s: "?S \<subseteq> {80..<120} \<union> {176..<192}" "used_cells ?q demo_mem \<subseteq> ?S" using demo_used_cells by blast+
  have "{b \<in> set demo_bufs. cb_write b} = {\<lparr>cb_ptr = 176, cb_len = 16, cb_write = True\<rparr>}" by auto
  then have sp: "writable_span demo_bufs = {176..<192}" by simp
  then have "rx_room ?S ?q demo_mem [(0, demo_bufs)]"
    using demo_published [OF s(2,1)] demo_used_cells by (auto simp: rx_room_def bufs_apart_def landing_span_def simp del: UN_simps)
  from console_input_delivered [of ?S demo_console "[(0, demo_bufs)]" "[104, 105]", unfolded demo_console_fields, OF this _ refl _ refl refl
      demo_console_ring(1) _ refl, of "\<lambda>p. 1"] demo_console_ring(2)
  obtain d' raised where d': "write_host_input (\<lambda>p. 1) [104, 105] demo_console = Some (d', raised)" "rx_pending d' = []"
      "landing (con_mem d') demo_bufs = overwrite (landing demo_mem demo_bufs) 0 [104, 105]" "last_avail (con_rxq d') = last_avail ?q + 1"
      "returned ?q demo_mem [(0, 2)] (con_mem d')"
    by (auto simp: chain_caps_def)
  moreover have "landing demo_mem demo_bufs = replicate 16 0" "last_avail ?q + 1 = 1" by code_simp+
  moreover have "overwrite (replicate 16 (0 :: u8)) 0 [104, 105] = [104, 105] @ replicate 14 0" by code_simp
  ultimately show ?thesis using demo_returned by auto
qed

end
