(* ===== verification/Net_Dhcp.thy ===== *)
theory Net_Dhcp
  imports Net_Wire
begin

text \<open>
  The DHCP server of the NAT's one-guest network (\<^verbatim>\<open>src/net/dhcp.rs\<close>): parsing a client's options,
  building the reply, and choosing the name servers to offer. Addresses are byte lists; \<open>reply\<close> returns
  the destination with the message it leaves in its output buffer.
\<close>

section \<open>The code\<close>

abbreviation BROADCAST_IP :: bytes where "BROADCAST_IP \<equiv> [255, 255, 255, 255]"
abbreviation BROADCAST_MAC :: bytes where "BROADCAST_MAC \<equiv> [0xFF, 0xFF, 0xFF, 0xFF, 0xFF, 0xFF]"
abbreviation BOOTREQUEST :: u8 where "BOOTREQUEST \<equiv> 1"
abbreviation BOOTREPLY :: u8 where "BOOTREPLY \<equiv> 2"
abbreviation HTYPE_ETHERNET :: u8 where "HTYPE_ETHERNET \<equiv> 1"
abbreviation HLEN_ETHERNET :: u8 where "HLEN_ETHERNET \<equiv> 6"
abbreviation MAGIC_COOKIE :: bytes where "MAGIC_COOKIE \<equiv> [99, 130, 83, 99]"
abbreviation OPTIONS :: nat where "OPTIONS \<equiv> 240"
abbreviation MIN_REPLY :: nat where "MIN_REPLY \<equiv> 300"
abbreviation MAX_DNS :: nat where "MAX_DNS \<equiv> 3"
abbreviation DISCOVER :: u8 where "DISCOVER \<equiv> 1"
abbreviation OFFER :: u8 where "OFFER \<equiv> 2"
abbreviation REQUEST :: u8 where "REQUEST \<equiv> 3"
abbreviation ACK :: u8 where "ACK \<equiv> 5"
abbreviation NAK :: u8 where "NAK \<equiv> 6"
abbreviation INFORM :: u8 where "INFORM \<equiv> 8"
abbreviation OPT_PAD :: u8 where "OPT_PAD \<equiv> 0"
abbreviation OPT_SUBNET_MASK :: u8 where "OPT_SUBNET_MASK \<equiv> 1"
abbreviation OPT_ROUTER :: u8 where "OPT_ROUTER \<equiv> 3"
abbreviation OPT_DNS :: u8 where "OPT_DNS \<equiv> 6"
abbreviation OPT_REQUESTED_IP :: u8 where "OPT_REQUESTED_IP \<equiv> 50"
abbreviation OPT_LEASE_TIME :: u8 where "OPT_LEASE_TIME \<equiv> 51"
abbreviation OPT_MESSAGE_TYPE :: u8 where "OPT_MESSAGE_TYPE \<equiv> 53"
abbreviation OPT_SERVER_ID :: u8 where "OPT_SERVER_ID \<equiv> 54"
abbreviation OPT_END :: u8 where "OPT_END \<equiv> 255"

record lease =
  l_server :: bytes
  l_client :: bytes
  l_netmask :: bytes
  l_dns :: "bytes list"
  lease_secs :: u32

record destination =
  dest_ip :: bytes
  dest_mac :: bytes

record request_options =
  message_type :: "u8 option"
  requested_ip :: "bytes option"
  server_id :: "bytes option"

definition request_default :: request_options where
  "request_default = \<lparr>message_type = None, requested_ip = None, server_id = None\<rparr>"

text \<open>\<^verbatim>\<open>match (code, data)\<close>\<close>

definition take_option :: "u8 \<Rightarrow> bytes \<Rightarrow> request_options \<Rightarrow> request_options" where
  "take_option code dat r =
     (if code = OPT_MESSAGE_TYPE \<and> length dat = 1 then r\<lparr>message_type := Some (dat ! 0)\<rparr>
      else if code = OPT_REQUESTED_IP \<and> length dat = 4 then r\<lparr>requested_ip := Some dat\<rparr>
      else if code = OPT_SERVER_ID \<and> length dat = 4 then r\<lparr>server_id := Some dat\<rparr>
      else r)"

function parse_options_loop :: "bytes \<Rightarrow> request_options \<Rightarrow> request_options" where
  "parse_options_loop opts r = (case opts of
     [] \<Rightarrow> r
   | code # rest \<Rightarrow>
       if code = OPT_PAD then parse_options_loop rest r
       else if code = OPT_END then r
       else (case rest of
          [] \<Rightarrow> r
        | len # rest' \<Rightarrow>
            if length rest' < unat len then r
            else parse_options_loop (drop (unat len) rest') (take_option code (take (unat len) rest') r)))"
  by pat_completeness auto
termination
  by (relation "measure (\<lambda>(opts, r). length opts)") auto

declare parse_options_loop.simps [simp del]

definition parse_options :: "bytes \<Rightarrow> request_options" where
  "parse_options opts = parse_options_loop opts request_default"

definition push_option :: "bytes \<Rightarrow> u8 \<Rightarrow> bytes \<Rightarrow> bytes" where
  "push_option out code dat = out @ [code, of_nat (length dat)] @ dat"

text \<open>The kind of reply and the address it carries.\<close>

definition reply_kind :: "request_options \<Rightarrow> bytes \<Rightarrow> lease \<Rightarrow> (u8 \<times> bytes) option" where
  "reply_kind opts ciaddr l = (case message_type opts of
     None \<Rightarrow> None
   | Some t \<Rightarrow>
       if t = DISCOVER then Some (OFFER, l_client l)
       else if t = REQUEST
       then (if (case server_id opts of Some ident \<Rightarrow> ident \<noteq> l_server l | None \<Rightarrow> False) then None
             else let wanted = (case requested_ip opts of Some ip \<Rightarrow> Some ip
                                | None \<Rightarrow> if ciaddr \<noteq> [0, 0, 0, 0] then Some ciaddr else None)
                  in if (case wanted of Some ip \<Rightarrow> ip \<noteq> l_client l | None \<Rightarrow> False)
                     then Some (NAK, [0, 0, 0, 0]) else Some (ACK, l_client l))
       else if t = INFORM then Some (ACK, [0, 0, 0, 0])
       else None)"

definition reply_header :: "bytes \<Rightarrow> bytes \<Rightarrow> u8 \<Rightarrow> bytes \<Rightarrow> bytes" where
  "reply_header req ciaddr kind yiaddr =
     (let o1 = overwrite (replicate OPTIONS 0) 0 [BOOTREPLY, HTYPE_ETHERNET, HLEN_ETHERNET];
          o2 = overwrite o1 4 (byte_range req 4 4);
          o3 = overwrite o2 10 (byte_range req 10 2);
          o4 = (if kind = ACK then overwrite o3 12 ciaddr else o3);
          o5 = overwrite o4 16 yiaddr;
          o6 = overwrite o5 24 (byte_range req 24 4);
          o7 = overwrite o6 28 (byte_range req 28 16)
      in overwrite o7 236 MAGIC_COOKIE)"

definition push_reply_options :: "u8 \<Rightarrow> bool \<Rightarrow> lease \<Rightarrow> bytes \<Rightarrow> bytes" where
  "push_reply_options kind inform l out =
     (let o1 = push_option out OPT_MESSAGE_TYPE [kind];
          o2 = push_option o1 OPT_SERVER_ID (l_server l)
      in if kind = NAK then o2
         else let o3 = (if \<not> inform then push_option o2 OPT_LEASE_TIME (put_be32 (lease_secs l)) else o2);
                  o4 = push_option o3 OPT_SUBNET_MASK (l_netmask l);
                  o5 = push_option o4 OPT_ROUTER (l_server l)
              in if l_dns l \<noteq> [] then push_option o5 OPT_DNS (concat (take MAX_DNS (l_dns l))) else o5)"

definition dhcp_reply :: "bytes \<Rightarrow> lease \<Rightarrow> (destination \<times> bytes) option" where
  "dhcp_reply req l =
     (if length req < OPTIONS \<or> req ! 0 \<noteq> BOOTREQUEST \<or> req ! 1 \<noteq> HTYPE_ETHERNET \<or> req ! 2 \<noteq> HLEN_ETHERNET \<or>
         byte_range req 236 4 \<noteq> MAGIC_COOKIE then None
      else let opts = parse_options (drop OPTIONS req);
               ciaddr = byte_range req 12 4;
               chaddr = byte_range req 28 6
           in case reply_kind opts ciaddr l of
                None \<Rightarrow> None
              | Some (kind, yiaddr) \<Rightarrow>
                  (let out = push_reply_options kind (message_type opts = Some INFORM) l (reply_header req ciaddr kind yiaddr) @ [OPT_END];
                       out' = (if length out < MIN_REPLY then out @ replicate (MIN_REPLY - length out) OPT_PAD else out)
                   in Some (if ciaddr \<noteq> [0, 0, 0, 0] \<and> kind \<noteq> NAK then \<lparr>dest_ip = ciaddr, dest_mac = chaddr\<rparr>
                            else \<lparr>dest_ip = BROADCAST_IP, dest_mac = BROADCAST_MAC\<rparr>, out')))"

definition on_subnet :: "bytes \<Rightarrow> bytes \<Rightarrow> bytes \<Rightarrow> bool" where
  "on_subnet gateway netmask ip \<longleftrightarrow> (\<forall>i \<in> set [0..<4]. ip ! i AND netmask ! i = gateway ! i AND netmask ! i)"

definition dns_unusable :: "bytes \<Rightarrow> bytes \<Rightarrow> bytes \<Rightarrow> bool" where
  "dns_unusable gateway netmask ip \<longleftrightarrow> ip = [0, 0, 0, 0] \<or> ip = BROADCAST_IP \<or> ip ! 0 = 127 \<or>
     take 2 ip = [169, 254] \<or> on_subnet gateway netmask ip \<and> ip \<noteq> gateway"

fun usable_dns_loop :: "bytes \<Rightarrow> bytes \<Rightarrow> bytes list \<Rightarrow> bytes list \<Rightarrow> bytes list" where
  "usable_dns_loop gateway netmask [] out = out"
| "usable_dns_loop gateway netmask (h # hs) out =
     (let ip = (if h = [127, 0, 0, 1] then gateway else h)
      in usable_dns_loop gateway netmask hs
           (if \<not> dns_unusable gateway netmask ip \<and> ip \<notin> set out \<and> length out < MAX_DNS then out @ [ip] else out))"

definition usable_dns :: "bytes list \<Rightarrow> bytes \<Rightarrow> bytes \<Rightarrow> bytes list" where
  "usable_dns host gateway netmask = usable_dns_loop gateway netmask host []"

section \<open>Options as a client reads them\<close>

text \<open>The type-length-value reading of RFC 2132: pads are skipped, the end marker ends, a cut-off option ends.\<close>

function tlv_options :: "bytes \<Rightarrow> (u8 \<times> bytes) list" where
  "tlv_options [] = []"
| "tlv_options (c # r) =
     (if c = OPT_PAD then tlv_options r
      else if c = OPT_END \<or> r = [] \<or> length (tl r) < unat (hd r) then []
      else (c, take (unat (hd r)) (tl r)) # tlv_options (drop (unat (hd r)) (tl r)))"
  by pat_completeness auto
termination by (relation "measure length") auto

definition encode_options :: "(u8 \<times> bytes) list \<Rightarrow> bytes" where
  "encode_options os = concat (map (\<lambda>(c, d). [c, of_nat (length d)] @ d) os)"

definition option_ok :: "u8 \<times> bytes \<Rightarrow> bool" where
  "option_ok o' \<longleftrightarrow> fst o' \<noteq> OPT_PAD \<and> fst o' \<noteq> OPT_END \<and> length (snd o') < 256"

lemma tlv_encode:
  "\<forall>x \<in> set os. option_ok x \<Longrightarrow> tlv_options (encode_options os @ rest) = os @ tlv_options rest"
proof (induction os)
  case (Cons x os)
  then have "unat (of_nat (length (snd x)) :: u8) = length (snd x)" by (simp add: option_ok_def unat_of_nat take_bit_nat_eq_self)
  with Cons show ?case by (cases x) (simp add: encode_options_def option_ok_def)
qed (simp add: encode_options_def)

lemma parse_options_tlv: "parse_options_loop opts r = fold (\<lambda>(c, d). take_option c d) (tlv_options opts) r"
proof (induction opts r rule: parse_options_loop.induct)
  case (1 opts r)
  show ?case
  proof (cases opts)
    case (Cons c rest)
    then show ?thesis using 1 by (subst parse_options_loop.simps) (auto split: list.splits)
  qed (simp add: parse_options_loop.simps)
qed

section \<open>The reply as a client reads it\<close>

definition lease_ok :: "lease \<Rightarrow> bool" where
  "lease_ok l \<longleftrightarrow> length (l_server l) = 4 \<and> length (l_client l) = 4 \<and> length (l_netmask l) = 4 \<and> (\<forall>a \<in> set (l_dns l). length a = 4)"

definition reply_options :: "u8 \<Rightarrow> bool \<Rightarrow> lease \<Rightarrow> (u8 \<times> bytes) list" where
  "reply_options kind inform l = [(OPT_MESSAGE_TYPE, [kind]), (OPT_SERVER_ID, l_server l)] @
     (if kind = NAK then []
      else (if inform then [] else [(OPT_LEASE_TIME, put_be32 (lease_secs l))]) @
        [(OPT_SUBNET_MASK, l_netmask l), (OPT_ROUTER, l_server l)] @
        (if l_dns l = [] then [] else [(OPT_DNS, concat (take MAX_DNS (l_dns l)))]))"

lemma push_reply_options_eq: "push_reply_options kind inform l out = out @ encode_options (reply_options kind inform l)"
  by (simp add: push_reply_options_def push_option_def reply_options_def encode_options_def Let_def)

lemma length_dns: "\<forall>a \<in> set as. length a = 4 \<Longrightarrow> length (concat (take n as)) \<le> 4 * n"
proof (induction as arbitrary: n)
  case (Cons a as)
  then show ?case by (cases n) auto
qed simp

lemma reply_options_ok: "lease_ok l \<Longrightarrow> x \<in> set (reply_options kind inform l) \<Longrightarrow> option_ok x"
  using length_dns [of "l_dns l" 3]
  by (auto simp: reply_options_def option_ok_def lease_ok_def put_be32_def split: if_splits)

lemma header_fields:
  assumes "OPTIONS \<le> length req" and "length ciaddr = 4" and "length yiaddr = 4"
  shows "length (reply_header req ciaddr kind yiaddr) = OPTIONS"
    and "take 3 (reply_header req ciaddr kind yiaddr) = [BOOTREPLY, HTYPE_ETHERNET, HLEN_ETHERNET]"
    and "byte_range (reply_header req ciaddr kind yiaddr) 4 4 = byte_range req 4 4"
    and "byte_range (reply_header req ciaddr kind yiaddr) 10 2 = byte_range req 10 2"
    and "byte_range (reply_header req ciaddr kind yiaddr) 16 4 = yiaddr"
    and "byte_range (reply_header req ciaddr kind yiaddr) 24 4 = byte_range req 24 4"
    and "byte_range (reply_header req ciaddr kind yiaddr) 28 16 = byte_range req 28 16"
    and "byte_range (reply_header req ciaddr kind yiaddr) 236 4 = MAGIC_COOKIE"
proof -
  have t: "take 3 xs = byte_range xs 0 3" for xs :: bytes by (simp add: byte_range_def)
  have len: "length (byte_range req 4 4) = 4" "length (byte_range req 10 2) = 2" "length (byte_range req 24 4) = 4" "length (byte_range req 28 16) = 16"
      "length [BOOTREPLY, HTYPE_ETHERNET, HLEN_ETHERNET] = 3" "length MAGIC_COOKIE = 4"
    using assms(1) by simp_all
  have same: "length ys = n \<Longrightarrow> off + n \<le> length xs \<Longrightarrow> byte_range (overwrite xs off ys) off n = ys" for ys xs :: bytes and off n
    using byte_range_overwrite_same by blast
  have other: "length ys = k \<Longrightarrow> off + k \<le> length xs \<Longrightarrow> a + n \<le> off \<or> off + k \<le> a \<Longrightarrow> byte_range (overwrite xs off ys) a n = byte_range xs a n"
    for ys xs :: bytes and off n a k using byte_range_overwrite_disjoint by blast
  have size: "length ys = n \<Longrightarrow> off + n \<le> length xs \<Longrightarrow> length (overwrite xs off ys) = length xs" for ys xs :: bytes and off n
    using length_overwrite by blast
  define o1 o2 o3 o4 o5 o6 o7 where defs: "o1 = overwrite (replicate OPTIONS (0 :: u8)) 0 [BOOTREPLY, HTYPE_ETHERNET, HLEN_ETHERNET]"
    "o2 = overwrite o1 4 (byte_range req 4 4)" "o3 = overwrite o2 10 (byte_range req 10 2)"
    "o4 = (if kind = ACK then overwrite o3 12 ciaddr else o3)" "o5 = overwrite o4 16 yiaddr"
    "o6 = overwrite o5 24 (byte_range req 24 4)" "o7 = overwrite o6 28 (byte_range req 28 16)"
  have h: "reply_header req ciaddr kind yiaddr = overwrite o7 236 MAGIC_COOKIE" by (simp only: reply_header_def defs Let_def)
  have l1: "length o1 = OPTIONS" unfolding defs(1) by (simp add: size [OF len(5)])
  have l2: "length o2 = OPTIONS" unfolding defs(2) by (simp add: size [OF len(1)] l1)
  have l3: "length o3 = OPTIONS" unfolding defs(3) by (simp add: size [OF len(2)] l2)
  have l4: "length o4 = OPTIONS" unfolding defs(4) by (simp add: size [OF assms(2)] l3)
  have l5: "length o5 = OPTIONS" unfolding defs(5) by (simp add: size [OF assms(3)] l4)
  have l6: "length o6 = OPTIONS" unfolding defs(6) by (simp add: size [OF len(3)] l5)
  have l7: "length o7 = OPTIONS" unfolding defs(7) by (simp add: size [OF len(4)] l6)
  have r4: "a + n \<le> 12 \<or> 16 \<le> a \<Longrightarrow> byte_range o4 a n = byte_range o3 a n" for a n
    unfolding defs(4) by (simp add: other [OF assms(2)] l3)
  have r7: "a + n \<le> 236 \<Longrightarrow> byte_range (reply_header req ciaddr kind yiaddr) a n = byte_range o7 a n" for a n
    unfolding h by (intro other [OF len(6)]) (simp_all add: l7)
  have r6: "a + n \<le> 28 \<Longrightarrow> byte_range o7 a n = byte_range o6 a n" for a n
    unfolding defs(7) by (intro other [OF len(4)]) (simp_all add: l6)
  have r5: "a + n \<le> 24 \<Longrightarrow> byte_range o6 a n = byte_range o5 a n" for a n
    unfolding defs(6) by (intro other [OF len(3)]) (simp_all add: l5)
  have r3: "a + n \<le> 16 \<Longrightarrow> byte_range o5 a n = byte_range o4 a n" for a n
    unfolding defs(5) by (intro other [OF assms(3)]) (simp_all add: l4)
  have r2: "a + n \<le> 10 \<Longrightarrow> byte_range o3 a n = byte_range o2 a n" for a n
    unfolding defs(3) by (intro other [OF len(2)]) (simp_all add: l2)
  have r1: "a + n \<le> 4 \<Longrightarrow> byte_range o2 a n = byte_range o1 a n" for a n
    unfolding defs(2) by (intro other [OF len(1)]) (simp_all add: l1)
  note r = r1 r2 r3 r5 r6 r7
  show "length (reply_header req ciaddr kind yiaddr) = OPTIONS" unfolding h by (simp add: size [OF len(6)] l7)
  have "byte_range o1 0 3 = [BOOTREPLY, HTYPE_ETHERNET, HLEN_ETHERNET]" unfolding defs(1) by (rule same) simp_all
  then show "take 3 (reply_header req ciaddr kind yiaddr) = [BOOTREPLY, HTYPE_ETHERNET, HLEN_ETHERNET]" unfolding t by (simp add: r r4)
  have "byte_range o2 4 4 = byte_range req 4 4" unfolding defs(2) using len(1) by (intro same) (simp_all add: l1)
  then show "byte_range (reply_header req ciaddr kind yiaddr) 4 4 = byte_range req 4 4" by (simp add: r r4)
  have "byte_range o3 10 2 = byte_range req 10 2" unfolding defs(3) using len(2) by (intro same) (simp_all add: l2)
  then show "byte_range (reply_header req ciaddr kind yiaddr) 10 2 = byte_range req 10 2" by (simp add: r r4)
  have "byte_range o5 16 4 = yiaddr" unfolding defs(5) by (rule same) (simp_all add: assms(3) l4)
  then show "byte_range (reply_header req ciaddr kind yiaddr) 16 4 = yiaddr" by (simp add: r)
  have "byte_range o6 24 4 = byte_range req 24 4" unfolding defs(6) using len(3) by (intro same) (simp_all add: l5)
  then show "byte_range (reply_header req ciaddr kind yiaddr) 24 4 = byte_range req 24 4" by (simp add: r)
  have "byte_range o7 28 16 = byte_range req 28 16" unfolding defs(7) using len(4) by (intro same) (simp_all add: l6)
  then show "byte_range (reply_header req ciaddr kind yiaddr) 28 16 = byte_range req 28 16" by (simp add: r)
  show "byte_range (reply_header req ciaddr kind yiaddr) 236 4 = MAGIC_COOKIE" unfolding h by (rule same) (simp_all add: l7)
qed

text \<open>What a client reads in a message: who it is for, the address it carries and the options.\<close>

record dhcp_view =
  v_op :: u8
  v_xid :: bytes
  v_flags :: bytes
  v_yiaddr :: bytes
  v_giaddr :: bytes
  v_chaddr :: bytes
  v_options :: "(u8 \<times> bytes) list"

definition dhcp_decode :: "bytes \<Rightarrow> dhcp_view option" where
  "dhcp_decode msg = (if length msg < OPTIONS \<or> byte_range msg 236 4 \<noteq> MAGIC_COOKIE then None
     else Some \<lparr>v_op = msg ! 0, v_xid = byte_range msg 4 4, v_flags = byte_range msg 10 2, v_yiaddr = byte_range msg 16 4,
       v_giaddr = byte_range msg 24 4, v_chaddr = byte_range msg 28 16, v_options = tlv_options (drop OPTIONS msg)\<rparr>)"

definition request_ok :: "bytes \<Rightarrow> bool" where
  "request_ok req \<longleftrightarrow> OPTIONS \<le> length req \<and> take 3 req = [BOOTREQUEST, HTYPE_ETHERNET, HLEN_ETHERNET] \<and> byte_range req 236 4 = MAGIC_COOKIE"

lemma request_ok_iff: "request_ok req \<longleftrightarrow> \<not> (length req < OPTIONS \<or> req ! 0 \<noteq> BOOTREQUEST \<or> req ! 1 \<noteq> HTYPE_ETHERNET \<or> req ! 2 \<noteq> HLEN_ETHERNET \<or>
    byte_range req 236 4 \<noteq> MAGIC_COOKIE)"
proof -
  have "take 3 req = [req ! 0, req ! 1, req ! 2]" if "OPTIONS \<le> length req"
    using that by (intro nth_equalityI) (auto simp: nth_Cons' numeral_eq_Suc less_Suc_eq)
  then show ?thesis by (auto simp: request_ok_def)
qed

lemma reply_kind_yiaddr:
  "lease_ok l \<Longrightarrow> reply_kind opts ci l = Some (kind, yi) \<Longrightarrow> length yi = 4"
  by (auto simp: reply_kind_def lease_ok_def Let_def split: option.splits if_splits)

lemma dhcp_reply_view:
  assumes "lease_ok l"
  shows "dhcp_reply req l = None \<longleftrightarrow> \<not> request_ok req \<or> reply_kind (parse_options (drop OPTIONS req)) (byte_range req 12 4) l = None"
    and "request_ok req \<Longrightarrow> reply_kind (parse_options (drop OPTIONS req)) (byte_range req 12 4) l = Some (kind, yi) \<Longrightarrow>
      \<exists>out. dhcp_reply req l = Some (if byte_range req 12 4 \<noteq> [0, 0, 0, 0] \<and> kind \<noteq> NAK
          then \<lparr>dest_ip = byte_range req 12 4, dest_mac = byte_range req 28 6\<rparr> else \<lparr>dest_ip = BROADCAST_IP, dest_mac = BROADCAST_MAC\<rparr>, out) \<and>
        MIN_REPLY \<le> length out \<and>
        dhcp_decode out = Some \<lparr>v_op = BOOTREPLY, v_xid = byte_range req 4 4, v_flags = byte_range req 10 2, v_yiaddr = yi,
          v_giaddr = byte_range req 24 4, v_chaddr = byte_range req 28 16,
          v_options = reply_options kind (message_type (parse_options (drop OPTIONS req)) = Some INFORM) l\<rparr>"
proof -
  show "dhcp_reply req l = None \<longleftrightarrow> \<not> request_ok req \<or> reply_kind (parse_options (drop OPTIONS req)) (byte_range req 12 4) l = None"
    unfolding dhcp_reply_def request_ok_iff Let_def by (auto split: option.splits)
next
  let ?ci = "byte_range req 12 4"
  let ?opts = "reply_options kind (message_type (parse_options (drop OPTIONS req)) = Some INFORM) l"
  let ?h = "reply_header req ?ci kind yi"
  assume ok: "request_ok req" and k: "reply_kind (parse_options (drop OPTIONS req)) ?ci l = Some (kind, yi)"
  let ?o = "?h @ encode_options ?opts @ [OPT_END]"
  define out where "out = (if length ?o < MIN_REPLY then ?o @ replicate (MIN_REPLY - length ?o) OPT_PAD else ?o)"
  have len: "OPTIONS \<le> length req" "length ?ci = 4" using ok by (auto simp: request_ok_def)
  note f = header_fields [OF len reply_kind_yiaddr [OF assms k], of kind]
  obtain pad where out: "out = ?h @ encode_options ?opts @ OPT_END # pad" by (cases "length ?o < MIN_REPLY") (auto simp: out_def)
  have range: "byte_range out off n = byte_range ?h off n" if "off + n \<le> OPTIONS" for off n
    unfolding out using that f(1) by (intro byte_range_append_left) simp
  have "out ! 0 = take 3 ?h ! 0" unfolding out using f(1) by (simp add: nth_append)
  then have "out ! 0 = BOOTREPLY" unfolding f(2) by simp
  moreover have "tlv_options (drop OPTIONS out) = ?opts"
    using f(1) reply_options_ok [OF assms] tlv_encode [of ?opts "OPT_END # pad"] by (simp add: out)
  moreover have "\<not> length out < OPTIONS" unfolding out using f(1) by simp
  ultimately have "dhcp_decode out = Some \<lparr>v_op = BOOTREPLY, v_xid = byte_range req 4 4, v_flags = byte_range req 10 2, v_yiaddr = yi,
      v_giaddr = byte_range req 24 4, v_chaddr = byte_range req 28 16, v_options = ?opts\<rparr>"
    unfolding dhcp_decode_def using f(3-8) by (simp add: range)
  moreover have "dhcp_reply req l = Some (if ?ci \<noteq> [0, 0, 0, 0] \<and> kind \<noteq> NAK then \<lparr>dest_ip = ?ci, dest_mac = byte_range req 28 6\<rparr>
      else \<lparr>dest_ip = BROADCAST_IP, dest_mac = BROADCAST_MAC\<rparr>, out)"
    using ok k unfolding dhcp_reply_def request_ok_iff out_def Let_def by (simp add: push_reply_options_eq)
  moreover have "MIN_REPLY \<le> length out" by (simp add: out_def)
  ultimately show "\<exists>out. dhcp_reply req l = Some (if ?ci \<noteq> [0, 0, 0, 0] \<and> kind \<noteq> NAK
      then \<lparr>dest_ip = ?ci, dest_mac = byte_range req 28 6\<rparr> else \<lparr>dest_ip = BROADCAST_IP, dest_mac = BROADCAST_MAC\<rparr>, out) \<and>
    MIN_REPLY \<le> length out \<and>
    dhcp_decode out = Some \<lparr>v_op = BOOTREPLY, v_xid = byte_range req 4 4, v_flags = byte_range req 10 2, v_yiaddr = yi,
      v_giaddr = byte_range req 24 4, v_chaddr = byte_range req 28 16, v_options = ?opts\<rparr>"
    by blast
qed

section \<open>A client's exchange\<close>

text \<open>A message of a client without an address: fixed fields, magic cookie, options.\<close>

definition client_msg :: "bytes \<Rightarrow> bytes \<Rightarrow> bytes \<Rightarrow> (u8 \<times> bytes) list \<Rightarrow> bytes" where
  "client_msg xid flags chaddr os = [BOOTREQUEST, HTYPE_ETHERNET, HLEN_ETHERNET, 0] @ xid @ [0, 0] @ flags @ replicate 16 0 @ chaddr @
     replicate 192 0 @ MAGIC_COOKIE @ encode_options os @ [OPT_END]"

lemma client_msg_fields:
  assumes "length xid = 4" and "length flags = 2" and "length chaddr = 16"
  shows "request_ok (client_msg xid flags chaddr os)" and "byte_range (client_msg xid flags chaddr os) 12 4 = [0, 0, 0, 0]"
    and "byte_range (client_msg xid flags chaddr os) 4 4 = xid" and "byte_range (client_msg xid flags chaddr os) 28 16 = chaddr"
    and "drop OPTIONS (client_msg xid flags chaddr os) = encode_options os @ [OPT_END]"
proof -
  have four: "replicate 4 (0 :: u8) = [0, 0, 0, 0]" by code_simp
  show "request_ok (client_msg xid flags chaddr os)" "byte_range (client_msg xid flags chaddr os) 12 4 = [0, 0, 0, 0]"
      "byte_range (client_msg xid flags chaddr os) 4 4 = xid" "byte_range (client_msg xid flags chaddr os) 28 16 = chaddr"
      "drop OPTIONS (client_msg xid flags chaddr os) = encode_options os @ [OPT_END]"
    using assms by (simp_all add: client_msg_def request_ok_def byte_range_def four)
qed

text \<open>The requests a client makes, with further options the server does not look at.\<close>

definition other_option :: "u8 \<times> bytes \<Rightarrow> bool" where
  "other_option x \<longleftrightarrow> option_ok x \<and> fst x \<notin> {OPT_MESSAGE_TYPE, OPT_REQUESTED_IP, OPT_SERVER_ID}"

lemma take_others: "\<forall>x \<in> set os. other_option x \<Longrightarrow> fold (\<lambda>(c, d). take_option c d) os r = r"
  by (induction os arbitrary: r) (auto simp: other_option_def take_option_def)

lemma parse_client:
  assumes "length xid = 4" and "length flags = 2" and "length chaddr = 16" and "\<forall>x \<in> set os. option_ok x" and "\<forall>x \<in> set extra. other_option x"
  shows "parse_options (drop OPTIONS (client_msg xid flags chaddr (os @ extra))) = fold (\<lambda>(c, d). take_option c d) os request_default"
proof -
  have "\<forall>x \<in> set (os @ extra). option_ok x" using assms(4,5) by (auto simp: other_option_def)
  then have "tlv_options (encode_options (os @ extra) @ [OPT_END]) = os @ extra" by (simp add: tlv_encode)
  then show ?thesis
    by (simp add: parse_options_def client_msg_fields [OF assms(1-3)] parse_options_tlv take_others [OF assms(5)])
qed

text \<open>
  C32. A stock client is configured in one exchange: its DISCOVER is answered by an OFFER of the guest's
  address, and the REQUEST it then makes from what it read in that OFFER (the address and the server's
  identity) by an ACK; both are broadcast, carry its transaction id and hardware address and are at
  least 300 bytes, and the options, read back type by type, are lease time, mask, router and up to
  three name servers.
\<close>

theorem dhcp_handshake:
  assumes "lease_ok l" and "length xid = 4" and "length flags = 2" and "length chaddr = 16" and "\<forall>x \<in> set extra. other_option x"
  shows "\<exists>out view. dhcp_reply (client_msg xid flags chaddr ([(OPT_MESSAGE_TYPE, [DISCOVER])] @ extra)) l =
        Some (\<lparr>dest_ip = BROADCAST_IP, dest_mac = BROADCAST_MAC\<rparr>, out) \<and> dhcp_decode out = Some view \<and>
      v_op view = BOOTREPLY \<and> v_xid view = xid \<and> v_chaddr view = chaddr \<and> map_of (v_options view) OPT_MESSAGE_TYPE = Some [OFFER] \<and>
      (\<exists>out' view'. dhcp_reply (client_msg xid flags chaddr ([(OPT_MESSAGE_TYPE, [REQUEST]), (OPT_REQUESTED_IP, v_yiaddr view),
            (OPT_SERVER_ID, the (map_of (v_options view) OPT_SERVER_ID))] @ extra)) l =
          Some (\<lparr>dest_ip = BROADCAST_IP, dest_mac = BROADCAST_MAC\<rparr>, out') \<and> MIN_REPLY \<le> length out' \<and>
        dhcp_decode out' = Some view' \<and> v_op view' = BOOTREPLY \<and> v_xid view' = xid \<and> v_chaddr view' = chaddr \<and> v_yiaddr view' = l_client l \<and>
        v_options view' = [(OPT_MESSAGE_TYPE, [ACK]), (OPT_SERVER_ID, l_server l), (OPT_LEASE_TIME, put_be32 (lease_secs l)),
          (OPT_SUBNET_MASK, l_netmask l), (OPT_ROUTER, l_server l)] @ (if l_dns l = [] then [] else [(OPT_DNS, concat (take MAX_DNS (l_dns l)))]))"
proof -
  let ?m = "client_msg xid flags chaddr"
  let ?o1 = "[(OPT_MESSAGE_TYPE, [DISCOVER])]"
  let ?o2 = "[(OPT_MESSAGE_TYPE, [REQUEST]), (OPT_REQUESTED_IP, l_client l), (OPT_SERVER_ID, l_server l)]"
  note m = client_msg_fields [OF assms(2-4)]
  have ok: "\<forall>x \<in> set ?o1. option_ok x" "\<forall>x \<in> set ?o2. option_ok x" using assms(1) by (simp_all add: option_ok_def lease_ok_def)
  have p1: "parse_options (drop OPTIONS (?m (?o1 @ extra))) = \<lparr>message_type = Some DISCOVER, requested_ip = None, server_id = None\<rparr>"
    unfolding parse_client [OF assms(2-4) ok(1) assms(5)] by (simp add: take_option_def request_default_def)
  have p2: "parse_options (drop OPTIONS (?m (?o2 @ extra))) = \<lparr>message_type = Some REQUEST, requested_ip = Some (l_client l), server_id = Some (l_server l)\<rparr>"
    unfolding parse_client [OF assms(2-4) ok(2) assms(5)] using assms(1) by (simp add: take_option_def request_default_def lease_ok_def)
  have k1: "reply_kind (parse_options (drop OPTIONS (?m (?o1 @ extra)))) (byte_range (?m (?o1 @ extra)) 12 4) l = Some (OFFER, l_client l)"
    and k2: "reply_kind (parse_options (drop OPTIONS (?m (?o2 @ extra)))) (byte_range (?m (?o2 @ extra)) 12 4) l = Some (ACK, l_client l)"
    unfolding p1 p2 by (simp_all add: reply_kind_def)
  obtain out where out: "dhcp_reply (?m (?o1 @ extra)) l = Some (\<lparr>dest_ip = BROADCAST_IP, dest_mac = BROADCAST_MAC\<rparr>, out)"
      "dhcp_decode out = Some \<lparr>v_op = BOOTREPLY, v_xid = xid, v_flags = byte_range (?m (?o1 @ extra)) 10 2, v_yiaddr = l_client l,
         v_giaddr = byte_range (?m (?o1 @ extra)) 24 4, v_chaddr = chaddr, v_options = reply_options OFFER False l\<rparr>"
    using dhcp_reply_view(2) [OF assms(1) m(1) k1] m p1 by auto
  obtain out' where out': "dhcp_reply (?m (?o2 @ extra)) l = Some (\<lparr>dest_ip = BROADCAST_IP, dest_mac = BROADCAST_MAC\<rparr>, out')" "MIN_REPLY \<le> length out'"
      "dhcp_decode out' = Some \<lparr>v_op = BOOTREPLY, v_xid = xid, v_flags = byte_range (?m (?o2 @ extra)) 10 2, v_yiaddr = l_client l,
         v_giaddr = byte_range (?m (?o2 @ extra)) 24 4, v_chaddr = chaddr, v_options = reply_options ACK False l\<rparr>"
    using dhcp_reply_view(2) [OF assms(1) m(1) k2] m p2 by auto
  have "map_of (reply_options OFFER False l) OPT_MESSAGE_TYPE = Some [OFFER]" "map_of (reply_options OFFER False l) OPT_SERVER_ID = Some (l_server l)"
    by (simp_all add: reply_options_def)
  then show ?thesis using out out' by (auto simp: reply_options_def)
qed

text \<open>
  Whatever bytes a guest sends, an answer is harmless: it is at least 300 bytes and addressed to the
  sender's own claimed address and hardware address or broadcast; it echoes transaction id, flags,
  relay and hardware address; it hands out the lease's address or none, and names its server; a
  refusal carries no lease. A request for another server, or without a message type, gets no answer.
\<close>

lemma dhcp_answers_any_request:
  assumes "lease_ok l" and "dhcp_reply req l = Some (dst, out)"
  shows "request_ok req \<and> MIN_REPLY \<le> length out \<and>
    dst \<in> {\<lparr>dest_ip = byte_range req 12 4, dest_mac = byte_range req 28 6\<rparr>, \<lparr>dest_ip = BROADCAST_IP, dest_mac = BROADCAST_MAC\<rparr>} \<and>
    (\<exists>view kind. dhcp_decode out = Some view \<and> v_op view = BOOTREPLY \<and> v_xid view = byte_range req 4 4 \<and> v_flags view = byte_range req 10 2 \<and>
      v_giaddr view = byte_range req 24 4 \<and> v_chaddr view = byte_range req 28 16 \<and>
      map_of (v_options view) OPT_MESSAGE_TYPE = Some [kind] \<and> kind \<in> {OFFER, ACK, NAK} \<and>
      map_of (v_options view) OPT_SERVER_ID = Some (l_server l) \<and> v_yiaddr view \<in> {l_client l, [0, 0, 0, 0]} \<and>
      (kind = NAK \<longrightarrow> dest_ip dst = BROADCAST_IP \<and> v_yiaddr view = [0, 0, 0, 0] \<and> map_of (v_options view) OPT_LEASE_TIME = None) \<and>
      (map_of (v_options view) OPT_LEASE_TIME \<noteq> None \<longrightarrow> v_yiaddr view = l_client l)) \<and>
    (\<exists>t. message_type (parse_options (drop OPTIONS req)) = Some t \<and>
      (t = REQUEST \<longrightarrow> server_id (parse_options (drop OPTIONS req)) \<in> {None, Some (l_server l)}))"
proof -
  let ?o = "parse_options (drop OPTIONS req)"
  obtain kind yi where ok: "request_ok req" and k: "reply_kind ?o (byte_range req 12 4) l = Some (kind, yi)"
    using dhcp_reply_view(1) [OF assms(1), of req] assms(2) by auto
  note v = dhcp_reply_view(2) [OF assms(1) ok k]
  obtain t where t: "message_type ?o = Some t" using k by (auto simp: reply_kind_def split: option.splits)
  have kinds: "kind \<in> {OFFER, ACK, NAK}" "yi \<in> {l_client l, [0, 0, 0, 0]}" "kind = NAK \<longrightarrow> yi = [0, 0, 0, 0]"
      "t = REQUEST \<longrightarrow> server_id ?o \<in> {None, Some (l_server l)}" "t \<noteq> INFORM \<and> kind \<noteq> NAK \<longrightarrow> yi = l_client l"
    using k t by (auto simp: reply_kind_def Let_def split: option.splits if_splits)
  define opts where "opts = reply_options kind (t = INFORM) l"
  have opts: "map_of opts OPT_MESSAGE_TYPE = Some [kind]" "map_of opts OPT_SERVER_ID = Some (l_server l)"
      "map_of opts OPT_LEASE_TIME \<noteq> None \<longleftrightarrow> kind \<noteq> NAK \<and> t \<noteq> INFORM"
    unfolding opts_def reply_options_def by simp_all
  have d: "dst = (if byte_range req 12 4 \<noteq> [0, 0, 0, 0] \<and> kind \<noteq> NAK then \<lparr>dest_ip = byte_range req 12 4, dest_mac = byte_range req 28 6\<rparr>
      else \<lparr>dest_ip = BROADCAST_IP, dest_mac = BROADCAST_MAC\<rparr>)" "MIN_REPLY \<le> length out"
      "dhcp_decode out = Some \<lparr>v_op = BOOTREPLY, v_xid = byte_range req 4 4, v_flags = byte_range req 10 2, v_yiaddr = yi,
          v_giaddr = byte_range req 24 4, v_chaddr = byte_range req 28 16, v_options = opts\<rparr>"
    using v assms(2) t by (simp_all add: opts_def)
  have "dst \<in> {\<lparr>dest_ip = byte_range req 12 4, dest_mac = byte_range req 28 6\<rparr>, \<lparr>dest_ip = BROADCAST_IP, dest_mac = BROADCAST_MAC\<rparr>}"
      "kind = NAK \<longrightarrow> dest_ip dst = BROADCAST_IP"
    unfolding d(1) by simp_all
  moreover obtain view where view: "dhcp_decode out = Some view" "v_op view = BOOTREPLY" "v_xid view = byte_range req 4 4"
      "v_flags view = byte_range req 10 2" "v_giaddr view = byte_range req 24 4" "v_chaddr view = byte_range req 28 16"
      "v_yiaddr view = yi" "v_options view = opts"
  proof
    show "dhcp_decode out = Some \<lparr>v_op = BOOTREPLY, v_xid = byte_range req 4 4, v_flags = byte_range req 10 2, v_yiaddr = yi,
        v_giaddr = byte_range req 24 4, v_chaddr = byte_range req 28 16, v_options = opts\<rparr>" by (rule d(3))
  qed simp_all
  moreover have "kind = NAK \<longrightarrow> map_of opts OPT_LEASE_TIME = None" "map_of opts OPT_LEASE_TIME \<noteq> None \<longrightarrow> yi = l_client l"
    using opts(3) kinds(5) by blast+
  ultimately show ?thesis unfolding view(7,8) [symmetric]
    using ok d(2) kinds(1-4) [folded view(7)] opts(1,2) [folded view(8)] t by blast
qed

section \<open>Name servers\<close>

text \<open>The first occurrence of each element.\<close>

fun firsts :: "'a list \<Rightarrow> 'a list" where
  "firsts [] = []"
| "firsts (x # xs) = x # filter (\<lambda>y. y \<noteq> x) (firsts xs)"

lemma set_firsts [simp]: "set (firsts xs) = set xs"
  by (induction xs) auto

lemma distinct_firsts: "distinct (firsts xs)"
  by (induction xs) auto

lemma usable_dns_loop_spec:
  assumes "length out \<le> MAX_DNS"
  shows "usable_dns_loop g m hs out =
    take MAX_DNS (out @ filter (\<lambda>ip. ip \<notin> set out) (firsts (filter (\<lambda>ip. \<not> dns_unusable g m ip) (map (\<lambda>h. if h = [127, 0, 0, 1] then g else h) hs))))"
  using assms
proof (induction hs arbitrary: out)
  case (Cons h hs)
  define ip where "ip = (if h = [127, 0, 0, 1] then g else h)"
  define rest where "rest = firsts (filter (\<lambda>ip. \<not> dns_unusable g m ip) (map (\<lambda>h. if h = [127, 0, 0, 1] then g else h) hs))"
  have IH: "length out' \<le> MAX_DNS \<Longrightarrow> usable_dns_loop g m hs out' = take MAX_DNS (out' @ filter (\<lambda>ip. ip \<notin> set out') rest)" for out'
    unfolding rest_def by (rule Cons.IH)
  have step: "usable_dns_loop g m (h # hs) out = usable_dns_loop g m hs
      (if \<not> dns_unusable g m ip \<and> ip \<notin> set out \<and> length out < MAX_DNS then out @ [ip] else out)"
    by (simp only: usable_dns_loop.simps ip_def Let_def)
  have spec: "firsts (filter (\<lambda>ip. \<not> dns_unusable g m ip) (map (\<lambda>h. if h = [127, 0, 0, 1] then g else h) (h # hs))) =
      (if dns_unusable g m ip then rest else ip # filter (\<lambda>y. y \<noteq> ip) rest)"
    by (simp add: rest_def ip_def)
  show ?case
  proof (cases "\<not> dns_unusable g m ip \<and> ip \<notin> set out \<and> length out < MAX_DNS")
    case True
    have "filter (\<lambda>x. x \<notin> set (out @ [ip])) rest = filter (\<lambda>x. x \<notin> set out) (filter (\<lambda>y. y \<noteq> ip) rest)"
      by (simp add: conj_commute)
    then show ?thesis using True IH [of "out @ [ip]"] unfolding step spec by simp
  next
    case False
    have "filter (\<lambda>x. x \<notin> set out) (filter (\<lambda>y. y \<noteq> ip) rest) = filter (\<lambda>x. x \<notin> set out) rest" if "ip \<in> set out"
      using that by (auto intro!: filter_cong)
    then show ?thesis using False IH [OF Cons.prems] Cons.prems unfolding step spec
      by (cases "dns_unusable g m ip"; cases "ip \<in> set out") auto
  qed
qed (simp)

text \<open>
  The name servers offered are the first three different usable ones of the host, in the host's order, a
  local resolver standing for the gateway: none is unspecified, broadcast, loopback, link-local or
  on the guest's own subnet (the gateway apart), and the option that carries them fits.
\<close>

lemma usable_dns_first_three:
  "usable_dns host g m = take MAX_DNS (firsts (filter (\<lambda>ip. \<not> dns_unusable g m ip) (map (\<lambda>h. if h = [127, 0, 0, 1] then g else h) host))) \<and>
   distinct (usable_dns host g m) \<and> length (usable_dns host g m) \<le> MAX_DNS \<and>
   (\<forall>ip \<in> set (usable_dns host g m). \<not> dns_unusable g m ip \<and> (ip \<in> set host \<or> ip = g))"
proof -
  let ?r = "firsts (filter (\<lambda>ip. \<not> dns_unusable g m ip) (map (\<lambda>h. if h = [127, 0, 0, 1] then g else h) host))"
  have e: "usable_dns host g m = take MAX_DNS ?r" using usable_dns_loop_spec [of "[]" g m host] by (simp add: usable_dns_def)
  have "set (take MAX_DNS ?r) \<subseteq> set ?r" by (rule set_take_subset)
  then show ?thesis unfolding e using distinct_firsts [of "filter (\<lambda>ip. \<not> dns_unusable g m ip) (map (\<lambda>h. if h = [127, 0, 0, 1] then g else h) host)"]
    by (auto split: if_splits)
qed

section \<open>Concrete runs\<close>

definition demo_lease :: lease where
  "demo_lease = \<lparr>l_server = [10, 0, 0, 1], l_client = [10, 0, 0, 2], l_netmask = [255, 255, 255, 0],
     l_dns = [[8, 8, 8, 8], [1, 1, 1, 1]], lease_secs = 86400\<rparr>"

lemma demo_lease_ok: "lease_ok demo_lease"
  by (simp add: lease_ok_def demo_lease_def)

theorem dhcp_handshake_witness:
  "\<exists>out view. dhcp_reply (client_msg [0xDE, 0xAD, 0xBE, 0xEF] [0, 0] (replicate 16 7) [(OPT_MESSAGE_TYPE, [DISCOVER]), (12, [1, 2])]) demo_lease =
     Some (\<lparr>dest_ip = BROADCAST_IP, dest_mac = BROADCAST_MAC\<rparr>, out) \<and> dhcp_decode out = Some view \<and> v_xid view = [0xDE, 0xAD, 0xBE, 0xEF]"
proof -
  have "\<forall>x \<in> set [(12 :: u8, [1, 2 :: u8])]. other_option x" by (simp add: other_option_def option_ok_def)
  then have "\<exists>out view. dhcp_reply (client_msg [0xDE, 0xAD, 0xBE, 0xEF] [0, 0] (replicate 16 7) ([(OPT_MESSAGE_TYPE, [DISCOVER])] @ [(12, [1, 2])])) demo_lease =
      Some (\<lparr>dest_ip = BROADCAST_IP, dest_mac = BROADCAST_MAC\<rparr>, out) \<and> dhcp_decode out = Some view \<and> v_xid view = [0xDE, 0xAD, 0xBE, 0xEF]"
    using dhcp_handshake [OF demo_lease_ok, of "[0xDE, 0xAD, 0xBE, 0xEF]" "[0, 0]" "replicate 16 7"] by force
  then show ?thesis by simp
qed

end
