(* ===== verification/Virtio_Blk.thy ===== *)
theory Virtio_Blk
  imports Virtio_Transport Virtq_Chains "HOL-Library.Monad_Syntax"
begin

text \<open>
  The block device (\<^verbatim>\<open>src/virtio/blk.rs\<close>): requests taken off the ring are split into segments that the
  host's file works on concurrently, and the completion of the last segment retires the request. The
  host is a parameter: whether it refuses an operation, completes it at once or leaves it pending, and
  how much of a failed transfer it made. Pending operations complete later, in any order; each
  completion is one step, as the code's locks and reference count make it. Slots are indices into the
  pools, and a buffer is an offset into guest RAM or a bounce slot. The counts of operations and of
  requests, which stay below the \<open>2\<^sup>1\<^sup>6\<close> slots of a pool plus one, are natural numbers.
\<close>

section \<open>State\<close>

abbreviation BLK_F_SIZE_MAX :: u64 where "BLK_F_SIZE_MAX \<equiv> 0x2"
abbreviation BLK_F_SEG_MAX :: u64 where "BLK_F_SEG_MAX \<equiv> 0x4"
abbreviation BLK_F_RO :: u64 where "BLK_F_RO \<equiv> 0x20"
abbreviation BLK_F_BLK_SIZE :: u64 where "BLK_F_BLK_SIZE \<equiv> 0x40"
abbreviation BLK_F_FLUSH :: u64 where "BLK_F_FLUSH \<equiv> 0x200"
abbreviation BLK_F_DISCARD :: u64 where "BLK_F_DISCARD \<equiv> 0x2000"
abbreviation BLK_F_WRITE_ZEROES :: u64 where "BLK_F_WRITE_ZEROES \<equiv> 0x4000"
abbreviation BLK_T_IN :: u32 where "BLK_T_IN \<equiv> 0"
abbreviation BLK_T_OUT :: u32 where "BLK_T_OUT \<equiv> 1"
abbreviation BLK_T_FLUSH :: u32 where "BLK_T_FLUSH \<equiv> 4"
abbreviation BLK_T_DISCARD :: u32 where "BLK_T_DISCARD \<equiv> 11"
abbreviation BLK_T_WRITE_ZEROES :: u32 where "BLK_T_WRITE_ZEROES \<equiv> 13"
abbreviation BLK_S_OK :: u8 where "BLK_S_OK \<equiv> 0"
abbreviation BLK_S_IOERR :: u8 where "BLK_S_IOERR \<equiv> 1"
abbreviation BLK_S_UNSUPP :: u8 where "BLK_S_UNSUPP \<equiv> 2"
abbreviation SECTOR_SIZE :: u64 where "SECTOR_SIZE \<equiv> 512"
abbreviation ZERO_BYTES :: nat where "ZERO_BYTES \<equiv> 0x400000"
abbreviation BLK_MAX_DISCARD_SECTORS :: u64 where "BLK_MAX_DISCARD_SECTORS \<equiv> 0x400000"
abbreviation BLK_MAX_WRITE_ZEROES_SECTORS :: u64 where "BLK_MAX_WRITE_ZEROES_SECTORS \<equiv> 0x2000"
abbreviation BLK_MAX_RANGE_SEG :: nat where "BLK_MAX_RANGE_SEG \<equiv> 1"
abbreviation BOUNCE_CAP :: nat where "BOUNCE_CAP \<equiv> 0x400000"
abbreviation BOUNCE_SLOTS :: nat where "BOUNCE_SLOTS \<equiv> 8"

text \<open>A pool of reusable slots; the free list has its top first.\<close>

record 'a pool =
  slab :: "'a list"
  free_slots :: "nat list"

definition pool_new :: "nat \<Rightarrow> 'a \<Rightarrow> 'a pool" where
  "pool_new n x = (let n' = max 1 (min n 65535) in \<lparr>slab = replicate n' x, free_slots = [0..<n']\<rparr>)"

definition pool_acquire :: "'a pool \<Rightarrow> ('a pool \<times> nat) option" where
  "pool_acquire p = (case free_slots p of [] \<Rightarrow> None | i # is \<Rightarrow> Some (p\<lparr>free_slots := is\<rparr>, i))"

definition pool_release :: "nat \<Rightarrow> 'a pool \<Rightarrow> 'a pool" where
  "pool_release i p = p\<lparr>free_slots := i # free_slots p\<rparr>"

definition pool_put :: "nat \<Rightarrow> 'a \<Rightarrow> 'a pool \<Rightarrow> 'a pool" where
  "pool_put i x p = p\<lparr>slab := (slab p)[i := x]\<rparr>"

definition pool_inflight :: "'a pool \<Rightarrow> nat" where
  "pool_inflight p = length (slab p) - length (free_slots p)"

text \<open>What the \<^verbatim>\<open>buf\<close> of a host operation points to.\<close>

datatype io_buf = NullBuf | GuestBuf nat | BounceBuf nat | ZeroBuf

datatype io_op = OpRead | OpWrite | OpFlush

record seg_op =
  so_op :: io_op
  so_buf :: io_buf
  so_bytes :: u32
  so_off :: u64
  so_parent :: nat

record blk_req =
  rq_head :: u16
  rq_bounce :: "nat option"
  rq_type :: u32
  rq_epoch :: u32
  rq_status :: nat
  rq_out :: nat
  rq_done :: u32
  rq_failed :: bool

record bounce_slot =
  bn_buf :: bytes
  bn_segs :: "(nat \<times> u32) list"

text \<open>
  The device with the host's side of it: the file's contents, the operations it has accepted and not
  completed, how often it was called, and the interrupts raised so far.
\<close>

record blk_device =
  blk_mem :: guest_memory
  blk_queue :: virtqueue
  blk_cfg :: bytes
  blk_queue_max :: u32
  blk_readonly :: bool
  blk_features :: u64
  blk_reqs :: "blk_req pool"
  blk_segs :: "seg_op pool"
  blk_bounce :: "bounce_slot pool"
  ops_in :: u64
  ops_out :: u64
  ops_flush :: u64
  ops_discard :: u64
  ops_write_zeroes :: u64
  ops_err :: u64
  ops_done :: u64
  blk_active :: nat
  blk_epoch :: u32
  blk_stopped :: bool
  max_depth :: u64
  blk_disk :: bytes
  blk_inflight :: "nat list"
  blk_calls :: nat
  blk_raised :: "u32 list"

text \<open>
  The host: what the \<open>k\<close>-th call of \<^verbatim>\<open>submit\<close> or \<^verbatim>\<open>submit_sync\<close> does, what a discard leaves of the file when
  it succeeds, and whether the code runs on the doorbell pump. An operation done at once carries
  whether it succeeded and, if not, how many bytes moved.
\<close>

datatype submit_outcome = Refused | Pending | Inline bool nat

record blk_host =
  bh_submit :: "bool \<Rightarrow> nat \<Rightarrow> submit_outcome"
  bh_discard :: "nat \<Rightarrow> u64 \<Rightarrow> u64 \<Rightarrow> bytes \<Rightarrow> bytes option"
  bh_pump :: bool

definition put_le :: "nat \<Rightarrow> nat \<Rightarrow> u64 \<Rightarrow> bytes \<Rightarrow> bytes" where
  "put_le off n v bs = overwrite bs off (le_encode n v)"

definition blk_config :: "u64 \<Rightarrow> u32 \<Rightarrow> bytes" where
  "blk_config disk_size qmax =
     (put_le 52 4 (of_nat BLK_MAX_RANGE_SEG) \<circ> put_le 48 4 BLK_MAX_WRITE_ZEROES_SECTORS \<circ> put_le 44 4 1 \<circ>
      put_le 40 4 (of_nat BLK_MAX_RANGE_SEG) \<circ> put_le 36 4 BLK_MAX_DISCARD_SECTORS \<circ> put_le 20 4 SECTOR_SIZE \<circ>
      put_le 12 4 (if qmax < 2 then 0 else ucast (qmax - 2)) \<circ> put_le 8 4 0x40000000 \<circ> put_le 0 8 (disk_size div SECTOR_SIZE))
     (replicate 64 0)"

definition empty_req :: blk_req where
  "empty_req = \<lparr>rq_head = 0, rq_bounce = None, rq_type = 0, rq_epoch = 0, rq_status = 0, rq_out = 0, rq_done = 0, rq_failed = False\<rparr>"

definition empty_seg :: seg_op where
  "empty_seg = \<lparr>so_op = OpRead, so_buf = NullBuf, so_bytes = 0, so_off = 0, so_parent = 0\<rparr>"

definition blk_new :: "guest_memory \<Rightarrow> bytes \<Rightarrow> bool \<Rightarrow> u32 \<Rightarrow> blk_device" where
  "blk_new gm disk readonly qmax = \<lparr>blk_mem = gm, blk_queue = vq_new qmax, blk_cfg = blk_config (of_nat (length disk)) qmax,
     blk_queue_max = qmax, blk_readonly = readonly, blk_features = 0, blk_reqs = pool_new (unat qmax) empty_req,
     blk_segs = pool_new (unat qmax) empty_seg, blk_bounce = pool_new BOUNCE_SLOTS \<lparr>bn_buf = replicate BOUNCE_CAP 0, bn_segs = []\<rparr>,
     ops_in = 0, ops_out = 0, ops_flush = 0, ops_discard = 0, ops_write_zeroes = 0, ops_err = 0, ops_done = 0, blk_active = 0,
     blk_epoch = 0, blk_stopped = False, max_depth = 0, blk_disk = disk, blk_inflight = [], blk_calls = 0, blk_raised = []\<rparr>"

definition backend_size :: "blk_device \<Rightarrow> u64" where
  "backend_size d = of_nat (length (blk_disk d))"

section \<open>Finishing a request\<close>

definition poke :: "nat \<Rightarrow> u8 \<Rightarrow> blk_device \<Rightarrow> blk_device" where
  "poke p b d = d\<lparr>blk_mem := (blk_mem d)\<lparr>gm_ram := overwrite (gm_ram (blk_mem d)) p [b]\<rparr>\<rparr>"

definition push_used :: "u32 \<Rightarrow> u16 \<Rightarrow> u32 \<Rightarrow> blk_device \<Rightarrow> blk_device option" where
  "push_used epoch head used_len d =
     (if blk_epoch d = epoch
      then do { (q, gm) \<leftarrow> vq_push head used_len (blk_queue d, blk_mem d); Some (d\<lparr>blk_queue := q, blk_mem := gm\<rparr>) }
      else Some d)"

definition raise_irq_if_needed :: "u32 \<Rightarrow> blk_device \<Rightarrow> blk_device" where
  "raise_irq_if_needed epoch d =
     (if blk_epoch d = epoch
      then (case should_interrupt_driver (blk_queue d) (blk_mem d) of (q, fire) \<Rightarrow>
        d\<lparr>blk_queue := q, blk_raised := blk_raised d @ (if fire then [0] else [])\<rparr>)
      else d)"

definition settle :: "blk_device \<Rightarrow> blk_device" where
  "settle d = d\<lparr>blk_active := blk_active d - 1\<rparr>"

definition finish_inline :: "u32 \<Rightarrow> u16 \<Rightarrow> nat option \<Rightarrow> u8 \<Rightarrow> blk_device \<Rightarrow> blk_device option" where
  "finish_inline epoch head status_ptr st d =
     (let d1 = (case status_ptr of Some p \<Rightarrow> if blk_epoch d = epoch then poke p st d else d | None \<Rightarrow> d)
      in do { d2 \<leftarrow> push_used epoch head 1 d1; Some (settle (raise_irq_if_needed epoch d2)) })"

definition reject :: "u32 \<Rightarrow> u16 \<Rightarrow> nat \<Rightarrow> u8 \<Rightarrow> blk_device \<Rightarrow> blk_device option" where
  "reject epoch head status_ptr st d = finish_inline epoch head (Some status_ptr) st (d\<lparr>ops_err := ops_err d + 1\<rparr>)"

definition finish_request :: "nat \<Rightarrow> blk_device \<Rightarrow> blk_device option" where
  "finish_request i d =
     (let r = slab (blk_reqs d) ! i;
          d1 = (if blk_epoch d = rq_epoch r then poke (rq_status r) (if rq_failed r then BLK_S_IOERR else BLK_S_OK) d else d);
          used_len = (if rq_failed r then 1 else if rq_type r = BLK_T_IN then rq_done r + 1 else 1)
      in do {
        d2 \<leftarrow> push_used (rq_epoch r) (rq_head r) used_len d1;
        let d3 = d2\<lparr>ops_done := ops_done d2 + 1\<rparr>;
        let d4 = (case rq_bounce r of Some b \<Rightarrow> d3\<lparr>blk_bounce := pool_release b (blk_bounce d3)\<rparr> | None \<Rightarrow> d3);
        let d5 = d4\<lparr>blk_reqs := pool_release i (blk_reqs d4)\<rparr>;
        Some (settle (raise_irq_if_needed (rq_epoch r) d5)) })"

section \<open>Segments\<close>

definition upd_req :: "nat \<Rightarrow> (blk_req \<Rightarrow> blk_req) \<Rightarrow> blk_device \<Rightarrow> blk_device" where
  "upd_req i f d = d\<lparr>blk_reqs := pool_put i (f (slab (blk_reqs d) ! i)) (blk_reqs d)\<rparr>"

text \<open>What the host does: \<open>n\<close> bytes move between the file and the buffer of the operation.\<close>

definition io_source :: "io_buf \<Rightarrow> nat \<Rightarrow> blk_device \<Rightarrow> bytes" where
  "io_source b n d = (case b of
     GuestBuf p \<Rightarrow> byte_range (gm_ram (blk_mem d)) p n
   | BounceBuf i \<Rightarrow> take n (bn_buf (slab (blk_bounce d) ! i))
   | ZeroBuf \<Rightarrow> replicate n 0
   | NullBuf \<Rightarrow> [])"

definition io_sink :: "io_buf \<Rightarrow> bytes \<Rightarrow> blk_device \<Rightarrow> blk_device" where
  "io_sink b bs d = (case b of
     GuestBuf p \<Rightarrow> d\<lparr>blk_mem := (blk_mem d)\<lparr>gm_ram := overwrite (gm_ram (blk_mem d)) p bs\<rparr>\<rparr>
   | BounceBuf i \<Rightarrow> (let s = slab (blk_bounce d) ! i
                    in d\<lparr>blk_bounce := pool_put i (s\<lparr>bn_buf := overwrite (bn_buf s) 0 bs\<rparr>) (blk_bounce d)\<rparr>)
   | _ \<Rightarrow> d)"

definition host_transfer :: "seg_op \<Rightarrow> bool \<Rightarrow> nat \<Rightarrow> blk_device \<Rightarrow> blk_device" where
  "host_transfer s ok k d =
     (let n = (if ok then unat (so_bytes s) else min k (unat (so_bytes s)))
      in case so_op s of
           OpRead \<Rightarrow> io_sink (so_buf s) (byte_range (blk_disk d) (unat (so_off s)) n) d
         | OpWrite \<Rightarrow> d\<lparr>blk_disk := overwrite (blk_disk d) (unat (so_off s)) (io_source (so_buf s) n d)\<rparr>
         | OpFlush \<Rightarrow> d)"

fun scatter :: "(nat \<times> u32) list \<Rightarrow> bytes \<Rightarrow> nat \<Rightarrow> nat \<Rightarrow> bytes \<Rightarrow> bytes" where
  "scatter [] buf n off rm = rm"
| "scatter ((p, l) # ss) buf n off rm =
     (let m = min (unat l) (n - off)
      in if m = 0 then rm else scatter ss buf n (off + m) (overwrite rm p (byte_range buf off m)))"

definition saturating_add32 :: "u32 \<Rightarrow> u32 \<Rightarrow> u32" where
  "saturating_add32 a b = (if unat a + unat b < 2 ^ 32 then a + b else 0xFFFFFFFF)"

definition on_seg_complete :: "nat \<Rightarrow> bool \<Rightarrow> blk_device \<Rightarrow> blk_device option" where
  "on_seg_complete j ok d =
     (let s = slab (blk_segs d) ! j; i = so_parent s; r = slab (blk_reqs d) ! i;
          d1 = (if \<not> ok then upd_req i (rq_failed_update (\<lambda>_. True)) d
                else if so_op s = OpRead then
                  (let d0 = (case rq_bounce r of
                       Some b \<Rightarrow> if blk_epoch d = rq_epoch r
                         then let bs = slab (blk_bounce d) ! b
                              in d\<lparr>blk_mem := (blk_mem d)\<lparr>gm_ram := scatter (bn_segs bs) (bn_buf bs) (unat (so_bytes s)) 0 (gm_ram (blk_mem d))\<rparr>\<rparr>
                         else d
                     | None \<Rightarrow> d)
                   in upd_req i (rq_done_update (\<lambda>t. saturating_add32 t (so_bytes s))) d0)
                else d);
          d2 = d1\<lparr>blk_segs := pool_release j (blk_segs d1)\<rparr>;
          was = rq_out (slab (blk_reqs d2) ! i);
          d3 = upd_req i (rq_out_update (\<lambda>n. n - 1)) d2
      in if was = 1 then finish_request i d3 else Some d3)"

definition submit_seg :: "blk_host \<Rightarrow> nat \<Rightarrow> io_buf \<Rightarrow> u32 \<Rightarrow> u64 \<Rightarrow> io_op \<Rightarrow> bool \<Rightarrow> blk_device \<Rightarrow> blk_device option" where
  "submit_seg host i buf n file_offset op sync d = (case pool_acquire (blk_segs d) of
     None \<Rightarrow> Some (upd_req i (rq_failed_update (\<lambda>_. True)) d)
   | Some (sp, j) \<Rightarrow>
       let s = \<lparr>so_op = op, so_buf = buf, so_bytes = n, so_off = file_offset, so_parent = i\<rparr>;
           d1 = upd_req i (rq_out_update Suc) (d\<lparr>blk_segs := pool_put j s sp, blk_calls := Suc (blk_calls d)\<rparr>)
       in case bh_submit host sync (blk_calls d) of
            Pending \<Rightarrow> Some (d1\<lparr>blk_inflight := j # blk_inflight d1\<rparr>)
          | Inline ok k \<Rightarrow> on_seg_complete j ok (host_transfer s ok k d1)
          | Refused \<Rightarrow> (let d2 = upd_req i (rq_out_update (\<lambda>n. n - 1)) (upd_req i (rq_failed_update (\<lambda>_. True)) d1)
                       in Some (d2\<lparr>blk_segs := pool_release j (blk_segs d2)\<rparr>)))"

text \<open>A data segment of a request: guest memory, or the shared zeros.\<close>

type_synonym data_seg = "io_buf \<times> nat"

definition guest_seg :: "chain_buf \<Rightarrow> data_seg" where
  "guest_seg b = (GuestBuf (cb_ptr b), cb_len b)"

fun submit_each :: "blk_host \<Rightarrow> nat \<Rightarrow> data_seg list \<Rightarrow> u64 \<Rightarrow> io_op \<Rightarrow> bool \<Rightarrow> blk_device \<Rightarrow> blk_device option" where
  "submit_each host i [] file_off op sync d = Some d"
| "submit_each host i ((b, n) # ss) file_off op sync d =
     (if backend_size d < file_off \<or> backend_size d - file_off < of_nat n
      then Some (upd_req i (rq_failed_update (\<lambda>_. True)) d)
      else do { d1 \<leftarrow> submit_seg host i b (of_nat n) file_off op sync d; submit_each host i ss (file_off + of_nat n) op sync d1 })"

text \<open>The gather into a bounce buffer; the bytes of a read are left as they were.\<close>

fun gather :: "bytes \<Rightarrow> data_seg list \<Rightarrow> nat \<Rightarrow> bytes \<Rightarrow> bytes" where
  "gather rm [] off buf = buf"
| "gather rm ((GuestBuf p, n) # ss) off buf = gather rm ss (off + n) (overwrite buf off (byte_range rm p n))"
| "gather rm ((b, n) # ss) off buf = gather rm ss (off + n) (overwrite buf off (replicate n 0))"

fun seg_ptr :: "io_buf \<Rightarrow> nat" where
  "seg_ptr (GuestBuf p) = p"
| "seg_ptr _ = 0"

definition submit_bounced :: "blk_host \<Rightarrow> nat \<Rightarrow> nat \<Rightarrow> data_seg list \<Rightarrow> u64 \<Rightarrow> u64 \<Rightarrow> io_op \<Rightarrow> bool \<Rightarrow> blk_device \<Rightarrow> blk_device option" where
  "submit_bounced host i b dsegs total_len base op sync d =
     (let s = slab (blk_bounce d) ! b;
          buf = (if op = OpWrite then gather (gm_ram (blk_mem d)) dsegs 0 (bn_buf s) else bn_buf s);
          d1 = d\<lparr>blk_bounce := pool_put b \<lparr>bn_buf = buf, bn_segs = map (\<lambda>(p, n). (seg_ptr p, of_nat n)) dsegs\<rparr> (blk_bounce d)\<rparr>
      in submit_seg host i (BounceBuf b) (ucast total_len) base op sync d1)"

definition submit_request :: "blk_host \<Rightarrow> u32 \<Rightarrow> u16 \<Rightarrow> u32 \<Rightarrow> u64 \<Rightarrow> nat \<Rightarrow> data_seg list \<Rightarrow> bool \<Rightarrow> blk_device \<Rightarrow> blk_device option" where
  "submit_request host epoch head rtype base status_ptr dsegs sync d = (case pool_acquire (blk_reqs d) of
     None \<Rightarrow> reject epoch head status_ptr BLK_S_IOERR d
   | Some (rp, i) \<Rightarrow>
       let d1 = d\<lparr>blk_reqs := pool_put i \<lparr>rq_head = head, rq_bounce = None, rq_type = rtype, rq_epoch = epoch, rq_status = status_ptr,
             rq_out = 1, rq_done = 0, rq_failed = False\<rparr> rp\<rparr>;
           total_len = of_nat (sum_list (map snd dsegs));
           in_bounds = (base \<le> backend_size d1 \<and> total_len \<le> backend_size d1 - base);
           bounce = (if rtype \<noteq> BLK_T_FLUSH \<and> in_bounds \<and> 1 < length dsegs \<and> total_len \<le> of_nat BOUNCE_CAP
                     then pool_acquire (blk_bounce d1) else None);
           op = (if rtype = BLK_T_IN then OpRead else OpWrite)
       in do {
         d3 \<leftarrow> (if rtype = BLK_T_FLUSH then submit_seg host i NullBuf 0 0 OpFlush False d1
                else case bounce of
                  Some (bp, b) \<Rightarrow> submit_bounced host i b dsegs total_len base op sync
                    (upd_req i (rq_bounce_update (\<lambda>_. Some b)) (d1\<lparr>blk_bounce := bp\<rparr>))
                | None \<Rightarrow> submit_each host i dsegs base op sync d1);
         let was = rq_out (slab (blk_reqs d3) ! i);
         let d4 = upd_req i (rq_out_update (\<lambda>n. n - 1)) d3;
         if was = 1 then finish_request i d4 else Some d4 })"

section \<open>Taking requests\<close>

fun gather_ranges :: "guest_memory \<Rightarrow> chain_buf list \<Rightarrow> nat \<Rightarrow> bytes \<Rightarrow> bytes" where
  "gather_ranges gm [] filled buf = buf"
| "gather_ranges gm (b # bs) filled buf =
     (let r = cb_read_at gm b 0 (length buf - filled) in gather_ranges gm bs (filled + length r) (overwrite buf filled r))"

text \<open>
  One range of a DISCARD or WRITE_ZEROES request: whether the loop goes on as successful, the range
  to write zeros to, and the device after the discard.
\<close>

definition range_step :: "blk_host \<Rightarrow> bool \<Rightarrow> bytes \<Rightarrow> nat \<Rightarrow> (u64 \<times> u64) option \<Rightarrow> blk_device \<Rightarrow> bool \<times> (u64 \<times> u64) option \<times> blk_device" where
  "range_step host is_wz buf k wz d =
     (let base = k * 16;
          r_sector = from_le64 (byte_range buf base 8);
          num_sectors = from_le32 (byte_range buf (base + 8) 4);
          flags = from_le32 (byte_range buf (base + 12) 4);
          cap = (if is_wz then BLK_MAX_WRITE_ZEROES_SECTORS else BLK_MAX_DISCARD_SECTORS);
          byte_off = r_sector * SECTOR_SIZE;
          byte_len = ucast num_sectors * SECTOR_SIZE
      in if num_sectors = 0 then (True, wz, d)
         else if cap < ucast num_sectors then (False, wz, d)
         else if 0xFFFFFFFFFFFFFFFF div SECTOR_SIZE < r_sector then (False, wz, d)
         else if backend_size d < byte_off \<or> backend_size d - byte_off < byte_len then (False, wz, d)
         else if \<not> is_wz \<and> flags \<noteq> 0 then (False, wz, d)
         else if is_wz then (True, Some (byte_off, byte_len), d)
         else (case bh_discard host (blk_calls d) byte_off byte_len (blk_disk d) of
                 None \<Rightarrow> (False, wz, d\<lparr>blk_calls := Suc (blk_calls d)\<rparr>)
               | Some disk \<Rightarrow> (True, wz, d\<lparr>blk_calls := Suc (blk_calls d), blk_disk := disk\<rparr>)))"

fun range_loop :: "blk_host \<Rightarrow> bool \<Rightarrow> bytes \<Rightarrow> nat list \<Rightarrow> (u64 \<times> u64) option \<Rightarrow> blk_device \<Rightarrow> bool \<times> (u64 \<times> u64) option \<times> blk_device" where
  "range_loop host is_wz buf [] wz d = (True, wz, d)"
| "range_loop host is_wz buf (k # ks) wz d = (case range_step host is_wz buf k wz d of
     (False, wz', d') \<Rightarrow> (False, wz', d')
   | (True, wz', d') \<Rightarrow> range_loop host is_wz buf ks wz' d')"

definition serve_ranges :: "blk_host \<Rightarrow> u32 \<Rightarrow> u16 \<Rightarrow> u32 \<Rightarrow> nat \<Rightarrow> chain_buf list \<Rightarrow> bool \<Rightarrow> blk_device \<Rightarrow> blk_device option" where
  "serve_ranges host epoch head rtype status_ptr dbufs lone d =
     (let is_wz = (rtype = BLK_T_WRITE_ZEROES); total_len = sum_list (map cb_len dbufs)
      in if total_len = 0 \<or> total_len mod 16 \<noteq> 0 \<or> (\<exists>b \<in> set dbufs. cb_write b) then reject epoch head status_ptr BLK_S_UNSUPP d
         else if blk_readonly d then reject epoch head status_ptr BLK_S_IOERR d
         else if BLK_MAX_RANGE_SEG < total_len div 16 then reject epoch head status_ptr BLK_S_UNSUPP d
         else (case range_loop host is_wz (gather_ranges (blk_mem d) dbufs 0 (replicate (16 * BLK_MAX_RANGE_SEG) 0)) [0..<total_len div 16] None d of
                 (True, Some (byte_off, byte_len), d1) \<Rightarrow>
                   submit_request host epoch head rtype byte_off status_ptr [(ZeroBuf, unat byte_len)] lone
                     (d1\<lparr>ops_write_zeroes := ops_write_zeroes d1 + 1\<rparr>)
               | (True, None, d1) \<Rightarrow> finish_inline epoch head (Some status_ptr) BLK_S_OK
                   (if is_wz then d1\<lparr>ops_write_zeroes := ops_write_zeroes d1 + 1\<rparr> else d1\<lparr>ops_discard := ops_discard d1 + 1\<rparr>)
               | (False, _, d1) \<Rightarrow> finish_inline epoch head (Some status_ptr) BLK_S_IOERR (d1\<lparr>ops_err := ops_err d1 + 1\<rparr>)))"

definition serve_io :: "blk_host \<Rightarrow> u32 \<Rightarrow> u16 \<Rightarrow> u32 \<Rightarrow> u64 \<Rightarrow> nat \<Rightarrow> chain_buf list \<Rightarrow> bool \<Rightarrow> blk_device \<Rightarrow> blk_device option" where
  "serve_io host epoch head rtype off status_ptr dbufs lone d =
     (if rtype = BLK_T_FLUSH then submit_request host epoch head rtype off status_ptr [] False (d\<lparr>ops_flush := ops_flush d + 1\<rparr>)
      else if rtype \<noteq> BLK_T_IN \<and> rtype \<noteq> BLK_T_OUT then reject epoch head status_ptr BLK_S_UNSUPP d
      else if \<exists>b \<in> set dbufs. cb_write b \<noteq> (rtype = BLK_T_IN) then reject epoch head status_ptr BLK_S_UNSUPP d
      else if rtype = BLK_T_OUT \<and> blk_readonly d then reject epoch head status_ptr BLK_S_IOERR d
      else if dbufs = [] then finish_inline epoch head (Some status_ptr) BLK_S_OK d
      else submit_request host epoch head rtype off status_ptr (map guest_seg dbufs) lone
             (if rtype = BLK_T_IN then d\<lparr>ops_in := ops_in d + 1\<rparr> else d\<lparr>ops_out := ops_out d + 1\<rparr>))"

definition serve_chain :: "blk_host \<Rightarrow> u32 \<Rightarrow> popped_chain \<Rightarrow> bool \<Rightarrow> blk_device \<Rightarrow> blk_device option" where
  "serve_chain host epoch ch lone d =
     (let bs = bufs ch; head = head_index ch
      in if length bs < 2 then Some (settle (d\<lparr>ops_err := ops_err d + 1\<rparr>))
         else let hdr_ok = (\<not> cb_write (hd bs) \<and> 16 \<le> cb_len (hd bs));
                  status_ptr = cb_ptr (last bs);
                  sta_ok = (cb_write (last bs) \<and> 1 \<le> cb_len (last bs))
              in if \<not> hdr_ok \<or> \<not> sta_ok
                 then finish_inline epoch head (if sta_ok then Some status_ptr else None) BLK_S_UNSUPP (d\<lparr>ops_err := ops_err d + 1\<rparr>)
                 else let h = cb_read_at (blk_mem d) (hd bs) 0 16;
                          rtype = from_le32 (byte_range h 0 4);
                          sector = from_le64 (byte_range h 8 8);
                          dbufs = butlast (tl bs);
                          sector_ok = (sector \<le> 0xFFFFFFFFFFFFFFFF div SECTOR_SIZE)
                      in if \<not> sector_ok \<and> rtype \<noteq> BLK_T_FLUSH then reject epoch head status_ptr BLK_S_IOERR d
                         else if rtype = BLK_T_DISCARD \<or> rtype = BLK_T_WRITE_ZEROES
                         then serve_ranges host epoch head rtype status_ptr dbufs lone d
                         else serve_io host epoch head rtype (if sector_ok then sector * SECTOR_SIZE else 0) status_ptr dbufs lone d)"

text \<open>One turn of the loop; \<open>False\<close> says that there was no chain.\<close>

definition blk_step :: "blk_host \<Rightarrow> blk_device \<Rightarrow> (blk_device \<times> bool) option" where
  "blk_step host d = do {
     (q, gm, ch, r) \<leftarrow> pop_into (blk_queue d) (blk_mem d) \<lparr>head_index = 0, bufs = []\<rparr>;
     let d1 = d\<lparr>blk_queue := q, blk_mem := gm\<rparr>;
     if \<not> r then Some (d1, False)
     else do {
       let d2 = d1\<lparr>blk_active := Suc (blk_active d1)\<rparr>;
       let depth = (of_nat (blk_active d2) + ucast (avail_pending q gm) :: u64);
       let d3 = d2\<lparr>max_depth := max (max_depth d2) depth\<rparr>;
       d4 \<leftarrow> serve_chain host (blk_epoch d3) ch (bh_pump host \<and> depth = 1) d3;
       Some (d4, True) } }"

text \<open>The loop, cut off after \<open>fuel\<close> chains: a guest that keeps refilling the ring keeps it going.\<close>

fun drain_ring :: "blk_host \<Rightarrow> nat \<Rightarrow> blk_device \<Rightarrow> blk_device option" where
  "drain_ring host 0 d = Some d"
| "drain_ring host (Suc fuel) d = do { (d', go) \<leftarrow> blk_step host d; if go then drain_ring host fuel d' else Some d' }"

definition blk_drain :: "blk_host \<Rightarrow> nat \<Rightarrow> blk_device \<Rightarrow> blk_device option" where
  "blk_drain host fuel d = (if blk_stopped d then Some d else drain_ring host fuel d)"

text \<open>\<^verbatim>\<open>quiesce\<close> up to its wait for \<open>blk_active\<close> to reach 0.\<close>

definition blk_quiesce :: "blk_host \<Rightarrow> nat \<Rightarrow> blk_device \<Rightarrow> blk_device option" where
  "blk_quiesce host fuel d =
     (if blk_stopped d then Some d else do { d' \<leftarrow> drain_ring host fuel d; Some (d'\<lparr>blk_stopped := True\<rparr>) })"

text \<open>The host completes a pending operation, given by its place among them.\<close>

definition blk_complete :: "nat \<Rightarrow> bool \<Rightarrow> nat \<Rightarrow> blk_device \<Rightarrow> blk_device option" where
  "blk_complete n ok k d =
     (if length (blk_inflight d) \<le> n then Some d
      else let j = blk_inflight d ! n;
               d1 = d\<lparr>blk_inflight := take n (blk_inflight d) @ drop (Suc n) (blk_inflight d)\<rparr>
           in on_seg_complete j ok (host_transfer (slab (blk_segs d) ! j) ok k d1))"

section \<open>The device interface\<close>

definition blk_features_offered :: "blk_device \<Rightarrow> u64" where
  "blk_features_offered d = FEATURE_VERSION_1 OR FEATURE_RING_EVENT_IDX OR BLK_F_BLK_SIZE OR BLK_F_FLUSH OR BLK_F_SEG_MAX OR BLK_F_SIZE_MAX OR
     (if blk_readonly d then BLK_F_RO else BLK_F_DISCARD OR BLK_F_WRITE_ZEROES)"

definition blk_set_driver_features :: "u64 \<Rightarrow> blk_device \<Rightarrow> blk_device \<times> bool" where
  "blk_set_driver_features acked d =
     (if acked AND NOT (blk_features_offered d) \<noteq> 0 then (d, False) else (d\<lparr>blk_features := acked\<rparr>, True))"

definition blk_enable_queue :: "u32 \<Rightarrow> u64 \<Rightarrow> u64 \<Rightarrow> u64 \<Rightarrow> u16 \<Rightarrow> bool \<Rightarrow> blk_device \<Rightarrow> blk_device" where
  "blk_enable_queue idx da aa ua n ev d =
     (if idx \<noteq> 0 then d
      else d\<lparr>blk_queue := set_ready True (set_event_idx_enabled ev (set_size (ucast n)
             (set_used_gpa ua (set_avail_gpa aa (set_desc_gpa da (blk_queue d))))))\<rparr>)"

definition blk_disable_queue :: "u32 \<Rightarrow> blk_device \<Rightarrow> blk_device" where
  "blk_disable_queue idx d = (if idx = 0 then d\<lparr>blk_queue := set_ready False (blk_queue d)\<rparr> else d)"

definition blk_notify_queue :: "blk_host \<Rightarrow> nat \<Rightarrow> u32 \<Rightarrow> blk_device \<Rightarrow> (blk_device \<times> u32 list) option" where
  "blk_notify_queue host fuel idx d =
     (if idx = 0 then do { d' \<leftarrow> blk_drain host fuel d; Some (d', drop (length (blk_raised d)) (blk_raised d')) } else Some (d, []))"

definition blk_queue_has_work :: "u32 \<Rightarrow> blk_device \<Rightarrow> bool option" where
  "blk_queue_has_work idx d = (if idx \<noteq> 0 then None else if blk_stopped d then Some False else Some (has_avail (blk_queue d) (blk_mem d)))"

definition blk_reset :: "blk_device \<Rightarrow> blk_device" where
  "blk_reset d = d\<lparr>blk_epoch := blk_epoch d + 1, blk_queue := vq_reset (blk_queue d), blk_features := 0\<rparr>"

definition blk_read_config :: "u32 \<Rightarrow> u32 \<Rightarrow> blk_device \<Rightarrow> u32" where
  "blk_read_config off n d =
     (if n = 0 \<or> length (blk_cfg d) \<le> unat off \<or> length (blk_cfg d) - unat off < unat n then 0
      else let m = min (unat n) 4 in from_le32 (byte_range (blk_cfg d) (unat off) m @ replicate (4 - m) 0))"

definition blk_capture_queue :: "u32 \<Rightarrow> blk_device \<Rightarrow> queue_state option" where
  "blk_capture_queue idx d = (if idx = 0 then Some (vq_capture (blk_queue d)) else None)"

definition blk_apply_queue :: "u32 \<Rightarrow> queue_state \<Rightarrow> blk_device \<Rightarrow> blk_device" where
  "blk_apply_queue idx s d = (if idx = 0 then d\<lparr>blk_queue := vq_apply (blk_queue d) s\<rparr> else d)"

definition blk_apply_device_state :: "bytes \<Rightarrow> blk_device \<Rightarrow> blk_device" where
  "blk_apply_device_state bs d = (if 8 \<le> length bs then d\<lparr>blk_features := from_le64 (byte_range bs 0 8)\<rparr> else d)"

definition blk_dev :: "nat \<Rightarrow> blk_host \<Rightarrow> blk_device virtio_device" where
  "blk_dev fuel host = \<lparr>device_id = \<lambda>d. 2, device_features = blk_features_offered, set_driver_features = blk_set_driver_features,
     queue_count = \<lambda>d. 1, queue_max = \<lambda>idx d. if idx = 0 then blk_queue_max d else 0, enable_queue = blk_enable_queue,
     disable_queue = blk_disable_queue, notify_queue = blk_notify_queue host fuel, driver_ok = \<lambda>d. d, device_reset = blk_reset,
     reset_pending = \<lambda>d. blk_active d \<noteq> 0, read_config = blk_read_config, write_config = \<lambda>off n v d. d,
     capture_queue = blk_capture_queue, apply_queue = blk_apply_queue,
     capture_device_state = \<lambda>d. le64 (blk_features d), apply_device_state = blk_apply_device_state\<rparr>"

end
