(* ===== verification/Blk_Invariant.thy ===== *)
theory Blk_Invariant
  imports Virtio_Blk
begin

text \<open>
  What keeps the block device (\<^verbatim>\<open>Virtio_Blk\<close>) safe: the slots that are out and the requests they belong to, the
  ranges of the operations the host holds, and the count of requests in flight; every operation keeps it.
\<close>

section \<open>Pools\<close>

definition pool_ok :: "'a pool \<Rightarrow> bool" where
  "pool_ok p \<longleftrightarrow> distinct (free_slots p) \<and> (\<forall>i \<in> set (free_slots p). i < length (slab p))"

definition taken :: "'a pool \<Rightarrow> nat set" where
  "taken p = {i. i < length (slab p) \<and> i \<notin> set (free_slots p)}"

lemma pool_new_ok [simp]: "pool_ok (pool_new n x)" "taken (pool_new n x) = {}" "pool_inflight (pool_new n x) = 0"
  by (auto simp: pool_ok_def pool_new_def taken_def pool_inflight_def Let_def)

lemma pool_put_simps [simp]:
  "pool_ok (pool_put i x p) = pool_ok p" "taken (pool_put i x p) = taken p" "pool_inflight (pool_put i x p) = pool_inflight p"
  "slab (pool_put i x p) = (slab p)[i := x]" "free_slots (pool_put i x p) = free_slots p" "slab (pool_release i p) = slab p"
  by (simp_all add: pool_put_def pool_ok_def taken_def pool_inflight_def pool_release_def)

lemma pool_put_same [simp]: "pool_put i (slab p ! i) p = p"
  by (simp add: pool_put_def)

lemma pool_put_put [simp]: "pool_put i y (pool_put i x p) = pool_put i y p"
  by (simp add: pool_put_def)

lemma pool_put_release: "pool_release j (pool_put i x p) = pool_put i x (pool_release j p)"
  by (simp add: pool_put_def pool_release_def)

lemma pool_acquired:
  assumes "pool_acquire p = Some (p', i)" and "pool_ok p"
  shows "pool_ok p'" and "i \<notin> taken p" and "taken p' = insert i (taken p)" and "slab p' = slab p" and "i < length (slab p)"
    and "pool_inflight p' = Suc (pool_inflight p)" and "pool_release i p' = p"
proof -
  obtain fs where f: "free_slots p = i # fs" "p' = p\<lparr>free_slots := fs\<rparr>"
    using assms(1) by (auto simp: pool_acquire_def split: list.splits)
  then show "pool_ok p'" "i \<notin> taken p" "taken p' = insert i (taken p)" "slab p' = slab p" "i < length (slab p)" "pool_release i p' = p"
    using assms(2) by (auto simp: pool_ok_def taken_def pool_release_def)
  have "length (i # fs) \<le> length (slab p)"
    using assms(2) f card_mono [of "{..<length (slab p)}" "set (i # fs)"] distinct_card [of "i # fs"] by (auto simp: pool_ok_def)
  then show "pool_inflight p' = Suc (pool_inflight p)" using f by (simp add: pool_inflight_def)
qed

lemma pool_released:
  assumes "pool_ok p" and "i \<in> taken p"
  shows "pool_ok (pool_release i p)" and "taken (pool_release i p) = taken p - {i}"
    and "Suc (pool_inflight (pool_release i p)) = pool_inflight p"
proof -
  show "pool_ok (pool_release i p)" "taken (pool_release i p) = taken p - {i}"
    using assms by (auto simp: pool_ok_def taken_def pool_release_def)
  have "card (set (i # free_slots p)) \<le> card {..<length (slab p)}"
    using assms by (intro card_mono) (auto simp: pool_ok_def taken_def)
  moreover have "card (set (i # free_slots p)) = Suc (length (free_slots p))"
    using assms by (subst distinct_card) (auto simp: pool_ok_def taken_def)
  ultimately show "Suc (pool_inflight (pool_release i p)) = pool_inflight p"
    by (simp add: pool_inflight_def pool_release_def)
qed

section \<open>The invariant\<close>

text \<open>
  A segment that is out: its request is live, its buffer inside guest RAM, the request's bounce slot or
  the zeros, and its range inside the file, which it only writes when the file is writable.
\<close>

definition seg_fine :: "blk_device \<Rightarrow> seg_op \<Rightarrow> bool" where
  "seg_fine d s \<longleftrightarrow> so_parent s \<in> taken (blk_reqs d) \<and>
     (case so_buf s of
        GuestBuf p \<Rightarrow> p + unat (so_bytes s) \<le> unat (gm_size (blk_mem d))
      | BounceBuf b \<Rightarrow> rq_bounce (slab (blk_reqs d) ! so_parent s) = Some b \<and> unat (so_bytes s) \<le> BOUNCE_CAP
      | ZeroBuf \<Rightarrow> so_op s = OpWrite \<and> unat (so_bytes s) \<le> ZERO_BYTES
      | NullBuf \<Rightarrow> so_op s = OpFlush) \<and>
     (so_op s \<noteq> OpFlush \<longrightarrow> unat (so_off s) + unat (so_bytes s) \<le> length (blk_disk d)) \<and>
     (so_op s = OpWrite \<longrightarrow> \<not> blk_readonly d)"

definition bounce_fine :: "blk_device \<Rightarrow> bounce_slot \<Rightarrow> bool" where
  "bounce_fine d s \<longleftrightarrow> length (bn_buf s) = BOUNCE_CAP \<and> (\<forall>(p, l) \<in> set (bn_segs s). p + unat l \<le> unat (gm_size (blk_mem d)))"

definition pending_of :: "nat \<Rightarrow> blk_device \<Rightarrow> nat" where
  "pending_of i d = length (filter (\<lambda>j. so_parent (slab (blk_segs d) ! j) = i) (blk_inflight d))"

text \<open>
  \<open>cr\<close> counts what holds a request beside its pending segments (the submission guard), \<open>ex\<close> the requests
  taken off the ring without a slot, and \<open>Z\<close> the requests about to be finished.
\<close>

definition blk_inv :: "(nat \<Rightarrow> nat) \<Rightarrow> nat set \<Rightarrow> nat \<Rightarrow> blk_device \<Rightarrow> bool" where
  "blk_inv cr Z ex d \<longleftrightarrow>
     wf_mem (blk_mem d) \<and> vq_ok (blk_queue d) \<and> length (blk_disk d) < 2 ^ 63 \<and>
     pool_ok (blk_reqs d) \<and> pool_ok (blk_segs d) \<and> pool_ok (blk_bounce d) \<and>
     distinct (blk_inflight d) \<and> set (blk_inflight d) = taken (blk_segs d) \<and>
     (\<forall>j \<in> taken (blk_segs d). seg_fine d (slab (blk_segs d) ! j)) \<and>
     (\<forall>i \<in> taken (blk_reqs d). rq_out (slab (blk_reqs d) ! i) = pending_of i d + cr i \<and> (i \<notin> Z \<longrightarrow> 0 < pending_of i d + cr i) \<and>
        rq_status (slab (blk_reqs d) ! i) < unat (gm_size (blk_mem d)) \<and>
        (\<forall>b. rq_bounce (slab (blk_reqs d) ! i) = Some b \<longrightarrow> b \<in> taken (blk_bounce d))) \<and>
     (\<forall>i \<in> taken (blk_reqs d). \<forall>i' \<in> taken (blk_reqs d). rq_bounce (slab (blk_reqs d) ! i) = rq_bounce (slab (blk_reqs d) ! i') \<longrightarrow>
        i = i' \<or> rq_bounce (slab (blk_reqs d) ! i) = None) \<and>
     (\<forall>b < length (slab (blk_bounce d)). bounce_fine d (slab (blk_bounce d) ! b)) \<and>
     blk_active d = pool_inflight (blk_reqs d) + ex"

abbreviation blk_ok :: "nat \<Rightarrow> blk_device \<Rightarrow> bool" where
  "blk_ok ex d \<equiv> blk_inv (\<lambda>_. 0) {} ex d"

text \<open>What every operation leaves alone.\<close>

definition same_unit :: "blk_device \<Rightarrow> blk_device \<Rightarrow> bool" where
  "same_unit d d' \<longleftrightarrow> blk_readonly d' = blk_readonly d \<and> blk_queue_max d' = blk_queue_max d \<and> blk_epoch d' = blk_epoch d \<and> blk_cfg d' = blk_cfg d \<and>
     length (blk_disk d') = length (blk_disk d) \<and> (blk_readonly d \<longrightarrow> blk_disk d' = blk_disk d) \<and>
     gm_size (blk_mem d') = gm_size (blk_mem d) \<and> max_size (blk_queue d') = max_size (blk_queue d)"

lemma same_unit_refl [simp]: "same_unit d d"
  by (simp add: same_unit_def)

lemma same_unit_trans: "same_unit d d' \<Longrightarrow> same_unit d' d'' \<Longrightarrow> same_unit d d''"
  by (simp add: same_unit_def)

lemma same_unit_counters [simp]:
  "same_unit d (d\<lparr>ops_in := x\<rparr>)" "same_unit d (d\<lparr>ops_out := x\<rparr>)" "same_unit d (d\<lparr>ops_flush := x\<rparr>)" "same_unit d (d\<lparr>ops_discard := x\<rparr>)"
  "same_unit d (d\<lparr>ops_write_zeroes := x\<rparr>)" "same_unit d (d\<lparr>ops_err := x\<rparr>)" "same_unit d (d\<lparr>blk_active := n, max_depth := x\<rparr>)"
  "same_unit d (d\<lparr>blk_active := n\<rparr>)" "same_unit d (d\<lparr>blk_stopped := b\<rparr>)" "same_unit d (d\<lparr>blk_features := x\<rparr>)"
  by (simp_all add: same_unit_def)

section \<open>Frames of the invariant\<close>

lemma fine_counters [simp]:
  "seg_fine (d\<lparr>ops_in := x\<rparr>) = seg_fine d" "seg_fine (d\<lparr>ops_out := x\<rparr>) = seg_fine d" "seg_fine (d\<lparr>ops_flush := x\<rparr>) = seg_fine d"
  "seg_fine (d\<lparr>ops_discard := x\<rparr>) = seg_fine d" "seg_fine (d\<lparr>ops_write_zeroes := x\<rparr>) = seg_fine d" "seg_fine (d\<lparr>ops_err := x\<rparr>) = seg_fine d"
  "seg_fine (d\<lparr>ops_done := x\<rparr>) = seg_fine d" "seg_fine (d\<lparr>blk_active := n\<rparr>) = seg_fine d" "seg_fine (d\<lparr>blk_raised := r\<rparr>) = seg_fine d"
  "seg_fine (d\<lparr>blk_calls := n\<rparr>) = seg_fine d" "seg_fine (d\<lparr>max_depth := x\<rparr>) = seg_fine d" "seg_fine (d\<lparr>blk_features := x\<rparr>) = seg_fine d"
  "seg_fine (d\<lparr>blk_stopped := b\<rparr>) = seg_fine d" "seg_fine (d\<lparr>blk_queue := q\<rparr>) = seg_fine d" "seg_fine (d\<lparr>blk_inflight := l\<rparr>) = seg_fine d"
  "seg_fine (d\<lparr>blk_segs := sp\<rparr>) = seg_fine d" "seg_fine (d\<lparr>blk_bounce := bp\<rparr>) = seg_fine d" "seg_fine (d\<lparr>blk_epoch := e\<rparr>) = seg_fine d"
  by (simp_all add: seg_fine_def fun_eq_iff cong: io_buf.case_cong)

lemma bounce_counters [simp]:
  "bounce_fine (d\<lparr>ops_in := x\<rparr>) = bounce_fine d" "bounce_fine (d\<lparr>ops_out := x\<rparr>) = bounce_fine d" "bounce_fine (d\<lparr>ops_flush := x\<rparr>) = bounce_fine d"
  "bounce_fine (d\<lparr>ops_discard := x\<rparr>) = bounce_fine d" "bounce_fine (d\<lparr>ops_write_zeroes := x\<rparr>) = bounce_fine d" "bounce_fine (d\<lparr>ops_err := x\<rparr>) = bounce_fine d"
  "bounce_fine (d\<lparr>ops_done := x\<rparr>) = bounce_fine d" "bounce_fine (d\<lparr>blk_active := n\<rparr>) = bounce_fine d" "bounce_fine (d\<lparr>blk_raised := r\<rparr>) = bounce_fine d"
  "bounce_fine (d\<lparr>blk_calls := n\<rparr>) = bounce_fine d" "bounce_fine (d\<lparr>max_depth := x\<rparr>) = bounce_fine d" "bounce_fine (d\<lparr>blk_features := x\<rparr>) = bounce_fine d"
  "bounce_fine (d\<lparr>blk_stopped := b\<rparr>) = bounce_fine d" "bounce_fine (d\<lparr>blk_queue := q\<rparr>) = bounce_fine d" "bounce_fine (d\<lparr>blk_inflight := l\<rparr>) = bounce_fine d"
  "bounce_fine (d\<lparr>blk_segs := sp\<rparr>) = bounce_fine d" "bounce_fine (d\<lparr>blk_bounce := bp\<rparr>) = bounce_fine d" "bounce_fine (d\<lparr>blk_epoch := e\<rparr>) = bounce_fine d"
  "bounce_fine (d\<lparr>blk_reqs := rp\<rparr>) = bounce_fine d" "bounce_fine (d\<lparr>blk_disk := bs\<rparr>) = bounce_fine d"
  by (simp_all add: bounce_fine_def fun_eq_iff)

lemma pending_counters [simp]:
  "pending_of i (d\<lparr>ops_in := x\<rparr>) = pending_of i d" "pending_of i (d\<lparr>ops_out := x\<rparr>) = pending_of i d" "pending_of i (d\<lparr>ops_flush := x\<rparr>) = pending_of i d"
  "pending_of i (d\<lparr>ops_discard := x\<rparr>) = pending_of i d" "pending_of i (d\<lparr>ops_write_zeroes := x\<rparr>) = pending_of i d" "pending_of i (d\<lparr>ops_err := x\<rparr>) = pending_of i d"
  "pending_of i (d\<lparr>ops_done := x\<rparr>) = pending_of i d" "pending_of i (d\<lparr>blk_active := n\<rparr>) = pending_of i d" "pending_of i (d\<lparr>blk_raised := r\<rparr>) = pending_of i d"
  "pending_of i (d\<lparr>blk_calls := n\<rparr>) = pending_of i d" "pending_of i (d\<lparr>max_depth := x\<rparr>) = pending_of i d" "pending_of i (d\<lparr>blk_features := x\<rparr>) = pending_of i d"
  "pending_of i (d\<lparr>blk_stopped := b\<rparr>) = pending_of i d" "pending_of i (d\<lparr>blk_queue := q\<rparr>) = pending_of i d" "pending_of i (d\<lparr>blk_epoch := e\<rparr>) = pending_of i d"
  "pending_of i (d\<lparr>blk_bounce := bp\<rparr>) = pending_of i d" "pending_of i (d\<lparr>blk_reqs := rp\<rparr>) = pending_of i d" "pending_of i (d\<lparr>blk_disk := bs\<rparr>) = pending_of i d"
  "pending_of i (d\<lparr>blk_mem := gm\<rparr>) = pending_of i d"
  by (simp_all add: pending_of_def)

lemma inv_counters [simp]:
  "blk_inv cr Z ex (d\<lparr>ops_in := x\<rparr>) = blk_inv cr Z ex d" "blk_inv cr Z ex (d\<lparr>ops_out := x\<rparr>) = blk_inv cr Z ex d"
  "blk_inv cr Z ex (d\<lparr>ops_flush := x\<rparr>) = blk_inv cr Z ex d" "blk_inv cr Z ex (d\<lparr>ops_discard := x\<rparr>) = blk_inv cr Z ex d"
  "blk_inv cr Z ex (d\<lparr>ops_write_zeroes := x\<rparr>) = blk_inv cr Z ex d" "blk_inv cr Z ex (d\<lparr>ops_err := x\<rparr>) = blk_inv cr Z ex d"
  "blk_inv cr Z ex (d\<lparr>ops_done := x\<rparr>) = blk_inv cr Z ex d" "blk_inv cr Z ex (d\<lparr>blk_raised := r\<rparr>) = blk_inv cr Z ex d"
  "blk_inv cr Z ex (d\<lparr>blk_calls := n\<rparr>) = blk_inv cr Z ex d" "blk_inv cr Z ex (d\<lparr>max_depth := x\<rparr>) = blk_inv cr Z ex d"
  "blk_inv cr Z ex (d\<lparr>blk_features := x\<rparr>) = blk_inv cr Z ex d" "blk_inv cr Z ex (d\<lparr>blk_stopped := b\<rparr>) = blk_inv cr Z ex d"
  "blk_inv cr Z ex (d\<lparr>blk_epoch := e\<rparr>) = blk_inv cr Z ex d"
  by (simp_all add: blk_inv_def)

lemma fine_mem [simp]:
  "gm_size gm = gm_size (blk_mem d) \<Longrightarrow> seg_fine (d\<lparr>blk_mem := gm\<rparr>) = seg_fine d"
  "gm_size gm = gm_size (blk_mem d) \<Longrightarrow> bounce_fine (d\<lparr>blk_mem := gm\<rparr>) = bounce_fine d"
  "length bs = length (blk_disk d) \<Longrightarrow> seg_fine (d\<lparr>blk_disk := bs\<rparr>) = seg_fine d"
  by (simp_all add: seg_fine_def bounce_fine_def fun_eq_iff cong: io_buf.case_cong)

lemma inv_mem:
  "blk_inv cr Z ex d \<Longrightarrow> wf_mem gm \<Longrightarrow> gm_size gm = gm_size (blk_mem d) \<Longrightarrow> blk_inv cr Z ex (d\<lparr>blk_mem := gm\<rparr>)"
  unfolding blk_inv_def by simp

lemma inv_queue: "blk_inv cr Z ex d \<Longrightarrow> vq_ok q \<Longrightarrow> blk_inv cr Z ex (d\<lparr>blk_queue := q\<rparr>)"
  unfolding blk_inv_def by simp

lemma inv_disk:
  "blk_inv cr Z ex d \<Longrightarrow> length bs = length (blk_disk d) \<Longrightarrow> blk_inv cr Z ex (d\<lparr>blk_disk := bs\<rparr>)"
  unfolding blk_inv_def by simp

lemma wf_mem_overwrite_at:
  "wf_mem gm \<Longrightarrow> p + length bs \<le> unat (gm_size gm) \<Longrightarrow> wf_mem (gm\<lparr>gm_ram := overwrite (gm_ram gm) p bs\<rparr>)"
  by (auto simp: wf_mem_def length_overwrite split: option.splits)

lemma inv_poke: "blk_inv cr Z ex d \<Longrightarrow> p < unat (gm_size (blk_mem d)) \<Longrightarrow> blk_inv cr Z ex (poke p b d)"
  unfolding poke_def by (rule inv_mem) (auto simp: blk_inv_def intro!: wf_mem_overwrite_at)

lemma same_unit_poke [simp]: "same_unit d (poke p b d)"
  by (simp add: same_unit_def poke_def)

lemma push_used_inv:
  assumes "blk_inv cr Z ex d"
  shows "\<exists>q gm. push_used e h n d = Some (d\<lparr>blk_queue := q, blk_mem := gm\<rparr>) \<and> blk_inv cr Z ex (d\<lparr>blk_queue := q, blk_mem := gm\<rparr>) \<and>
    same_unit d (d\<lparr>blk_queue := q, blk_mem := gm\<rparr>)"
proof (cases "blk_epoch d = e")
  case False
  then show ?thesis using assms by (intro exI [of _ "blk_queue d"] exI [of _ "blk_mem d"]) (simp add: push_used_def)
next
  case True
  have wf: "wf_mem (blk_mem d)" "vq_ok (blk_queue d)" using assms by (simp_all add: blk_inv_def)
  obtain q gm where p: "vq_push h n (blk_queue d, blk_mem d) = Some (q, gm)" "vq_ok q" "max_size q = max_size (blk_queue d)" "wf_mem gm"
    using vq_push_ok [OF wf(2,1), of h n] by (auto split: option.splits)
  have "gm_size gm = gm_size (blk_mem d)"
    using p(1) by (auto simp: vq_push_def add_used_def publish_used_def store_used_ring_def store_used_idx_def store_release_u16_eq Let_def
        split: if_splits)
  then show ?thesis using True p inv_mem [OF inv_queue [OF assms p(2)], of gm]
    by (intro exI [of _ q] exI [of _ gm]) (simp add: push_used_def same_unit_def)
qed

lemma raise_inv:
  assumes "blk_inv cr Z ex d"
  shows "\<exists>q r. raise_irq_if_needed e d = d\<lparr>blk_queue := q, blk_raised := r\<rparr> \<and> blk_inv cr Z ex (d\<lparr>blk_queue := q, blk_raised := r\<rparr>) \<and>
    same_unit d (d\<lparr>blk_queue := q, blk_raised := r\<rparr>)"
proof (cases "blk_epoch d = e")
  case False
  then show ?thesis using assms
    by (intro exI [of _ "blk_queue d"] exI [of _ "blk_raised d"]) (simp add: raise_irq_if_needed_def)
next
  case True
  obtain q f where q: "should_interrupt_driver (blk_queue d) (blk_mem d) = (q, f)" by fastforce
  then have "vq_ok q" "max_size q = max_size (blk_queue d)"
    using assms by (auto simp: blk_inv_def should_interrupt_driver_def vq_ok_def Let_def split: if_splits)
  then show ?thesis using True q inv_queue [OF assms, of q]
    by (intro exI [of _ q] exI [of _ "blk_raised d @ (if f then [0] else [])"]) (simp add: raise_irq_if_needed_def same_unit_def)
qed

lemma settle_inv: "blk_inv cr Z (Suc ex) d \<Longrightarrow> blk_inv cr Z ex (settle d)"
  unfolding blk_inv_def settle_def by simp

lemma same_unit_settle [simp]: "same_unit d (settle d)"
  by (simp add: same_unit_def settle_def)

lemma finish_inline_inv:
  assumes "blk_inv cr Z (Suc ex) d" and "\<forall>p. sp = Some p \<longrightarrow> p < unat (gm_size (blk_mem d))"
  shows "\<exists>d'. finish_inline e h sp st d = Some d' \<and> blk_inv cr Z ex d' \<and> same_unit d d'"
proof -
  let ?d1 = "case sp of Some p \<Rightarrow> if blk_epoch d = e then poke p st d else d | None \<Rightarrow> d"
  have d1: "blk_inv cr Z (Suc ex) ?d1" "same_unit d ?d1" using assms inv_poke by (auto split: option.splits)
  obtain d2 where d2: "push_used e h 1 ?d1 = Some d2" "blk_inv cr Z (Suc ex) d2" "same_unit ?d1 d2" using push_used_inv [OF d1(1)] by blast
  obtain d3 where d3: "raise_irq_if_needed e d2 = d3" "blk_inv cr Z (Suc ex) d3" "same_unit d2 d3" using raise_inv [OF d2(2)] by blast
  have "same_unit d (settle d3)" using d1(2) d2(3) d3(3) same_unit_trans same_unit_settle by blast
  then show ?thesis using d2(1) d3(1) settle_inv [OF d3(2)] by (simp add: finish_inline_def Let_def)
qed

lemma reject_inv:
  assumes "blk_inv cr Z (Suc ex) d" and "p < unat (gm_size (blk_mem d))"
  shows "\<exists>d'. reject e h p st d = Some d' \<and> blk_inv cr Z ex d' \<and> same_unit d d'"
  using finish_inline_inv [of cr Z ex "d\<lparr>ops_err := ops_err d + 1\<rparr>" "Some p" e h st] assms
  by (simp add: reject_def) (auto simp: same_unit_def)

section \<open>Requests finish\<close>

lemma no_pending: "blk_inv cr Z ex d \<Longrightarrow> pending_of i d = 0 \<Longrightarrow> j \<in> taken (blk_segs d) \<Longrightarrow> so_parent (slab (blk_segs d) ! j) \<noteq> i"
  by (auto simp: blk_inv_def pending_of_def filter_empty_conv)

lemma drop_req:
  assumes inv: "blk_inv cr Z ex d" and i: "i \<in> taken (blk_reqs d)" and none: "pending_of i d = 0"
    and bp: "bp = (case rq_bounce (slab (blk_reqs d) ! i) of Some b \<Rightarrow> pool_release b (blk_bounce d) | None \<Rightarrow> blk_bounce d)"
  shows "blk_inv cr (Z - {i}) (Suc ex) (d\<lparr>blk_bounce := bp, blk_reqs := pool_release i (blk_reqs d)\<rparr>)" (is "blk_inv _ _ _ ?d'")
proof -
  note I = inv [unfolded blk_inv_def]
  have R: "pool_ok (pool_release i (blk_reqs d))" "taken (pool_release i (blk_reqs d)) = taken (blk_reqs d) - {i}"
    "pool_inflight (blk_reqs d) = Suc (pool_inflight (pool_release i (blk_reqs d)))"
    using pool_released [of "blk_reqs d" i] I i by auto
  have B: "pool_ok bp" "slab bp = slab (blk_bounce d)"
    using pool_released [of "blk_bounce d"] I i by (auto simp: bp split: option.split)
  have others: "\<forall>i' \<in> taken (blk_reqs d) - {i}. \<forall>b. rq_bounce (slab (blk_reqs d) ! i') = Some b \<longrightarrow> b \<in> taken bp"
  proof (intro ballI allI impI)
    fix i' b assume i': "i' \<in> taken (blk_reqs d) - {i}" and b: "rq_bounce (slab (blk_reqs d) ! i') = Some b"
    then have "b \<in> taken (blk_bounce d)" using I by auto
    moreover have "rq_bounce (slab (blk_reqs d) ! i) \<noteq> Some b" using I i i' b by (metis DiffD1 DiffD2 option.distinct(1) singletonI)
    ultimately show "b \<in> taken bp" using I i pool_released(2) [of "blk_bounce d"] by (auto simp: bp split: option.split)
  qed
  have S: "\<forall>j \<in> taken (blk_segs d). seg_fine ?d' (slab (blk_segs d) ! j)"
  proof
    fix j assume j: "j \<in> taken (blk_segs d)"
    then have "seg_fine d (slab (blk_segs d) ! j)" using I by blast
    moreover have "so_parent (slab (blk_segs d) ! j) \<noteq> i" by (rule no_pending [OF inv none j])
    ultimately show "seg_fine ?d' (slab (blk_segs d) ! j)" by (simp add: seg_fine_def R(2) cong: io_buf.case_cong)
  qed
  show ?thesis unfolding blk_inv_def using I R B others S by (simp add: pending_of_def)
qed

lemma finish_request_inv:
  assumes inv: "blk_inv cr Z ex d" and i: "i \<in> taken (blk_reqs d)" and none: "pending_of i d = 0"
  shows "\<exists>d'. finish_request i d = Some d' \<and> blk_inv cr (Z - {i}) ex d' \<and> same_unit d d' \<and>
    taken (blk_reqs d') = taken (blk_reqs d) - {i} \<and> blk_inflight d' = blk_inflight d \<and> blk_segs d' = blk_segs d"
proof -
  let ?r = "slab (blk_reqs d) ! i"
  define d1 where "d1 = (if blk_epoch d = rq_epoch ?r then poke (rq_status ?r) (if rq_failed ?r then BLK_S_IOERR else BLK_S_OK) d else d)"
  let ?n = "if rq_failed ?r then 1 else if rq_type ?r = BLK_T_IN then rq_done ?r + 1 else 1"
  have st: "rq_status ?r < unat (gm_size (blk_mem d))" using inv i by (simp add: blk_inv_def)
  have d1: "blk_inv cr Z ex d1" "same_unit d d1" using inv inv_poke [OF inv st] by (simp_all add: d1_def)
  have k1: "blk_reqs d1 = blk_reqs d" "blk_segs d1 = blk_segs d" "blk_bounce d1 = blk_bounce d" "blk_inflight d1 = blk_inflight d"
    by (simp_all add: poke_def d1_def)
  obtain q gm where d2: "push_used (rq_epoch ?r) (rq_head ?r) ?n d1 = Some (d1\<lparr>blk_queue := q, blk_mem := gm\<rparr>)"
      "blk_inv cr Z ex (d1\<lparr>blk_queue := q, blk_mem := gm\<rparr>)" "same_unit d1 (d1\<lparr>blk_queue := q, blk_mem := gm\<rparr>)"
    using push_used_inv [OF d1(1)] by blast
  let ?d3 = "d1\<lparr>blk_queue := q, blk_mem := gm, ops_done := ops_done d1 + 1\<rparr>"
  define bp where "bp = (case rq_bounce ?r of Some b \<Rightarrow> pool_release b (blk_bounce d) | None \<Rightarrow> blk_bounce d)"
  let ?d5 = "?d3\<lparr>blk_bounce := bp, blk_reqs := pool_release i (blk_reqs d)\<rparr>"
  have i3: "blk_inv cr Z ex ?d3" using d2(2) by simp
  have p3: "pending_of i ?d3 = 0" using none k1 by (simp add: pending_of_def)
  have d5: "blk_inv cr (Z - {i}) (Suc ex) ?d5"
    using drop_req [OF i3 _ p3, of bp] i by (simp add: k1 bp_def split: option.split)
  obtain q' r' where d6: "raise_irq_if_needed (rq_epoch ?r) ?d5 = ?d5\<lparr>blk_queue := q', blk_raised := r'\<rparr>"
      "blk_inv cr (Z - {i}) (Suc ex) (?d5\<lparr>blk_queue := q', blk_raised := r'\<rparr>)" "same_unit ?d5 (?d5\<lparr>blk_queue := q', blk_raised := r'\<rparr>)"
    using raise_inv [OF d5] by blast
  let ?d' = "settle (?d5\<lparr>blk_queue := q', blk_raised := r'\<rparr>)"
  have e: "?d3\<lparr>blk_reqs := pool_release i (blk_reqs d)\<rparr> = ?d5" if "rq_bounce ?r = None"
    using that k1(3) by (cases d1) (simp add: bp_def)
  have d6': "raise_irq_if_needed (rq_epoch ?r) (?d3\<lparr>blk_reqs := pool_release i (blk_reqs d)\<rparr>) = ?d5\<lparr>blk_queue := q', blk_raised := r'\<rparr>"
    if "rq_bounce ?r = None" by (simp only: e [OF that] d6(1))
  have "finish_request i d = Some ?d'"
  proof (cases "rq_bounce ?r")
    case None
    then show ?thesis using d2(1) d6' k1 by (simp add: finish_request_def Let_def flip: d1_def)
  next
    case (Some b)
    then show ?thesis using d2(1) d6(1) k1 by (simp add: finish_request_def Let_def bp_def flip: d1_def)
  qed
  moreover have "blk_inv cr (Z - {i}) ex ?d'" by (rule settle_inv [OF d6(2)])
  moreover have "same_unit d ?d'"
    using same_unit_trans [OF d1(2) d2(3)] d6(3) by (simp add: same_unit_def settle_def)
  moreover have "taken (blk_reqs ?d') = taken (blk_reqs d) - {i}" "blk_inflight ?d' = blk_inflight d" "blk_segs ?d' = blk_segs d"
    using pool_released(2) [of "blk_reqs d" i] inv i by (simp_all add: settle_def k1 blk_inv_def)
  ultimately show ?thesis by blast
qed

section \<open>Segments complete\<close>

lemma upd_req_simps [simp]:
  "blk_segs (upd_req i f d) = blk_segs d" "blk_inflight (upd_req i f d) = blk_inflight d" "blk_mem (upd_req i f d) = blk_mem d"
  "blk_bounce (upd_req i f d) = blk_bounce d" "blk_disk (upd_req i f d) = blk_disk d" "blk_readonly (upd_req i f d) = blk_readonly d"
  "blk_epoch (upd_req i f d) = blk_epoch d" "taken (blk_reqs (upd_req i f d)) = taken (blk_reqs d)" "blk_queue (upd_req i f d) = blk_queue d"
  "slab (blk_reqs (upd_req i f d)) = (slab (blk_reqs d))[i := f (slab (blk_reqs d) ! i)]" "pending_of k (upd_req i f d) = pending_of k d"
  "same_unit d (upd_req i f d)" "blk_raised (upd_req i f d) = blk_raised d" "blk_active (upd_req i f d) = blk_active d"
  "pool_inflight (blk_reqs (upd_req i f d)) = pool_inflight (blk_reqs d)" "pool_ok (blk_reqs (upd_req i f d)) = pool_ok (blk_reqs d)"
  by (simp_all add: upd_req_def pending_of_def same_unit_def)

lemma upd_nth: "xs[i := x] ! k = (if k = i \<and> i < length xs then x else xs ! k)"
  by (cases "i < length xs") (auto simp: list_update_beyond)

lemma taken_less: "i \<in> taken p \<Longrightarrow> i < length (slab p)"
  by (simp add: taken_def)

lemma inv_upd:
  assumes inv: "blk_inv cr Z ex d" and i: "i \<in> taken (blk_reqs d)"
    and keep: "\<forall>r. rq_bounce (f r) = rq_bounce r \<and> rq_status (f r) = rq_status r"
    and out: "rq_out (f (slab (blk_reqs d) ! i)) = pending_of i d + cr' i" and cr: "\<forall>k. k \<noteq> i \<longrightarrow> cr' k = cr k"
    and Z: "\<forall>k. k \<noteq> i \<longrightarrow> k \<in> Z \<longrightarrow> k \<in> Z'" and pos: "i \<notin> Z' \<longrightarrow> 0 < pending_of i d + cr' i"
  shows "blk_inv cr' Z' ex (upd_req i f d)"
proof -
  note I = inv [unfolded blk_inv_def]
  let ?s = "slab (blk_reqs (upd_req i f d))"
  have b: "rq_bounce (?s ! k) = rq_bounce (slab (blk_reqs d) ! k)" "rq_status (?s ! k) = rq_status (slab (blk_reqs d) ! k)" for k
    using keep by (auto simp: upd_nth)
  have sf: "seg_fine (upd_req i f d) = seg_fine d" by (simp add: seg_fine_def fun_eq_iff b [simplified] cong: io_buf.case_cong)
  have bf: "bounce_fine (upd_req i f d) = bounce_fine d" by (simp add: bounce_fine_def fun_eq_iff)
  have o: "rq_out (?s ! k) = pending_of k d + cr' k" if "k \<in> taken (blk_reqs d)" for k
    using that I out cr i taken_less [OF i] by (cases "k = i") auto
  have z: "k \<notin> Z' \<longrightarrow> 0 < pending_of k d + cr' k" if "k \<in> taken (blk_reqs d)" for k
    using that I pos cr Z by (cases "k = i") auto
  show ?thesis unfolding blk_inv_def sf bf b using I o z by simp
qed

lemma drop_seg:
  assumes inv: "blk_inv cr Z ex d" and n: "n < length (blk_inflight d)" and j: "j = blk_inflight d ! n" and i: "i = so_parent (slab (blk_segs d) ! j)"
  shows "blk_inv (cr(i := Suc (cr i))) Z ex (d\<lparr>blk_inflight := take n (blk_inflight d) @ drop (Suc n) (blk_inflight d), blk_segs := pool_release j (blk_segs d)\<rparr>)"
    (is "blk_inv ?cr _ _ ?d'")
    and "pending_of i d = Suc (pending_of i (d\<lparr>blk_inflight := take n (blk_inflight d) @ drop (Suc n) (blk_inflight d), blk_segs := pool_release j (blk_segs d)\<rparr>))"
    and "i \<in> taken (blk_reqs d)" and "j \<in> taken (blk_segs d)"
proof -
  note I = inv [unfolded blk_inv_def]
  let ?l = "take n (blk_inflight d) @ drop (Suc n) (blk_inflight d)"
  have l: "blk_inflight d = take n (blk_inflight d) @ j # drop (Suc n) (blk_inflight d)" using n j by (simp add: id_take_nth_drop)
  have "distinct (take n (blk_inflight d) @ j # drop (Suc n) (blk_inflight d))" using I l by simp
  then have dl: "distinct ?l" "j \<notin> set ?l" by auto
  have "set (blk_inflight d) = insert j (set ?l)" by (subst l) auto
  then have jt: "j \<in> taken (blk_segs d)" and sl: "set ?l = taken (blk_segs d) - {j}" using I dl(2) by auto
  show "j \<in> taken (blk_segs d)" by (rule jt)
  then show it: "i \<in> taken (blk_reqs d)" using I i by (auto simp: seg_fine_def)
  have S: "pool_ok (pool_release j (blk_segs d))" "taken (pool_release j (blk_segs d)) = taken (blk_segs d) - {j}"
    using pool_released [of "blk_segs d" j] I jt by auto
  have p: "pending_of k d = pending_of k ?d' + (if k = i then 1 else 0)" for k
    unfolding pending_of_def by (subst l) (simp add: i)
  then show "pending_of i d = Suc (pending_of i ?d')" by simp
  have "rq_out (slab (blk_reqs d) ! k) = pending_of k ?d' + ?cr k" "k \<notin> Z \<longrightarrow> 0 < pending_of k ?d' + ?cr k" if "k \<in> taken (blk_reqs d)" for k
    using I that p [of k] by auto
  then show "blk_inv ?cr Z ex ?d'" unfolding blk_inv_def using I S dl(1) sl by simp
qed

lemma host_transfer_inv:
  assumes inv: "blk_inv cr Z ex d" and s: "seg_fine d s"
  shows "blk_inv cr Z ex (host_transfer s ok k d) \<and> same_unit d (host_transfer s ok k d) \<and> blk_reqs (host_transfer s ok k d) = blk_reqs d \<and>
    blk_segs (host_transfer s ok k d) = blk_segs d \<and> blk_inflight (host_transfer s ok k d) = blk_inflight d"
proof -
  note I = inv [unfolded blk_inv_def]
  define n where "n = (if ok then unat (so_bytes s) else min k (unat (so_bytes s)))"
  have n: "n \<le> unat (so_bytes s)" by (simp add: n_def)
  let ?h = "host_transfer s ok k d"
  show ?thesis
  proof (cases "so_op s")
    case OpFlush
    then show ?thesis using inv by (simp add: host_transfer_def Let_def)
  next
    case OpWrite
    have off: "unat (so_off s) + n \<le> length (blk_disk d)" "\<not> blk_readonly d" using s n OpWrite by (auto simp: seg_fine_def)
    have "length (io_source (so_buf s) n d) \<le> n" by (simp add: io_source_def split: io_buf.split)
    then have "length (overwrite (blk_disk d) (unat (so_off s)) (io_source (so_buf s) n d)) = length (blk_disk d)"
      using off by (subst length_overwrite) auto
    then show ?thesis using OpWrite off inv_disk [OF inv]
      by (simp add: host_transfer_def Let_def same_unit_def flip: n_def)
  next
    case OpRead
    let ?bs = "byte_range (blk_disk d) (unat (so_off s)) n"
    have len: "length ?bs = n" using s n OpRead by (auto simp: seg_fine_def)
    have h: "?h = io_sink (so_buf s) ?bs d" using OpRead by (simp add: host_transfer_def Let_def flip: n_def)
    show ?thesis
    proof (cases "so_buf s")
      case (GuestBuf p)
      let ?gm = "(blk_mem d)\<lparr>gm_ram := overwrite (gm_ram (blk_mem d)) p ?bs\<rparr>"
      have "wf_mem ?gm" using I s n GuestBuf len by (intro wf_mem_overwrite_at) (auto simp: seg_fine_def)
      then have "blk_inv cr Z ex (d\<lparr>blk_mem := ?gm\<rparr>)" by (intro inv_mem [OF inv]) simp_all
      then show ?thesis unfolding h using GuestBuf by (simp add: io_sink_def same_unit_def)
    next
      case (BounceBuf b)
      let ?s = "slab (blk_bounce d) ! b"
      let ?p = "pool_put b (?s\<lparr>bn_buf := overwrite (bn_buf ?s) 0 ?bs\<rparr>) (blk_bounce d)"
      have "rq_bounce (slab (blk_reqs d) ! so_parent s) = Some b" "so_parent s \<in> taken (blk_reqs d)" "n \<le> BOUNCE_CAP"
        using s n BounceBuf by (auto simp: seg_fine_def)
      then have "b < length (slab (blk_bounce d))" using I by (auto simp: taken_def)
      then have bf: "bounce_fine d ?s" using I by blast
      then have "bounce_fine d (?s\<lparr>bn_buf := overwrite (bn_buf ?s) 0 ?bs\<rparr>)"
        using len \<open>n \<le> BOUNCE_CAP\<close> by (simp add: bounce_fine_def length_overwrite)
      then have "\<forall>c < length (slab ?p). bounce_fine d (slab ?p ! c)" using I by (auto simp: upd_nth)
      then have "blk_inv cr Z ex (d\<lparr>blk_bounce := ?p\<rparr>)" using I unfolding blk_inv_def by simp
      then show ?thesis unfolding h using BounceBuf by (simp add: io_sink_def same_unit_def Let_def)
    qed (use inv h in \<open>simp_all add: io_sink_def\<close>)
  qed
qed

lemma scatter_length: "\<forall>(p, l) \<in> set ss. p + unat l \<le> length rm \<Longrightarrow> length (scatter ss buf n off rm) = length rm"
proof (induction ss buf n off rm rule: scatter.induct)
  case (2 p l ss buf n off rm)
  let ?m = "min (unat l) (n - off)"
  have "p + length (byte_range buf off ?m) \<le> length rm" using "2.prems" by (auto simp: byte_range_def)
  then have "length (overwrite rm p (byte_range buf off ?m)) = length rm" by (simp add: length_overwrite)
  then show ?case using 2 by (auto simp: Let_def)
qed simp

lemma scatter_inv:
  assumes "blk_inv cr Z ex d" and "b < length (slab (blk_bounce d))"
  shows "blk_inv cr Z ex (d\<lparr>blk_mem := (blk_mem d)\<lparr>gm_ram := scatter (bn_segs (slab (blk_bounce d) ! b)) buf n 0 (gm_ram (blk_mem d))\<rparr>\<rparr>)"
proof (rule inv_mem [OF assms(1)])
  have w: "wf_mem (blk_mem d)" "bounce_fine d (slab (blk_bounce d) ! b)" using assms by (auto simp: blk_inv_def)
  have "length (scatter (bn_segs (slab (blk_bounce d) ! b)) buf n 0 (gm_ram (blk_mem d))) = length (gm_ram (blk_mem d))"
    using w by (intro scatter_length) (auto simp: bounce_fine_def wf_mem_def)
  then show "wf_mem ((blk_mem d)\<lparr>gm_ram := scatter (bn_segs (slab (blk_bounce d) ! b)) buf n 0 (gm_ram (blk_mem d))\<rparr>)"
    using w by (auto simp: wf_mem_def split: option.splits)
qed simp

text \<open>What a completion records on its request; the slot may be given back first.\<close>

definition seg_outcome :: "seg_op \<Rightarrow> bool \<Rightarrow> blk_device \<Rightarrow> blk_device" where
  "seg_outcome s ok d = (let i = so_parent s; r = slab (blk_reqs d) ! i in
     if \<not> ok then upd_req i (rq_failed_update (\<lambda>_. True)) d
     else if so_op s = OpRead then upd_req i (rq_done_update (\<lambda>t. saturating_add32 t (so_bytes s)))
       (case rq_bounce r of
          Some b \<Rightarrow> if blk_epoch d = rq_epoch r
            then d\<lparr>blk_mem := (blk_mem d)\<lparr>gm_ram := scatter (bn_segs (slab (blk_bounce d) ! b)) (bn_buf (slab (blk_bounce d) ! b)) (unat (so_bytes s)) 0 (gm_ram (blk_mem d))\<rparr>\<rparr>
            else d
        | None \<Rightarrow> d)
     else d)"

lemma upd_req_segs [simp]: "(upd_req i f d)\<lparr>blk_segs := sp\<rparr> = upd_req i f (d\<lparr>blk_segs := sp\<rparr>)"
  by (simp add: upd_req_def)

lemma seg_outcome_segs: "(seg_outcome s ok d)\<lparr>blk_segs := sp\<rparr> = seg_outcome s ok (d\<lparr>blk_segs := sp\<rparr>)"
proof -
  have sw: "d\<lparr>blk_mem := a, blk_segs := b\<rparr> = d\<lparr>blk_segs := b, blk_mem := a\<rparr>" for a b by simp
  show ?thesis by (simp add: seg_outcome_def Let_def sw split: option.split)
qed

lemma seg_outcome_keeps [simp]:
  "blk_segs (seg_outcome s ok d) = blk_segs d" "blk_inflight (seg_outcome s ok d) = blk_inflight d" "pending_of k (seg_outcome s ok d) = pending_of k d"
  "taken (blk_reqs (seg_outcome s ok d)) = taken (blk_reqs d)" "same_unit d (seg_outcome s ok d)" "blk_disk (seg_outcome s ok d) = blk_disk d"
  by (simp_all add: seg_outcome_def Let_def split: option.split) (simp_all add: same_unit_def upd_req_def)

lemma on_seg_complete_alt:
  "on_seg_complete j ok d = (let s = slab (blk_segs d) ! j; i = so_parent s;
      d2 = seg_outcome s ok (d\<lparr>blk_segs := pool_release j (blk_segs d)\<rparr>);
      d3 = upd_req i (rq_out_update (\<lambda>n. n - 1)) d2
    in if rq_out (slab (blk_reqs d2) ! i) = 1 then finish_request i d3 else Some d3)"
proof -
  have "on_seg_complete j ok d = (let s = slab (blk_segs d) ! j; i = so_parent s; d1 = seg_outcome s ok d;
      d2 = d1\<lparr>blk_segs := pool_release j (blk_segs d1)\<rparr>; d3 = upd_req i (rq_out_update (\<lambda>n. n - 1)) d2
    in if rq_out (slab (blk_reqs d2) ! i) = 1 then finish_request i d3 else Some d3)"
    unfolding on_seg_complete_def seg_outcome_def Let_def by (simp only: split: option.split)
  then show ?thesis by (simp only: Let_def seg_outcome_segs seg_outcome_keeps(1))
qed

lemma seg_outcome_inv:
  assumes inv: "blk_inv cr Z ex d" and s: "seg_fine d s"
  shows "blk_inv cr Z ex (seg_outcome s ok d)"
proof -
  let ?i = "so_parent s"
  note I = inv [unfolded blk_inv_def]
  have i: "?i \<in> taken (blk_reqs d)" using s by (simp add: seg_fine_def)
  have up: "blk_inv cr Z ex (upd_req ?i f d')" if "blk_inv cr Z ex d'" "blk_reqs d' = blk_reqs d" "pending_of ?i d' = pending_of ?i d"
      "\<forall>r. rq_bounce (f r) = rq_bounce r \<and> rq_status (f r) = rq_status r \<and> rq_out (f r) = rq_out r" for f d'
    using inv_upd [OF that(1), of ?i f cr Z] that i I by auto
  have "blk_inv cr Z ex (case rq_bounce (slab (blk_reqs d) ! ?i) of
      Some b \<Rightarrow> if blk_epoch d = rq_epoch (slab (blk_reqs d) ! ?i)
        then d\<lparr>blk_mem := (blk_mem d)\<lparr>gm_ram := scatter (bn_segs (slab (blk_bounce d) ! b)) (bn_buf (slab (blk_bounce d) ! b)) (unat (so_bytes s)) 0 (gm_ram (blk_mem d))\<rparr>\<rparr>
        else d
    | None \<Rightarrow> d)"
    using I i inv scatter_inv [OF inv] taken_less [of _ "blk_bounce d"] by (auto split: option.split)
  then show ?thesis using inv unfolding seg_outcome_def Let_def
    by (auto intro!: up split: option.split)
qed

lemma pending_one: "blk_inv cr Z ex d \<Longrightarrow> i \<in> taken (blk_reqs d) \<Longrightarrow> rq_out (slab (blk_reqs d) ! i) = pending_of i d + cr i"
  by (simp add: blk_inv_def)

text \<open>Letting go of one hold on a request, which finishes it when it was the last.\<close>

lemma release_hold:
  assumes inv: "blk_inv (cr(i := Suc (cr i))) Z ex d" and i: "i \<in> taken (blk_reqs d)"
  shows "\<exists>d'. (let d3 = upd_req i (rq_out_update (\<lambda>n. n - 1)) d in if rq_out (slab (blk_reqs d) ! i) = 1 then finish_request i d3 else Some d3) = Some d' \<and>
     blk_inv cr (Z - {i}) ex d' \<and> same_unit d d' \<and> blk_inflight d' = blk_inflight d \<and> blk_segs d' = blk_segs d \<and>
     taken (blk_reqs d') \<subseteq> taken (blk_reqs d) \<and> taken (blk_reqs d) - {i} \<subseteq> taken (blk_reqs d') \<and> (i \<in> taken (blk_reqs d') \<longleftrightarrow> rq_out (slab (blk_reqs d) ! i) \<noteq> 1)"
proof -
  let ?d3 = "upd_req i (rq_out_update (\<lambda>n. n - 1)) d"
  have o: "rq_out (slab (blk_reqs d) ! i) = pending_of i d + Suc (cr i)" using pending_one [OF inv i] by simp
  show ?thesis
  proof (cases "rq_out (slab (blk_reqs d) ! i) = 1")
    case True
    then have z: "pending_of i d = 0" "cr i = 0" using o by auto
    have "blk_inv cr (insert i Z) ex ?d3" by (rule inv_upd [OF inv i]) (use o in auto)
    then obtain d' where d': "finish_request i ?d3 = Some d'" "blk_inv cr (insert i Z - {i}) ex d'" "same_unit ?d3 d'"
        "taken (blk_reqs d') = taken (blk_reqs ?d3) - {i}" "blk_inflight d' = blk_inflight ?d3" "blk_segs d' = blk_segs ?d3"
      using finish_request_inv [of cr "insert i Z" ex ?d3 i] i z by auto
    have "same_unit d d'" using same_unit_trans [OF _ d'(3), of d] by simp
    then show ?thesis using d' True by (auto simp: Let_def)
  next
    case False
    then have "0 < pending_of i d + cr i" using o by simp
    then have "blk_inv cr (Z - {i}) ex ?d3" by (intro inv_upd [OF inv i]) (use o in auto)
    then show ?thesis using False i by (auto simp: Let_def)
  qed
qed

lemma blk_complete_inv:
  assumes inv: "blk_inv cr Z ex d" and n: "n < length (blk_inflight d)"
  shows "\<exists>d'. blk_complete n ok k d = Some d' \<and> blk_inv cr (Z - {so_parent (slab (blk_segs d) ! (blk_inflight d ! n))}) ex d' \<and> same_unit d d' \<and>
    blk_inflight d' = take n (blk_inflight d) @ drop (Suc n) (blk_inflight d) \<and> taken (blk_reqs d') \<subseteq> taken (blk_reqs d) \<and>
    (\<forall>i. cr i \<noteq> 0 \<and> i \<in> taken (blk_reqs d) \<longrightarrow> i \<in> taken (blk_reqs d'))"
proof -
  let ?j = "blk_inflight d ! n"
  let ?s = "slab (blk_segs d) ! ?j"
  let ?i = "so_parent ?s"
  let ?l = "take n (blk_inflight d) @ drop (Suc n) (blk_inflight d)"
  define d1 where "d1 = host_transfer ?s ok k d"
  have j: "?j \<in> taken (blk_segs d)" using inv n by (auto simp: blk_inv_def)
  have sf: "seg_fine d ?s" using inv j by (simp add: blk_inv_def)
  have d1: "blk_inv cr Z ex d1" "same_unit d d1" "blk_reqs d1 = blk_reqs d" "blk_segs d1 = blk_segs d" "blk_inflight d1 = blk_inflight d"
    using host_transfer_inv [OF inv sf, of ok k] by (auto simp: d1_def)
  let ?d2 = "d1\<lparr>blk_inflight := ?l, blk_segs := pool_release ?j (blk_segs d)\<rparr>"
  have d2: "blk_inv (cr(?i := Suc (cr ?i))) Z ex ?d2" "?i \<in> taken (blk_reqs d)"
    using drop_seg [OF d1(1), of n ?j ?i] n by (simp_all add: d1)
  have "seg_fine ?d2 ?s" using sf d1(2,3) by (simp add: seg_fine_def same_unit_def cong: io_buf.case_cong)
  then have d3: "blk_inv (cr(?i := Suc (cr ?i))) Z ex (seg_outcome ?s ok ?d2)" by (rule seg_outcome_inv [OF d2(1)])
  have ht: "host_transfer ?s ok k (d\<lparr>blk_inflight := ?l\<rparr>) = d1\<lparr>blk_inflight := ?l\<rparr>"
    by (simp add: d1_def host_transfer_def io_sink_def io_source_def Let_def split: io_op.split io_buf.split)
  obtain d' where d': "(let d3 = upd_req ?i (rq_out_update (\<lambda>n. n - 1)) (seg_outcome ?s ok ?d2)
        in if rq_out (slab (blk_reqs (seg_outcome ?s ok ?d2)) ! ?i) = 1 then finish_request ?i d3 else Some d3) = Some d'"
      "blk_inv cr (Z - {?i}) ex d'" "same_unit (seg_outcome ?s ok ?d2) d'" "blk_inflight d' = ?l"
      "taken (blk_reqs d') \<subseteq> taken (blk_reqs d)" "taken (blk_reqs d) - {?i} \<subseteq> taken (blk_reqs d')" "?i \<in> taken (blk_reqs d') \<longleftrightarrow> rq_out (slab (blk_reqs (seg_outcome ?s ok ?d2)) ! ?i) \<noteq> 1"
    using release_hold [OF d3] d2(2) d1(3) by auto
  have "blk_complete n ok k d = on_seg_complete ?j ok (d1\<lparr>blk_inflight := ?l\<rparr>)"
    using n ht by (simp add: blk_complete_def)
  also have "\<dots> = Some d'"
    unfolding on_seg_complete_alt using d'(1) d1(4) by (simp add: Let_def)
  finally have "blk_complete n ok k d = Some d'" .
  moreover have "same_unit d d'"
  proof -
    have "same_unit d ?d2" using d1(2) by (simp add: same_unit_def)
    then show ?thesis using d'(3) same_unit_trans seg_outcome_keeps(5) by blast
  qed
  moreover have "i \<in> taken (blk_reqs d')" if "cr i \<noteq> 0" "i \<in> taken (blk_reqs d)" for i
    using that d'(6,7) pending_one [OF d3, of ?i] d2(2) d1(3) by (cases "i = ?i") auto
  ultimately show ?thesis using d' by blast
qed

section \<open>Submission\<close>

lemma put_free_seg:
  assumes inv: "blk_inv cr Z ex d" and j: "j \<notin> taken (blk_segs d)"
  shows "blk_inv cr Z ex (d\<lparr>blk_segs := pool_put j s (blk_segs d)\<rparr>)"
proof -
  note I = inv [unfolded blk_inv_def]
  have n: "k \<noteq> j" if "k \<in> taken (blk_segs d)" for k using that j by auto
  then have "pending_of i (d\<lparr>blk_segs := pool_put j s (blk_segs d)\<rparr>) = pending_of i d" for i
    using I by (auto simp: pending_of_def upd_nth intro!: arg_cong [where f = length] filter_cong dest: n)
  moreover have "slab (pool_put j s (blk_segs d)) ! k = slab (blk_segs d) ! k" if "k \<in> taken (blk_segs d)" for k
    using n [OF that] by (simp add: upd_nth)
  ultimately show ?thesis unfolding blk_inv_def using I by simp
qed

lemma seg_pending:
  assumes inv: "blk_inv cr Z ex d" and acq: "pool_acquire (blk_segs d) = Some (sp, j)" and s: "seg_fine d s" and i: "i = so_parent s"
  shows "blk_inv cr Z ex (upd_req i (rq_out_update Suc) (d\<lparr>blk_segs := pool_put j s sp, blk_calls := n, blk_inflight := j # blk_inflight d\<rparr>))"
    (is "blk_inv _ _ _ (upd_req i _ ?d1)")
proof -
  note I = inv [unfolded blk_inv_def]
  have A: "pool_ok sp" "j \<notin> taken (blk_segs d)" "taken sp = insert j (taken (blk_segs d))" "slab sp = slab (blk_segs d)" "j < length (slab (blk_segs d))"
    using pool_acquired [OF acq] I by auto
  have it: "i \<in> taken (blk_reqs d)" using s i by (simp add: seg_fine_def)
  have n: "k \<noteq> j" if "k \<in> set (blk_inflight d)" for k using that A(2) I by auto
  then have "length (filter (\<lambda>l. so_parent ((slab (blk_segs d))[j := s] ! l) = k) (blk_inflight d)) = pending_of k d" for k
    by (auto simp: pending_of_def upd_nth intro!: arg_cong [where f = length] filter_cong dest: n)
  then have p: "pending_of k ?d1 = pending_of k d + (if k = i then 1 else 0)" for k
    using A(4,5) i by (simp add: pending_of_def)
  let ?cr = "cr(i := cr i - 1)"
  have sf: "seg_fine (upd_req i (rq_out_update Suc) ?d1) = seg_fine d"
    by (auto simp: seg_fine_def fun_eq_iff upd_nth cong: io_buf.case_cong split: io_buf.split)
  have bf: "bounce_fine (upd_req i (rq_out_update Suc) ?d1) = bounce_fine d" by (simp add: bounce_fine_def fun_eq_iff)
  have segs: "\<forall>k \<in> taken (pool_put j s sp). seg_fine d (slab (pool_put j s sp) ! k)"
    using A I s n by (auto simp: upd_nth)
  have r: "rq_bounce ((slab (blk_reqs d))[i := rq_out_update Suc (slab (blk_reqs d) ! i)] ! k) = rq_bounce (slab (blk_reqs d) ! k)"
    "rq_status ((slab (blk_reqs d))[i := rq_out_update Suc (slab (blk_reqs d) ! i)] ! k) = rq_status (slab (blk_reqs d) ! k)"
    "k \<in> taken (blk_reqs d) \<Longrightarrow> rq_out ((slab (blk_reqs d))[i := rq_out_update Suc (slab (blk_reqs d) ! i)] ! k) = pending_of k ?d1 + cr k"
    "k \<in> taken (blk_reqs d) \<Longrightarrow> k \<notin> Z \<longrightarrow> 0 < pending_of k ?d1 + cr k" for k
    using I it taken_less [OF it] p [of k] by (auto simp: upd_nth)
  show ?thesis unfolding blk_inv_def sf bf using I A segs r by (simp add: n)
qed

lemma submit_seg_inv:
  assumes inv: "blk_inv cr {} ex d" and i: "cr i \<noteq> 0" "i \<in> taken (blk_reqs d)"
    and s: "seg_fine d \<lparr>so_op = op, so_buf = buf, so_bytes = n, so_off = off, so_parent = i\<rparr>"
  shows "\<exists>d'. submit_seg host i buf n off op sync d = Some d' \<and> blk_inv cr {} ex d' \<and> same_unit d d' \<and> i \<in> taken (blk_reqs d')"
proof (cases "pool_acquire (blk_segs d)")
  case None
  have "blk_inv cr {} ex (upd_req i (rq_failed_update (\<lambda>_. True)) d)"
    using inv_upd [OF inv i(2), of "rq_failed_update (\<lambda>_. True)" cr "{}"] pending_one [OF inv i(2)] i by auto
  then show ?thesis using None i by (simp add: submit_seg_def)
next
  case (Some p)
  obtain sp j where acq: "pool_acquire (blk_segs d) = Some (sp, j)" using Some by (cases p) auto
  let ?s = "\<lparr>so_op = op, so_buf = buf, so_bytes = n, so_off = off, so_parent = i\<rparr>"
  let ?d1 = "upd_req i (rq_out_update Suc) (d\<lparr>blk_segs := pool_put j ?s sp, blk_calls := Suc (blk_calls d)\<rparr>)"
  let ?dp = "upd_req i (rq_out_update Suc) (d\<lparr>blk_segs := pool_put j ?s sp, blk_calls := Suc (blk_calls d), blk_inflight := j # blk_inflight d\<rparr>)"
  have A: "j \<notin> taken (blk_segs d)" "slab sp = slab (blk_segs d)" "j < length (slab (blk_segs d))" "pool_release j sp = blk_segs d"
    using pool_acquired [OF acq] inv by (auto simp: blk_inv_def)
  have dp: "blk_inv cr {} ex ?dp" "same_unit d ?dp" using seg_pending [OF inv acq s] by (simp_all add: same_unit_def upd_req_def)
  have pend: "?d1\<lparr>blk_inflight := j # blk_inflight ?d1\<rparr> = ?dp" "?dp\<lparr>blk_inflight := blk_inflight d\<rparr> = ?d1" by (simp_all add: upd_req_def)
  show ?thesis
  proof (cases "bh_submit host sync (blk_calls d)")
    case Pending
    then show ?thesis using acq dp pend(1) i by (simp add: submit_seg_def Let_def)
  next
    case (Inline ok k)
    have "blk_complete 0 ok k ?dp = on_seg_complete j ok (host_transfer ?s ok k ?d1)"
      using A pend(2) by (simp add: blk_complete_def)
    then have "submit_seg host i buf n off op sync d = blk_complete 0 ok k ?dp" using Inline acq by (simp add: submit_seg_def Let_def)
    moreover obtain d' where "blk_complete 0 ok k ?dp = Some d'" "blk_inv cr {} ex d'" "same_unit ?dp d'" "i \<in> taken (blk_reqs d')"
      using blk_complete_inv [OF dp(1), of 0 ok k] i by auto
    ultimately show ?thesis using same_unit_trans [OF dp(2)] by auto
  next
    case Refused
    let ?d0 = "d\<lparr>blk_segs := pool_put j ?s (blk_segs d), blk_calls := Suc (blk_calls d)\<rparr>"
    have un: "rq_out_update ((\<lambda>n. n - Suc 0) \<circ> Suc) r = r" for r :: blk_req by (cases r) simp
    have "i < length (slab (blk_reqs d))" using i(2) by (rule taken_less)
    then have "submit_seg host i buf n off op sync d = Some (upd_req i (rq_failed_update (\<lambda>_. True)) ?d0)"
      using Refused acq A(4) by (simp add: submit_seg_def Let_def upd_req_def pool_put_release un)
    moreover have d0: "blk_inv cr {} ex ?d0" using put_free_seg [OF inv A(1), of ?s] by simp
    moreover have "blk_inv cr {} ex (upd_req i (rq_failed_update (\<lambda>_. True)) ?d0)"
      using inv_upd [OF d0, of i "rq_failed_update (\<lambda>_. True)" cr "{}"] pending_one [OF d0, of i] i by auto
    ultimately show ?thesis using i by (auto simp: same_unit_def upd_req_def)
  qed
qed

text \<open>The data of a request: inside RAM, or zeros that are only written.\<close>

definition dseg_ok :: "blk_device \<Rightarrow> io_op \<Rightarrow> data_seg \<Rightarrow> bool" where
  "dseg_ok d op x \<longleftrightarrow> (case x of (GuestBuf p, n) \<Rightarrow> p + n \<le> unat (gm_size (blk_mem d)) | (ZeroBuf, n) \<Rightarrow> op = OpWrite \<and> n \<le> ZERO_BYTES | _ \<Rightarrow> False)"

lemma dseg_ok_unit: "same_unit d d' \<Longrightarrow> dseg_ok d' op x = dseg_ok d op x"
  by (cases x; cases "fst x") (simp_all add: dseg_ok_def same_unit_def)

lemma unat_of_nat32_le: "unat (of_nat n :: u32) \<le> n"
  by (simp add: unat_of_nat take_bit_nat_eq_self_iff take_bit_nat_def)

lemma backend_size_unat: "length (blk_disk d) < 2 ^ 63 \<Longrightarrow> unat (backend_size d) = length (blk_disk d)"
  by (simp add: backend_size_def)

lemma submit_each_inv:
  assumes "blk_inv cr {} ex d" and "cr i \<noteq> 0" and "i \<in> taken (blk_reqs d)" and "\<forall>x \<in> set ss. dseg_ok d op x" and "op \<noteq> OpFlush"
    and "op = OpWrite \<longrightarrow> \<not> blk_readonly d"
  shows "\<exists>d'. submit_each host i ss off op sync d = Some d' \<and> blk_inv cr {} ex d' \<and> same_unit d d' \<and> i \<in> taken (blk_reqs d')"
  using assms
proof (induction ss arbitrary: off d)
  case (Cons x ss)
  obtain b n where x: "x = (b, n)" by fastforce
  show ?case
  proof (cases "backend_size d < off \<or> backend_size d - off < of_nat n")
    case True
    have "blk_inv cr {} ex (upd_req i (rq_failed_update (\<lambda>_. True)) d)"
      using inv_upd [OF Cons.prems(1,3), of "rq_failed_update (\<lambda>_. True)" cr "{}"] pending_one [OF Cons.prems(1,3)] Cons.prems(2) by auto
    then show ?thesis using True x Cons.prems(3) by simp
  next
    case False
    have l: "length (blk_disk d) < 2 ^ 63" "wf_mem (blk_mem d)" using Cons.prems(1) by (simp_all add: blk_inv_def)
    have dn: "dseg_ok d op (b, n)" using Cons.prems(4) x by simp
    then have n: "n < 2 ^ 64"
      using unat_lt [of "gm_size (blk_mem d)"] by (auto simp: dseg_ok_def split: io_buf.splits)
    have "unat off \<le> length (blk_disk d)" "n \<le> length (blk_disk d) - unat off"
      using False backend_size_unat [OF l(1)] n unat_sub [of off "backend_size d"] by (auto simp: word_le_nat_alt word_less_nat_alt not_less)
    then have "unat off + unat (of_nat n :: u32) \<le> length (blk_disk d)" using unat_of_nat32_le [of n] by linarith
    then have "seg_fine d \<lparr>so_op = op, so_buf = b, so_bytes = of_nat n, so_off = off, so_parent = i\<rparr>"
      using dn Cons.prems(3,6) unat_of_nat32_le [of n] by (auto simp: seg_fine_def dseg_ok_def split: io_buf.splits)
    then obtain d1 where d1: "submit_seg host i b (of_nat n) off op sync d = Some d1" "blk_inv cr {} ex d1" "same_unit d d1" "i \<in> taken (blk_reqs d1)"
      using submit_seg_inv [OF Cons.prems(1-3)] by blast
    have "\<forall>x \<in> set ss. dseg_ok d1 op x" "op = OpWrite \<longrightarrow> \<not> blk_readonly d1"
      using Cons.prems(4,6) dseg_ok_unit [OF d1(3)] d1(3) by (auto simp: same_unit_def)
    then obtain d2 where "submit_each host i ss (off + of_nat n) op sync d1 = Some d2" "blk_inv cr {} ex d2" "same_unit d1 d2" "i \<in> taken (blk_reqs d2)"
      using Cons.IH [OF d1(2) Cons.prems(2) d1(4) _ Cons.prems(5)] by blast
    then show ?thesis using d1 False x same_unit_trans [OF d1(3)] by auto
  qed
qed simp

lemma gather_length:
  "off + sum_list (map snd ss) \<le> length buf \<Longrightarrow> \<forall>x \<in> set ss. case x of (GuestBuf p, n) \<Rightarrow> p + n \<le> length rm | _ \<Rightarrow> True \<Longrightarrow>
     length (gather rm ss off buf) = length buf"
proof (induction rm ss off buf rule: gather.induct)
  case (2 rm p n ss off buf)
  then have "length (overwrite buf off (byte_range rm p n)) = length buf" by (subst length_overwrite) auto
  with 2 show ?case by simp
qed (simp_all add: length_overwrite)

lemma req_acquired:
  assumes inv: "blk_inv (\<lambda>_. 0) {} (Suc ex) d" and acq: "pool_acquire (blk_reqs d) = Some (rp, i)"
    and r: "rq_out r = 1" "rq_bounce r = None" "rq_status r < unat (gm_size (blk_mem d))"
  shows "blk_inv ((\<lambda>_. 0)(i := 1)) {} ex (d\<lparr>blk_reqs := pool_put i r rp\<rparr>)" and "i \<in> taken (pool_put i r rp)" and "pending_of i d = 0"
    and "slab (pool_put i r rp) ! i = r"
proof -
  note I = inv [unfolded blk_inv_def]
  have A: "pool_ok rp" "i \<notin> taken (blk_reqs d)" "taken rp = insert i (taken (blk_reqs d))" "slab rp = slab (blk_reqs d)" "i < length (slab (blk_reqs d))"
    "pool_inflight rp = Suc (pool_inflight (blk_reqs d))"
    using pool_acquired [OF acq] I by auto
  show "i \<in> taken (pool_put i r rp)" "slab (pool_put i r rp) ! i = r" using A by simp_all
  have par: "so_parent (slab (blk_segs d) ! j) \<in> taken (blk_reqs d)" "so_parent (slab (blk_segs d) ! j) \<noteq> i" if "j \<in> taken (blk_segs d)" for j
    using I A(2) that by (auto simp: seg_fine_def)
  then show z: "pending_of i d = 0" using I by (auto simp: pending_of_def filter_empty_conv)
  have "seg_fine (d\<lparr>blk_reqs := pool_put i r rp\<rparr>) (slab (blk_segs d) ! j)" if "j \<in> taken (blk_segs d)" for j
  proof -
    have "seg_fine d (slab (blk_segs d) ! j)" using I that by blast
    then show ?thesis using par [OF that] A(3,4) by (simp add: seg_fine_def upd_nth cong: io_buf.case_cong)
  qed
  moreover have "slab (pool_put i r rp) ! k = slab (blk_reqs d) ! k" if "k \<in> taken (blk_reqs d)" for k
    using that A(2,4) by (auto simp: upd_nth)
  moreover have "k \<noteq> i" if "k \<in> taken (blk_reqs d)" for k using that A(2) by auto
  ultimately show "blk_inv ((\<lambda>_. 0)(i := 1)) {} ex (d\<lparr>blk_reqs := pool_put i r rp\<rparr>)"
    unfolding blk_inv_def using I A z r by (simp add: upd_nth)
qed

lemma bounce_acquired:
  assumes inv: "blk_inv cr Z ex d" and acq: "pool_acquire (blk_bounce d) = Some (bp, b)" and i: "i \<in> taken (blk_reqs d)"
    and none: "pending_of i d = 0"
  shows "blk_inv cr Z ex (upd_req i (rq_bounce_update (\<lambda>_. Some b)) (d\<lparr>blk_bounce := bp\<rparr>))" (is "blk_inv _ _ _ ?d'")
    and "b \<in> taken bp" and "slab bp = slab (blk_bounce d)"
proof -
  note I = inv [unfolded blk_inv_def]
  have A: "pool_ok bp" "b \<notin> taken (blk_bounce d)" "taken bp = insert b (taken (blk_bounce d))" "slab bp = slab (blk_bounce d)"
    using pool_acquired [OF acq] I by auto
  then show "b \<in> taken bp" "slab bp = slab (blk_bounce d)" by simp_all
  let ?s = "slab (blk_reqs ?d')"
  have sl: "rq_out (?s ! k) = rq_out (slab (blk_reqs d) ! k)" "rq_status (?s ! k) = rq_status (slab (blk_reqs d) ! k)"
    "rq_bounce (?s ! k) = (if k = i then Some b else rq_bounce (slab (blk_reqs d) ! k))" for k
    using taken_less [OF i] by (auto simp: upd_nth)
  have "seg_fine ?d' (slab (blk_segs d) ! j)" if "j \<in> taken (blk_segs d)" for j
  proof -
    have "seg_fine d (slab (blk_segs d) ! j)" using I that by blast
    moreover have "so_parent (slab (blk_segs d) ! j) \<noteq> i" by (rule no_pending [OF inv none that])
    ultimately show ?thesis by (simp add: seg_fine_def upd_nth cong: io_buf.case_cong)
  qed
  moreover have "bounce_fine ?d' = bounce_fine d" by (simp add: bounce_fine_def fun_eq_iff)
  moreover have "rq_bounce (slab (blk_reqs d) ! k) \<noteq> Some b" if "k \<in> taken (blk_reqs d)" for k using I A(2) that by auto
  ultimately show "blk_inv cr Z ex ?d'" unfolding blk_inv_def sl using I A by auto
qed

definition all_guest :: "blk_device \<Rightarrow> data_seg list \<Rightarrow> bool" where
  "all_guest d ss \<longleftrightarrow> (\<forall>x \<in> set ss. case x of (GuestBuf p, n) \<Rightarrow> p + n \<le> unat (gm_size (blk_mem d)) | _ \<Rightarrow> False)"

lemma all_guest_unit: "same_unit d d' \<Longrightarrow> all_guest d' ss = all_guest d ss"
  by (simp add: all_guest_def same_unit_def cong: io_buf.case_cong prod.case_cong)

lemma submit_bounced_inv:
  assumes inv: "blk_inv cr {} ex d" and i: "cr i \<noteq> 0" "i \<in> taken (blk_reqs d)" and b: "rq_bounce (slab (blk_reqs d) ! i) = Some b"
    and ss: "all_guest d ss" and len: "sum_list (map snd ss) \<le> BOUNCE_CAP" "total_len = of_nat (sum_list (map snd ss))"
    and off: "unat base + unat total_len \<le> length (blk_disk d)" and op: "op \<noteq> OpFlush" "op = OpWrite \<longrightarrow> \<not> blk_readonly d"
  shows "\<exists>d'. submit_bounced host i b ss total_len base op sync d = Some d' \<and> blk_inv cr {} ex d' \<and> same_unit d d' \<and> i \<in> taken (blk_reqs d')"
proof -
  note I = inv [unfolded blk_inv_def]
  have "b \<in> taken (blk_bounce d)" using I i(2) b by auto
  then have bl: "b < length (slab (blk_bounce d))" by (rule taken_less)
  let ?s = "slab (blk_bounce d) ! b"
  let ?buf = "if op = OpWrite then gather (gm_ram (blk_mem d)) ss 0 (bn_buf ?s) else bn_buf ?s"
  let ?n = "\<lparr>bn_buf = ?buf, bn_segs = map (\<lambda>(p, n). (seg_ptr p, of_nat n)) ss\<rparr>"
  let ?d1 = "d\<lparr>blk_bounce := pool_put b ?n (blk_bounce d)\<rparr>"
  have bf: "bounce_fine d ?s" and wf: "length (gm_ram (blk_mem d)) = unat (gm_size (blk_mem d))" using I bl by (auto simp: wf_mem_def)
  have g: "case x of (GuestBuf p, n) \<Rightarrow> p + n \<le> unat (gm_size (blk_mem d)) | _ \<Rightarrow> False" if "x \<in> set ss" for x
    using ss that by (simp add: all_guest_def)
  have "length (gather (gm_ram (blk_mem d)) ss 0 (bn_buf ?s)) = length (bn_buf ?s)"
    using len(1) bf g by (intro gather_length) (fastforce simp: bounce_fine_def wf split: io_buf.split)+
  moreover have "seg_ptr p + unat (of_nat n :: u32) \<le> unat (gm_size (blk_mem d))" if "(p, n) \<in> set ss" for p n
    using g [OF that] unat_of_nat32_le [of n] by (auto split: io_buf.splits)
  ultimately have "bounce_fine d ?n" using bf by (auto simp: bounce_fine_def)
  then have d1: "blk_inv cr {} ex ?d1" unfolding blk_inv_def using I by (auto simp: upd_nth)
  have t: "unat total_len = sum_list (map snd ss)" using len by (simp add: unat_of_nat take_bit_nat_eq_self)
  then have u: "unat (ucast total_len :: u32) = sum_list (map snd ss)" using len by (simp add: unat_ucast_down)
  have "seg_fine ?d1 \<lparr>so_op = op, so_buf = BounceBuf b, so_bytes = ucast total_len, so_off = base, so_parent = i\<rparr>"
    using i b off op len(1) t u by (simp add: seg_fine_def)
  then show ?thesis using submit_seg_inv [OF d1 i(1), of op "BounceBuf b" "ucast total_len" base host sync] i(2)
    by (auto simp: submit_bounced_def Let_def same_unit_def)
qed

lemma submit_request_inv:
  assumes inv: "blk_inv (\<lambda>_. 0) {} (Suc ex) d" and st: "status_ptr < unat (gm_size (blk_mem d))"
    and ss: "\<forall>x \<in> set ss. dseg_ok d (if rtype = BLK_T_IN then OpRead else OpWrite) x" and many: "1 < length ss \<longrightarrow> all_guest d ss"
    and len: "sum_list (map snd ss) < 2 ^ 63" and ro: "rtype = BLK_T_FLUSH \<or> rtype = BLK_T_IN \<or> \<not> blk_readonly d"
  shows "\<exists>d'. submit_request host e h rtype base status_ptr ss sync d = Some d' \<and> blk_ok ex d' \<and> same_unit d d'"
proof (cases "pool_acquire (blk_reqs d)")
  case None
  then show ?thesis using reject_inv [OF inv st, of e h BLK_S_IOERR] by (simp add: submit_request_def)
next
  case (Some x)
  obtain rp i where acq: "pool_acquire (blk_reqs d) = Some (rp, i)" using Some by (cases x) auto
  let ?r = "\<lparr>rq_head = h, rq_bounce = None, rq_type = rtype, rq_epoch = e, rq_status = status_ptr, rq_out = 1, rq_done = 0, rq_failed = False\<rparr>"
  define cr where "cr = ((\<lambda>_. 0)(i := 1) :: nat \<Rightarrow> nat)"
  let ?op = "if rtype = BLK_T_IN then OpRead else OpWrite"
  define d1 where "d1 = d\<lparr>blk_reqs := pool_put i ?r rp\<rparr>"
  have d1: "blk_inv cr {} ex d1" "i \<in> taken (blk_reqs d1)" "pending_of i d1 = 0" "slab (blk_reqs d1) ! i = ?r"
    using req_acquired [OF inv acq, of ?r] st by (simp_all add: d1_def cr_def)
  have u1: "same_unit d d1" by (simp add: d1_def same_unit_def)
  define total_len where "total_len = (of_nat (sum_list (map snd ss)) :: u64)"
  define in_bounds where "in_bounds \<longleftrightarrow> base \<le> backend_size d1 \<and> total_len \<le> backend_size d1 - base"
  define bounce where "bounce = (if rtype \<noteq> BLK_T_FLUSH \<and> in_bounds \<and> 1 < length ss \<and> total_len \<le> of_nat BOUNCE_CAP then pool_acquire (blk_bounce d1) else None)"
  have i1: "cr i \<noteq> 0" by (simp add: cr_def)
  define X where "X = (if rtype = BLK_T_FLUSH then submit_seg host i NullBuf 0 0 OpFlush False d1
      else case bounce of
        Some (bp, b) \<Rightarrow> submit_bounced host i b ss total_len base ?op sync (upd_req i (rq_bounce_update (\<lambda>_. Some b)) (d1\<lparr>blk_bounce := bp\<rparr>))
      | None \<Rightarrow> submit_each host i ss base ?op sync d1)"
  have "\<exists>d3. X = Some d3 \<and> blk_inv cr {} ex d3 \<and> same_unit d1 d3 \<and> i \<in> taken (blk_reqs d3)"
  proof (cases "rtype = BLK_T_FLUSH")
    case True
    moreover have "seg_fine d1 \<lparr>so_op = OpFlush, so_buf = NullBuf, so_bytes = 0, so_off = 0, so_parent = i\<rparr>"
      using d1(2) by (simp add: seg_fine_def)
    ultimately show ?thesis using submit_seg_inv [OF d1(1) i1 d1(2)] unfolding X_def by simp
  next
    case False
    then have ro': "?op = OpWrite \<longrightarrow> \<not> blk_readonly d1" using ro u1 by (auto simp: same_unit_def)
    show ?thesis
    proof (cases bounce)
      case None
      then show ?thesis using submit_each_inv [OF d1(1) i1 d1(2), of ss ?op host base sync] ss ro' dseg_ok_unit [OF u1] False
        by (simp add: X_def)
    next
      case (Some y)
      obtain bp b where y: "y = (bp, b)" by fastforce
      have c: "pool_acquire (blk_bounce d1) = Some (bp, b)" "in_bounds" "1 < length ss" "total_len \<le> of_nat BOUNCE_CAP"
        using Some y by (auto simp: bounce_def split: if_splits)
      let ?d2 = "upd_req i (rq_bounce_update (\<lambda>_. Some b)) (d1\<lparr>blk_bounce := bp\<rparr>)"
      have d2: "blk_inv cr {} ex ?d2" using bounce_acquired(1) [OF d1(1) c(1) d1(2,3)] .
      have u2: "same_unit d1 ?d2" by (simp add: same_unit_def upd_req_def)
      have t: "unat total_len = sum_list (map snd ss)" using len by (simp add: total_len_def unat_of_nat take_bit_nat_eq_self)
      then have cap: "sum_list (map snd ss) \<le> BOUNCE_CAP" using c(4) by (simp add: word_le_nat_alt)
      have "unat (backend_size d1) = length (blk_disk d1)" using d1(1) by (intro backend_size_unat) (simp add: blk_inv_def)
      then have off: "unat base + unat total_len \<le> length (blk_disk ?d2)"
        using c(2) unat_sub [of base "backend_size d1"] by (auto simp: in_bounds_def word_le_nat_alt)
      have g: "all_guest ?d2 ss" using many c(3) all_guest_unit [OF same_unit_trans [OF u1 u2]] by simp
      have at: "rq_bounce (slab (blk_reqs ?d2) ! i) = Some b" "i \<in> taken (blk_reqs ?d2)" using d1(2) taken_less [OF d1(2)] by simp_all
      have op: "?op \<noteq> OpFlush" "?op = OpWrite \<longrightarrow> \<not> blk_readonly ?d2" using ro' by simp_all
      obtain d3 where "submit_bounced host i b ss total_len base ?op sync ?d2 = Some d3" "blk_inv cr {} ex d3" "same_unit ?d2 d3" "i \<in> taken (blk_reqs d3)"
        using submit_bounced_inv [OF d2 i1 at(2,1) g cap total_len_def off op] by blast
      then show ?thesis using False Some y same_unit_trans [OF u2] by (auto simp: X_def)
    qed
  qed
  then obtain d3 where d3: "X = Some d3" "blk_inv cr {} ex d3" "same_unit d1 d3" "i \<in> taken (blk_reqs d3)" by blast
  have "cr = (\<lambda>_. 0)(i := Suc ((\<lambda>_. 0) i))" by (simp add: cr_def)
  then obtain d' where d': "(let d4 = upd_req i (rq_out_update (\<lambda>n. n - 1)) d3 in if rq_out (slab (blk_reqs d3) ! i) = 1 then finish_request i d4 else Some d4) = Some d'"
      "blk_ok ex d'" "same_unit d3 d'"
    using release_hold [of "\<lambda>_. 0" i "{}" ex d3] d3(2,4) by auto
  have "submit_request host e h rtype base status_ptr ss sync d = X \<bind> (\<lambda>d3. let d4 = upd_req i (rq_out_update (\<lambda>n. n - 1)) d3
      in if rq_out (slab (blk_reqs d3) ! i) = 1 then finish_request i d4 else Some d4)"
    unfolding submit_request_def X_def bounce_def in_bounds_def total_len_def d1_def acq Let_def option.case prod.case by (rule refl)
  then have "submit_request host e h rtype base status_ptr ss sync d = Some d'" using d3(1) d'(1) by simp
  then show ?thesis using d'(2) same_unit_trans [OF same_unit_trans [OF u1 d3(3)] d'(3)] by blast
qed

section \<open>Chains\<close>

text \<open>Descriptors carry 32-bit lengths.\<close>

definition len_ok :: "chain_buf \<Rightarrow> bool" where
  "len_ok b \<longleftrightarrow> cb_len b < 2 ^ 32"

lemma push_buf_len: "list_all len_ok bs \<Longrightarrow> list_all len_ok (push_buf gm d bs)"
  using unat_lt [of "d_len d"] by (auto simp: push_buf_def buf_of_def len_ok_def unat_ucast_up split: option.split)

lemma indirect_len: "list_all len_ok bs \<Longrightarrow> list_all len_ok (indirect_loop gm sz d inner_count i step bs)"
proof (induction gm sz d inner_count i step bs rule: indirect_loop.induct)
  case (1 gm sz d inner_count i step bs)
  note push = push_buf_len [OF 1(2)]
  show ?case by (subst indirect_loop.simps) (auto simp: Let_def push 1 split: option.split)
qed

lemma chain_len: "list_all len_ok bs \<Longrightarrow> list_all len_ok (chain_loop k q gm cur bs)"
  by (induction k arbitrary: cur bs) (auto simp: Let_def push_buf_len indirect_len split: option.split)

lemma pop_len:
  assumes "pop_into q gm \<lparr>head_index = 0, bufs = []\<rparr> = Some (q', gm', ch, r)"
  shows "list_all len_ok (bufs ch)"
  using assms by (auto simp: pop_into_def Let_def chain_len split: if_splits prod.splits)

lemma sum_len: "list_all len_ok bs \<Longrightarrow> sum_list (map cb_len bs) \<le> length bs * 2 ^ 32"
  by (induction bs) (auto simp: len_ok_def)

text \<open>What the code relies on of the file: a discard does not change its length.\<close>

definition host_ok :: "blk_host \<Rightarrow> bool" where
  "host_ok host \<longleftrightarrow> (\<forall>k off n disk disk'. bh_discard host k off n disk = Some disk' \<longrightarrow> length disk' = length disk)"

definition wz_ok :: "bool \<Rightarrow> (u64 \<times> u64) option \<Rightarrow> bool" where
  "wz_ok is_wz wz \<longleftrightarrow> (case wz of None \<Rightarrow> True | Some (off, n) \<Rightarrow> is_wz \<and> unat n \<le> ZERO_BYTES)"

lemma sectors_len: "ucast (n :: u32) \<le> BLK_MAX_WRITE_ZEROES_SECTORS \<Longrightarrow> unat (ucast n * SECTOR_SIZE :: u64) \<le> ZERO_BYTES"
proof -
  assume "ucast n \<le> BLK_MAX_WRITE_ZEROES_SECTORS"
  then have n: "unat n \<le> 0x2000" by (simp add: word_le_nat_alt unat_ucast_up)
  then have "unat (ucast n * SECTOR_SIZE :: u64) = unat n * 512"
    by (subst unat_mult_lem [THEN iffD1]) (auto simp: unat_ucast_up)
  then show ?thesis using n by simp
qed

lemma range_step_inv:
  assumes "host_ok host" and "blk_inv cr Z ex d" and "\<not> blk_readonly d" and "wz_ok is_wz wz" and "range_step host is_wz buf k wz d = (ok, wz', d')"
  shows "blk_inv cr Z ex d' \<and> same_unit d d' \<and> wz_ok is_wz wz'"
  using assms sectors_len inv_disk [of cr Z ex "d\<lparr>blk_calls := Suc (blk_calls d)\<rparr>"]
  by (auto simp: range_step_def Let_def same_unit_def wz_ok_def host_ok_def not_less split: if_splits option.splits)

lemma range_loop_inv:
  assumes "host_ok host" and "blk_inv cr Z ex d" and "\<not> blk_readonly d" and "wz_ok is_wz wz" and "range_loop host is_wz buf ks wz d = (ok, wz', d')"
  shows "blk_inv cr Z ex d' \<and> same_unit d d' \<and> wz_ok is_wz wz'"
  using assms(2-)
proof (induction ks arbitrary: wz d)
  case (Cons k ks)
  obtain ok1 wz1 d1 where s: "range_step host is_wz buf k wz d = (ok1, wz1, d1)" by (metis prod_cases3)
  have i: "blk_inv cr Z ex d1" "same_unit d d1" "wz_ok is_wz wz1" using range_step_inv [OF assms(1) Cons.prems(1-3) s] by auto
  show ?case
  proof (cases ok1)
    case True
    have "\<not> blk_readonly d1" using i(2) Cons.prems(2) by (simp add: same_unit_def)
    then show ?thesis using Cons.IH [OF i(1) _ i(3)] Cons.prems(4) s True same_unit_trans [OF i(2)] by simp
  next
    case False
    then show ?thesis using s i Cons.prems(4) by simp
  qed
qed simp

lemma serve_ranges_inv:
  assumes h: "host_ok host" and inv: "blk_ok (Suc ex) d" and st: "status_ptr < unat (gm_size (blk_mem d))"
    and t: "rtype = BLK_T_DISCARD \<or> rtype = BLK_T_WRITE_ZEROES"
  shows "\<exists>d'. serve_ranges host e h0 rtype status_ptr dbufs lone d = Some d' \<and> blk_ok ex d' \<and> same_unit d d'"
proof -
  let ?wz = "rtype = BLK_T_WRITE_ZEROES" and ?n = "sum_list (map cb_len dbufs)"
  let ?buf = "gather_ranges (blk_mem d) dbufs 0 (replicate (16 * BLK_MAX_RANGE_SEG) 0)"
  note rej = reject_inv [OF inv st, of e h0]
  consider (bad) "?n = 0 \<or> ?n mod 16 \<noteq> 0 \<or> (\<exists>b \<in> set dbufs. cb_write b)" | (ro) "\<not> (?n = 0 \<or> ?n mod 16 \<noteq> 0 \<or> (\<exists>b \<in> set dbufs. cb_write b))" "blk_readonly d"
    | (many) "\<not> (?n = 0 \<or> ?n mod 16 \<noteq> 0 \<or> (\<exists>b \<in> set dbufs. cb_write b))" "\<not> blk_readonly d" "BLK_MAX_RANGE_SEG < ?n div 16"
    | (good) "\<not> (?n = 0 \<or> ?n mod 16 \<noteq> 0 \<or> (\<exists>b \<in> set dbufs. cb_write b))" "\<not> blk_readonly d" "\<not> BLK_MAX_RANGE_SEG < ?n div 16" by blast
  then show ?thesis
  proof cases
    case good
    obtain ok wz d1 where l: "range_loop host ?wz ?buf [0..<?n div 16] None d = (ok, wz, d1)" by (metis prod_cases3)
    have d1: "blk_ok (Suc ex) d1" "same_unit d d1" "wz_ok ?wz wz"
      using range_loop_inv [OF h inv good(2) _ l] by (auto simp: wz_ok_def)
    have st1: "status_ptr < unat (gm_size (blk_mem d1))" and ro1: "\<not> blk_readonly d1" using st good(2) d1(2) by (simp_all add: same_unit_def)
    have inline: "\<exists>d'. finish_inline e h0 (Some status_ptr) s d2 = Some d' \<and> blk_ok ex d' \<and> same_unit d d'"
      if "blk_ok (Suc ex) d2" "same_unit d1 d2" for s d2
    proof -
      have "\<forall>p. Some status_ptr = Some p \<longrightarrow> p < unat (gm_size (blk_mem d2))" using st1 that(2) by (simp add: same_unit_def)
      then show ?thesis using finish_inline_inv [OF that(1)] same_unit_trans [OF same_unit_trans [OF d1(2) that(2)]] by blast
    qed
    show ?thesis
    proof (cases "ok \<and> wz \<noteq> None")
      case True
      then obtain off n where wz: "wz = Some (off, n)" "ok" by auto
      let ?d2 = "d1\<lparr>ops_write_zeroes := ops_write_zeroes d1 + 1\<rparr>"
      have "?wz" "unat n \<le> ZERO_BYTES" using d1(3) wz by (auto simp: wz_ok_def)
      moreover have "same_unit d ?d2" using d1(2) by (simp add: same_unit_def)
      ultimately show ?thesis
        using submit_request_inv [of ex ?d2 status_ptr "[(ZeroBuf, unat n)]" rtype host e h0 off lone] d1(1) st1 ro1 good l wz same_unit_trans [of d ?d2]
        by (auto simp: serve_ranges_def Let_def dseg_ok_def)
    next
      case False
      then show ?thesis using good l d1(1)
        by (cases ok; cases wz) (auto simp: serve_ranges_def Let_def intro!: inline)
    qed
  qed (use rej in \<open>auto simp: serve_ranges_def Let_def\<close>)
qed

text \<open>The buffers of a popped chain.\<close>

definition chain_ok :: "blk_device \<Rightarrow> chain_buf list \<Rightarrow> bool" where
  "chain_ok d bs \<longleftrightarrow> list_all (buf_in_ram (blk_mem d)) bs \<and> list_all len_ok bs \<and> length bs < 2 ^ 16"

lemma chain_ok_inner: "chain_ok d bs \<Longrightarrow> chain_ok d (butlast (tl bs))"
  unfolding chain_ok_def list_all_iff
  by (auto dest!: in_set_butlastD elim: list.set_sel(2) [rotated])
    (metis list.set_sel(2) tl_Nil empty_iff list.set(1))+

lemma chain_ok_sum: "chain_ok d bs \<Longrightarrow> sum_list (map cb_len bs) < 2 ^ 63"
proof -
  assume c: "chain_ok d bs"
  then have "sum_list (map cb_len bs) \<le> length bs * 2 ^ 32" by (intro sum_len) (simp add: chain_ok_def)
  moreover have "length bs < 2 ^ 16" using c by (simp add: chain_ok_def)
  ultimately show ?thesis by simp
qed

lemma serve_io_inv:
  assumes inv: "blk_ok (Suc ex) d" and st: "status_ptr < unat (gm_size (blk_mem d))" and bs: "chain_ok d dbufs"
  shows "\<exists>d'. serve_io host e h0 rtype off status_ptr dbufs lone d = Some d' \<and> blk_ok ex d' \<and> same_unit d d'"
proof -
  note rej = reject_inv [OF inv st, of e h0]
  have inl: "\<exists>d'. finish_inline e h0 (Some status_ptr) BLK_S_OK d = Some d' \<and> blk_ok ex d' \<and> same_unit d d'"
    using finish_inline_inv [OF inv, of "Some status_ptr"] st by simp
  have data: "\<forall>x \<in> set (map guest_seg dbufs). dseg_ok d' op x" "all_guest d' (map guest_seg dbufs)" if "blk_mem d' = blk_mem d" for d' op
    using bs that by (auto simp: chain_ok_def list_all_iff guest_seg_def dseg_ok_def all_guest_def buf_in_ram_def)
  have "snd (guest_seg b) = cb_len b" for b by (simp add: guest_seg_def)
  then have len: "sum_list (map snd (map guest_seg dbufs)) < 2 ^ 63" using chain_ok_sum [OF bs] by (simp add: comp_def)
  have sub: "\<exists>d''. submit_request host e h0 rtype off status_ptr (map guest_seg dbufs) s d' = Some d'' \<and> blk_ok ex d'' \<and> same_unit d d''"
    if "blk_ok (Suc ex) d'" "same_unit d d'" "blk_mem d' = blk_mem d" "rtype = BLK_T_IN \<or> \<not> blk_readonly d" for s d'
  proof -
    have "rtype = BLK_T_FLUSH \<or> rtype = BLK_T_IN \<or> \<not> blk_readonly d'" using that by (simp add: same_unit_def)
    then show ?thesis
      using submit_request_inv [OF that(1) _ data(1) [OF that(3)] _ len] data(2) [OF that(3)] st that(3) same_unit_trans [OF that(2)] by metis
  qed
  have sub_in: "rtype = BLK_T_IN \<Longrightarrow> \<exists>d''. submit_request host e h0 rtype off status_ptr (map guest_seg dbufs) lone (d\<lparr>ops_in := ops_in d + 1\<rparr>) = Some d'' \<and> blk_ok ex d'' \<and> same_unit d d''"
    by (rule sub) (use inv in simp_all)
  have sub_out: "\<not> blk_readonly d \<Longrightarrow> \<exists>d''. submit_request host e h0 rtype off status_ptr (map guest_seg dbufs) lone (d\<lparr>ops_out := ops_out d + 1\<rparr>) = Some d'' \<and> blk_ok ex d'' \<and> same_unit d d''"
    by (rule sub) (use inv in simp_all)
  show ?thesis
  proof (cases "rtype = BLK_T_FLUSH")
    case True
    then show ?thesis using submit_request_inv [of ex "d\<lparr>ops_flush := ops_flush d + 1\<rparr>" status_ptr "[]" rtype host e h0 off False] inv st
        same_unit_trans [of d "d\<lparr>ops_flush := ops_flush d + 1\<rparr>"] by (auto simp: serve_io_def)
  next
    case False
    then show ?thesis using rej inl sub_in sub_out by (cases "rtype = BLK_T_IN") (auto simp: serve_io_def)
  qed
qed

lemma serve_chain_inv:
  assumes h: "host_ok host" and inv: "blk_ok (Suc ex) d" and bs: "chain_ok d (bufs ch)"
  shows "\<exists>d'. serve_chain host e ch lone d = Some d' \<and> blk_ok ex d' \<and> same_unit d d'"
proof (cases "length (bufs ch) < 2")
  case True
  then show ?thesis using settle_inv [of _ _ _ "d\<lparr>ops_err := ops_err d + 1\<rparr>"] inv same_unit_trans [OF same_unit_counters(6) same_unit_settle]
    by (auto simp: serve_chain_def Let_def)
next
  case False
  let ?l = "last (bufs ch)"
  define sta_ok where "sta_ok \<longleftrightarrow> cb_write ?l \<and> 1 \<le> cb_len ?l"
  define hdr_ok where "hdr_ok \<longleftrightarrow> \<not> cb_write (hd (bufs ch)) \<and> 16 \<le> cb_len (hd (bufs ch))"
  have "?l \<in> set (bufs ch)" using False by (intro last_in_set) auto
  then have "buf_in_ram (blk_mem d) ?l" using bs by (simp add: chain_ok_def list_all_iff)
  then have st: "cb_ptr ?l < unat (gm_size (blk_mem d))" if sta_ok using that by (simp add: sta_ok_def buf_in_ram_def)
  show ?thesis
  proof (cases "hdr_ok \<and> sta_ok")
    case no: False
    let ?d1 = "d\<lparr>ops_err := ops_err d + 1\<rparr>" and ?sp = "if sta_ok then Some (cb_ptr ?l) else None"
    have "\<forall>p. ?sp = Some p \<longrightarrow> p < unat (gm_size (blk_mem ?d1))" using st by auto
    then obtain d' where "finish_inline e (head_index ch) ?sp BLK_S_UNSUPP ?d1 = Some d'" "blk_ok ex d'" "same_unit ?d1 d'"
      using finish_inline_inv [of "\<lambda>_. 0" "{}" ex ?d1 ?sp] inv by (metis inv_counters(6))
    moreover have "serve_chain host e ch lone d = finish_inline e (head_index ch) ?sp BLK_S_UNSUPP ?d1"
      using False no by (auto simp: serve_chain_def Let_def hdr_ok_def sta_ok_def)
    ultimately show ?thesis using same_unit_trans [OF same_unit_counters(6)] by auto
  next
    case True
    then have s: "cb_ptr ?l < unat (gm_size (blk_mem d))" using st by simp
    show ?thesis
      using True False reject_inv [OF inv s] serve_ranges_inv [OF h inv s] serve_io_inv [OF inv s chain_ok_inner [OF bs]]
      by (simp add: serve_chain_def Let_def hdr_ok_def sta_ok_def)
  qed
qed

lemma blk_step_inv:
  assumes h: "host_ok host" and inv: "blk_ok 0 d"
  shows "\<exists>d' go. blk_step host d = Some (d', go) \<and> blk_ok 0 d' \<and> same_unit d d'"
proof -
  have wf: "wf_mem (blk_mem d)" "vq_ok (blk_queue d)" using inv by (simp_all add: blk_inv_def)
  obtain q gm ch r where p: "pop_into (blk_queue d) (blk_mem d) \<lparr>head_index = 0, bufs = []\<rparr> = Some (q, gm, ch, r)" "vq_ok q"
      "max_size q = max_size (blk_queue d)" "wf_mem gm" "\<forall>b \<in> set (bufs ch). buf_in_ram gm b" "gm_size gm = gm_size (blk_mem d)" "length (bufs ch) < 2 ^ 16"
    using pop_fresh [OF wf] by blast
  let ?d1 = "d\<lparr>blk_queue := q, blk_mem := gm\<rparr>"
  have d1: "blk_ok 0 ?d1" "same_unit d ?d1" using inv_mem [OF inv_queue [OF inv p(2)], of gm] p by (simp_all add: same_unit_def)
  show ?thesis
  proof (cases r)
    case False
    then show ?thesis using p(1) d1 by (intro exI [of _ ?d1] exI [of _ False]) (simp add: blk_step_def)
  next
    case True
    define depth where "depth = (of_nat (Suc (blk_active d)) + ucast (avail_pending q gm) :: u64)"
    define d3 where "d3 = ?d1\<lparr>blk_active := Suc (blk_active d), max_depth := max (max_depth d) depth\<rparr>"
    have d3: "blk_ok (Suc 0) d3" "same_unit d d3" using d1 by (auto simp: d3_def blk_inv_def same_unit_def)
    have "chain_ok d3 (bufs ch)" using p pop_len [OF p(1)] by (simp add: d3_def chain_ok_def list_all_iff)
    then obtain d' where "serve_chain host (blk_epoch d3) ch (bh_pump host \<and> depth = 1) d3 = Some d'" "blk_ok 0 d'" "same_unit d3 d'"
      using serve_chain_inv [OF h d3(1)] by blast
    then show ?thesis using p(1) True same_unit_trans [OF d3(2)]
      by (auto simp: blk_step_def Let_def d3_def depth_def)
  qed
qed

lemma drain_ring_inv:
  "host_ok host \<Longrightarrow> blk_ok 0 d \<Longrightarrow> \<exists>d'. drain_ring host fuel d = Some d' \<and> blk_ok 0 d' \<and> same_unit d d'"
proof (induction fuel arbitrary: d)
  case (Suc fuel)
  obtain d1 go where d1: "blk_step host d = Some (d1, go)" "blk_ok 0 d1" "same_unit d d1" using blk_step_inv [OF Suc.prems] by blast
  then show ?case using Suc.IH [OF Suc.prems(1) d1(2)] same_unit_trans [OF d1(3)] by (auto split: if_splits)
qed simp

lemma blk_drain_inv:
  "host_ok host \<Longrightarrow> blk_ok 0 d \<Longrightarrow> \<exists>d'. blk_drain host fuel d = Some d' \<and> blk_ok 0 d' \<and> same_unit d d'"
  using drain_ring_inv by (auto simp: blk_drain_def)

lemma blk_quiesce_inv:
  assumes "host_ok host" and "blk_ok 0 d"
  shows "\<exists>d'. blk_quiesce host fuel d = Some d' \<and> blk_ok 0 d' \<and> same_unit d d'"
proof (cases "blk_stopped d")
  case False
  then show ?thesis using drain_ring_inv [OF assms, of fuel] same_unit_trans [OF _ same_unit_counters(9)] by (auto simp: blk_quiesce_def)
qed (use assms in \<open>simp add: blk_quiesce_def\<close>)

end
