(* ===== verification/Blk_Service.thy ===== *)
theory Blk_Service
  imports Blk_Invariant
begin

text \<open>
  The block device behind its transport (\<^verbatim>\<open>src/virtio/blk.rs\<close>): it meets the contract of the transport, and
  what guest and host can do to it, in any order, keeps it safe; what is in flight always settles, and after
  a reset it settles without touching the queue.
\<close>

section \<open>The contract\<close>

text \<open>The invariant, the queue's maximum, and the file: of fixed length, and \<open>disk\<close> as long as it is read-only.\<close>

definition blk_good :: "u32 \<Rightarrow> blk_host \<Rightarrow> bool \<Rightarrow> bytes \<Rightarrow> blk_device \<Rightarrow> bool" where
  "blk_good qm host ro disk d \<longleftrightarrow> host_ok host \<and> blk_ok 0 d \<and> blk_queue_max d = qm \<and> max_size (blk_queue d) = qm \<and>
     blk_readonly d = ro \<and> length (blk_disk d) = length disk \<and> (ro \<longrightarrow> blk_disk d = disk)"

lemma blk_good_unit: "blk_good qm host ro disk d \<Longrightarrow> same_unit d d' \<Longrightarrow> blk_ok 0 d' \<Longrightarrow> blk_good qm host ro disk d'"
  by (auto simp: blk_good_def same_unit_def)

definition blk_queue_limit :: "u32 \<Rightarrow> u32 \<Rightarrow> u32" where
  "blk_queue_limit qm q = (if q = 0 then qm else 0)"

lemma blk_new_ok:
  assumes "wf_mem gm" and "length disk < 2 ^ 63" and "qm < 2 ^ 16"
  shows "blk_ok 0 (blk_new gm disk ro qm)"
proof -
  have "bounce_fine d \<lparr>bn_buf = replicate BOUNCE_CAP 0, bn_segs = []\<rparr>" for d
    unfolding bounce_fine_def by (simp only: bounce_slot.simps length_replicate) simp
  moreover have "slab (pool_new n x) ! i = x" if "i < length (slab (pool_new n x))" for n i and x :: bounce_slot
    using that by (simp add: pool_new_def Let_def)
  ultimately have b: "\<forall>i < length (slab (pool_new BOUNCE_SLOTS \<lparr>bn_buf = replicate BOUNCE_CAP 0, bn_segs = []\<rparr>)).
      bounce_fine d (slab (pool_new BOUNCE_SLOTS \<lparr>bn_buf = replicate BOUNCE_CAP 0, bn_segs = []\<rparr>) ! i)" for d
    by metis
  have "max_size (vq_new qm) = qm" "vq_ok (vq_new qm)" using assms(3) by (simp_all add: vq_new_def vq_ok_def)
  then show ?thesis unfolding blk_inv_def blk_new_def using assms b by simp
qed

lemma blk_notify_inv:
  assumes "host_ok host" and "blk_ok 0 d"
  shows "\<exists>d' r. blk_notify_queue host fuel idx d = Some (d', r) \<and> blk_ok 0 d' \<and> same_unit d d'"
  using blk_drain_inv [OF assms, of fuel] assms by (auto simp: blk_notify_queue_def)

lemma blk_good_queue:
  assumes "blk_good qm host ro disk d" and "vq_ok q" and "max_size q = qm"
  shows "blk_good qm host ro disk (d\<lparr>blk_queue := q\<rparr>)"
  using assms inv_queue [of "\<lambda>_. 0" "{}" 0 d q] by (simp add: blk_good_def)

lemma blk_good_vq: "blk_good qm host ro disk d \<Longrightarrow> vq_ok (blk_queue d) \<and> max_size (blk_queue d) = qm \<and> qm < 2 ^ 16"
  by (auto simp: blk_good_def blk_inv_def vq_ok_def)

lemma enable_size: "enable_ok (blk_queue_limit qm) 0 da aa ua n \<Longrightarrow> (ucast n :: u32) \<le> qm"
proof -
  assume "enable_ok (blk_queue_limit qm) 0 da aa ua n"
  then have "unat n \<le> unat (ucast qm :: u16)" by (simp add: enable_ok_def blk_queue_limit_def word_le_nat_alt)
  also have "\<dots> \<le> unat qm" by (simp add: unsigned_ucast_eq take_bit_nat_less_eq_self)
  finally show ?thesis by (simp add: word_le_nat_alt unat_ucast_up)
qed

interpretation blk: virtio_contract "blk_dev fuel host" "blk_good qm host ro disk" "blk_queue_limit qm" for fuel host qm ro disk
proof (unfold_locales, goal_cases)
  case (1 d q)
  then show ?case by (simp add: blk_dev_def blk_queue_limit_def blk_good_def)
next
  case (2 d f)
  then show ?case by (simp add: blk_dev_def blk_set_driver_features_def blk_good_def)
next
  case (3 d q da aa ua n ev)
  let ?q = "set_ready True (set_event_idx_enabled ev (set_size (ucast n) (set_used_gpa ua (set_avail_gpa aa (set_desc_gpa da (blk_queue d))))))"
  have "max_size ?q = max_size (blk_queue d)" "vq_size ?q = ucast n"
    by (simp_all add: set_ready_def set_event_idx_enabled_def set_size_def set_used_gpa_def set_avail_gpa_def set_desc_gpa_def)
  then have "vq_ok ?q" "max_size ?q = qm" if "q = 0"
    using blk_good_vq [OF 3(1)] enable_size [of qm da aa ua n] 3(2) that by (simp_all add: vq_ok_def)
  then show ?case using 3(1) blk_good_queue [OF 3(1), of ?q] by (simp add: blk_dev_def blk_enable_queue_def)
next
  case (4 d q)
  then show ?case using blk_good_queue [OF 4, of "set_ready False (blk_queue d)"] blk_good_vq [OF 4]
    by (auto simp: blk_dev_def blk_disable_queue_def set_ready_def vq_ok_def)
next
  case (5 d q)
  then have "host_ok host" "blk_ok 0 d" by (simp_all add: blk_good_def)
  then show ?case using blk_notify_inv [of host d fuel q] blk_good_unit [OF 5] by (auto simp: blk_dev_def)
next
  case (7 d)
  have "blk_good qm host ro disk (d\<lparr>blk_epoch := blk_epoch d + 1, blk_features := 0\<rparr>)" using 7 by (simp add: blk_good_def)
  from blk_good_queue [OF this, of "vq_reset (blk_queue d)"] blk_good_vq [OF 7]
  have "blk_good qm host ro disk (d\<lparr>blk_epoch := blk_epoch d + 1, blk_features := 0, blk_queue := vq_reset (blk_queue d)\<rparr>)"
    by (auto simp: vq_reset_def vq_ok_def)
  moreover have "blk_reset d = d\<lparr>blk_epoch := blk_epoch d + 1, blk_features := 0, blk_queue := vq_reset (blk_queue d)\<rparr>"
    by (simp add: blk_reset_def)
  ultimately show ?case by (simp add: blk_dev_def)
qed (simp_all add: blk_dev_def)

section \<open>Any guest, any host\<close>

text \<open>
  What happens to a block device: the guest accesses its registers and stores to its RAM, and the host
  completes one of the operations it holds, whose interrupt goes through the transport.
\<close>

datatype blk_event = BlkAccess guest_op | BlkStores bytes | BlkComplete nat bool nat

fun blk_event_step :: "nat \<Rightarrow> blk_host \<Rightarrow> blk_event \<Rightarrow> blk_device transport \<Rightarrow> blk_device transport option" where
  "blk_event_step fuel host (BlkAccess x) t = transport_op (blk_dev fuel host) x t"
| "blk_event_step fuel host (BlkStores r) t = (let d = tp_device t; gm = blk_mem d
     in Some (if length r = length (gm_ram gm) then t\<lparr>tp_device := d\<lparr>blk_mem := gm\<lparr>gm_ram := r\<rparr>\<rparr>\<rparr> else t))"
| "blk_event_step fuel host (BlkComplete n ok k) t = (let d = tp_device t in case blk_complete n ok k d of
     None \<Rightarrow> None
   | Some d' \<Rightarrow> Some (fst (raise_all (drop (length (blk_raised d)) (blk_raised d')) (t\<lparr>tp_device := d'\<rparr>))))"

fun blk_run :: "nat \<Rightarrow> blk_host \<Rightarrow> blk_event list \<Rightarrow> blk_device transport \<Rightarrow> blk_device transport option" where
  "blk_run fuel host [] t = Some t"
| "blk_run fuel host (e # es) t = (case blk_event_step fuel host e t of None \<Rightarrow> None | Some t' \<Rightarrow> blk_run fuel host es t')"

abbreviation blk_safe :: "u32 \<Rightarrow> blk_host \<Rightarrow> bool \<Rightarrow> bytes \<Rightarrow> blk_device transport \<Rightarrow> bool" where
  "blk_safe \<equiv> blk.safe"

lemma complete_any: "blk_ok 0 d \<Longrightarrow> \<exists>d'. blk_complete n ok k d = Some d' \<and> blk_ok 0 d' \<and> same_unit d d'"
  using blk_complete_inv [of "\<lambda>_. 0" "{}" 0 d n ok k] by (cases "n < length (blk_inflight d)") (auto simp: blk_complete_def)

lemma blk_event_safe:
  assumes "blk_safe qm host ro disk t"
  shows "\<exists>t'. blk_event_step fuel host e t = Some t' \<and> blk_safe qm host ro disk t'"
proof (cases e)
  case (BlkAccess x)
  then show ?thesis using blk.safe_op [OF assms, of fuel x] by (auto split: option.splits)
next
  case (BlkStores r)
  let ?gm = "blk_mem (tp_device t)"
  have "wf_mem (?gm\<lparr>gm_ram := r\<rparr>)" if "length r = length (gm_ram ?gm)"
    using assms that by (auto simp: blk.safe_def blk_good_def blk_inv_def wf_mem_def split: option.splits)
  then have "blk_ok 0 (tp_device t\<lparr>blk_mem := ?gm\<lparr>gm_ram := r\<rparr>\<rparr>)" if "length r = length (gm_ram ?gm)"
    using assms that inv_mem [of _ _ _ "tp_device t" "?gm\<lparr>gm_ram := r\<rparr>"] by (simp add: blk.safe_def blk_good_def)
  then show ?thesis using BlkStores assms by (simp add: blk.safe_def blk_good_def Let_def)
next
  case (BlkComplete n ok k)
  obtain d' where "blk_complete n ok k (tp_device t) = Some d'" "blk_good qm host ro disk d'"
    using complete_any [of "tp_device t" n ok k] blk_good_unit assms by (auto simp: blk.safe_def) (metis blk_good_def)
  then show ?thesis using BlkComplete assms blk.safe_raise_all [of qm host ro disk "t\<lparr>tp_device := d'\<rparr>"] by (simp add: blk.safe_def)
qed

lemma blk_run_safe: "blk_safe qm host ro disk t \<Longrightarrow> \<exists>t'. blk_run fuel host es t = Some t' \<and> blk_safe qm host ro disk t'"
proof (induction es arbitrary: t)
  case (Cons e es)
  then show ?case using blk_event_safe [OF Cons.prems, of fuel e] by auto
qed simp

lemma blk_safe_new:
  assumes "wf_mem gm" and "length disk < 2 ^ 63" and "qm < 2 ^ 16" and "host_ok host"
    and "transport_new (blk_dev fuel host) (blk_new gm disk ro qm) opts = Some t"
  shows "blk_safe qm host ro disk t"
  using assms(4) blk_new_ok [OF assms(1-3), of ro] transport_new_state [OF assms(5)]
  by (simp add: blk.safe_def blk.sizes_ok_def blk_good_def blk_new_def vq_new_def common_new_def tqueue_default_def)

section \<open>Settling\<close>

text \<open>The host completes operations one after another: the place of each among the pending ones, and its outcome.\<close>

fun blk_complete_all :: "(nat \<times> bool \<times> nat) list \<Rightarrow> blk_device \<Rightarrow> blk_device option" where
  "blk_complete_all [] d = Some d"
| "blk_complete_all ((n, ok, k) # cs) d = blk_complete n ok k d \<bind> blk_complete_all cs"

text \<open>An order that names each of \<open>m\<close> pending operations once.\<close>

fun settles :: "nat \<Rightarrow> (nat \<times> bool \<times> nat) list \<Rightarrow> bool" where
  "settles m [] \<longleftrightarrow> m = 0"
| "settles m ((n, ok, k) # cs) \<longleftrightarrow> n < m \<and> settles (m - 1) cs"

lemma idle_active:
  assumes "blk_ok 0 d" and "blk_inflight d = []"
  shows "blk_active d = 0 \<and> taken (blk_reqs d) = {}"
proof -
  note I = assms(1) [unfolded blk_inv_def]
  have "pending_of i d = 0" for i using assms(2) by (simp add: pending_of_def)
  then have t: "taken (blk_reqs d) = {}" using I by auto
  then have "{..<length (slab (blk_reqs d))} \<subseteq> set (free_slots (blk_reqs d))" by (auto simp: taken_def)
  then have "length (slab (blk_reqs d)) \<le> length (free_slots (blk_reqs d))"
    using card_mono [of "set (free_slots (blk_reqs d))" "{..<length (slab (blk_reqs d))}"] card_length [of "free_slots (blk_reqs d)"] by simp
  then show ?thesis using t I by (simp add: pool_inflight_def)
qed

lemma complete_all_settles:
  "blk_ok 0 d \<Longrightarrow> settles (length (blk_inflight d)) cs \<Longrightarrow>
   \<exists>d'. blk_complete_all cs d = Some d' \<and> blk_ok 0 d' \<and> same_unit d d' \<and> blk_inflight d' = []"
proof (induction cs arbitrary: d)
  case (Cons c cs)
  obtain n ok k where c: "c = (n, ok, k)" by (metis prod_cases3)
  have n: "n < length (blk_inflight d)" using Cons.prems(2) c by simp
  obtain d1 where d1: "blk_complete n ok k d = Some d1" "blk_ok 0 d1" "same_unit d d1"
      "blk_inflight d1 = take n (blk_inflight d) @ drop (Suc n) (blk_inflight d)"
    using blk_complete_inv [OF Cons.prems(1) n, of ok k] by auto
  have "settles (length (blk_inflight d1)) cs" using Cons.prems(2) c d1(4) n by simp
  then show ?case using Cons.IH [OF d1(2)] d1(1,3) c same_unit_trans by fastforce
qed simp

text \<open>Requests taken before the last reset leave the queue and the interrupts alone.\<close>

definition stale :: "blk_device \<Rightarrow> bool" where
  "stale d \<longleftrightarrow> (\<forall>i \<in> taken (blk_reqs d). rq_epoch (slab (blk_reqs d) ! i) \<noteq> blk_epoch d)"

definition silent :: "blk_device \<Rightarrow> blk_device \<Rightarrow> bool" where
  "silent d d' \<longleftrightarrow> blk_queue d' = blk_queue d \<and> blk_raised d' = blk_raised d \<and> blk_epoch d' = blk_epoch d \<and> blk_features d' = blk_features d \<and>
     (\<forall>k. rq_epoch (slab (blk_reqs d') ! k) = rq_epoch (slab (blk_reqs d) ! k))"

lemma silent_trans: "silent d d' \<Longrightarrow> silent d' d'' \<Longrightarrow> silent d d''"
  by (simp add: silent_def)

lemma transfer_segs [simp]: "blk_segs (host_transfer s ok k d) = blk_segs d"
  by (simp add: host_transfer_def io_sink_def Let_def split: io_op.split io_buf.split)

lemma silent_transfer: "silent d (host_transfer s ok k d)"
  by (simp add: silent_def host_transfer_def io_sink_def Let_def split: io_op.split io_buf.split)

lemma silent_upd: "\<forall>r. rq_epoch (f r) = rq_epoch r \<Longrightarrow> silent d (upd_req i f d)"
  by (auto simp: silent_def upd_nth upd_req_def)

lemma silent_outcome: "silent d (seg_outcome s ok d)"
proof -
  have up: "silent d (upd_req i f d')" if "silent d d'" "\<forall>r. rq_epoch (f r) = rq_epoch r" for i f d'
    using silent_trans [OF that(1) silent_upd [OF that(2)]] .
  show ?thesis unfolding seg_outcome_def Let_def
    by (auto intro!: up split: option.split) (simp_all add: silent_def)
qed

lemma silent_finish:
  assumes "rq_epoch (slab (blk_reqs d) ! i) \<noteq> blk_epoch d" and "finish_request i d = Some d'"
  shows "silent d d'"
  using assms by (auto simp: finish_request_def Let_def push_used_def raise_irq_if_needed_def settle_def silent_def split: option.splits)

lemma complete_stale:
  assumes inv: "blk_ok 0 d" and old: "stale d" and n: "n < length (blk_inflight d)" and c: "blk_complete n ok k d = Some d'"
  shows "silent d d' \<and> stale d'"
proof -
  let ?j = "blk_inflight d ! n"
  let ?s = "slab (blk_segs d) ! ?j"
  let ?i = "so_parent ?s"
  let ?d1 = "host_transfer ?s ok k (d\<lparr>blk_inflight := take n (blk_inflight d) @ drop (Suc n) (blk_inflight d)\<rparr>)"
  let ?d2 = "seg_outcome ?s ok (?d1\<lparr>blk_segs := pool_release ?j (blk_segs d)\<rparr>)"
  let ?d3 = "upd_req ?i (rq_out_update (\<lambda>n. n - 1)) ?d2"
  have "silent d (d\<lparr>blk_inflight := take n (blk_inflight d) @ drop (Suc n) (blk_inflight d)\<rparr>)" by (simp add: silent_def)
  then have s1: "silent d ?d1" by (rule silent_trans) (rule silent_transfer)
  then have "silent d (?d1\<lparr>blk_segs := pool_release ?j (blk_segs d)\<rparr>)" by (simp add: silent_def)
  then have s2: "silent d ?d2" by (rule silent_trans) (rule silent_outcome)
  then have s3: "silent d ?d3" by (rule silent_trans) (rule silent_upd, simp)
  have "?i \<in> taken (blk_reqs d)" using inv n by (auto simp: blk_inv_def seg_fine_def)
  then have e3: "rq_epoch (slab (blk_reqs ?d3) ! ?i) \<noteq> blk_epoch ?d3" using old s3 by (simp add: stale_def silent_def)
  have "(if rq_out (slab (blk_reqs ?d2) ! ?i) = 1 then finish_request ?i ?d3 else Some ?d3) = Some d'"
    using c n unfolding blk_complete_def on_seg_complete_alt Let_def by (simp cong: if_cong)
  then have s: "silent d d'" using s3 silent_trans [OF s3 silent_finish [OF e3]] by (auto split: if_splits)
  moreover have "taken (blk_reqs d') \<subseteq> taken (blk_reqs d)" using blk_complete_inv [OF inv n, of ok k] c by auto
  then have "stale d'" using old s by (auto simp: stale_def silent_def)
  ultimately show ?thesis by simp
qed

lemma complete_all_stale:
  "blk_ok 0 d \<Longrightarrow> stale d \<Longrightarrow> settles (length (blk_inflight d)) cs \<Longrightarrow> blk_complete_all cs d = Some d' \<Longrightarrow> silent d d'"
proof (induction cs arbitrary: d)
  case (Cons c cs)
  obtain n ok k where c: "c = (n, ok, k)" by (metis prod_cases3)
  have n: "n < length (blk_inflight d)" using Cons.prems(3) c by simp
  obtain d1 where d1: "blk_complete n ok k d = Some d1" "blk_ok 0 d1"
      "blk_inflight d1 = take n (blk_inflight d) @ drop (Suc n) (blk_inflight d)"
    using blk_complete_inv [OF Cons.prems(1) n, of ok k] by auto
  have s: "silent d d1" "stale d1" using complete_stale [OF Cons.prems(1,2) n d1(1)] by auto
  have "settles (length (blk_inflight d1)) cs" using Cons.prems(3) c d1(3) n by simp
  moreover have "blk_complete_all cs d1 = Some d'" using Cons.prems(4) c d1(1) by simp
  ultimately show ?case using Cons.IH [OF d1(2) s(2)] silent_trans [OF s(1)] by blast
qed (simp add: silent_def)

lemma reset_ok: "blk_ok 0 d \<Longrightarrow> blk_ok 0 (blk_reset d)"
proof -
  assume a: "blk_ok 0 d"
  have "vq_ok (vq_reset (blk_queue d))" using a by (simp add: blk_inv_def vq_ok_def vq_reset_def)
  moreover have "blk_reset d = d\<lparr>blk_epoch := blk_epoch d + 1, blk_features := 0, blk_queue := vq_reset (blk_queue d)\<rparr>"
    by (simp add: blk_reset_def)
  ultimately show ?thesis using inv_queue [of "\<lambda>_. 0" "{}" 0 "d\<lparr>blk_epoch := blk_epoch d + 1, blk_features := 0\<rparr>"] a by simp
qed

section \<open>Properties\<close>

text \<open>
  C3. Neither a guest nor the host's completions can break the block device: from the transport as it is
  built, every interleaving of register accesses, arbitrary changes of RAM and completions in any order
  and with any result is served. The file keeps its length, and its contents when it is read-only;
  every operation the host holds belongs to a live request, has its buffer inside guest RAM, the
  request's bounce buffer or the shared zeros, and its range inside the file; no slot is handed
  out twice. What is in flight settles: once the host has completed what it holds, in whatever order and
  with whatever results, no request is left, so that a reset or the stop for a snapshot ends.
\<close>

theorem blk_survives_any_guest:
  assumes "wf_mem gm" and "length disk < 2 ^ 63" and "qm < 2 ^ 16" and "host_ok host"
    and "transport_new (blk_dev fuel host) (blk_new gm disk ro qm) opts = Some t"
  shows "\<exists>t'. blk_run fuel host es t = Some t' \<and> length (blk_disk (tp_device t')) = length disk \<and> (ro \<longrightarrow> blk_disk (tp_device t') = disk) \<and>
    wf_mem (blk_mem (tp_device t')) \<and> distinct (blk_inflight (tp_device t')) \<and>
    (\<forall>j. j \<in> set (blk_inflight (tp_device t')) \<longrightarrow> seg_fine (tp_device t') (slab (blk_segs (tp_device t')) ! j)) \<and>
    (\<forall>cs. settles (length (blk_inflight (tp_device t'))) cs \<longrightarrow>
       (\<exists>d'. blk_complete_all cs (tp_device t') = Some d' \<and> \<not> reset_pending (blk_dev fuel host) d' \<and> taken (blk_reqs d') = {}))"
proof -
  obtain t' where t': "blk_run fuel host es t = Some t'" "blk_safe qm host ro disk t'"
    using blk_run_safe [OF blk_safe_new [OF assms]] by blast
  then have ok: "blk_ok 0 (tp_device t')" by (simp add: blk.safe_def blk_good_def)
  have "\<exists>d'. blk_complete_all cs (tp_device t') = Some d' \<and> \<not> reset_pending (blk_dev fuel host) d' \<and> taken (blk_reqs d') = {}"
    if "settles (length (blk_inflight (tp_device t'))) cs" for cs
    using complete_all_settles [OF ok that] idle_active by (fastforce simp: blk_dev_def)
  then show ?thesis using t' ok by (auto simp: blk.safe_def blk_good_def blk_inv_def)
qed

text \<open>A host that accepts every operation and refuses to discard.\<close>

definition demo_host :: blk_host where
  "demo_host = \<lparr>bh_submit = \<lambda>sync k. Pending, bh_discard = \<lambda>k off n disk. None, bh_pump = False\<rparr>"

lemma demo_host_ok: "host_ok demo_host"
  by (simp add: host_ok_def demo_host_def)

theorem blk_survives_any_guest_witness:
  "\<exists>t. transport_new (blk_dev 8 demo_host) (blk_new demo_mem (replicate 1024 0) True 64)
      \<lparr>opt_vendor_id = 0x1AF4, opt_sub_vendor_id = 0x1AF4, opt_sub_id = 0, opt_num_msix_vectors = 2, opt_pci_class = 1, opt_pci_subclass = 0\<rparr> = Some t \<and>
    (\<forall>es. \<exists>t'. blk_run 8 demo_host es t = Some t' \<and> blk_disk (tp_device t') = replicate 1024 0)"
proof -
  let ?o = "\<lparr>opt_vendor_id = 0x1AF4, opt_sub_vendor_id = 0x1AF4, opt_sub_id = 0, opt_num_msix_vectors = 2, opt_pci_class = 1, opt_pci_subclass = 0\<rparr>"
  obtain t where t: "transport_new (blk_dev 8 demo_host) (blk_new demo_mem (replicate 1024 0) True 64) ?o = Some t"
    using transport_new_total [of ?o "blk_dev 8 demo_host" "blk_new demo_mem (replicate 1024 0) True 64"] by (auto simp: blk_dev_def)
  have "\<exists>t'. blk_run 8 demo_host es t = Some t' \<and> blk_disk (tp_device t') = replicate 1024 0" for es
    using blk_survives_any_guest [OF demo_ok(1) _ _ demo_host_ok t, of es] by auto
  with t show ?thesis by blast
qed

text \<open>
  C13. A reset cuts off what was in flight: while the host completes the operations it still holds, in
  whatever order and with whatever results, the device leaves the reset queue as it is, returns no
  chain and raises no interrupt; when all are completed the reset is no longer pending. Epochs
  are 32-bit numbers: no request in flight may be as old as all of them.
\<close>

theorem blk_reset_is_silent:
  assumes "blk_ok 0 d" and "\<forall>i. i \<in> taken (blk_reqs d) \<longrightarrow> rq_epoch (slab (blk_reqs d) ! i) \<noteq> blk_epoch d + 1"
    and "settles (length (blk_inflight d)) cs"
  shows "\<exists>d'. blk_complete_all cs (device_reset (blk_dev fuel host) d) = Some d' \<and> blk_queue d' = vq_reset (blk_queue d) \<and>
    blk_raised d' = blk_raised d \<and> blk_features d' = 0 \<and> blk_active d' = 0"
proof -
  have r: "device_reset (blk_dev fuel host) d = blk_reset d" "blk_inflight (blk_reset d) = blk_inflight d" by (simp_all add: blk_dev_def blk_reset_def)
  have "stale (blk_reset d)" using assms(2) by (simp add: stale_def blk_reset_def)
  moreover obtain d' where d': "blk_complete_all cs (blk_reset d) = Some d'" "blk_ok 0 d'" "blk_inflight d' = []"
    using complete_all_settles [OF reset_ok [OF assms(1)], of cs] assms(3) r(2) by auto
  ultimately have "silent (blk_reset d) d'" using complete_all_stale [OF reset_ok [OF assms(1)]] assms(3) r(2) by metis
  then show ?thesis using d' idle_active [OF d'(2,3)] r(1) by (auto simp: silent_def blk_reset_def)
qed

end
