(* ===== verification/Blk_Requests.thy ===== *)
theory Blk_Requests
  imports Blk_Service
begin

text \<open>
  What a request of the block device does (\<^verbatim>\<open>src/virtio/blk.rs\<close>), from the ring to the used element: a read
  that the host serves puts the file's bytes into the guest's buffers, a write puts the guest's bytes into
  the file, through the buffer itself or through a bounce buffer.
\<close>

section \<open>Copies\<close>

abbreviation data_len :: "chain_buf list \<Rightarrow> nat" where
  "data_len bs \<equiv> sum_list (map cb_len bs)"

text \<open>What the buffers of a list hold, in order.\<close>

definition data_bytes :: "guest_memory \<Rightarrow> chain_buf list \<Rightarrow> bytes" where
  "data_bytes gm bs = concat (map (buf_bytes gm) bs)"

abbreviation data_span :: "chain_buf list \<Rightarrow> nat set" where
  "data_span bs \<equiv> (\<Union>b \<in> set bs. buf_span b)"

definition segs_of :: "chain_buf list \<Rightarrow> (nat \<times> u32) list" where
  "segs_of bs = map (\<lambda>b. (cb_ptr b, of_nat (cb_len b))) bs"

lemma data_bytes_only_at:
  assumes "only_at S gm gm'" and "wf_mem gm" and "\<forall>b \<in> set bs. buf_in_ram gm b" and "data_span bs \<inter> S = {}"
  shows "data_bytes gm' bs = data_bytes gm bs"
proof -
  have "buf_bytes gm' b = buf_bytes gm b" if "b \<in> set bs" for b
    using that assms by (intro buf_bytes_only_at [OF assms(1,2)]) auto
  then have "map (buf_bytes gm') bs = map (buf_bytes gm) bs" by (intro map_cong refl)
  then show ?thesis by (simp only: data_bytes_def)
qed

lemma len_ok_unat: "len_ok b \<Longrightarrow> unat (of_nat (cb_len b) :: u32) = cb_len b"
  by (simp add: len_ok_def unat_of_nat take_bit_nat_eq_self)

text \<open>The scatter fills buffers that are not empty and do not overlap, one after the other.\<close>

lemma scatter_spec:
  assumes "wf_mem gm" and "\<forall>b \<in> set bs. buf_in_ram gm b \<and> len_ok b \<and> 0 < cb_len b" and "sorted_wrt (\<lambda>x y. buf_span x \<inter> buf_span y = {}) bs"
    and "n = off + data_len bs" and "n \<le> length buf" and "gm' = gm\<lparr>gm_ram := scatter (segs_of bs) buf n off (gm_ram gm)\<rparr>"
  shows "only_at (data_span bs) gm gm' \<and> data_bytes gm' bs = byte_range buf off (data_len bs)"
  using assms
proof (induction bs arbitrary: gm off)
  case Nil
  then show ?case by (simp add: segs_of_def only_at_refl data_bytes_def)
next
  case (Cons b bs)
  have b: "buf_in_ram gm b" "len_ok b" "0 < cb_len b" using Cons.prems(2) by auto
  have m: "min (unat (of_nat (cb_len b) :: u32)) (n - off) = cb_len b" using len_ok_unat [OF b(2)] Cons.prems(4) by simp
  let ?bs = "byte_range buf off (cb_len b)"
  let ?gm1 = "gm\<lparr>gm_ram := overwrite (gm_ram gm) (cb_ptr b) ?bs\<rparr>"
  have l: "length ?bs = cb_len b" using Cons.prems(4,5) by simp
  have ram: "cb_ptr b + cb_len b \<le> length (gm_ram gm)" using b(1) Cons.prems(1) by (simp add: buf_in_ram_def wf_mem_def)
  have at1: "only_at (buf_span b) gm ?gm1"
    unfolding only_at_def by (intro exI [of _ "overwrite (gm_ram gm) (cb_ptr b) ?bs"]) (use ram l in \<open>auto simp: length_overwrite nth_overwrite\<close>)
  have wf1: "wf_mem ?gm1" using only_at_wf [OF at1] Cons.prems(1) by simp
  have e: "gm' = ?gm1\<lparr>gm_ram := scatter (segs_of bs) buf n (off + cb_len b) (gm_ram ?gm1)\<rparr>"
    using Cons.prems(6) m b(3) by (simp add: segs_of_def Let_def)
  have ih: "only_at (data_span bs) ?gm1 gm' \<and> data_bytes gm' bs = byte_range buf (off + cb_len b) (data_len bs)"
    using Cons.prems(2-5) only_at_buf [OF at1] by (intro Cons.IH [OF wf1 _ _ _ _ e]) auto
  have "buf_span b \<inter> data_span bs = {}" using Cons.prems(3) by auto
  then have "buf_bytes gm' b = buf_bytes ?gm1 b"
    using ih b(1) only_at_buf [OF at1] by (intro buf_bytes_only_at [OF _ wf1]) auto
  also have "\<dots> = ?bs" using byte_range_overwrite_same [of "cb_ptr b" ?bs "gm_ram gm"] ram l by simp
  finally show ?case using ih only_at_trans [OF at1] by (auto simp: data_bytes_def byte_range_add)
qed

lemma length_data_bytes: "\<forall>b \<in> set bs. cb_ptr b + cb_len b \<le> length (gm_ram gm) \<Longrightarrow> length (data_bytes gm bs) = data_len bs"
  by (induction bs) (auto simp: data_bytes_def)

text \<open>The gather puts the bytes of the buffers into the bounce buffer in the same order.\<close>

lemma gather_spec:
  "off + data_len bs \<le> length buf \<Longrightarrow> \<forall>b \<in> set bs. cb_ptr b + cb_len b \<le> length (gm_ram gm) \<Longrightarrow>
   gather (gm_ram gm) (map guest_seg bs) off buf = overwrite buf off (data_bytes gm bs)"
proof (induction bs arbitrary: off buf)
  case (Cons b bs)
  let ?bs = "buf_bytes gm b"
  have l: "length ?bs = cb_len b" using Cons.prems(2) by auto
  have "length (overwrite buf off ?bs) = length buf" using Cons.prems(1) l by (simp add: length_overwrite)
  then have "gather (gm_ram gm) (map guest_seg (b # bs)) off buf = overwrite (overwrite buf off ?bs) (off + cb_len b) (data_bytes gm bs)"
    using Cons.IH [of "off + cb_len b" "overwrite buf off ?bs"] Cons.prems by (simp add: guest_seg_def [of b])
  also have "\<dots> = overwrite buf off (?bs @ data_bytes gm bs)"
  proof -
    have "length (data_bytes gm bs) = data_len bs" using Cons.prems(2) by (intro length_data_bytes) simp
    then show ?thesis using Cons.prems(1) l by (simp add: overwrite_def ac_simps)
  qed
  finally show ?case by (simp add: data_bytes_def)
qed (simp add: data_bytes_def)

section \<open>Submission\<close>

definition fresh_req :: "u16 \<Rightarrow> u32 \<Rightarrow> u32 \<Rightarrow> nat \<Rightarrow> nat option \<Rightarrow> blk_req" where
  "fresh_req h rtype e p bopt = \<lparr>rq_head = h, rq_bounce = bopt, rq_type = rtype, rq_epoch = e, rq_status = p, rq_out = 1, rq_done = 0, rq_failed = False\<rparr>"

text \<open>The device that holds request \<open>i\<close> with the one operation \<open>j\<close>, which is with the host.\<close>

definition held :: "blk_device \<Rightarrow> blk_req pool \<Rightarrow> nat \<Rightarrow> blk_req \<Rightarrow> seg_op pool \<Rightarrow> nat \<Rightarrow> seg_op \<Rightarrow> bounce_slot pool \<Rightarrow> blk_device" where
  "held d rp i r sp j s bp = d\<lparr>blk_reqs := pool_put i r rp, blk_segs := pool_put j s sp, blk_bounce := bp,
     blk_calls := Suc (blk_calls d), blk_inflight := j # blk_inflight d\<rparr>"

lemma submit_seg_pending:
  assumes "pool_acquire (blk_segs d) = Some (sp, j)" and "bh_submit host sync (blk_calls d) = Pending"
  shows "submit_seg host i buf n off op sync d = Some (upd_req i (rq_out_update Suc)
    (d\<lparr>blk_segs := pool_put j \<lparr>so_op = op, so_buf = buf, so_bytes = n, so_off = off, so_parent = i\<rparr> sp,
       blk_calls := Suc (blk_calls d), blk_inflight := j # blk_inflight d\<rparr>))"
  using assms by (simp add: submit_seg_def Let_def upd_req_def)

lemma acquire_fields:
  assumes "pool_ok p" and "pool_acquire p = Some (p', i)"
  shows "i < length (slab p')" and "slab p' = slab p"
  using pool_acquired [OF assms(2,1)] by simp_all

lemma submit_direct:
  assumes "pool_acquire (blk_reqs d) = Some (rp, i)" and "i < length (slab rp)" and "pool_acquire (blk_segs d) = Some (sp, j)"
    and "bh_submit host sync (blk_calls d) = Pending" and "rtype \<noteq> BLK_T_FLUSH"
    and "base \<le> backend_size d" and "of_nat n \<le> backend_size d - base"
  shows "submit_request host e h rtype base p [(b, n)] sync d = Some (held d rp i (fresh_req h rtype e p None) sp j
    \<lparr>so_op = if rtype = BLK_T_IN then OpRead else OpWrite, so_buf = b, so_bytes = of_nat n, so_off = base, so_parent = i\<rparr> (blk_bounce d))"
proof -
  let ?op = "if rtype = BLK_T_IN then OpRead else OpWrite"
  let ?d1 = "d\<lparr>blk_reqs := pool_put i (fresh_req h rtype e p None) rp\<rparr>"
  have bs: "backend_size ?d1 = backend_size d" by (simp add: backend_size_def)
  have each: "submit_each host i [(b, n)] base ?op sync ?d1 = Some (upd_req i (rq_out_update Suc)
    (?d1\<lparr>blk_segs := pool_put j \<lparr>so_op = ?op, so_buf = b, so_bytes = of_nat n, so_off = base, so_parent = i\<rparr> sp,
       blk_calls := Suc (blk_calls d), blk_inflight := j # blk_inflight d\<rparr>))"
    using submit_seg_pending [of ?d1 sp j host sync i b "of_nat n" base ?op] assms(3,4,6,7) bs by (simp add: not_less)
  show ?thesis using assms(1,2,5) each unfolding submit_request_def
    by (simp add: Let_def fresh_req_def upd_req_def held_def)
qed

lemma submit_gathered:
  assumes "pool_acquire (blk_reqs d) = Some (rp, i)" and "i < length (slab rp)" and "pool_acquire (blk_segs d) = Some (sp, j)"
    and "bh_submit host sync (blk_calls d) = Pending" and "rtype \<noteq> BLK_T_FLUSH" and "pool_acquire (blk_bounce d) = Some (bp, b)"
    and "base \<le> backend_size d" and "of_nat (data_len bs) \<le> backend_size d - base" and "data_len bs \<le> BOUNCE_CAP" and "1 < length bs"
    and "buf = (if rtype = BLK_T_IN then bn_buf (slab bp ! b) else gather (gm_ram (blk_mem d)) (map guest_seg bs) 0 (bn_buf (slab bp ! b)))"
  shows "submit_request host e h rtype base p (map guest_seg bs) sync d = Some (held d rp i (fresh_req h rtype e p (Some b)) sp j
    \<lparr>so_op = if rtype = BLK_T_IN then OpRead else OpWrite, so_buf = BounceBuf b, so_bytes = of_nat (data_len bs), so_off = base, so_parent = i\<rparr>
    (pool_put b \<lparr>bn_buf = buf, bn_segs = segs_of bs\<rparr> bp))"
proof -
  let ?op = "if rtype = BLK_T_IN then OpRead else OpWrite" and ?t = "of_nat (data_len bs) :: u64"
  let ?d1 = "d\<lparr>blk_reqs := pool_put i (fresh_req h rtype e p None) rp\<rparr>"
  let ?d2 = "upd_req i (rq_bounce_update (\<lambda>_. Some b)) (?d1\<lparr>blk_bounce := bp\<rparr>)"
  let ?d3 = "?d2\<lparr>blk_bounce := pool_put b \<lparr>bn_buf = buf, bn_segs = segs_of bs\<rparr> bp\<rparr>"
  have sum: "sum_list (map snd (map guest_seg bs)) = data_len bs" by (simp add: guest_seg_def comp_def)
  have sg: "map (\<lambda>(p, n). (seg_ptr p, of_nat n)) (map guest_seg bs) = segs_of bs" by (simp add: guest_seg_def segs_of_def)
  have c: "(ucast ?t :: u32) = of_nat (data_len bs)" using assms(9) by (simp add: word_unat_eq_iff unsigned_ucast_eq unat_of_nat take_bit_eq_mod)
  have t: "?t \<le> of_nat BOUNCE_CAP" using assms(9) by (simp add: word_le_nat_alt unat_of_nat take_bit_nat_eq_self)
  have bnc: "submit_bounced host i b (map guest_seg bs) ?t base ?op sync ?d2 = submit_seg host i (BounceBuf b) (of_nat (data_len bs)) base ?op sync ?d3"
    unfolding submit_bounced_def Let_def sg c assms(11) by simp
  have seg: "submit_seg host i (BounceBuf b) (of_nat (data_len bs)) base ?op sync ?d3 = Some (upd_req i (rq_out_update Suc)
    (?d3\<lparr>blk_segs := pool_put j \<lparr>so_op = ?op, so_buf = BounceBuf b, so_bytes = of_nat (data_len bs), so_off = base, so_parent = i\<rparr> sp,
       blk_calls := Suc (blk_calls d), blk_inflight := j # blk_inflight d\<rparr>))"
    using submit_seg_pending [of ?d3 sp j host sync i "BounceBuf b" "of_nat (data_len bs)" base ?op] assms(3,4) by (simp add: upd_req_def)
  have bs: "backend_size ?d1 = backend_size d" by (simp add: backend_size_def)
  have acq: "pool_acquire (blk_bounce ?d1) = Some (bp, b)" using assms(6) by simp
  have "submit_request host e h rtype base p (map guest_seg bs) sync d =
     (submit_bounced host i b (map guest_seg bs) ?t base ?op sync ?d2 \<bind>
       (\<lambda>d3. let d4 = upd_req i (rq_out_update (\<lambda>n. n - 1)) d3 in if rq_out (slab (blk_reqs d3) ! i) = 1 then finish_request i d4 else Some d4))"
    using assms(1,5,7,8,10) t acq bs unfolding submit_request_def sum fresh_req_def by (simp add: Let_def)
  then show ?thesis unfolding bnc seg using assms(2) by (simp add: fresh_req_def upd_req_def held_def)
qed

section \<open>Completion\<close>

text \<open>The part of the device a driver sees, and the host's side of it.\<close>

definition shows_as :: "blk_device \<Rightarrow> guest_memory \<Rightarrow> virtqueue \<Rightarrow> bytes \<Rightarrow> u32 list \<Rightarrow> nat list \<Rightarrow> nat \<Rightarrow> bool" where
  "shows_as d gm q disk raised fl act \<longleftrightarrow> blk_mem d = gm \<and> blk_queue d = q \<and> blk_disk d = disk \<and> blk_raised d = raised \<and> blk_inflight d = fl \<and> blk_active d = act"

lemma finish_effect:
  assumes r: "slab (blk_reqs d) ! i = r" "rq_epoch r = blk_epoch d" and v: "shows_as d gm q disk raised fl act"
    and st: "gm1 = gm\<lparr>gm_ram := overwrite (gm_ram gm) (rq_status r) [if rq_failed r then BLK_S_IOERR else BLK_S_OK]\<rparr>"
    and push: "vq_push (rq_head r) (if rq_failed r then 1 else if rq_type r = BLK_T_IN then rq_done r + 1 else 1) (q, gm1) = Some (q', gm')"
  shows "\<exists>d'. finish_request i d = Some d' \<and>
    shows_as d' gm' (fst (should_interrupt_driver q' gm')) disk (raised @ (if snd (should_interrupt_driver q' gm') then [0] else [])) fl (act - 1)"
proof -
  define d1 where "d1 = poke (rq_status r) (if rq_failed r then BLK_S_IOERR else BLK_S_OK) d"
  have d1: "blk_mem d1 = gm1" "blk_queue d1 = q" "blk_epoch d1 = rq_epoch r" "blk_disk d1 = disk" "blk_raised d1 = raised"
    "blk_inflight d1 = fl" "blk_active d1 = act" "blk_reqs d1 = blk_reqs d" "blk_bounce d1 = blk_bounce d"
    using v st r by (simp_all add: d1_def poke_def shows_as_def)
  have p: "push_used (rq_epoch r) (rq_head r) (if rq_failed r then 1 else if rq_type r = BLK_T_IN then rq_done r + 1 else 1) d1 =
      Some (d1\<lparr>blk_queue := q', blk_mem := gm'\<rparr>)"
    using push by (simp add: push_used_def d1)
  have f: "finish_request i d = Some (settle (raise_irq_if_needed (rq_epoch r)
      ((case rq_bounce r of Some b \<Rightarrow> d1\<lparr>blk_queue := q', blk_mem := gm', ops_done := ops_done d1 + 1, blk_bounce := pool_release b (blk_bounce d)\<rparr>
        | None \<Rightarrow> d1\<lparr>blk_queue := q', blk_mem := gm', ops_done := ops_done d1 + 1\<rparr>)\<lparr>blk_reqs := pool_release i (blk_reqs d)\<rparr>)))"
    using p r by (simp add: finish_request_def Let_def d1 flip: d1_def split: option.split)
  show ?thesis unfolding f
    by (auto simp: shows_as_def settle_def raise_irq_if_needed_def d1 split: option.split prod.split)
qed

lemma transfer_swap:
  "(host_transfer s ok k d)\<lparr>blk_segs := x\<rparr> = host_transfer s ok k (d\<lparr>blk_segs := x\<rparr>)"
  by (simp add: host_transfer_def io_sink_def io_source_def Let_def split: io_op.split io_buf.split)

definition returned :: "blk_device \<Rightarrow> blk_req pool \<Rightarrow> nat \<Rightarrow> blk_req \<Rightarrow> seg_op pool \<Rightarrow> nat \<Rightarrow> seg_op \<Rightarrow> bounce_slot pool \<Rightarrow> blk_device" where
  "returned d rp i r sp j s bp = d\<lparr>blk_reqs := pool_put i r rp, blk_segs := pool_release j (pool_put j s sp), blk_bounce := bp, blk_calls := Suc (blk_calls d)\<rparr>"

lemma complete_held:
  assumes "j < length (slab sp)" and "so_parent s = i" and "A = seg_outcome s True (host_transfer s True k (returned d rp i r sp j s bp))"
    and "rq_out (slab (blk_reqs A) ! i) = 1"
  shows "blk_complete 0 True k (held d rp i r sp j s bp) = finish_request i (upd_req i (rq_out_update (\<lambda>n. n - 1)) A)"
proof -
  let ?D = "held d rp i r sp j s bp"
  have s: "slab (blk_segs ?D) ! j = s" "blk_inflight ?D = j # blk_inflight d" using assms(1) by (simp_all add: held_def)
  have e: "?D\<lparr>blk_inflight := blk_inflight d, blk_segs := pool_release j (pool_put j s sp)\<rparr> = returned d rp i r sp j s bp"
    by (simp add: held_def returned_def)
  have sg: "slab (pool_put j s sp) ! j = s" "blk_segs (?D\<lparr>blk_inflight := blk_inflight d\<rparr>) = pool_put j s sp"
    using assms(1) by (simp_all add: held_def)
  have "blk_complete 0 True k ?D = on_seg_complete j True (host_transfer s True k (?D\<lparr>blk_inflight := blk_inflight d\<rparr>))"
    using s by (simp add: blk_complete_def)
  also have "\<dots> = finish_request i (upd_req i (rq_out_update (\<lambda>n. n - 1)) A)"
    unfolding on_seg_complete_alt Let_def transfer_segs sg(2) sg(1) assms(2) transfer_swap e assms(3) [symmetric] using assms(4) by simp
  finally show ?thesis .
qed

text \<open>How the bytes of the buffers \<open>bs\<close> travel: through the one buffer there is, or through a bounce buffer holding \<open>v\<close>.\<close>

definition carries :: "bounce_slot pool \<Rightarrow> chain_buf list \<Rightarrow> io_buf \<Rightarrow> nat option \<Rightarrow> bytes \<Rightarrow> bool" where
  "carries bp bs buf bopt v \<longleftrightarrow> (\<exists>x. bs = [x] \<and> buf = GuestBuf (cb_ptr x) \<and> bopt = None) \<or>
     (\<exists>b. buf = BounceBuf b \<and> bopt = Some b \<and> b < length (slab bp) \<and> slab bp ! b = \<lparr>bn_buf = v, bn_segs = segs_of bs\<rparr> \<and> data_len bs \<le> length v)"

lemma read_outcome:
  assumes c: "carries bp bs buf bopt v" and i: "i < length (slab rp)" and n: "data_len bs < 2 ^ 32" "unat base + data_len bs \<le> length (blk_disk d)"
    and s: "s = \<lparr>so_op = OpRead, so_buf = buf, so_bytes = of_nat (data_len bs), so_off = base, so_parent = i\<rparr>"
    and r: "r = fresh_req h BLK_T_IN (blk_epoch d) p bopt" and A: "A = seg_outcome s True (host_transfer s True k (returned d rp i r sp j s bp))"
  shows "\<exists>dat. data_len bs \<le> length dat \<and> byte_range dat 0 (data_len bs) = byte_range (blk_disk d) (unat base) (data_len bs) \<and>
    shows_as A ((blk_mem d)\<lparr>gm_ram := scatter (segs_of bs) dat (data_len bs) 0 (gm_ram (blk_mem d))\<rparr>) (blk_queue d) (blk_disk d) (blk_raised d) (blk_inflight d) (blk_active d) \<and>
    slab (blk_reqs A) ! i = r\<lparr>rq_done := of_nat (data_len bs)\<rparr> \<and> blk_epoch A = blk_epoch d"
proof -
  let ?n = "data_len bs" and ?D = "byte_range (blk_disk d) (unat base) (data_len bs)"
  have u: "unat (of_nat ?n :: u32) = ?n" using n(1) by (simp add: unat_of_nat take_bit_nat_eq_self)
  have lD: "length ?D = ?n" using n(2) by simp
  have sat: "saturating_add32 0 (of_nat ?n) = of_nat ?n" using u n(1) by (simp add: saturating_add32_def)
  have t: "host_transfer s True k (returned d rp i r sp j s bp) = io_sink buf ?D (returned d rp i r sp j s bp)"
    by (simp add: host_transfer_def s u returned_def)
  from c consider x where "bs = [x]" "buf = GuestBuf (cb_ptr x)" "bopt = None"
    | b where "buf = BounceBuf b" "bopt = Some b" "b < length (slab bp)" "slab bp ! b = \<lparr>bn_buf = v, bn_segs = segs_of bs\<rparr>" "?n \<le> length v"
    unfolding carries_def by blast
  then show ?thesis
  proof cases
    case (1 x)
    have "scatter (segs_of bs) ?D ?n 0 (gm_ram (blk_mem d)) = overwrite (gm_ram (blk_mem d)) (cb_ptr x) ?D"
    proof (cases "cb_len x = 0")
      case False
      then show ?thesis using u lD 1(1) by (simp add: segs_of_def Let_def)
    qed (use 1(1) in \<open>simp add: segs_of_def Let_def\<close>)
    then show ?thesis using 1(2,3) i sat lD unfolding A t
      by (intro exI [of _ ?D]) (simp add: seg_outcome_def s io_sink_def returned_def shows_as_def upd_req_def r fresh_req_def Let_def)
  next
    case (2 b)
    let ?dat = "overwrite v 0 ?D"
    have "length ?dat = length v" using 2(5) lD by (simp add: length_overwrite)
    moreover have "byte_range ?dat 0 ?n = ?D" using byte_range_overwrite_same [of 0 ?D v] 2(5) lD by simp
    ultimately show ?thesis using 2 i sat u unfolding A t
      by (intro exI [of _ ?dat]) (simp add: seg_outcome_def s io_sink_def returned_def shows_as_def upd_req_def r fresh_req_def Let_def)
  qed
qed

lemma write_outcome:
  assumes c: "carries bp bs buf bopt v" and i: "i < length (slab rp)" and n: "data_len bs < 2 ^ 32"
    and s: "s = \<lparr>so_op = OpWrite, so_buf = buf, so_bytes = of_nat (data_len bs), so_off = base, so_parent = i\<rparr>"
    and A: "A = seg_outcome s True (host_transfer s True k (returned d rp i r sp j s bp))"
    and out: "out = (case bopt of None \<Rightarrow> data_bytes (blk_mem d) bs | Some _ \<Rightarrow> take (data_len bs) v)"
  shows "shows_as A (blk_mem d) (blk_queue d) (overwrite (blk_disk d) (unat base) out) (blk_raised d) (blk_inflight d) (blk_active d) \<and>
    slab (blk_reqs A) ! i = r \<and> blk_epoch A = blk_epoch d"
proof -
  have u: "unat (of_nat (data_len bs) :: u32) = data_len bs" using n(1) by (simp add: unat_of_nat take_bit_nat_eq_self)
  have "io_source buf (data_len bs) (returned d rp i r sp j s bp) = out"
    using c by (auto simp: carries_def io_source_def returned_def out data_bytes_def)
  then show ?thesis using i unfolding A by (simp add: seg_outcome_def host_transfer_def s u returned_def shows_as_def)
qed

section \<open>From the ring\<close>

text \<open>
  A request as a driver lays it out: header, data, status byte, all outside the device's half \<open>S\<close> of the rings;
  the data buffers run the way the request does, and none overlaps another or the status.
\<close>

definition request_chain :: "nat set \<Rightarrow> guest_memory \<Rightarrow> u32 \<Rightarrow> u64 \<Rightarrow> chain_buf \<Rightarrow> chain_buf list \<Rightarrow> chain_buf \<Rightarrow> bool" where
  "request_chain S gm rtype sector hdr bs sta \<longleftrightarrow>
     \<not> cb_write hdr \<and> 16 \<le> cb_len hdr \<and> (\<exists>r. cb_read_at gm hdr 0 16 = le32 rtype @ le32 r @ le64 sector) \<and>
     cb_write sta \<and> 1 \<le> cb_len sta \<and> bs \<noteq> [] \<and> (\<forall>b \<in> set bs. cb_write b = (rtype = BLK_T_IN)) \<and>
     sorted_wrt (\<lambda>x y. buf_span x \<inter> buf_span y = {}) (bs @ [sta]) \<and> data_span (hdr # bs @ [sta]) \<inter> S = {}"

text \<open>The device has a slot for the request and its one operation, and the host takes it.\<close>

definition blk_room :: "blk_host \<Rightarrow> blk_device \<Rightarrow> chain_buf list \<Rightarrow> bool" where
  "blk_room host d bs \<longleftrightarrow> free_slots (blk_reqs d) \<noteq> [] \<and> free_slots (blk_segs d) \<noteq> [] \<and>
     (length bs = 1 \<or> data_len bs \<le> BOUNCE_CAP \<and> free_slots (blk_bounce d) \<noteq> []) \<and> (\<forall>sync. bh_submit host sync (blk_calls d) = Pending)"

lemma acquire_some: "free_slots p \<noteq> [] \<Longrightarrow> \<exists>p' i. pool_acquire p = Some (p', i)"
  by (cases "free_slots p") (simp_all add: pool_acquire_def)

lemma request_submitted:
  assumes inv: "blk_inv cr Z ex d" and room: "blk_room host d bs" and bs: "bs \<noteq> []" "\<forall>b \<in> set bs. buf_in_ram (blk_mem d) b \<and> len_ok b"
    and t: "rtype \<noteq> BLK_T_FLUSH" and base: "unat base + data_len bs \<le> length (blk_disk d)"
  shows "\<exists>rp i sp j bp buf bopt v. submit_request host e h rtype base p (map guest_seg bs) sync d = Some (held d rp i (fresh_req h rtype e p bopt) sp j
      \<lparr>so_op = if rtype = BLK_T_IN then OpRead else OpWrite, so_buf = buf, so_bytes = of_nat (data_len bs), so_off = base, so_parent = i\<rparr> bp) \<and>
    i < length (slab rp) \<and> j < length (slab sp) \<and> carries bp bs buf bopt v \<and> data_len bs < 2 ^ 32 \<and>
    (bopt \<noteq> None \<longrightarrow> rtype \<noteq> BLK_T_IN \<longrightarrow> take (data_len bs) v = data_bytes (blk_mem d) bs)"
proof -
  note I = inv [unfolded blk_inv_def]
  obtain rp i sp j where acq: "pool_acquire (blk_reqs d) = Some (rp, i)" "pool_acquire (blk_segs d) = Some (sp, j)"
    using room acquire_some [of "blk_reqs d"] acquire_some [of "blk_segs d"] unfolding blk_room_def by blast
  have ij: "i < length (slab rp)" "j < length (slab sp)" using acquire_fields I acq by auto
  have pend: "bh_submit host sync (blk_calls d) = Pending" using room by (simp add: blk_room_def)
  have ram: "\<forall>b \<in> set bs. cb_ptr b + cb_len b \<le> length (gm_ram (blk_mem d))" using bs(2) I by (auto simp: buf_in_ram_def wf_mem_def)
  have bu: "unat (backend_size d) = length (blk_disk d)" using I by (intro backend_size_unat) simp
  have le: "base \<le> backend_size d" using bu base by (simp add: word_le_nat_alt)
  have big: "data_len bs < 2 ^ 64" using base I by simp
  then have "unat (of_nat (data_len bs) :: u64) = data_len bs" by (simp add: unat_of_nat take_bit_nat_eq_self)
  then have fits: "of_nat (data_len bs) \<le> backend_size d - base" using bu base unat_sub [OF le] by (simp add: word_le_nat_alt)
  show ?thesis
  proof (cases "length bs = 1")
    case True
    then obtain x where x: "bs = [x]" by (auto simp: length_Suc_conv)
    have "of_nat (cb_len x) \<le> backend_size d - base" "len_ok x" using fits bs(2) x by auto
    then show ?thesis using submit_direct [OF acq(1) ij(1) acq(2) pend t le, of "cb_len x" e h p "GuestBuf (cb_ptr x)"] ij x
      by (intro exI [of _ rp] exI [of _ i] exI [of _ sp] exI [of _ j] exI [of _ "blk_bounce d"] exI [of _ "GuestBuf (cb_ptr x)"] exI [of _ None])
        (auto simp: guest_seg_def carries_def len_ok_def)
  next
    case False
    then have many: "1 < length bs" "data_len bs \<le> BOUNCE_CAP" "free_slots (blk_bounce d) \<noteq> []"
      using room bs(1) by (auto simp: blk_room_def Suc_lessI)
    then obtain bp b where b: "pool_acquire (blk_bounce d) = Some (bp, b)" using acquire_some by blast
    have bl: "b < length (slab bp)" "slab bp = slab (blk_bounce d)" using acquire_fields [OF _ b] I by auto
    then have cap: "length (bn_buf (slab bp ! b)) = BOUNCE_CAP" using I by (simp add: bounce_fine_def)
    define v where "v = (if rtype = BLK_T_IN then bn_buf (slab bp ! b) else gather (gm_ram (blk_mem d)) (map guest_seg bs) 0 (bn_buf (slab bp ! b)))"
    have g: "gather (gm_ram (blk_mem d)) (map guest_seg bs) 0 (bn_buf (slab bp ! b)) = overwrite (bn_buf (slab bp ! b)) 0 (data_bytes (blk_mem d) bs)"
      using ram cap many(2) by (intro gather_spec) simp_all
    have l: "length (data_bytes (blk_mem d) bs) = data_len bs" by (rule length_data_bytes [OF ram])
    have lv: "data_len bs \<le> length v" using g l cap many(2) by (simp add: v_def length_overwrite)
    have tk: "rtype \<noteq> BLK_T_IN \<Longrightarrow> take (data_len bs) v = data_bytes (blk_mem d) bs" using g l by (simp add: v_def overwrite_def)
    let ?bp = "pool_put b \<lparr>bn_buf = v, bn_segs = segs_of bs\<rparr> bp"
    have "carries ?bp bs (BounceBuf b) (Some b) v" using bl lv by (simp add: carries_def)
    moreover have "data_len bs < 2 ^ 32" using many(2) by simp
    ultimately show ?thesis using submit_gathered [OF acq(1) ij(1) acq(2) pend t b le fits many(2,1) v_def, of e h p] ij tk by blast
  qed
qed

lemma blk_header_fields:
  assumes "cb_read_at gm hdr 0 16 = le32 rtype @ le32 r @ le64 sector"
  shows "from_le32 (byte_range (cb_read_at gm hdr 0 16) 0 4) = rtype" and "from_le64 (byte_range (cb_read_at gm hdr 0 16) 8 8) = sector"
proof -
  have l: "length (le32 rtype) = 4" "length (le32 r) = 4" "length (le64 sector) = 8" by simp_all
  show "from_le32 (byte_range (cb_read_at gm hdr 0 16) 0 4) = rtype"
    unfolding assms using l by (simp add: byte_range_def)
  show "from_le64 (byte_range (cb_read_at gm hdr 0 16) 8 8) = sector"
    unfolding assms using l by (simp add: byte_range_def)
qed

lemma serve_request:
  assumes ch: "bufs ch = hdr # bs @ [sta]" and rc: "request_chain S gm rtype sector hdr bs sta" and gm: "cb_read_at (blk_mem d) hdr 0 16 = cb_read_at gm hdr 0 16"
    and t: "rtype = BLK_T_IN \<or> rtype = BLK_T_OUT \<and> \<not> blk_readonly d" and sec: "sector \<le> 0xFFFFFFFFFFFFFFFF div SECTOR_SIZE"
  shows "serve_chain host e ch lone d = submit_request host e (head_index ch) rtype (sector * SECTOR_SIZE) (cb_ptr sta) (map guest_seg bs) lone
    (if rtype = BLK_T_IN then d\<lparr>ops_in := ops_in d + 1\<rparr> else d\<lparr>ops_out := ops_out d + 1\<rparr>)"
proof -
  obtain r where h: "cb_read_at gm hdr 0 16 = le32 rtype @ le32 r @ le64 sector" using rc by (auto simp: request_chain_def)
  have f: "from_le32 (byte_range (cb_read_at (blk_mem d) hdr 0 16) 0 4) = rtype" "from_le64 (byte_range (cb_read_at (blk_mem d) hdr 0 16) 8 8) = sector"
    using blk_header_fields [OF h] gm by simp_all
  have b: "length (bufs ch) \<ge> 2" "hd (bufs ch) = hdr" "last (bufs ch) = sta" "butlast (tl (bufs ch)) = bs" using ch by simp_all
  have flags: "\<not> cb_write hdr" "16 \<le> cb_len hdr" "cb_write sta" "1 \<le> cb_len sta" "bs \<noteq> []" "\<forall>x \<in> set bs. cb_write x = (rtype = BLK_T_IN)"
    using rc by (auto simp: request_chain_def)
  have io: "serve_chain host e ch lone d = serve_io host e (head_index ch) rtype (sector * SECTOR_SIZE) (cb_ptr sta) bs lone d"
    using b flags(1-4) t sec unfolding serve_chain_def Let_def b f by auto
  show ?thesis unfolding io serve_io_def using flags(5,6) t by auto
qed

lemma read_header_stable:
  assumes "only_at S gm gm'" and "wf_mem gm" and "buf_in_ram gm hdr" and "buf_span hdr \<inter> S = {}"
  shows "cb_read_at gm' hdr 0 n = cb_read_at gm hdr 0 n"
proof -
  have "{cb_ptr hdr + 0..<cb_ptr hdr + 0 + min (cb_len hdr - 0) n} \<subseteq> buf_span hdr" by auto
  then have "{cb_ptr hdr + 0..<cb_ptr hdr + 0 + min (cb_len hdr - 0) n} \<inter> S = {}" using assms(4) by blast
  then show ?thesis unfolding cb_read_at_def
    using assms(2,3) by (intro only_at_range [OF assms(1)]) (auto simp: buf_in_ram_def wf_mem_def)
qed

text \<open>One turn of the loop takes such a request and leaves its one operation with the host.\<close>

lemma step_submits:
  assumes inv: "blk_ok 0 d" and rings: "rings_apart S (blk_queue d) (blk_mem d)" and pub: "published S (blk_queue d) (blk_mem d) ((h, hdr # bs @ [sta]) # cs)"
    and S: "S = used_cells (blk_queue d) (blk_mem d)" and rc: "request_chain S (blk_mem d) rtype sector hdr bs sta" and room: "blk_room host d bs"
    and t: "rtype = BLK_T_IN \<or> rtype = BLK_T_OUT \<and> \<not> blk_readonly d" and fits: "unat sector * 512 + data_len bs \<le> length (blk_disk d)"
    and q: "q = (blk_queue d)\<lparr>last_avail := last_avail (blk_queue d) + 1\<rparr>"
  shows "\<exists>d3 gm1 rp i sp j bp buf bopt v. blk_step host d = Some (held d3 rp i (fresh_req h rtype (blk_epoch d) (cb_ptr sta) bopt) sp j
        \<lparr>so_op = if rtype = BLK_T_IN then OpRead else OpWrite, so_buf = buf, so_bytes = of_nat (data_len bs), so_off = sector * SECTOR_SIZE, so_parent = i\<rparr> bp, True) \<and>
    shows_as d3 gm1 q (blk_disk d) (blk_raised d) (blk_inflight d) (Suc (blk_active d)) \<and> blk_epoch d3 = blk_epoch d \<and> only_at S (blk_mem d) gm1 \<and>
    i < length (slab rp) \<and> j < length (slab sp) \<and> carries bp bs buf bopt v \<and> data_len bs < 2 ^ 32 \<and>
    unat (sector * SECTOR_SIZE) = unat sector * 512 \<and> (bopt \<noteq> None \<longrightarrow> rtype \<noteq> BLK_T_IN \<longrightarrow> take (data_len bs) v = data_bytes (blk_mem d) bs)"
proof -
  have wf: "wf_mem (blk_mem d)" and big: "length (blk_disk d) < 2 ^ 63" using inv by (simp_all add: blk_inv_def)
  obtain gm1 where p: "pop_into (blk_queue d) (blk_mem d) \<lparr>head_index = 0, bufs = []\<rparr> = Some (q, gm1, \<lparr>head_index = h, bufs = hdr # bs @ [sta]\<rparr>, True)"
      "only_at S (blk_mem d) gm1"
    using pop_published [OF rings pub] S q by blast
  have ram: "buf_in_ram (blk_mem d) b" if "b \<in> set (hdr # bs @ [sta])" for b
    using published_in_ram [OF wf pub, of b] that by auto
  have lens: "list_all len_ok (hdr # bs @ [sta])" using pop_len [OF p(1)] by simp
  have hdr: "cb_read_at gm1 hdr 0 16 = cb_read_at (blk_mem d) hdr 0 16"
    using rc ram by (intro read_header_stable [OF p(2) wf]) (auto simp: request_chain_def)
  have sec: "unat sector * 512 < 2 ^ 63" using fits big by simp
  then have so: "unat (sector * SECTOR_SIZE) = unat sector * 512" by (subst unat_mult_lem [THEN iffD1]) auto
  have smax: "sector \<le> 0xFFFFFFFFFFFFFFFF div SECTOR_SIZE" using sec by (simp add: word_le_nat_alt)
  define depth where "depth = (of_nat (Suc (blk_active d)) + ucast (avail_pending q gm1) :: u64)"
  define d3 where "d3 = d\<lparr>blk_queue := q, blk_mem := gm1, blk_active := Suc (blk_active d), max_depth := max (max_depth d) depth\<rparr>"
  define d4 where "d4 = (if rtype = BLK_T_IN then d3\<lparr>ops_in := ops_in d3 + 1\<rparr> else d3\<lparr>ops_out := ops_out d3 + 1\<rparr>)"
  have vq: "vq_ok q" using rings q by (simp add: rings_apart_def vq_ok_def)
  have "blk_ok 0 (d\<lparr>blk_queue := q, blk_mem := gm1\<rparr>)"
    using inv_mem [OF inv_queue [OF inv vq], of gm1] only_at_wf [OF p(2)] only_at_size [OF p(2)] wf by simp
  then have inv4: "blk_ok (Suc 0) d4" by (auto simp: d4_def d3_def blk_inv_def)
  have f4: "blk_mem d4 = gm1" "blk_disk d4 = blk_disk d" "blk_epoch d4 = blk_epoch d" "blk_room host d4 bs"
    using room by (simp_all add: d4_def d3_def blk_room_def)
  have serve: "serve_chain host (blk_epoch d) \<lparr>head_index = h, bufs = hdr # bs @ [sta]\<rparr> lone d3 =
      submit_request host (blk_epoch d) h rtype (sector * SECTOR_SIZE) (cb_ptr sta) (map guest_seg bs) lone d4" for lone
    using serve_request [OF _ rc, of "\<lparr>head_index = h, bufs = hdr # bs @ [sta]\<rparr>" d3 host "blk_epoch d" lone] hdr t smax
    by (simp add: d3_def d4_def)
  have bs: "bs \<noteq> []" "\<forall>b \<in> set bs. buf_in_ram (blk_mem d4) b \<and> len_ok b" "rtype \<noteq> BLK_T_FLUSH"
    using rc ram lens t only_at_buf [OF p(2)] f4(1) by (auto simp: request_chain_def list_all_iff)
  have fits4: "unat (sector * SECTOR_SIZE) + data_len bs \<le> length (blk_disk d4)" using fits so f4(2) by simp
  obtain rp i sp j bp buf bopt v where sub: "submit_request host (blk_epoch d) h rtype (sector * SECTOR_SIZE) (cb_ptr sta) (map guest_seg bs) (bh_pump host \<and> depth = 1) d4 =
      Some (held d4 rp i (fresh_req h rtype (blk_epoch d) (cb_ptr sta) bopt) sp j
      \<lparr>so_op = if rtype = BLK_T_IN then OpRead else OpWrite, so_buf = buf, so_bytes = of_nat (data_len bs), so_off = sector * SECTOR_SIZE, so_parent = i\<rparr> bp)"
      "i < length (slab rp)" "j < length (slab sp)" "carries bp bs buf bopt v" "data_len bs < 2 ^ 32"
      "bopt \<noteq> None \<longrightarrow> rtype \<noteq> BLK_T_IN \<longrightarrow> take (data_len bs) v = data_bytes (blk_mem d4) bs"
    using request_submitted [OF inv4 f4(4) bs fits4, of "blk_epoch d" h "cb_ptr sta" "bh_pump host \<and> depth = 1"] by (elim exE conjE) (rule that)
  have db: "data_bytes gm1 bs = data_bytes (blk_mem d) bs"
    using rc ram by (intro data_bytes_only_at [OF p(2) wf]) (auto simp: request_chain_def)
  have "blk_step host d = Some (held d4 rp i (fresh_req h rtype (blk_epoch d) (cb_ptr sta) bopt) sp j
      \<lparr>so_op = if rtype = BLK_T_IN then OpRead else OpWrite, so_buf = buf, so_bytes = of_nat (data_len bs), so_off = sector * SECTOR_SIZE, so_parent = i\<rparr> bp, True)"
    using p(1) serve sub(1) by (simp add: blk_step_def Let_def d3_def depth_def)
  moreover have "shows_as d4 gm1 q (blk_disk d) (blk_raised d) (blk_inflight d) (Suc (blk_active d))"
    by (simp add: shows_as_def d4_def d3_def)
  ultimately show ?thesis using sub(2-6) so p(2) db f4(1,3) by fastforce
qed

lemma notify_submits:
  assumes inv: "blk_ok 0 d" and rings: "rings_apart S (blk_queue d) (blk_mem d)" and pub: "published S (blk_queue d) (blk_mem d) [(h, hdr # bs @ [sta])]"
    and S: "S = used_cells (blk_queue d) (blk_mem d)" and rc: "request_chain S (blk_mem d) rtype sector hdr bs sta" and room: "blk_room host d bs"
    and t: "rtype = BLK_T_IN \<or> rtype = BLK_T_OUT \<and> \<not> blk_readonly d" and fits: "unat sector * 512 + data_len bs \<le> length (blk_disk d)"
    and q: "q = (blk_queue d)\<lparr>last_avail := last_avail (blk_queue d) + 1\<rparr>" and run: "\<not> blk_stopped d" "2 \<le> fuel"
  shows "\<exists>d3 gm1 rp i sp j bp buf bopt v. blk_notify_queue host fuel 0 d = Some (held d3 rp i (fresh_req h rtype (blk_epoch d) (cb_ptr sta) bopt) sp j
        \<lparr>so_op = if rtype = BLK_T_IN then OpRead else OpWrite, so_buf = buf, so_bytes = of_nat (data_len bs), so_off = sector * SECTOR_SIZE, so_parent = i\<rparr> bp, []) \<and>
    shows_as d3 gm1 q (blk_disk d) (blk_raised d) (blk_inflight d) (Suc (blk_active d)) \<and> blk_epoch d3 = blk_epoch d \<and> only_at S (blk_mem d) gm1 \<and>
    i < length (slab rp) \<and> j < length (slab sp) \<and> carries bp bs buf bopt v \<and> data_len bs < 2 ^ 32 \<and>
    unat (sector * SECTOR_SIZE) = unat sector * 512 \<and> (bopt \<noteq> None \<longrightarrow> rtype \<noteq> BLK_T_IN \<longrightarrow> take (data_len bs) v = data_bytes (blk_mem d) bs)"
proof -
  obtain d3 gm1 rp i sp j bp buf bopt v where st: "blk_step host d = Some (held d3 rp i (fresh_req h rtype (blk_epoch d) (cb_ptr sta) bopt) sp j
        \<lparr>so_op = if rtype = BLK_T_IN then OpRead else OpWrite, so_buf = buf, so_bytes = of_nat (data_len bs), so_off = sector * SECTOR_SIZE, so_parent = i\<rparr> bp, True)"
    and v3: "shows_as d3 gm1 q (blk_disk d) (blk_raised d) (blk_inflight d) (Suc (blk_active d))" and e: "blk_epoch d3 = blk_epoch d" "only_at S (blk_mem d) gm1"
    and rest: "i < length (slab rp)" "j < length (slab sp)" "carries bp bs buf bopt v" "data_len bs < 2 ^ 32"
      "unat (sector * SECTOR_SIZE) = unat sector * 512" "bopt \<noteq> None \<longrightarrow> rtype \<noteq> BLK_T_IN \<longrightarrow> take (data_len bs) v = data_bytes (blk_mem d) bs"
    using step_submits [OF inv rings pub S rc room t fits q] by (elim exE conjE) (rule that)
  let ?r = "fresh_req h rtype (blk_epoch d) (cb_ptr sta) bopt"
  let ?s = "\<lparr>so_op = if rtype = BLK_T_IN then OpRead else OpWrite, so_buf = buf, so_bytes = of_nat (data_len bs), so_off = sector * SECTOR_SIZE, so_parent = i\<rparr>"
  have r1: "rings_apart S q gm1" using rings_apart_stable [OF e(2) rings] q by simp
  have p1: "published S q gm1 []" using published_tail [OF published_stable [OF e(2) rings pub]] q by simp
  obtain gm2 where g2: "pop_into q gm1 \<lparr>head_index = 0, bufs = []\<rparr> = Some (q, gm2, \<lparr>head_index = 0, bufs = []\<rparr>, False)" "only_at (used_cells q gm1) gm1 gm2"
    using pop_drained [OF r1 p1, of "\<lparr>head_index = 0, bufs = []\<rparr>"] by auto
  have "used_cells q gm1 = S" using used_cells_only_at [OF e(2)] S q by simp
  then have at2: "only_at S (blk_mem d) gm2" using only_at_trans [OF e(2) g2(2)] by simp
  let ?d3 = "d3\<lparr>blk_mem := gm2\<rparr>"
  have f3: "blk_queue d3 = q" "blk_mem d3 = gm1" using v3 by (simp_all add: shows_as_def)
  have D: "(held d3 rp i ?r sp j ?s bp)\<lparr>blk_queue := q, blk_mem := gm2\<rparr> = held ?d3 rp i ?r sp j ?s bp"
    using f3 by (cases d3) (simp add: held_def)
  have q3: "blk_queue (held d3 rp i ?r sp j ?s bp) = q" "blk_mem (held d3 rp i ?r sp j ?s bp) = gm1" using f3 by (simp_all add: held_def)
  have "blk_step host (held d3 rp i ?r sp j ?s bp) = Some (held ?d3 rp i ?r sp j ?s bp, False)"
    unfolding blk_step_def q3 g2(1) using D by simp
  moreover obtain f where "fuel = Suc (Suc f)" using run(2) by (metis add_2_eq_Suc le_Suc_ex)
  ultimately have "blk_notify_queue host fuel 0 d = Some (held ?d3 rp i ?r sp j ?s bp, [])"
    using st run(1) v3 by (simp add: blk_notify_queue_def blk_drain_def held_def shows_as_def)
  moreover have "shows_as ?d3 gm2 q (blk_disk d) (blk_raised d) (blk_inflight d) (Suc (blk_active d))" "blk_epoch ?d3 = blk_epoch d"
    using v3 e by (simp_all add: shows_as_def)
  ultimately show ?thesis using rest at2 by blast
qed

text \<open>The completion: the outcome of the operation, the status byte, and the chain on the used ring.\<close>

lemma status_written:
  assumes "wf_mem gm" and "buf_in_ram gm sta" and "1 \<le> cb_len sta" and "gm' = gm\<lparr>gm_ram := overwrite (gm_ram gm) (cb_ptr sta) [x]\<rparr>"
  shows "only_at {cb_ptr sta} gm gm'" and "gm_ram gm' ! cb_ptr sta = x"
proof -
  have l: "cb_ptr sta < length (gm_ram gm)" using assms(1-3) by (simp add: buf_in_ram_def wf_mem_def)
  then show "only_at {cb_ptr sta} gm gm'" unfolding only_at_def
    by (intro exI [of _ "gm_ram gm'"]) (auto simp: assms(4) length_overwrite nth_overwrite)
  show "gm_ram gm' ! cb_ptr sta = x" using l by (simp add: assms(4) nth_overwrite)
qed

lemma completes:
  assumes A: "A = seg_outcome s True (host_transfer s True k (returned d rp i r sp j s bp))" and j: "j < length (slab sp)" and i: "i < length (slab rp)" "so_parent s = i"
    and v: "shows_as A gm q disk raised fl (Suc act)" and ra: "slab (blk_reqs A) ! i = r\<lparr>rq_done := m\<rparr>" "blk_epoch A = rq_epoch r"
    and r: "r = fresh_req h rtype e (cb_ptr sta) bopt" and len: "ulen = (if rtype = BLK_T_IN then m + 1 else 1)"
    and rings: "rings_apart S q gm" "S = used_cells q gm" "vq_size q \<noteq> 0" and sta: "buf_in_ram gm sta" "1 \<le> cb_len sta" "buf_span sta \<inter> S = {}"
  shows "\<exists>d' q' gm1. blk_complete 0 True k (held d rp i r sp j s bp) = Some d' \<and> vq_push h ulen (q, gm1) = Some (q', blk_mem d') \<and>
    blk_queue d' = fst (should_interrupt_driver q' (blk_mem d')) \<and> blk_disk d' = disk \<and>
    blk_raised d' = raised @ (if snd (should_interrupt_driver q' (blk_mem d')) then [0] else []) \<and> blk_inflight d' = fl \<and> blk_active d' = act \<and>
    only_at (S \<union> {cb_ptr sta}) gm (blk_mem d') \<and> gm_ram (blk_mem d') ! cb_ptr sta = BLK_S_OK"
proof -
  have wf: "wf_mem gm" "vq_ok q" "vq_ready q" using rings(1) by (simp_all add: rings_apart_def)
  let ?gm1 = "gm\<lparr>gm_ram := overwrite (gm_ram gm) (cb_ptr sta) [BLK_S_OK]\<rparr>"
  note s1 = status_written [OF wf(1) sta(1,2) refl, of BLK_S_OK]
  have wf1: "wf_mem ?gm1" using only_at_wf [OF s1(1)] wf(1) by simp
  obtain gm' where p: "vq_push h ulen (q, ?gm1) = Some (q\<lparr>last_used_idx := last_used_idx q + 1\<rparr>, gm')" "only_at S ?gm1 gm'"
    using vq_push_only_at [OF wf1 wf(2,3) rings(3), of h ulen] used_cells_only_at [OF s1(1), of q] rings(2) by auto
  let ?q' = "q\<lparr>last_used_idx := last_used_idx q + 1\<rparr>" and ?A = "upd_req i (rq_out_update (\<lambda>n. n - 1)) A"
  have lA: "i < length (slab (blk_reqs A))"
    unfolding A using i by (simp add: seg_outcome_def host_transfer_def io_sink_def returned_def upd_req_def Let_def split: io_op.split io_buf.split option.split)
  have rA: "slab (blk_reqs ?A) ! i = r\<lparr>rq_done := m, rq_out := 0\<rparr>" using lA ra(1) r by (simp add: fresh_req_def)
  have vA: "shows_as ?A gm q disk raised fl (Suc act)" using v by (simp add: shows_as_def)
  have one: "rq_out (slab (blk_reqs A) ! i) = 1" using ra(1) r by (simp add: fresh_req_def)
  let ?ra = "r\<lparr>rq_done := m, rq_out := 0\<rparr>"
  have fa: "rq_epoch ?ra = blk_epoch ?A" "?gm1 = gm\<lparr>gm_ram := overwrite (gm_ram gm) (rq_status ?ra) [if rq_failed ?ra then BLK_S_IOERR else BLK_S_OK]\<rparr>"
    using ra(2) r by (simp_all add: fresh_req_def)
  have pa: "vq_push (rq_head ?ra) (if rq_failed ?ra then 1 else if rq_type ?ra = BLK_T_IN then rq_done ?ra + 1 else 1) (q, ?gm1) = Some (?q', gm')"
    using p(1) r len by (cases "rtype = BLK_T_IN") (simp_all add: fresh_req_def)
  obtain d' where d': "finish_request i ?A = Some d'"
      "shows_as d' gm' (fst (should_interrupt_driver ?q' gm')) disk (raised @ (if snd (should_interrupt_driver ?q' gm') then [0] else [])) fl (Suc act - 1)"
    using finish_effect [OF rA fa(1) vA fa(2) pa] by blast
  have "blk_complete 0 True k (held d rp i r sp j s bp) = Some d'" using complete_held [OF j i(2) A one] d'(1) by simp
  moreover have "gm_ram gm' ! cb_ptr sta = BLK_S_OK"
  proof -
    have "cb_ptr sta \<in> buf_span sta" using sta(2) by simp
    then have "cb_ptr sta \<notin> S" using sta(3) by blast
    moreover have "cb_ptr sta < length (gm_ram ?gm1)" using sta(1,2) wf1 by (auto simp: buf_in_ram_def wf_mem_def)
    ultimately show ?thesis using p(2) s1(2) by (auto simp: only_at_def)
  qed
  moreover have "only_at (S \<union> {cb_ptr sta}) gm gm'" using only_at_trans [OF s1(1) p(2)] by (simp add: Un_commute)
  ultimately show ?thesis using d'(2) p(1) by (intro exI [of _ d'] exI [of _ ?q'] exI [of _ ?gm1]) (simp add: shows_as_def)
qed

lemma rings_apart_any: "only_at T gm gm' \<Longrightarrow> rings_apart S q gm' = rings_apart S q gm"
  by (simp add: rings_apart_def only_at_wf used_cells_only_at host_range_only_at gpa_span_only_at)

text \<open>Where the parts of such a request lie, after whatever changes of RAM.\<close>

lemma request_layout:
  assumes "blk_ok 0 d" and "rings_apart S (blk_queue d) (blk_mem d)" and "published S (blk_queue d) (blk_mem d) [(h, hdr # bs @ [sta])]"
    and "S = used_cells (blk_queue d) (blk_mem d)" and "request_chain S (blk_mem d) rtype sector hdr bs sta"
    and "q = (blk_queue d)\<lparr>last_avail := last_avail (blk_queue d) + 1\<rparr>" and at: "only_at T (blk_mem d) gm"
  shows "wf_mem gm" and "\<forall>b \<in> set bs. buf_in_ram gm b \<and> len_ok b" and "buf_in_ram gm sta" and "1 \<le> cb_len sta"
    and "rings_apart S q gm" and "S = used_cells q gm" and "vq_size q \<noteq> 0"
    and "sorted_wrt (\<lambda>x y. buf_span x \<inter> buf_span y = {}) bs" and "data_span bs \<inter> (S \<union> {cb_ptr sta}) = {}" and "buf_span sta \<inter> S = {}"
proof -
  have wf: "wf_mem (blk_mem d)" using assms(1) by (simp add: blk_inv_def)
  have ready: "chain_ready S (blk_queue d) (blk_mem d) h (hdr # bs @ [sta])" using assms(3) by (auto simp: published_def)
  then have ram: "buf_in_ram (blk_mem d) b" if "b \<in> set (hdr # bs @ [sta])" for b using chain_ready_in_ram [OF wf] that by blast
  show "wf_mem gm" using only_at_wf [OF at] wf by simp
  have "list_all len_ok (hdr # bs @ [sta])" using pop_published [OF assms(2,3)] pop_len by fastforce
  then show "\<forall>b \<in> set bs. buf_in_ram gm b \<and> len_ok b"
    using ram assms(5) only_at_buf [OF at] by (auto simp: request_chain_def list_all_iff)
  show sta: "1 \<le> cb_len sta" "buf_span sta \<inter> S = {}" "buf_in_ram gm sta"
    using assms(5) ram [of sta] only_at_buf [OF at] by (auto simp: request_chain_def)
  show "rings_apart S q gm" "S = used_cells q gm" "vq_size q \<noteq> 0"
    using assms(2,4,6) rings_apart_any [OF at] used_cells_only_at [OF at] ready by (auto simp: chain_ready_def)
  show "sorted_wrt (\<lambda>x y. buf_span x \<inter> buf_span y = {}) bs" using assms(5) by (simp add: request_chain_def sorted_wrt_append)
  have "cb_ptr sta \<in> buf_span sta" using sta(1) by simp
  moreover have "buf_span sta \<inter> data_span bs = {}" "data_span bs \<inter> S = {}"
    using assms(5) by (auto simp: request_chain_def sorted_wrt_append)
  ultimately show "data_span bs \<inter> (S \<union> {cb_ptr sta}) = {}" by blast
qed

text \<open>A read from the notification to the completion: what the scatter makes of RAM is what the driver finds.\<close>

lemma read_run:
  assumes "blk_ok 0 d" and "rings_apart S (blk_queue d) (blk_mem d)" and "published S (blk_queue d) (blk_mem d) [(h, hdr # bs @ [sta])]"
    and "S = used_cells (blk_queue d) (blk_mem d)" and "request_chain S (blk_mem d) BLK_T_IN sector hdr bs sta" and "blk_room host d bs"
    and "unat sector * 512 + data_len bs \<le> length (blk_disk d)" and "\<not> blk_stopped d" and "2 \<le> fuel"
    and "q = (blk_queue d)\<lparr>last_avail := last_avail (blk_queue d) + 1\<rparr>"
    and sc: "\<And>gm dat. only_at S (blk_mem d) gm \<Longrightarrow> data_len bs \<le> length dat \<Longrightarrow>
      byte_range dat 0 (data_len bs) = byte_range (blk_disk d) (unat sector * 512) (data_len bs) \<Longrightarrow>
      only_at T gm (gm\<lparr>gm_ram := scatter (segs_of bs) dat (data_len bs) 0 (gm_ram gm)\<rparr>) \<and>
      data_bytes (gm\<lparr>gm_ram := scatter (segs_of bs) dat (data_len bs) 0 (gm_ram gm)\<rparr>) bs = out"
  shows "\<exists>d1 d2 j q' gm1. blk_notify_queue host fuel 0 d = Some (d1, []) \<and> blk_inflight d1 = j # blk_inflight d \<and> blk_complete 0 True k d1 = Some d2 \<and>
    data_bytes (blk_mem d2) bs = out \<and> gm_ram (blk_mem d2) ! cb_ptr sta = BLK_S_OK \<and>
    vq_push h (of_nat (data_len bs) + 1) (q, gm1) = Some (q', blk_mem d2) \<and> blk_queue d2 = fst (should_interrupt_driver q' (blk_mem d2)) \<and>
    blk_raised d2 = blk_raised d @ (if snd (should_interrupt_driver q' (blk_mem d2)) then [0] else []) \<and>
    blk_disk d2 = blk_disk d \<and> blk_inflight d2 = blk_inflight d \<and> blk_active d2 = blk_active d \<and>
    only_at (S \<union> T \<union> {cb_ptr sta}) (blk_mem d) (blk_mem d2)"
proof -
  obtain d3 gm2 rp i sp j bp buf bopt v where n: "blk_notify_queue host fuel 0 d = Some (held d3 rp i (fresh_req h BLK_T_IN (blk_epoch d) (cb_ptr sta) bopt) sp j
        \<lparr>so_op = if BLK_T_IN = BLK_T_IN then OpRead else OpWrite, so_buf = buf, so_bytes = of_nat (data_len bs), so_off = sector * SECTOR_SIZE, so_parent = i\<rparr> bp, [])"
    and v3: "shows_as d3 gm2 q (blk_disk d) (blk_raised d) (blk_inflight d) (Suc (blk_active d))" and e: "blk_epoch d3 = blk_epoch d" and at: "only_at S (blk_mem d) gm2"
    and ij: "i < length (slab rp)" "j < length (slab sp)" and c: "carries bp bs buf bopt v" "data_len bs < 2 ^ 32" and so: "unat (sector * SECTOR_SIZE) = unat sector * 512"
    and unused: "bopt \<noteq> None \<longrightarrow> BLK_T_IN \<noteq> BLK_T_IN \<longrightarrow> take (data_len bs) v = data_bytes (blk_mem d) bs"
    using notify_submits [OF assms(1-6) disjI1 [OF refl] assms(7,10,8,9)] by (elim exE conjE) (rule that)
  define r where "r = fresh_req h BLK_T_IN (blk_epoch d3) (cb_ptr sta) bopt"
  define s where "s = \<lparr>so_op = OpRead, so_buf = buf, so_bytes = of_nat (data_len bs), so_off = sector * SECTOR_SIZE, so_parent = i\<rparr>"
  have d1: "blk_notify_queue host fuel 0 d = Some (held d3 rp i r sp j s bp, [])" "blk_inflight (held d3 rp i r sp j s bp) = j # blk_inflight d"
    using n e v3 by (simp_all add: r_def s_def held_def shows_as_def)
  have fits: "unat (sector * SECTOR_SIZE) + data_len bs \<le> length (blk_disk d3)" using assms(7) so v3 by (simp add: shows_as_def)
  obtain dat where A: "data_len bs \<le> length dat" "byte_range dat 0 (data_len bs) = byte_range (blk_disk d3) (unat (sector * SECTOR_SIZE)) (data_len bs)"
      "shows_as (seg_outcome s True (host_transfer s True k (returned d3 rp i r sp j s bp))) ((blk_mem d3)\<lparr>gm_ram := scatter (segs_of bs) dat (data_len bs) 0 (gm_ram (blk_mem d3))\<rparr>)
        (blk_queue d3) (blk_disk d3) (blk_raised d3) (blk_inflight d3) (blk_active d3)"
      "slab (blk_reqs (seg_outcome s True (host_transfer s True k (returned d3 rp i r sp j s bp)))) ! i = r\<lparr>rq_done := of_nat (data_len bs)\<rparr>"
      "blk_epoch (seg_outcome s True (host_transfer s True k (returned d3 rp i r sp j s bp))) = blk_epoch d3"
    using read_outcome [OF c(1) ij(1) c(2) fits s_def r_def refl] by blast
  have m3: "blk_mem d3 = gm2" "blk_queue d3 = q" "blk_disk d3 = blk_disk d" "blk_raised d3 = blk_raised d" "blk_inflight d3 = blk_inflight d" "blk_active d3 = Suc (blk_active d)"
    using v3 by (simp_all add: shows_as_def)
  define gm3 where "gm3 = gm2\<lparr>gm_ram := scatter (segs_of bs) dat (data_len bs) 0 (gm_ram gm2)\<rparr>"
  have g3: "only_at T gm2 gm3" "data_bytes gm3 bs = out" using sc [OF at A(1)] A(2) m3(3) so by (simp_all add: gm3_def)
  note L3 = request_layout [OF assms(1-5,10) only_at_trans [OF at g3(1)]]
  have vA: "shows_as (seg_outcome s True (host_transfer s True k (returned d3 rp i r sp j s bp))) gm3 q (blk_disk d) (blk_raised d) (blk_inflight d) (Suc (blk_active d))"
    using A(3) by (simp add: m3 gm3_def)
  have "blk_epoch (seg_outcome s True (host_transfer s True k (returned d3 rp i r sp j s bp))) = rq_epoch r" "so_parent s = i"
    using A(5) by (simp_all add: r_def s_def fresh_req_def)
  then obtain d2 q' gm1 where d2: "blk_complete 0 True k (held d3 rp i r sp j s bp) = Some d2" "vq_push h (of_nat (data_len bs) + 1) (q, gm1) = Some (q', blk_mem d2)"
      "blk_queue d2 = fst (should_interrupt_driver q' (blk_mem d2))" "blk_disk d2 = blk_disk d"
      "blk_raised d2 = blk_raised d @ (if snd (should_interrupt_driver q' (blk_mem d2)) then [0] else [])" "blk_inflight d2 = blk_inflight d" "blk_active d2 = blk_active d"
      "only_at (S \<union> {cb_ptr sta}) gm3 (blk_mem d2)" "gm_ram (blk_mem d2) ! cb_ptr sta = BLK_S_OK"
    using completes [OF refl ij(2,1) _ vA A(4) _ r_def refl L3(5-7,3,4,10)] by auto
  have "data_bytes (blk_mem d2) bs = data_bytes gm3 bs"
    using L3(2,9) by (intro data_bytes_only_at [OF d2(8) L3(1)]) auto
  moreover have "only_at (S \<union> T \<union> {cb_ptr sta}) (blk_mem d) (blk_mem d2)"
    using only_at_trans [OF only_at_trans [OF at g3(1)] d2(8)] by (rule only_at_mono) blast
  ultimately show ?thesis using d1 d2 g3(2) by (intro exI [of _ "held d3 rp i r sp j s bp"] exI [of _ d2] exI [of _ j] exI [of _ q'] exI [of _ gm1]) simp
qed

section \<open>Properties\<close>

text \<open>
  C5. A read delivers: when the driver publishes a request of type IN, laid out by the rules, whose range lies
  inside the file and whose buffers are not empty, a notification hands exactly one operation to the host; when the host completes it, the
  data buffers hold the file's bytes from that sector on, in order, the status byte says OK, the chain
  is returned with the number of bytes written, and the driver is interrupted as the queue decides.
  No other byte of RAM changes, nor does the file; this holds for a single buffer, filled in place, and
  for several that go through a bounce buffer, whatever else is in flight.
\<close>

theorem blk_read_delivers:
  assumes "blk_ok 0 d" and "rings_apart S (blk_queue d) (blk_mem d)" and "published S (blk_queue d) (blk_mem d) [(h, hdr # bs @ [sta])]"
    and "S = used_cells (blk_queue d) (blk_mem d)" and "request_chain S (blk_mem d) BLK_T_IN sector hdr bs sta" and "blk_room host d bs"
    and "unat sector * 512 + data_len bs \<le> length (blk_disk d)" and "\<not> blk_stopped d" and "2 \<le> fuel"
    and "q = (blk_queue d)\<lparr>last_avail := last_avail (blk_queue d) + 1\<rparr>" and "\<forall>b \<in> set bs. 0 < cb_len b"
  shows "\<exists>d1 d2 j q' gm1. blk_notify_queue host fuel 0 d = Some (d1, []) \<and> blk_inflight d1 = j # blk_inflight d \<and> blk_complete 0 True k d1 = Some d2 \<and>
    data_bytes (blk_mem d2) bs = byte_range (blk_disk d) (unat sector * 512) (data_len bs) \<and> gm_ram (blk_mem d2) ! cb_ptr sta = BLK_S_OK \<and>
    vq_push h (of_nat (data_len bs) + 1) (q, gm1) = Some (q', blk_mem d2) \<and> blk_queue d2 = fst (should_interrupt_driver q' (blk_mem d2)) \<and>
    blk_raised d2 = blk_raised d @ (if snd (should_interrupt_driver q' (blk_mem d2)) then [0] else []) \<and>
    blk_disk d2 = blk_disk d \<and> blk_inflight d2 = blk_inflight d \<and> blk_active d2 = blk_active d \<and>
    only_at (S \<union> data_span bs \<union> {cb_ptr sta}) (blk_mem d) (blk_mem d2)"
proof (rule read_run [OF assms(1-10)])
  fix gm dat
  assume at: "only_at S (blk_mem d) gm" and l: "data_len bs \<le> length dat"
    and b: "byte_range dat 0 (data_len bs) = byte_range (blk_disk d) (unat sector * 512) (data_len bs)"
  note L = request_layout [OF assms(1-5,10) at]
  have "\<forall>b \<in> set bs. buf_in_ram gm b \<and> len_ok b \<and> 0 < cb_len b" using L(2) assms(11) by blast
  from scatter_spec [OF L(1) this L(8) _ l refl] b
  show "only_at (data_span bs) gm (gm\<lparr>gm_ram := scatter (segs_of bs) dat (data_len bs) 0 (gm_ram gm)\<rparr>) \<and>
      data_bytes (gm\<lparr>gm_ram := scatter (segs_of bs) dat (data_len bs) 0 (gm_ram gm)\<rparr>) bs = byte_range (blk_disk d) (unat sector * 512) (data_len bs)"
    by simp
qed

text \<open>
  C22. An empty buffer cuts a read off: when the first data buffer of such a request has length 0 and others
  follow, the copy out of the bounce buffer stops at it. The request completes with status OK and a
  used length that counts all the bytes, but none of the data buffers changes.
\<close>

theorem blk_read_lost_behind_empty_buffer:
  assumes "blk_ok 0 d" and "rings_apart S (blk_queue d) (blk_mem d)" and "published S (blk_queue d) (blk_mem d) [(h, hdr # bs @ [sta])]"
    and "S = used_cells (blk_queue d) (blk_mem d)" and "request_chain S (blk_mem d) BLK_T_IN sector hdr bs sta" and "blk_room host d bs"
    and "unat sector * 512 + data_len bs \<le> length (blk_disk d)" and "\<not> blk_stopped d" and "2 \<le> fuel" and "cb_len (hd bs) = 0"
  shows "\<exists>d1 d2 q' gm1. blk_notify_queue host fuel 0 d = Some (d1, []) \<and> blk_complete 0 True k d1 = Some d2 \<and>
    data_bytes (blk_mem d2) bs = data_bytes (blk_mem d) bs \<and> gm_ram (blk_mem d2) ! cb_ptr sta = BLK_S_OK \<and>
    vq_push h (of_nat (data_len bs) + 1) ((blk_queue d)\<lparr>last_avail := last_avail (blk_queue d) + 1\<rparr>, gm1) = Some (q', blk_mem d2)"
proof -
  let ?q = "(blk_queue d)\<lparr>last_avail := last_avail (blk_queue d) + 1\<rparr>"
  obtain b bs' where b: "bs = b # bs'" "cb_len b = 0" using assms(5,10) by (cases bs) (auto simp: request_chain_def)
  have "only_at {} gm (gm\<lparr>gm_ram := scatter (segs_of bs) dat (data_len bs) 0 (gm_ram gm)\<rparr>) \<and>
      data_bytes (gm\<lparr>gm_ram := scatter (segs_of bs) dat (data_len bs) 0 (gm_ram gm)\<rparr>) bs = data_bytes (blk_mem d) bs"
    if at: "only_at S (blk_mem d) gm" for gm dat
  proof -
    note L = request_layout [OF assms(1-5) refl only_at_refl]
    have "data_bytes gm bs = data_bytes (blk_mem d) bs" using L(2,9) by (intro data_bytes_only_at [OF at L(1)]) auto
    moreover have "scatter (segs_of bs) dat (data_len bs) 0 (gm_ram gm) = gm_ram gm" using b by (simp add: segs_of_def)
    ultimately show ?thesis by (simp add: only_at_refl)
  qed
  from read_run [where k = k, OF assms(1-9) refl this] show ?thesis by blast
qed

text \<open>
  C6. A write arrives: when the driver publishes a request of type OUT to a writable disk, laid out by the
  rules, whose range lies inside the file, a notification hands exactly one operation to the host; when the
  host completes it, the file holds the bytes of the data buffers, in order, from that sector on and is
  unchanged elsewhere, the status byte says OK, the chain is returned, and the driver is
  interrupted as the queue decides. Apart from the status byte and the device's half of the rings, RAM
  keeps its contents.
\<close>

theorem blk_write_arrives:
  assumes "blk_ok 0 d" and "rings_apart S (blk_queue d) (blk_mem d)" and "published S (blk_queue d) (blk_mem d) [(h, hdr # bs @ [sta])]"
    and "S = used_cells (blk_queue d) (blk_mem d)" and "request_chain S (blk_mem d) BLK_T_OUT sector hdr bs sta" and "blk_room host d bs"
    and "unat sector * 512 + data_len bs \<le> length (blk_disk d)" and "\<not> blk_stopped d" and "2 \<le> fuel"
    and "q = (blk_queue d)\<lparr>last_avail := last_avail (blk_queue d) + 1\<rparr>" and "\<not> blk_readonly d"
  shows "\<exists>d1 d2 j q' gm1. blk_notify_queue host fuel 0 d = Some (d1, []) \<and> blk_inflight d1 = j # blk_inflight d \<and> blk_complete 0 True k d1 = Some d2 \<and>
    blk_disk d2 = overwrite (blk_disk d) (unat sector * 512) (data_bytes (blk_mem d) bs) \<and> gm_ram (blk_mem d2) ! cb_ptr sta = BLK_S_OK \<and>
    vq_push h 1 (q, gm1) = Some (q', blk_mem d2) \<and> blk_queue d2 = fst (should_interrupt_driver q' (blk_mem d2)) \<and>
    blk_raised d2 = blk_raised d @ (if snd (should_interrupt_driver q' (blk_mem d2)) then [0] else []) \<and>
    blk_inflight d2 = blk_inflight d \<and> blk_active d2 = blk_active d \<and> only_at (S \<union> {cb_ptr sta}) (blk_mem d) (blk_mem d2)"
proof -
  have out: "BLK_T_OUT = BLK_T_IN \<or> BLK_T_OUT = BLK_T_OUT \<and> \<not> blk_readonly d" using assms(11) by simp
  obtain d3 gm2 rp i sp j bp buf bopt v where n: "blk_notify_queue host fuel 0 d = Some (held d3 rp i (fresh_req h BLK_T_OUT (blk_epoch d) (cb_ptr sta) bopt) sp j
        \<lparr>so_op = if BLK_T_OUT = BLK_T_IN then OpRead else OpWrite, so_buf = buf, so_bytes = of_nat (data_len bs), so_off = sector * SECTOR_SIZE, so_parent = i\<rparr> bp, [])"
    and v3: "shows_as d3 gm2 q (blk_disk d) (blk_raised d) (blk_inflight d) (Suc (blk_active d))" and e: "blk_epoch d3 = blk_epoch d" and at: "only_at S (blk_mem d) gm2"
    and ij: "i < length (slab rp)" "j < length (slab sp)" and c: "carries bp bs buf bopt v" "data_len bs < 2 ^ 32" and so: "unat (sector * SECTOR_SIZE) = unat sector * 512"
    and gat: "bopt \<noteq> None \<longrightarrow> BLK_T_OUT \<noteq> BLK_T_IN \<longrightarrow> take (data_len bs) v = data_bytes (blk_mem d) bs"
    using notify_submits [OF assms(1-6) out assms(7,10,8,9)] by (elim exE conjE) (rule that)
  define r where "r = fresh_req h BLK_T_OUT (blk_epoch d3) (cb_ptr sta) bopt"
  define s where "s = \<lparr>so_op = OpWrite, so_buf = buf, so_bytes = of_nat (data_len bs), so_off = sector * SECTOR_SIZE, so_parent = i\<rparr>"
  have d1: "blk_notify_queue host fuel 0 d = Some (held d3 rp i r sp j s bp, [])" "blk_inflight (held d3 rp i r sp j s bp) = j # blk_inflight d"
    using n e v3 by (simp_all add: r_def s_def held_def shows_as_def)
  have m3: "blk_mem d3 = gm2" "blk_queue d3 = q" "blk_disk d3 = blk_disk d" "blk_raised d3 = blk_raised d" "blk_inflight d3 = blk_inflight d" "blk_active d3 = Suc (blk_active d)"
    using v3 by (simp_all add: shows_as_def)
  note L0 = request_layout [OF assms(1-5,10) only_at_refl] and L2 = request_layout [OF assms(1-5,10) at]
  have "data_bytes gm2 bs = data_bytes (blk_mem d) bs" using L0(2,9) by (intro data_bytes_only_at [OF at L0(1)]) auto
  then have pay: "(case bopt of None \<Rightarrow> data_bytes (blk_mem d3) bs | Some _ \<Rightarrow> take (data_len bs) v) = data_bytes (blk_mem d) bs"
    using gat m3(1) by (simp split: option.split)
  let ?A = "seg_outcome s True (host_transfer s True k (returned d3 rp i r sp j s bp))"
  have A: "shows_as ?A gm2 q (overwrite (blk_disk d) (unat sector * 512) (data_bytes (blk_mem d) bs)) (blk_raised d) (blk_inflight d) (Suc (blk_active d))"
      "slab (blk_reqs ?A) ! i = r" "blk_epoch ?A = blk_epoch d3"
    using write_outcome [where d = d3 and k = k and r = r, OF c(1) ij(1) c(2) s_def refl refl] by (simp_all add: pay m3 so)
  have rd: "slab (blk_reqs ?A) ! i = r\<lparr>rq_done := 0\<rparr>" "blk_epoch ?A = rq_epoch r" "so_parent s = i"
    using A(2,3) by (simp_all add: r_def s_def fresh_req_def)
  obtain d2 q' gm1 where d2: "blk_complete 0 True k (held d3 rp i r sp j s bp) = Some d2" "vq_push h 1 (q, gm1) = Some (q', blk_mem d2)"
      "blk_queue d2 = fst (should_interrupt_driver q' (blk_mem d2))" "blk_disk d2 = overwrite (blk_disk d) (unat sector * 512) (data_bytes (blk_mem d) bs)"
      "blk_raised d2 = blk_raised d @ (if snd (should_interrupt_driver q' (blk_mem d2)) then [0] else [])" "blk_inflight d2 = blk_inflight d" "blk_active d2 = blk_active d"
      "only_at (S \<union> {cb_ptr sta}) gm2 (blk_mem d2)" "gm_ram (blk_mem d2) ! cb_ptr sta = BLK_S_OK"
    using completes [OF refl ij(2,1) rd(3) A(1) rd(1,2) r_def refl L2(5-7,3,4,10)] by auto
  have "only_at (S \<union> {cb_ptr sta}) (blk_mem d) (blk_mem d2)"
    using only_at_trans [OF at d2(8)] by (rule only_at_mono) blast
  then show ?thesis using d1 d2 by (intro exI [of _ "held d3 rp i r sp j s bp"] exI [of _ d2] exI [of _ j] exI [of _ q'] exI [of _ gm1]) simp
qed

section \<open>Concrete requests\<close>

text \<open>
  The ring of \<^verbatim>\<open>demo_mem\<close> with a request for sector 1: a header at 128, two data buffers at 144 and 152, of \<open>n\<close> and 8
  bytes, the status byte at 160; the data is for the device to write when the request reads.
\<close>

definition blk_ram :: "u32 \<Rightarrow> nat \<Rightarrow> bytes" where
  "blk_ram rtype n = (let fl = (if rtype = BLK_T_IN then 3 else 1) in
     desc_bytes 128 16 1 1 @ desc_bytes 144 (of_nat n) fl 2 @ desc_bytes 152 8 fl 3 @ desc_bytes 160 1 2 0 @
     le16 0 @ le16 1 @ le16 0 @ replicate 10 0 @ replicate 48 0 @
     le32 rtype @ le32 0 @ le64 1 @ replicate 16 9 @ replicate 32 255)"

definition blk_demo_mem :: "u32 \<Rightarrow> nat \<Rightarrow> guest_memory" where
  "blk_demo_mem rtype n = demo_mem\<lparr>gm_ram := blk_ram rtype n\<rparr>"

definition blk_demo :: "u32 \<Rightarrow> nat \<Rightarrow> blk_device" where
  "blk_demo rtype n = (blk_new (blk_demo_mem rtype n) (replicate 512 0 @ replicate 512 7) False 64)\<lparr>blk_queue := demo_vq\<lparr>max_size := 64\<rparr>\<rparr>"

abbreviation "blk_hdr \<equiv> \<lparr>cb_ptr = 128, cb_len = 16, cb_write = False\<rparr>"
abbreviation "blk_sta \<equiv> \<lparr>cb_ptr = 160, cb_len = 1, cb_write = True\<rparr>"
abbreviation blk_data :: "bool \<Rightarrow> nat \<Rightarrow> chain_buf list" where
  "blk_data w n \<equiv> [\<lparr>cb_ptr = 144, cb_len = n, cb_write = w\<rparr>, \<lparr>cb_ptr = 152, cb_len = 8, cb_write = w\<rparr>]"

lemma blk_demo_fields: "blk_queue (blk_demo t n) = demo_vq\<lparr>max_size := 64\<rparr>" "blk_mem (blk_demo t n) = blk_demo_mem t n"
    "blk_disk (blk_demo t n) = replicate 512 0 @ replicate 512 7" "\<not> blk_stopped (blk_demo t n)" "\<not> blk_readonly (blk_demo t n)" "blk_inflight (blk_demo t n) = []"
  by (simp_all add: blk_demo_def blk_new_def)

lemma blk_demo_at: "only_at UNIV demo_mem (blk_demo_mem t n)"
  unfolding only_at_def blk_demo_mem_def
  by (rule exI [of _ "blk_ram t n"]) (simp add: blk_ram_def demo_mem_def demo_ram_def desc_bytes_def Let_def)

lemma blk_demo_ok: "blk_ok 0 (blk_demo t n)"
proof -
  have "wf_mem (blk_demo_mem t n)" using only_at_wf [OF blk_demo_at] demo_ok(1) by simp
  then have "blk_ok 0 (blk_new (blk_demo_mem t n) (replicate 512 0 @ replicate 512 7) False 64)" by (intro blk_new_ok) simp_all
  then show ?thesis unfolding blk_demo_def by (rule inv_queue) (simp add: vq_ok_def demo_vq_def vq_new_def)
qed

lemma blk_demo_room: "n \<le> 8 \<Longrightarrow> blk_room demo_host (blk_demo t n) (blk_data w n)"
  by (simp add: blk_room_def blk_demo_def blk_new_def pool_new_def demo_host_def upt_rec [of 0])

text \<open>A chain without indirect tables.\<close>

lemma direct_chain_ready:
  assumes "table_chain gm (desc_gpa q) (ucast (vq_size q)) h ds" and "list_all (\<lambda>d. d_flags d AND VRING_DESC_F_INDIRECT = 0) ds"
    and "map (buf_at gm) ds = map Some bs" and "h < ucast (vq_size q)" and "length bs \<le> unat (vq_size q)"
  shows "chain_ready S q gm h bs"
proof -
  have len: "length ds = length bs" using assms(3) by (rule map_eq_imp_length_eq)
  have "expands gm (ds ! i) [bs ! i]" if i: "i < length ds" for i
  proof -
    have "map (buf_at gm) ds ! i = map Some bs ! i" by (simp only: assms(3))
    then have "buf_at gm (ds ! i) = Some (bs ! i)" using i len by simp
    moreover have "d_flags (ds ! i) AND VRING_DESC_F_INDIRECT = 0" using assms(2) i by (simp add: list_all_length)
    ultimately show ?thesis by (simp add: expands_def)
  qed
  then have "list_all2 (expands gm) ds (map (\<lambda>b. [b]) bs)" using len by (simp add: list_all2_conv_all_nth)
  moreover have "\<forall>d \<in> set ds. tables_apart S gm d" using assms(2) by (simp add: tables_apart_def list_all_iff)
  moreover have "bs = concat (map (\<lambda>b. [b]) bs)" by simp
  ultimately show ?thesis unfolding chain_ready_def using assms(1,4,5) by blast
qed

lemma blk_demo_request:
  assumes "t = BLK_T_IN \<and> n = 8 \<or> t = BLK_T_OUT \<and> n = 8 \<or> t = BLK_T_IN \<and> n = 0" and S: "S = used_cells (demo_vq\<lparr>max_size := 64\<rparr>) (blk_demo_mem t n)"
  shows "rings_apart S (demo_vq\<lparr>max_size := 64\<rparr>) (blk_demo_mem t n)"
    and "published S (demo_vq\<lparr>max_size := 64\<rparr>) (blk_demo_mem t n) [(0, blk_hdr # blk_data (t = BLK_T_IN) n @ [blk_sta])]"
    and "request_chain S (blk_demo_mem t n) t 1 blk_hdr (blk_data (t = BLK_T_IN) n) blk_sta"
proof -
  let ?q = "demo_vq\<lparr>max_size := 64\<rparr>" and ?gm = "blk_demo_mem t n" and ?fl = "if t = BLK_T_IN then 3 else 1"
  let ?ds = "[read_desc (desc_bytes 128 16 1 1), read_desc (desc_bytes 144 (of_nat n) ?fl 2), read_desc (desc_bytes 152 8 ?fl 3), read_desc (desc_bytes 160 1 2 0)]"
  have Sd: "S = used_cells ?q demo_mem" using S used_cells_only_at [OF blk_demo_at] by simp
  then have S80: "S \<subseteq> {80..<120}" using demo_used_cells by simp
  have n8: "n \<le> 8" using assms(1) by auto
  show ra: "rings_apart S ?q ?gm" using demo_published(1) [of S] Sd S80 rings_apart_any [OF blk_demo_at] by auto
  have tab: "table_chain ?gm (desc_gpa ?q) (ucast (vq_size ?q)) 0 ?ds" using assms(1) by (elim disjE conjE; simp only:; code_simp)
  have b: "map (buf_at ?gm) ?ds = map Some (blk_hdr # blk_data (t = BLK_T_IN) n @ [blk_sta])" using assms(1) by (elim disjE conjE; simp only:; code_simp)
  have fl: "list_all (\<lambda>d. d_flags d AND VRING_DESC_F_INDIRECT = 0) ?ds" using assms(1) by (elim disjE conjE; simp only:; code_simp)
  have "0 < (ucast (vq_size ?q) :: u16)" "length (blk_hdr # blk_data (t = BLK_T_IN) n @ [blk_sta]) \<le> unat (vq_size ?q)"
    by (simp_all add: demo_vq_def vq_new_def)
  from direct_chain_ready [OF tab fl b this]
  have "chain_ready S ?q ?gm 0 (blk_hdr # blk_data (t = BLK_T_IN) n @ [blk_sta])" .
  moreover have "avail_ring ?q ?gm 0 = 0" "avail_idx ?q ?gm = 1" using assms(1) by (elim disjE conjE; simp only:; code_simp)+
  moreover have "last_avail ?q = 0" by code_simp
  ultimately show "published S ?q ?gm [(0, blk_hdr # blk_data (t = BLK_T_IN) n @ [blk_sta])]" by (simp add: published_def demo_vq_def vq_new_def)
  have "cb_read_at ?gm blk_hdr 0 16 = le32 t @ le32 0 @ le64 1" using assms(1) by (elim disjE conjE; simp only:; code_simp)
  then have hdr: "\<exists>r. cb_read_at ?gm blk_hdr 0 16 = le32 t @ le32 r @ le64 1" by (rule exI)
  have "data_span (blk_hdr # blk_data (t = BLK_T_IN) n @ [blk_sta]) \<subseteq> {128..<161}" using n8 by auto
  then have ap: "data_span (blk_hdr # blk_data (t = BLK_T_IN) n @ [blk_sta]) \<inter> S = {}" using S80 by fastforce
  have so: "sorted_wrt (\<lambda>x y. buf_span x \<inter> buf_span y = {}) (blk_data (t = BLK_T_IN) n @ [blk_sta])" using n8 by auto
  show "request_chain S ?gm t 1 blk_hdr (blk_data (t = BLK_T_IN) n) blk_sta"
    unfolding request_chain_def by (intro conjI hdr ap so) simp_all
qed

theorem blk_read_delivers_witness:
  "\<exists>d1 d2. blk_notify_queue demo_host 2 0 (blk_demo BLK_T_IN 8) = Some (d1, []) \<and> blk_complete 0 True 0 d1 = Some d2 \<and>
     data_bytes (blk_mem d2) (blk_data True 8) = replicate 16 7 \<and> gm_ram (blk_mem d2) ! 160 = BLK_S_OK"
proof -
  note q = blk_demo_request [of BLK_T_IN 8, OF _ refl]
  have sec: "byte_range (replicate 512 0 @ replicate 512 7) 512 16 = (replicate 16 7 :: bytes)" by (simp add: byte_range_def)
  show ?thesis
    using blk_read_delivers [of "blk_demo BLK_T_IN 8", unfolded blk_demo_fields, OF blk_demo_ok _ _ refl _ blk_demo_room _ _ order_refl refl, of 0 blk_hdr True blk_sta 1 0]
      q blk_demo_fields(4) [of BLK_T_IN 8] sec by auto
qed

theorem blk_read_lost_behind_empty_buffer_witness:
  "\<exists>d1 d2. blk_notify_queue demo_host 2 0 (blk_demo BLK_T_IN 0) = Some (d1, []) \<and> blk_complete 0 True 0 d1 = Some d2 \<and>
     data_bytes (blk_mem d2) (blk_data True 0) = replicate 8 9 \<and> gm_ram (blk_mem d2) ! 160 = BLK_S_OK"
proof -
  note q = blk_demo_request [of BLK_T_IN 0, OF _ refl]
  have old: "data_bytes (blk_demo_mem BLK_T_IN 0) (blk_data True 0) = replicate 8 9" by code_simp
  show ?thesis
    using blk_read_lost_behind_empty_buffer [of "blk_demo BLK_T_IN 0", unfolded blk_demo_fields, OF blk_demo_ok _ _ refl _ blk_demo_room _ _ order_refl, of 0 blk_hdr True blk_sta 1 0]
      q blk_demo_fields(4) [of BLK_T_IN 0] old by auto
qed

theorem blk_write_arrives_witness:
  "\<exists>d1 d2. blk_notify_queue demo_host 2 0 (blk_demo BLK_T_OUT 8) = Some (d1, []) \<and> blk_complete 0 True 0 d1 = Some d2 \<and>
     blk_disk d2 = replicate 512 0 @ replicate 16 9 @ replicate 496 7 \<and> gm_ram (blk_mem d2) ! 160 = BLK_S_OK"
proof -
  note q = blk_demo_request [of BLK_T_OUT 8, OF _ refl]
  have pay: "data_bytes (blk_demo_mem BLK_T_OUT 8) (blk_data False 8) = replicate 16 9" by code_simp
  have ov: "overwrite (replicate 512 0 @ replicate 512 7) 512 (replicate 16 9) = (replicate 512 0 @ replicate 16 9 @ replicate 496 7 :: bytes)"
    by (simp add: overwrite_def)
  show ?thesis
    using blk_write_arrives [of "blk_demo BLK_T_OUT 8", unfolded blk_demo_fields, OF blk_demo_ok _ _ refl _ blk_demo_room _ _ order_refl refl, of 0 blk_hdr False blk_sta 1 0]
      q blk_demo_fields(4,5) [of BLK_T_OUT 8] pay ov by auto
qed

lemma single_pending:
  assumes "blk_ok 0 d" and "blk_inflight d = [j]" and "i \<in> taken (blk_reqs d)"
  shows "i = so_parent (slab (blk_segs d) ! j)"
proof -
  have "0 < pending_of i d" using assms(1,3) by (simp add: blk_inv_def)
  then show ?thesis using assms(2) by (simp add: pending_of_def split: if_splits)
qed

lemma blk_demo_notified:
  "\<exists>d1 j. blk_notify_queue demo_host 2 0 (blk_demo BLK_T_IN 8) = Some (d1, []) \<and> blk_ok 0 d1 \<and> blk_inflight d1 = [j] \<and>
     (\<forall>i. i \<in> taken (blk_reqs d1) \<longrightarrow> rq_epoch (slab (blk_reqs d1) ! i) = blk_epoch d1)"
proof -
  let ?d = "blk_demo BLK_T_IN 8" and ?S = "used_cells (demo_vq\<lparr>max_size := 64\<rparr>) (blk_demo_mem BLK_T_IN 8)"
  note b = blk_demo_request [of BLK_T_IN 8, OF disjI1 [OF conjI [OF refl refl]] refl]
  have q: "rings_apart ?S (blk_queue ?d) (blk_mem ?d)" "published ?S (blk_queue ?d) (blk_mem ?d) [(0, blk_hdr # blk_data True 8 @ [blk_sta])]"
    "?S = used_cells (blk_queue ?d) (blk_mem ?d)" "request_chain ?S (blk_mem ?d) BLK_T_IN 1 blk_hdr (blk_data True 8) blk_sta"
    unfolding blk_demo_fields using b by simp_all
  have fits: "unat (1 :: u64) * 512 + data_len (blk_data True 8) \<le> length (blk_disk ?d)" by (simp add: blk_demo_fields)
  obtain d3 gm1 rp i sp j bp buf bopt v where n: "blk_notify_queue demo_host 2 0 ?d = Some (held d3 rp i (fresh_req 0 BLK_T_IN (blk_epoch ?d) (cb_ptr blk_sta) bopt) sp j
        \<lparr>so_op = if BLK_T_IN = BLK_T_IN then OpRead else OpWrite, so_buf = buf, so_bytes = of_nat (data_len (blk_data True 8)), so_off = 1 * SECTOR_SIZE, so_parent = i\<rparr> bp, [])"
      and v: "shows_as d3 gm1 ((blk_queue ?d)\<lparr>last_avail := last_avail (blk_queue ?d) + 1\<rparr>) (blk_disk ?d) (blk_raised ?d) (blk_inflight ?d) (Suc (blk_active ?d))"
      and e: "blk_epoch d3 = blk_epoch ?d" and il: "i < length (slab rp)" "j < length (slab sp)"
    using notify_submits [OF blk_demo_ok q blk_demo_room [OF order_refl] disjI1 [OF refl] fits refl blk_demo_fields(4) order_refl]
    by (elim exE conjE) (rule that)
  define r where "r = fresh_req 0 BLK_T_IN (blk_epoch ?d) (cb_ptr blk_sta) bopt"
  define s where "s = \<lparr>so_op = if BLK_T_IN = BLK_T_IN then OpRead else OpWrite, so_buf = buf, so_bytes = of_nat (data_len (blk_data True 8)), so_off = 1 * SECTOR_SIZE, so_parent = i\<rparr>"
  let ?d1 = "held d3 rp i r sp j s bp"
  have n1: "blk_notify_queue demo_host 2 0 ?d = Some (?d1, [])" using n by (simp only: r_def s_def)
  have ok: "blk_ok 0 ?d1" using blk_notify_inv [of demo_host ?d 2 0, OF demo_host_ok blk_demo_ok] n1 by auto
  have f: "blk_inflight ?d1 = [j]" "so_parent (slab (blk_segs ?d1) ! j) = i" "rq_epoch (slab (blk_reqs ?d1) ! i) = blk_epoch ?d1"
    using v e il by (simp_all add: held_def shows_as_def blk_demo_fields r_def s_def fresh_req_def)
  have "rq_epoch (slab (blk_reqs ?d1) ! k) = blk_epoch ?d1" if "k \<in> taken (blk_reqs ?d1)" for k
    using single_pending [OF ok f(1) that] f(2,3) by simp
  then show ?thesis using n1 ok f(1) by blast
qed

text \<open>The read is with the host when the guest resets the device; it fails afterwards.\<close>

theorem blk_reset_is_silent_witness:
  "\<exists>d1 d2. blk_notify_queue demo_host 2 0 (blk_demo BLK_T_IN 8) = Some (d1, []) \<and> length (blk_inflight d1) = 1 \<and>
     blk_complete_all [(0, False, 3)] (device_reset (blk_dev 2 demo_host) d1) = Some d2 \<and>
     blk_queue d2 = vq_reset (blk_queue d1) \<and> blk_raised d2 = blk_raised d1 \<and> blk_active d2 = 0"
proof -
  obtain d1 j where d1: "blk_notify_queue demo_host 2 0 (blk_demo BLK_T_IN 8) = Some (d1, [])" "blk_ok 0 d1" "blk_inflight d1 = [j]"
      "\<forall>i. i \<in> taken (blk_reqs d1) \<longrightarrow> rq_epoch (slab (blk_reqs d1) ! i) = blk_epoch d1"
    using blk_demo_notified by blast
  have "\<forall>i. i \<in> taken (blk_reqs d1) \<longrightarrow> rq_epoch (slab (blk_reqs d1) ! i) \<noteq> blk_epoch d1 + 1" using d1(4) by simp
  then show ?thesis using blk_reset_is_silent [OF d1(2), of "[(0, False, 3)]" 2 demo_host] d1 by auto
qed

end
