(* ===== verification/Cpu_Exits.thy ===== *)
theory Cpu_Exits
  imports Guest_Memory
begin

unbundle bit_operations_syntax

text \<open>
  What a virtual processor asks of the monitor besides its buses: the CPUID policy
  (\<^verbatim>\<open>src/whp/cpuid.rs\<close>), the guest crash registers and the choice of enlightenments
  (\<^verbatim>\<open>src/whp/hv.rs\<close>), the snapshot trigger (\<^verbatim>\<open>src/whp/snapshot.rs\<close>) and the handlers of the
  run loop for these exits (\<^verbatim>\<open>src/whp/run_loop.rs\<close>). The host's own CPUID results, its clock and
  the hypervisor's answers are arguments. The lemmas show that the processors a guest counts are
  distinct and in one package, that it never sees MONITOR or MWAITX, that a crash report has only
  printable bytes, and that a refused or failing register write ends in an error and not in a step.
\<close>

section \<open>Why a processor stops\<close>

datatype stop_reason = GuestHalted | Cancelled | UnhandledExit | EmulationFailure | SnapshotRequested | GuestCrashed

fun is_fatal :: "stop_reason \<Rightarrow> bool" where
  "is_fatal UnhandledExit = True"
| "is_fatal EmulationFailure = True"
| "is_fatal GuestCrashed = True"
| "is_fatal _ = False"

fun exit_code_step :: "stop_reason \<Rightarrow> int \<Rightarrow> int" where
  "exit_code_step GuestCrashed code = 2"
| "exit_code_step GuestHalted code = code"
| "exit_code_step Cancelled code = code"
| "exit_code_step _ code = max code 1"

definition exit_code :: "stop_reason list \<Rightarrow> int" where
  "exit_code rs = fold exit_code_step rs 0"

text \<open>The exit code of a machine is that of its worst stop: a crash, then anything abnormal.\<close>

lemma exit_code_worst:
  "exit_code rs = (if GuestCrashed \<in> set rs then 2 else if \<exists>r \<in> set rs. r \<notin> {GuestHalted, Cancelled} then 1 else 0)"
proof -
  have "fold exit_code_step rs c = (if GuestCrashed \<in> set rs then 2 else if \<exists>r \<in> set rs. r \<notin> {GuestHalted, Cancelled} then max c 1 else c)"
    if "c \<le> 2" for c
    using that
  proof (induction rs arbitrary: c)
    case (Cons r rs)
    then show ?case by (cases r) auto
  qed simp
  then show ?thesis by (simp add: exit_code_def)
qed

section \<open>CPUID\<close>

record cpuid_result =
  eax :: u32
  ebx :: u32
  ecx :: u32
  edx :: u32

definition cpuid_default :: cpuid_result where
  "cpuid_default = \<lparr>eax = 0, ebx = 0, ecx = 0, edx = 0\<rparr>"

record cpuid_context =
  vcpu_index :: u32
  vcpu_count :: u32

abbreviation ECX_MONITOR :: u32 where "ECX_MONITOR \<equiv> 0x8"
abbreviation ECX_X2APIC :: u32 where "ECX_X2APIC \<equiv> 0x200000"
abbreviation ECX_TSC_DEADLINE :: u32 where "ECX_TSC_DEADLINE \<equiv> 0x1000000"
abbreviation ECX_HYPERVISOR :: u32 where "ECX_HYPERVISOR \<equiv> 0x80000000"
abbreviation ECX_EXT_MWAITX :: u32 where "ECX_EXT_MWAITX \<equiv> 0x20000000"
abbreviation EAX_ARAT :: u32 where "EAX_ARAT \<equiv> 0x4"
abbreviation EDX_INVARIANT_TSC :: u32 where "EDX_INVARIANT_TSC \<equiv> 0x100"
abbreviation HV_MISC_GUEST_CRASH_MSRS_AVAILABLE :: u32 where "HV_MISC_GUEST_CRASH_MSRS_AVAILABLE \<equiv> 0x400"
abbreviation CORE_SHIFT :: u32 where "CORE_SHIFT \<equiv> 5"

text \<open>
  The rate of the time stamp counter: the hypervisor's clock, else the host's leaves 0x15 and 0x16,
  else a calibration against the host's clock, whose result is an argument.
\<close>

definition measure_tsc_hz :: "u64 option \<Rightarrow> cpuid_result \<Rightarrow> cpuid_result \<Rightarrow> u64 \<Rightarrow> u64" where
  "measure_tsc_hz clock r15 r16 calibrated = (case clock of
     Some hz \<Rightarrow> hz
   | None \<Rightarrow>
       if eax r15 \<noteq> 0 \<and> ebx r15 \<noteq> 0 \<and> ecx r15 \<noteq> 0 then (ucast (ecx r15) * ucast (ebx r15)) div ucast (eax r15)
       else if eax r16 \<noteq> 0 then ucast (eax r16) * 1000000
       else calibrated)"

definition host_is_amd :: "cpuid_result \<Rightarrow> bool" where
  "host_is_amd r = (le32 (ebx r) @ le32 (edx r) @ le32 (ecx r) \<in>
     {map of_char ''AuthenticAMD'', map of_char ''HygonGenuine''})"

definition resolve_cpuid :: "bool \<Rightarrow> u64 \<Rightarrow> u32 \<Rightarrow> u32 \<Rightarrow> cpuid_result \<Rightarrow> cpuid_context \<Rightarrow> cpuid_result" where
  "resolve_cpuid hide_tsc_deadline tsc_hz leaf subleaf r ctx =
     (let index = (if vcpu_index ctx < 256 then vcpu_index ctx else 0);
          count = (if 1 \<le> vcpu_count ctx \<and> vcpu_count ctx \<le> 256 then vcpu_count ctx else 1)
      in if leaf = 0 then (if eax r < 0x1F then r\<lparr>eax := 0x1F\<rparr> else r)
         else if leaf = 1 then
           (let c1 = ecx r OR ECX_X2APIC;
                c2 = (if \<not> hide_tsc_deadline then c1 OR ECX_TSC_DEADLINE else c1 AND NOT ECX_TSC_DEADLINE);
                c3 = (c2 OR ECX_HYPERVISOR) AND NOT ECX_MONITOR
            in r\<lparr>ecx := c3, ebx := (ebx r AND 0xFFFF) OR push_bit 16 (count AND 0xFF) OR push_bit 24 (index AND 0xFF)\<rparr>)
         else if leaf = 5 then cpuid_default
         else if leaf = 6 then r\<lparr>eax := eax r OR EAX_ARAT\<rparr>
         else if leaf = 0xB \<or> leaf = 0x1F then
           (case (if subleaf = 0 then (0, 1, 1) else if subleaf = 1 then (CORE_SHIFT, count, 2) else (0, 0, 0)) of
              (a, b, level) \<Rightarrow> r\<lparr>eax := a, ebx := b AND 0xFFFF, ecx := (subleaf AND 0xFF) OR push_bit 8 level, edx := index\<rparr>)
         else if leaf = 0x15 then r\<lparr>eax := 1, ebx := 1, ecx := (if tsc_hz \<le> 0xFFFFFFFF then ucast tsc_hz else 0xFFFFFFFF), edx := 0\<rparr>
         else if leaf = 0x16 then
           (let base_mhz = ucast (tsc_hz div 1000000) in r\<lparr>eax := base_mhz, ebx := base_mhz, ecx := 100, edx := 0\<rparr>)
         else if leaf = 0x80000001 then r\<lparr>ecx := ecx r AND NOT ECX_EXT_MWAITX\<rparr>
         else if leaf = 0x80000007 then r\<lparr>edx := edx r OR EDX_INVARIANT_TSC\<rparr>
         else if leaf = 0x40000003 then r\<lparr>edx := edx r OR HV_MISC_GUEST_CRASH_MSRS_AVAILABLE\<rparr>
         else r)"

section \<open>Enlightenments\<close>

abbreviation BASE_FEATURES :: u64 where "BASE_FEATURES \<equiv> 0x3"

text \<open>The bits 0 to 11, 15, 18, 22 and 24 to 30 of the synthetic processor features.\<close>

definition OFFLOADED :: u64 where
  "OFFLOADED = foldr (\<lambda>n w. push_bit n 1 OR w) [0, 1, 2, 3, 7, 8, 9, 4, 5, 18, 24, 26, 27, 28, 29, 30, 25, 10, 11, 15, 6, 22] 0"

datatype hv_error = HostTooOld u64 | SnapshotNeeds u64 | SetFeaturesFailed | SectionLength nat

definition offload :: "u64 option \<Rightarrow> (u64 \<Rightarrow> bool) \<Rightarrow> u64 option \<Rightarrow> hv_error + u64" where
  "offload host_supports set_ok restore =
     (let supported = (case host_supports of None \<Rightarrow> 0 | Some s \<Rightarrow> s)
      in if supported AND BASE_FEATURES \<noteq> BASE_FEATURES then Inl (HostTooOld supported)
         else case (case restore of
                      Some saved \<Rightarrow> if saved AND NOT supported \<noteq> 0 then Inl (SnapshotNeeds (saved AND NOT supported)) else Inr saved
                    | None \<Rightarrow> Inr (OFFLOADED AND supported)) of
                Inl e \<Rightarrow> Inl e
              | Inr features \<Rightarrow> if set_ok features then Inr features else Inl SetFeaturesFailed)"

record partition_state =
  guest_os_id :: u64
  hypercall_msr :: u64
  reference_tsc :: u64
  reference_time :: u64

definition partition_encode :: "partition_state \<Rightarrow> bytes" where
  "partition_encode s = concat (map le64 [guest_os_id s, hypercall_msr s, reference_tsc s, reference_time s])"

definition partition_decode :: "bytes \<Rightarrow> hv_error + partition_state" where
  "partition_decode bs =
     (if length bs \<noteq> 32 then Inl (SectionLength (length bs))
      else let u64_at = (\<lambda>i. from_le64 (byte_range bs (i * 8) 8))
           in Inr \<lparr>guest_os_id = u64_at 0, hypercall_msr = u64_at 1, reference_tsc = u64_at 2, reference_time = u64_at 3\<rparr>)"

section \<open>The guest crash registers\<close>

abbreviation MSR_CRASH_P0 :: u32 where "MSR_CRASH_P0 \<equiv> 0x40000100"
abbreviation MSR_CRASH_P4 :: u32 where "MSR_CRASH_P4 \<equiv> 0x40000104"
abbreviation MSR_CRASH_CTL :: u32 where "MSR_CRASH_CTL \<equiv> 0x40000105"
abbreviation CRASH_CTL_NOTIFY :: u64 where "CRASH_CTL_NOTIFY \<equiv> 0x8000000000000000"
abbreviation CRASH_CTL_NOTIFY_MSG :: u64 where "CRASH_CTL_NOTIFY_MSG \<equiv> 0x4000000000000000"

datatype msr_handled = MsrYes | NoInjectGp | MsrGuestCrashed

record crash_regs =
  crash_p :: "u64 list"
  crash_ctl :: u64

definition crash_new :: crash_regs where
  "crash_new = \<lparr>crash_p = replicate 5 0, crash_ctl = 0\<rparr>"

definition handle_wrmsr :: "u32 \<Rightarrow> u64 \<Rightarrow> crash_regs \<Rightarrow> crash_regs \<times> msr_handled" where
  "handle_wrmsr msr v c =
     (if MSR_CRASH_P0 \<le> msr \<and> msr \<le> MSR_CRASH_P4 then (c\<lparr>crash_p := (crash_p c)[unat (msr - MSR_CRASH_P0) := v]\<rparr>, MsrYes)
      else if msr = MSR_CRASH_CTL \<and> v AND CRASH_CTL_NOTIFY \<noteq> 0 then (c\<lparr>crash_ctl := v\<rparr>, MsrGuestCrashed)
      else if msr = MSR_CRASH_CTL then (c, MsrYes)
      else (c, NoInjectGp))"

definition handle_rdmsr :: "u32 \<Rightarrow> crash_regs \<Rightarrow> u64 \<times> msr_handled" where
  "handle_rdmsr msr c =
     (if MSR_CRASH_P0 \<le> msr \<and> msr \<le> MSR_CRASH_P4 then (crash_p c ! unat (msr - MSR_CRASH_P0), MsrYes)
      else if msr = MSR_CRASH_CTL then (CRASH_CTL_NOTIFY OR CRASH_CTL_NOTIFY_MSG, MsrYes)
      else (0, NoInjectGp))"

definition printable :: "u8 \<Rightarrow> bool" where
  "printable b \<longleftrightarrow> b = 10 \<or> b = 9 \<or> 0x20 \<le> b \<and> b \<le> 0x7E"

definition neutral :: "u8 \<Rightarrow> u8" where
  "neutral b = (if printable b then b else of_char (CHR ''.''))"

text \<open>Formatting with \<^verbatim>\<open>{:x}\<close>.\<close>

definition hex_digit :: "nat \<Rightarrow> u8" where
  "hex_digit d = (if d < 10 then 48 + of_nat d else 87 + of_nat d)"

fun lower_hex :: "nat \<Rightarrow> bytes" where
  "lower_hex n = (if n < 16 then [hex_digit n] else lower_hex (n div 16) @ [hex_digit (n mod 16)])"

declare lower_hex.simps [simp del]

definition ascii :: "string \<Rightarrow> bytes" where
  "ascii s = map of_char s"

definition register_report :: "u64 list \<Rightarrow> bytes" where
  "register_report p =
     ascii ''code 0x'' @ lower_hex (unat (p ! 0)) @ ascii '', guest OS id 0x'' @ lower_hex (unat (p ! 1)) @
     ascii '', RIP 0x'' @ lower_hex (unat (p ! 2)) @ ascii '', RAX 0x'' @ lower_hex (unat (p ! 3)) @
     ascii '', RSP 0x'' @ lower_hex (unat (p ! 4))"

definition crash_report :: "guest_memory \<Rightarrow> crash_regs \<Rightarrow> bytes" where
  "crash_report gm c =
     (let n = min (unat (crash_p c ! 4)) 4096
      in if crash_ctl c AND CRASH_CTL_NOTIFY_MSG \<noteq> 0 \<and> n \<noteq> 0
         then (case read_into gm (crash_p c ! 3) n of Some msg \<Rightarrow> map neutral msg | None \<Rightarrow> register_report (crash_p c))
         else register_report (crash_p c))"

section \<open>The snapshot trigger\<close>

abbreviation MAGIC_LEAF :: u32 where "MAGIC_LEAF \<equiv> 0x4000DE57"

record snapshot_trigger =
  armed :: bool
  requested :: bool
  req_vp :: u32

definition trigger_arm :: "snapshot_trigger \<Rightarrow> snapshot_trigger" where
  "trigger_arm s = s\<lparr>armed := True\<rparr>"

definition on_magic_leaf :: "u32 \<Rightarrow> snapshot_trigger \<Rightarrow> snapshot_trigger \<times> bool" where
  "on_magic_leaf vp s = (if armed s then (s\<lparr>req_vp := vp, requested := True\<rparr>, True) else (s, False))"

section \<open>The exits\<close>

datatype cpu_reg = Rax | Rbx | Rcx | Rdx | Rip | PendingInterruption

type_synonym cpu_regs = "cpu_reg \<Rightarrow> u64"

text \<open>A write of several registers: all of them, or none when the hypervisor refuses.\<close>

definition set_registers :: "bool \<Rightarrow> (cpu_reg \<times> u64) list \<Rightarrow> cpu_regs \<Rightarrow> cpu_regs option" where
  "set_registers ok rvs regs = (if ok then Some (fold (\<lambda>(r, v) f. f(r := v)) rvs regs) else None)"

text \<open>The host that the policies depend on, and the processor's place in the machine.\<close>

record cpu_host =
  host_amd :: bool
  tsc_hz :: u64
  hide_tsc_deadline :: bool
  cpu_ctx :: cpuid_context

record cpu_exit =
  ex_rip :: u64
  ex_len :: u8
  ex_set_ok :: bool

definition or_emulation_failure :: "cpu_regs \<Rightarrow> cpu_regs option \<Rightarrow> cpu_regs \<times> stop_reason option" where
  "or_emulation_failure regs res = (case res of Some regs' \<Rightarrow> (regs', None) | None \<Rightarrow> (regs, Some EmulationFailure))"

definition handle_cpuid :: "cpu_host \<Rightarrow> cpu_exit \<Rightarrow> u32 \<Rightarrow> u32 \<Rightarrow> cpuid_result \<Rightarrow> snapshot_trigger \<times> cpu_regs
    \<Rightarrow> (snapshot_trigger \<times> cpu_regs) \<times> stop_reason option" where
  "handle_cpuid h e leaf subleaf dflt st = (case st of (s, regs) \<Rightarrow>
     let next_rip = ex_rip e + ucast (ex_len e)
     in if leaf = MAGIC_LEAF then
          (case set_registers (ex_set_ok e) [(Rax, 0), (Rbx, 0x594E4954), (Rcx, 0x45564153), (Rdx, 1), (Rip, next_rip)] regs of
             None \<Rightarrow> ((s, regs), Some EmulationFailure)
           | Some regs' \<Rightarrow> (case on_magic_leaf (vcpu_index (cpu_ctx h)) s of (s', hit) \<Rightarrow>
               ((s', regs'), if hit then Some SnapshotRequested else None)))
        else
          let r = resolve_cpuid (hide_tsc_deadline h) (tsc_hz h) leaf subleaf dflt (cpu_ctx h);
              res = or_emulation_failure regs (set_registers (ex_set_ok e)
                [(Rax, ucast (eax r)), (Rbx, ucast (ebx r)), (Rcx, ucast (ecx r)), (Rdx, ucast (edx r)), (Rip, next_rip)] regs)
          in ((s, fst res), snd res))"

definition amd_config_msr :: "bool \<Rightarrow> u32 \<Rightarrow> u64 option" where
  "amd_config_msr amd msr =
     (if \<not> amd then None
      else if msr = 0xC0010015 then Some 0x1000000
      else if 0xC0010000 \<le> msr \<and> msr \<le> 0xC0010007 \<or> msr = 0xC0010010 \<or> msr = 0xC001001F \<or> msr = 0xC0010115 \<or>
        0xC0010140 \<le> msr \<and> msr \<le> 0xC0010141 \<or> 0xC0011020 \<le> msr \<and> msr \<le> 0xC001102C then Some 0
      else None)"

definition inject_gp :: "bool \<Rightarrow> cpu_regs \<Rightarrow> cpu_regs \<times> stop_reason option" where
  "inject_gp ok regs = or_emulation_failure regs (set_registers ok [(PendingInterruption, 0xD0017)] regs)"

record msr_exit =
  mx_msr :: u32
  mx_write :: bool
  mx_rax :: u64
  mx_rdx :: u64

definition msr_outcome :: "bool \<Rightarrow> msr_exit \<Rightarrow> crash_regs \<Rightarrow> crash_regs \<times> u64 \<times> msr_handled" where
  "msr_outcome amd x c =
     (let wr_val = push_bit 32 (mx_rdx x AND 0xFFFFFFFF) OR (mx_rax x AND 0xFFFFFFFF);
          (c', rd_val, result) =
            (if mx_write x then (case handle_wrmsr (mx_msr x) wr_val c of (c', r) \<Rightarrow> (c', 0, r))
             else (case handle_rdmsr (mx_msr x) c of (v, r) \<Rightarrow> (c, v, r)))
      in if result = NoInjectGp then (case amd_config_msr amd (mx_msr x) of Some v \<Rightarrow> (c', v, MsrYes) | None \<Rightarrow> (c', rd_val, NoInjectGp))
         else (c', rd_val, result))"

definition handle_msr :: "cpu_host \<Rightarrow> cpu_exit \<Rightarrow> msr_exit \<Rightarrow> crash_regs option \<times> cpu_regs
    \<Rightarrow> (crash_regs option \<times> cpu_regs) \<times> stop_reason option" where
  "handle_msr h e x st = (case st of
     (None, regs) \<Rightarrow> (st, Some UnhandledExit)
   | (Some c, regs) \<Rightarrow> (case msr_outcome (host_amd h) x c of (c', rd_val, result) \<Rightarrow> (case result of
       NoInjectGp \<Rightarrow> (case inject_gp (ex_set_ok e) regs of (regs', stop) \<Rightarrow> ((Some c', regs'), stop))
     | MsrGuestCrashed \<Rightarrow> ((Some c', regs), Some GuestCrashed)
     | MsrYes \<Rightarrow>
         let next_rip = ex_rip e + ucast (ex_len e);
             rvs = (if mx_write x then [(Rip, next_rip)]
                    else [(Rax, rd_val AND 0xFFFFFFFF), (Rdx, drop_bit 32 rd_val AND 0xFFFFFFFF), (Rip, next_rip)])
         in case or_emulation_failure regs (set_registers (ex_set_ok e) rvs regs) of
              (regs', stop) \<Rightarrow> ((Some c', regs'), stop))))"

text \<open>A hypercall in a machine without VMBus, the only owner of hypercalls: the call is refused.\<close>

definition handle_hypercall :: "cpu_exit \<Rightarrow> cpu_regs \<Rightarrow> cpu_regs \<times> stop_reason option" where
  "handle_hypercall e regs =
     (let len = (if ex_len e = 0 then 3 else ucast (ex_len e))
      in or_emulation_failure regs (set_registers (ex_set_ok e) [(Rax, 2), (Rip, ex_rip e + len)] regs))"

section \<open>Lemmas\<close>

lemma resolve_cpuid_topology:
  assumes "leaf = 0xB \<or> leaf = 0x1F" and "1 \<le> vcpu_count ctx" and "vcpu_count ctx \<le> 256" and "vcpu_index ctx < 256"
  shows "resolve_cpuid h hz leaf sub d ctx = d\<lparr>eax := (if sub = 1 then CORE_SHIFT else 0),
     ebx := (if sub = 0 then 1 else if sub = 1 then vcpu_count ctx else 0),
     ecx := (sub AND 0xFF) OR push_bit 8 (if sub = 0 then 1 else if sub = 1 then 2 else 0), edx := vcpu_index ctx\<rparr>"
proof -
  have "vcpu_count ctx AND 0xFFFF = vcpu_count ctx"
  proof (rule word_unat_eq_iff [THEN iffD2])
    have "unat (vcpu_count ctx) < 2 ^ 16" using assms(3) by (simp add: word_le_nat_alt)
    moreover have m: "(0xFFFF :: u32) = mask 16" by (simp add: mask_numeral)
    ultimately show "unat (vcpu_count ctx AND 0xFFFF) = unat (vcpu_count ctx)" by (simp only: m unat_and_mask mod_less)
  qed
  then show ?thesis using assms by (auto simp: resolve_cpuid_def Let_def)
qed

lemma cpuid_feature_bits:
  assumes "n < 32"
  shows "bit (ecx (resolve_cpuid h hz 1 sub d ctx)) n \<longleftrightarrow> n = 21 \<or> n = 31 \<or> n = 24 \<and> \<not> h \<or> n \<notin> {3, 24} \<and> bit (ecx d) n"
proof -
  have p: "bit (2 ^ k :: u32) n \<longleftrightarrow> n = k" for k using assms by (auto simp: bit_exp_iff)
  have b: "bit (0x8 :: u32) n \<longleftrightarrow> n = 3" "bit (0x200000 :: u32) n \<longleftrightarrow> n = 21" "bit (0x1000000 :: u32) n \<longleftrightarrow> n = 24" "bit (0x80000000 :: u32) n \<longleftrightarrow> n = 31"
    using p [of 3] p [of 21] p [of 24] p [of 31] by simp_all
  have "ecx (resolve_cpuid h hz 1 sub d ctx) = ((if \<not> h then (ecx d OR ECX_X2APIC) OR ECX_TSC_DEADLINE else (ecx d OR ECX_X2APIC) AND NOT ECX_TSC_DEADLINE)
      OR ECX_HYPERVISOR) AND NOT ECX_MONITOR" by (simp add: resolve_cpuid_def Let_def)
  then have "bit (ecx (resolve_cpuid h hz 1 sub d ctx)) n \<longleftrightarrow> ((if \<not> h then (bit (ecx d) n \<or> n = 21) \<or> n = 24 else (bit (ecx d) n \<or> n = 21) \<and> n \<noteq> 24) \<or> n = 31) \<and> n \<noteq> 3"
    using assms by (cases h) (simp_all only: if_True if_False not_True_eq_False not_False_eq_True bit_or_iff bit_and_iff bit_not_iff b possible_bit_word len_bit0 len_bit1 len_num1, simp_all)
  then show ?thesis by auto
qed

lemma cpuid_initial_apic_id:
  assumes "1 \<le> vcpu_count ctx" and "vcpu_count ctx < 256" and "vcpu_index ctx < 256"
  shows "drop_bit 24 (ebx (resolve_cpuid h hz 1 sub d ctx)) = vcpu_index ctx"
    and "drop_bit 16 (ebx (resolve_cpuid h hz 1 sub d ctx)) AND 0xFF = vcpu_count ctx"
proof -
  have small: "bit w n \<Longrightarrow> n < 8" if "w < 256" for w :: u32 and n
  proof -
    have "w AND mask 8 = w" using that by (intro less_mask_eq) simp
    then show "bit w n \<Longrightarrow> n < 8" using bit_and_iff [of w "mask 8" n] by (simp add: bit_mask_iff)
  qed
  have m: "(0xFF :: u32) = mask 8" "(0xFFFF :: u32) = mask 16" by (simp_all add: mask_numeral)
  have le: "vcpu_count ctx \<le> 256" using assms(2) by simp
  then have e: "ebx (resolve_cpuid h hz 1 sub d ctx) = (ebx d AND mask 16) OR push_bit 16 (vcpu_count ctx AND mask 8) OR push_bit 24 (vcpu_index ctx AND mask 8)"
    using assms by (simp add: resolve_cpuid_def Let_def m)
  show "drop_bit 24 (ebx (resolve_cpuid h hz 1 sub d ctx)) = vcpu_index ctx" unfolding e
    by (intro bit_word_eqI) (auto simp: bit_simps dest: small [OF assms(3)])
  show "drop_bit 16 (ebx (resolve_cpuid h hz 1 sub d ctx)) AND 0xFF = vcpu_count ctx" unfolding e m
    by (intro bit_word_eqI) (auto simp: bit_simps dest: small [OF assms(2)])
qed

lemma partition_decode_encode [simp]: "partition_decode (partition_encode s) = Inr s"
  by (simp add: partition_decode_def partition_encode_def byte_range_append_left byte_range_append_right Let_def)

lemma offload_supported:
  "offload (Some supported) set_ok restore = Inr features \<Longrightarrow>
     features AND NOT supported = 0 \<and> set_ok features \<and> (case restore of Some saved \<Rightarrow> features = saved | None \<Rightarrow> features = OFFLOADED AND supported)"
  by (auto simp: offload_def Let_def ac_simps bit.conj_cancel_right split: if_splits option.splits)

lemma neutral_printable [simp]: "printable (neutral b)"
  by (simp add: neutral_def printable_def)

lemma hex_digit_printable: "d < 16 \<Longrightarrow> printable (hex_digit d)"
proof -
  assume "d < 16"
  then have "d \<in> set [0..<16]" by simp
  moreover have "list_all (\<lambda>d. printable (hex_digit d)) [0..<16]" by code_simp
  ultimately show ?thesis by (auto simp: list_all_iff)
qed

lemma lower_hex_printable: "list_all printable (lower_hex n)"
proof (induction n rule: lower_hex.induct)
  case (1 n)
  show ?case by (subst lower_hex.simps) (use 1 in \<open>auto intro: hex_digit_printable\<close>)
qed

lemma register_report_printable: "list_all printable (register_report p)"
proof -
  have "list_all printable (ascii ''code 0x'')" "list_all printable (ascii '', guest OS id 0x'')" "list_all printable (ascii '', RIP 0x'')"
    "list_all printable (ascii '', RAX 0x'')" "list_all printable (ascii '', RSP 0x'')" by code_simp+
  then show ?thesis by (simp add: register_report_def lower_hex_printable)
qed

lemma crash_report_cases:
  "list_all printable (crash_report gm c)"
  by (auto simp: crash_report_def Let_def register_report_printable list.pred_map comp_def list.pred_True split: option.splits)

section \<open>What the guest learns about its processors\<close>

text \<open>
  C37. A guest that enumerates its processors finds the machine as it is: on leaves 0xB and 0x1F a processor's
  x2APIC id is its index, which is also the initial APIC id of leaf 1, so the ids of the processors
  are distinct; all of them, up to the 32 that the machine may have, are in one package; the walk
  over the levels ends at the third; and whatever the hypervisor reports, the guest never sees
  MONITOR or MWAITX and always x2APIC and the hypervisor bit.
\<close>

theorem cpuid_describes_the_machine:
  assumes "leaf = 0xB \<or> leaf = 0x1F" and "vcpu_index ctx < vcpu_count ctx" and "vcpu_count ctx \<le> 32"
  shows "edx (resolve_cpuid h hz leaf sub d ctx) = vcpu_index ctx \<and>
    drop_bit 24 (ebx (resolve_cpuid h hz 1 sub d ctx)) = vcpu_index ctx \<and>
    ebx (resolve_cpuid h hz leaf 1 d ctx) = vcpu_count ctx \<and>
    drop_bit (unat (eax (resolve_cpuid h hz leaf 1 d ctx))) (vcpu_index ctx) = 0 \<and>
    (drop_bit 8 (ecx (resolve_cpuid h hz leaf sub d ctx)) = 0 \<longleftrightarrow> 2 \<le> sub) \<and>
    \<not> bit (ecx (resolve_cpuid h hz 1 sub d ctx)) 3 \<and> \<not> bit (ecx (resolve_cpuid h hz 0x80000001 sub d ctx)) 29 \<and>
    bit (ecx (resolve_cpuid h hz 1 sub d ctx)) 21 \<and> bit (ecx (resolve_cpuid h hz 1 sub d ctx)) 31"
proof -
  have b: "1 \<le> vcpu_count ctx" "vcpu_count ctx \<le> 256" "vcpu_count ctx < 256" "vcpu_index ctx < 256"
    using assms(2,3) by (auto simp: word_le_nat_alt word_less_nat_alt)
  note t = resolve_cpuid_topology [OF assms(1) b(1,2,4)]
  have c1: "edx (resolve_cpuid h hz leaf sub d ctx) = vcpu_index ctx" by (simp add: t)
  have c2: "drop_bit 24 (ebx (resolve_cpuid h hz 1 sub d ctx)) = vcpu_index ctx" by (rule cpuid_initial_apic_id(1) [OF b(1,3,4)])
  have c3: "ebx (resolve_cpuid h hz leaf 1 d ctx) = vcpu_count ctx" by (simp add: t)
  have c4: "drop_bit (unat (eax (resolve_cpuid h hz leaf 1 d ctx))) (vcpu_index ctx) = 0"
    using assms(2,3) by (simp add: t word_unat_eq_iff unat_drop_bit word_le_nat_alt word_less_nat_alt)
  have "drop_bit 8 ((sub AND 0xFF) OR push_bit 8 l) = l" if "l < 3" for l :: u32
  proof -
    have "l = 0 \<or> l = 1 \<or> l = 2" using that by (auto simp: word_unat_eq_iff word_less_nat_alt)
    moreover have "(0xFF :: u32) = mask 8" by (simp add: mask_numeral)
    ultimately show ?thesis by (elim disjE) (simp_all add: drop_bit_or drop_bit_and drop_bit_mask_eq)
  qed
  moreover have "2 \<le> sub \<longleftrightarrow> sub \<noteq> 0 \<and> sub \<noteq> 1" by (auto simp: word_unat_eq_iff word_le_nat_alt)
  ultimately have c5: "drop_bit 8 (ecx (resolve_cpuid h hz leaf sub d ctx)) = 0 \<longleftrightarrow> 2 \<le> sub" by (simp add: t)
  have "\<not> bit (ecx d AND NOT (0x20000000 :: u32)) 29" by (simp add: bit_and_iff bit_not_iff)
  then have c6: "\<not> bit (ecx (resolve_cpuid h hz 1 sub d ctx)) 3 \<and> \<not> bit (ecx (resolve_cpuid h hz 0x80000001 sub d ctx)) 29"
    by (simp add: cpuid_feature_bits) (simp add: resolve_cpuid_def Let_def)
  have c7: "bit (ecx (resolve_cpuid h hz 1 sub d ctx)) 21 \<and> bit (ecx (resolve_cpuid h hz 1 sub d ctx)) 31"
    by (simp add: cpuid_feature_bits)
  show ?thesis using c1 c2 c3 c4 c5 c6 c7 by blast
qed

theorem cpuid_describes_the_machine_witness:
  "edx (resolve_cpuid False 0 0xB 0 cpuid_default \<lparr>vcpu_index = 31, vcpu_count = 32\<rparr>) = 31 \<and>
   ebx (resolve_cpuid False 0 0xB 1 cpuid_default \<lparr>vcpu_index = 31, vcpu_count = 32\<rparr>) = 32"
  using cpuid_describes_the_machine [of "0xB" "\<lparr>vcpu_index = 31, vcpu_count = 32\<rparr>" False 0]
  by simp

text \<open>
  A guest that crashes cannot drive the host's terminal with its report: whatever the registers and guest
  memory hold, every byte of the report is a newline, a tab or printable ASCII.
\<close>

lemma crash_report_is_printable: "list_all printable (crash_report gm c)"
  by (rule crash_report_cases)

end
