(* ===== verification/Machine.thy ===== *)
theory Machine
  imports Port_Buses Serial8250 Pit8254 Legacy_Isa Power_Device Pic8259 Pci_Host_Bus Guest_Memory Cpu_Exits
begin

text \<open>
  The machine put together (\<^verbatim>\<open>src/main.rs\<close>) and the loop that runs its boot processor
  (\<^verbatim>\<open>src/whp/run_loop.rs\<close>): which device each port reaches, the UART's interrupt wired to the PIC, the
  PIC's output injected into the processor, memory accesses of the emulator that go to RAM or to the
  MMIO bus, the exits for CPUID, model-specific registers and hypercalls, and the guest's requests
  that stop it. The hypervisor is a parameter: a turn of the loop carries what its calls answered.
  The devices on the MMIO bus are behind any handler; VMBus is left out, as when it is switched off.
\<close>

section \<open>Assembly\<close>

datatype port_dev = DevSerial | DevPitChan nat | DevPitControl | DevPort61 | DevCmosIndex | DevCmosData | DevPort80 | DevPort92
  | DevPm1 | DevReset | DevKbd | DevPicMaster | DevPicSlave | DevPciAddress | DevPciData

type_synonym ports = "port_dev io_bus"

definition serial_attach :: "u16 \<Rightarrow> ports \<Rightarrow> ports option" where
  "serial_attach base bus = io_register bus base 8 ''serial8250'' DevSerial"

fun pit_attach_chans :: "nat list \<Rightarrow> ports \<Rightarrow> ports option" where
  "pit_attach_chans [] bus = Some bus"
| "pit_attach_chans (i # is) bus = Option.bind (io_register bus (0x40 + of_nat i) 1 ''pit-chan'' (DevPitChan i)) (pit_attach_chans is)"

definition pit_attach :: "ports \<Rightarrow> ports option" where
  "pit_attach bus = Option.bind (pit_attach_chans [0, 1, 2] bus) (\<lambda>b1.
     Option.bind (io_register b1 0x43 1 ''pit-ctl'' DevPitControl) (\<lambda>b2.
     io_register b2 0x61 1 ''sys-ctrl-b'' DevPort61))"

definition legacy_attach :: "ports \<Rightarrow> ports option" where
  "legacy_attach bus = Option.bind (io_register bus 0x70 1 ''cmos-idx'' DevCmosIndex) (\<lambda>b1.
     Option.bind (io_register b1 0x71 1 ''cmos-dat'' DevCmosData) (\<lambda>b2.
     Option.bind (io_register b2 0x80 1 ''post-diag'' DevPort80) (\<lambda>b3.
     io_register b3 0x92 1 ''port92'' DevPort92)))"

definition power_attach :: "ports \<Rightarrow> ports option" where
  "power_attach bus = Option.bind (io_register bus PM1A_EVT_PORT (of_nat PM1_BLOCK_LEN) ''acpi-pm1'' DevPm1) (\<lambda>b1.
     Option.bind (io_register b1 RESET_PORT 1 ''acpi-reset'' DevReset) (\<lambda>b2.
     io_register b2 KBD_COMMAND_PORT 1 ''kbd-reset'' DevKbd))"

definition pic_attach :: "ports \<Rightarrow> ports option" where
  "pic_attach bus = Option.bind (io_register bus 0x20 2 ''pic-master'' DevPicMaster) (\<lambda>b1.
     io_register b1 0xA0 2 ''pic-slave'' DevPicSlave)"

definition pci_attach :: "ports \<Rightarrow> ports option" where
  "pci_attach bus = Option.bind (io_register bus CONFIG_ADDRESS_PORT 4 ''pci-cfg-addr'' DevPciAddress) (\<lambda>b1.
     io_register b1 CONFIG_DATA_PORT 4 ''pci-cfg-data'' DevPciData)"

text \<open>The order in which \<^verbatim>\<open>main.rs\<close> attaches them.\<close>

definition machine_ports :: "ports option" where
  "machine_ports = Option.bind (serial_attach 0x3F8 []) (\<lambda>b1. Option.bind (pit_attach b1) (\<lambda>b2.
     Option.bind (legacy_attach b2) (\<lambda>b3. Option.bind (power_attach b3) (\<lambda>b4.
     Option.bind (pic_attach b4) pci_attach))))"

section \<open>State and port accesses\<close>

text \<open>
  \<open>m_kicks\<close> counts the PIC's notifications, which cancel the boot processor's run; \<open>m_stop\<close> is the stop flag
  that the power device's callback sets.
\<close>

record ('d, 'w) machine =
  m_com1 :: serial
  m_pit :: pit
  m_legacy :: legacy
  m_power :: power
  m_pic :: pic
  m_pci :: "'d pci_bus"
  m_stdout :: bytes
  m_kicks :: nat
  m_stop :: bool
  m_injected :: "u8 list"
  m_window :: bool
  m_crash :: "crash_regs option"
  m_trigger :: snapshot_trigger
  m_regs :: cpu_regs
  m_ram :: guest_memory
  m_world :: 'w

text \<open>What the host's clocks say: PIT ticks since its start, and seconds of the calendar.\<close>

record clocks =
  pit_now :: u64
  unix_now :: u64

text \<open>The functions behind the host bridge, by their configuration accesses.\<close>

record 'd pci_functions =
  fn_read :: "nat \<Rightarrow> nat \<Rightarrow> 'd \<Rightarrow> u32"
  fn_write :: "nat \<Rightarrow> nat \<Rightarrow> u32 \<Rightarrow> 'd \<Rightarrow> 'd"

definition kick :: "bool \<Rightarrow> ('d, 'w) machine \<Rightarrow> ('d, 'w) machine" where
  "kick n m = (if n then m\<lparr>m_kicks := Suc (m_kicks m)\<rparr> else m)"

definition raise_isa :: "int \<Rightarrow> ('d, 'w) machine \<Rightarrow> ('d, 'w) machine" where
  "raise_isa irq m = (case pic_raise irq (m_pic m) of (p, n) \<Rightarrow> kick n (m\<lparr>m_pic := p\<rparr>))"

definition on_request :: "bool \<Rightarrow> ('d, 'w) machine \<Rightarrow> ('d, 'w) machine" where
  "on_request asked m = (if asked then m\<lparr>m_stop := True\<rparr> else m)"

fun port_run :: "clocks \<Rightarrow> 'd pci_functions \<Rightarrow> port_dev \<Rightarrow> ('d, 'w) machine \<Rightarrow> io_access \<Rightarrow> ('d, 'w) machine \<times> io_access" where
  "port_run k fs DevSerial m a = (case serial_handle True a (m_com1 m) of (s, a', out, r) \<Rightarrow>
     (let m1 = m\<lparr>m_com1 := s, m_stdout := m_stdout m @ out\<rparr> in (if r then raise_isa 4 m1 else m1, a')))"
| "port_run k fs (DevPitChan i) m a = (case handle_counter (pit_now k) i a (m_pit m) of (p, a') \<Rightarrow> (m\<lparr>m_pit := p\<rparr>, a'))"
| "port_run k fs DevPitControl m a = (case handle_control (pit_now k) a (m_pit m) of (p, a') \<Rightarrow> (m\<lparr>m_pit := p\<rparr>, a'))"
| "port_run k fs DevPort61 m a = (case handle_port61 (pit_now k) a (m_pit m) of (p, a') \<Rightarrow> (m\<lparr>m_pit := p\<rparr>, a'))"
| "port_run k fs DevCmosIndex m a = (case handle_cmos_index a (m_legacy m) of (l, a') \<Rightarrow> (m\<lparr>m_legacy := l\<rparr>, a'))"
| "port_run k fs DevCmosData m a = (case handle_cmos_data (unix_now k) a (m_legacy m) of (l, a') \<Rightarrow> (m\<lparr>m_legacy := l\<rparr>, a'))"
| "port_run k fs DevPort80 m a = (m, handle_port80 a)"
| "port_run k fs DevPort92 m a = (case handle_port92 a (m_legacy m) of (l, a') \<Rightarrow> (m\<lparr>m_legacy := l\<rparr>, a'))"
| "port_run k fs DevPm1 m a = (case handle_pm1 a (m_power m) of (p, a', r) \<Rightarrow> (on_request r (m\<lparr>m_power := p\<rparr>), a'))"
| "port_run k fs DevReset m a = (case handle_reset a (m_power m) of (p, a', r) \<Rightarrow> (on_request r (m\<lparr>m_power := p\<rparr>), a'))"
| "port_run k fs DevKbd m a = (case handle_kbd a (m_power m) of (p, a', r) \<Rightarrow> (on_request r (m\<lparr>m_power := p\<rparr>), a'))"
| "port_run k fs DevPicMaster m a = (case pic_handle False a (m_pic m) of (p, a', n) \<Rightarrow> (kick n (m\<lparr>m_pic := p\<rparr>), a'))"
| "port_run k fs DevPicSlave m a = (case pic_handle True a (m_pic m) of (p, a', n) \<Rightarrow> (kick n (m\<lparr>m_pic := p\<rparr>), a'))"
| "port_run k fs DevPciAddress m a = (case handle_address a (m_pci m) of (b, a') \<Rightarrow> (m\<lparr>m_pci := b\<rparr>, a'))"
| "port_run k fs DevPciData m a = (case handle_data (fn_read fs) (fn_write fs) a (m_pci m) of (b, a') \<Rightarrow> (m\<lparr>m_pci := b\<rparr>, a'))"

text \<open>\<^verbatim>\<open>RunBus::io\<close>: dispatch a copy and take the value back on a read.\<close>

definition runbus_io :: "clocks \<Rightarrow> 'd pci_functions \<Rightarrow> ports \<Rightarrow> io_access \<Rightarrow> ('d, 'w) machine \<Rightarrow> ('d, 'w) machine \<times> io_access" where
  "runbus_io k fs bus acc m = (case io_dispatch (port_run k fs) bus m acc of (m', a, claimed) \<Rightarrow>
     (m', if is_write a then acc else acc\<lparr>io_value := io_value a\<rparr>))"

text \<open>\<^verbatim>\<open>RunBus::mmio\<close>: guest RAM first, then the bus.\<close>

definition runbus_mmio :: "('h \<Rightarrow> 's \<Rightarrow> mmio_access \<Rightarrow> 's \<times> mmio_access) \<Rightarrow> 'h mmio_bus \<Rightarrow> mmio_access \<Rightarrow> guest_memory \<times> 's
    \<Rightarrow> (guest_memory \<times> 's) \<times> mmio_access" where
  "runbus_mmio run bus acc w = (case w of (gm, s) \<Rightarrow>
     let n = min (unat (mmio_size acc)) (length (data acc))
     in if mmio_is_write acc
        then (case write_bytes gm (gpa acc) (take n (data acc)) of
                (gm', True) \<Rightarrow> ((gm', s), acc)
              | (gm', False) \<Rightarrow> (case mmio_dispatch run bus s acc of (s', a, claimed) \<Rightarrow> ((gm', s'), acc)))
        else (case read_into gm (gpa acc) n of
                Some bs \<Rightarrow> ((gm, s), acc\<lparr>data := bs @ drop n (data acc)\<rparr>)
              | None \<Rightarrow> (case mmio_dispatch run bus s acc of (s', a, claimed) \<Rightarrow> ((gm, s'), acc\<lparr>data := data a\<rparr>))))"

section \<open>The loop of a virtual processor\<close>

record interruptibility =
  rflags :: u64
  interrupt_state :: u64
  pending_interruption :: u64
  pending_event :: u64

abbreviation RFLAGS_IF :: u64 where "RFLAGS_IF \<equiv> 0x200"

definition can_inject :: "interruptibility \<Rightarrow> bool" where
  "can_inject i \<longleftrightarrow> rflags i AND RFLAGS_IF \<noteq> 0 \<and> interrupt_state i AND 1 = 0 \<and> pending_interruption i AND 1 = 0 \<and>
     pending_event i AND 1 = 0"

text \<open>
  What the hypervisor answers in one turn: the register read (\<open>None\<close> is an error), whether the window
  request and the injection succeed, and the exit (\<open>None\<close> is an error of the run itself). An exit for
  port I/O or memory carries the accesses the emulator makes on the buses, which may be of both
  kinds (a string instruction moves between a port and memory), and whether it completes.
\<close>

datatype bus_access = BusIo io_access | BusMmio mmio_access

datatype vm_exit = ExHalt u64 | ExIoPort "bus_access list" bool | ExMemory "bus_access list" bool
  | ExCpuid cpu_exit u32 u32 cpuid_result | ExMsr cpu_exit msr_exit | ExHypercall cpu_exit
  | ExApicEoi | ExInterruptWindow | ExCanceled | ExSintDeliverable | ExOther u32

text \<open>What the loop is built over: the functions on the PCI bus, both buses, and the host.\<close>

record ('d, 'h, 'w) wiring =
  w_functions :: "'d pci_functions"
  w_ports :: ports
  w_mmio_run :: "'h \<Rightarrow> 'w \<Rightarrow> mmio_access \<Rightarrow> 'w \<times> mmio_access"
  w_mmio :: "'h mmio_bus"
  w_host :: cpu_host

record turn =
  t_intr :: "interruptibility option"
  t_window_ok :: bool
  t_inject_ok :: bool
  t_clocks :: clocks
  t_exit :: "vm_exit option"

definition deliver_ext_int :: "turn \<Rightarrow> ('d, 'w) machine \<Rightarrow> ('d, 'w) machine" where
  "deliver_ext_int t m =
     (if \<not> output_pending (m_pic m) then m
      else case t_intr t of
             None \<Rightarrow> m
           | Some i \<Rightarrow>
               if \<not> can_inject i then (if t_window_ok t then m\<lparr>m_window := True\<rparr> else m)
               else (case acknowledge (m_pic m) of
                       (p, Some vector) \<Rightarrow> if t_inject_ok t then m\<lparr>m_pic := p, m_injected := m_injected m @ [vector]\<rparr>
                                           else m\<lparr>m_pic := p\<rparr>
                     | (p, None) \<Rightarrow> m\<lparr>m_pic := p\<rparr>))"

fun bus_step :: "('d, 'h, 'w) wiring \<Rightarrow> clocks \<Rightarrow> bus_access \<Rightarrow> ('d, 'w) machine \<Rightarrow> ('d, 'w) machine" where
  "bus_step W k (BusIo a) m = fst (runbus_io k (w_functions W) (w_ports W) a m)"
| "bus_step W k (BusMmio a) m = (case runbus_mmio (w_mmio_run W) (w_mmio W) a (m_ram m, m_world m) of
     ((gm, w), a') \<Rightarrow> m\<lparr>m_ram := gm, m_world := w\<rparr>)"

definition handle_exit :: "('d, 'h, 'w) wiring \<Rightarrow> clocks \<Rightarrow> vm_exit \<Rightarrow> ('d, 'w) machine \<Rightarrow> ('d, 'w) machine \<times> stop_reason option" where
  "handle_exit W k e m = (case e of
     ExHalt fl \<Rightarrow> (m, if fl AND RFLAGS_IF \<noteq> 0 then None else Some GuestHalted)
   | ExIoPort accs ok \<Rightarrow> (fold (bus_step W k) accs m, if ok then None else Some EmulationFailure)
   | ExMemory accs ok \<Rightarrow> (fold (bus_step W k) accs m, if ok then None else Some EmulationFailure)
   | ExCpuid x leaf subleaf dflt \<Rightarrow> (case handle_cpuid (w_host W) x leaf subleaf dflt (m_trigger m, m_regs m) of
       ((s, regs), r) \<Rightarrow> (m\<lparr>m_trigger := s, m_regs := regs\<rparr>, r))
   | ExMsr x y \<Rightarrow> (case handle_msr (w_host W) x y (m_crash m, m_regs m) of
       ((c, regs), r) \<Rightarrow> (m\<lparr>m_crash := c, m_regs := regs\<rparr>, r))
   | ExHypercall x \<Rightarrow> (case handle_hypercall x (m_regs m) of (regs, r) \<Rightarrow> (m\<lparr>m_regs := regs\<rparr>, r))
   | ExOther x \<Rightarrow> (m, Some UnhandledExit)
   | _ \<Rightarrow> (m, None))"

text \<open>The loop over the turns it takes; without a reason it is still running when they are used up.\<close>

fun vcpu_run :: "('d, 'h, 'w) wiring \<Rightarrow> turn list \<Rightarrow> ('d, 'w) machine \<Rightarrow> ('d, 'w) machine \<times> stop_reason option" where
  "vcpu_run W [] m = (m, None)"
| "vcpu_run W (t # ts) m =
     (if m_stop m then (m, Some Cancelled)
      else let m1 = deliver_ext_int t m
           in case t_exit t of
                None \<Rightarrow> (m1, Some EmulationFailure)
              | Some e \<Rightarrow> (case handle_exit W (t_clocks t) e m1 of
                  (m2, Some r) \<Rightarrow> (m2, Some r)
                | (m2, None) \<Rightarrow> vcpu_run W ts m2))"

section \<open>The port map\<close>

text \<open>Who owns a port of the machine.\<close>

definition port_owner :: "u16 \<Rightarrow> port_dev option" where
  "port_owner p =
     (if 0x3F8 \<le> p \<and> p \<le> 0x3FF then Some DevSerial
      else if 0x40 \<le> p \<and> p \<le> 0x42 then Some (DevPitChan (unat (p - 0x40)))
      else if p = 0x43 then Some DevPitControl
      else if p = 0x61 then Some DevPort61
      else if p = 0x70 then Some DevCmosIndex
      else if p = 0x71 then Some DevCmosData
      else if p = 0x80 then Some DevPort80
      else if p = 0x92 then Some DevPort92
      else if 0x600 \<le> p \<and> p \<le> 0x605 then Some DevPm1
      else if p = 0x60C then Some DevReset
      else if p = 0x64 then Some DevKbd
      else if p = 0x20 \<or> p = 0x21 then Some DevPicMaster
      else if p = 0xA0 \<or> p = 0xA1 then Some DevPicSlave
      else if 0xCF8 \<le> p \<and> p \<le> 0xCFB then Some DevPciAddress
      else if 0xCFC \<le> p \<and> p \<le> 0xCFF then Some DevPciData
      else None)"

definition the_ports :: ports where
  "the_ports = map (\<lambda>(b, n, nm, h). \<lparr>ie_base = b, ie_size = n, ie_name = nm, ie_handler = h\<rparr>)
     [(0x3F8, 8, ''serial8250'', DevSerial), (0x40, 1, ''pit-chan'', DevPitChan 0), (0x41, 1, ''pit-chan'', DevPitChan 1),
      (0x42, 1, ''pit-chan'', DevPitChan 2), (0x43, 1, ''pit-ctl'', DevPitControl), (0x61, 1, ''sys-ctrl-b'', DevPort61),
      (0x70, 1, ''cmos-idx'', DevCmosIndex), (0x71, 1, ''cmos-dat'', DevCmosData), (0x80, 1, ''post-diag'', DevPort80),
      (0x92, 1, ''port92'', DevPort92), (0x600, 6, ''acpi-pm1'', DevPm1), (0x60C, 1, ''acpi-reset'', DevReset),
      (0x64, 1, ''kbd-reset'', DevKbd), (0x20, 2, ''pic-master'', DevPicMaster), (0xA0, 2, ''pic-slave'', DevPicSlave),
      (0xCF8, 4, ''pci-cfg-addr'', DevPciAddress), (0xCFC, 4, ''pci-cfg-data'', DevPciData)]"

lemma machine_ports_eq: "machine_ports = Some the_ports"
  by code_simp

lemma the_ports_route: "io_route the_ports (unat p) = port_owner p"
proof -
  define n where "n = unat p"
  have p: "p = of_nat n" "n < 65536" using unat_lt [of p] by (simp_all add: n_def)
  have le: "(of_nat k :: u16) \<le> p \<longleftrightarrow> k \<le> n" "p \<le> of_nat k \<longleftrightarrow> n \<le> k" "p = of_nat k \<longleftrightarrow> n = k" if "k < 65536" for k
    using that by (auto simp: word_le_nat_alt n_def word_unat_eq_iff)
  note nums = le [of "0x3F8"] le [of "0x3FF"] le [of "0x40"] le [of "0x42"] le [of "0x43"] le [of "0x61"] le [of "0x70"] le [of "0x71"]
    le [of "0x80"] le [of "0x92"] le [of "0x600"] le [of "0x605"] le [of "0x60C"] le [of "0x64"] le [of "0x20"] le [of "0x21"]
    le [of "0xA0"] le [of "0xA1"] le [of "0xCF8"] le [of "0xCFB"] le [of "0xCFC"] le [of "0xCFF"]
  have sub: "unat (p - 0x40) = n - 0x40" if "0x40 \<le> n"
    using that unat_sub [of "0x40" p] by (simp add: n_def word_le_nat_alt)
  have "port_owner p = (if 0x3F8 \<le> n \<and> n \<le> 0x3FF then Some DevSerial
      else if 0x40 \<le> n \<and> n \<le> 0x42 then Some (DevPitChan (n - 0x40))
      else if n = 0x43 then Some DevPitControl else if n = 0x61 then Some DevPort61 else if n = 0x70 then Some DevCmosIndex
      else if n = 0x71 then Some DevCmosData else if n = 0x80 then Some DevPort80 else if n = 0x92 then Some DevPort92
      else if 0x600 \<le> n \<and> n \<le> 0x605 then Some DevPm1 else if n = 0x60C then Some DevReset else if n = 0x64 then Some DevKbd
      else if n = 0x20 \<or> n = 0x21 then Some DevPicMaster else if n = 0xA0 \<or> n = 0xA1 then Some DevPicSlave
      else if 0xCF8 \<le> n \<and> n \<le> 0xCFB then Some DevPciAddress else if 0xCFC \<le> n \<and> n \<le> 0xCFF then Some DevPciData else None)"
    unfolding port_owner_def using nums sub by simp
  moreover have "io_route the_ports n = (if 0x3F8 \<le> n \<and> n \<le> 0x3FF then Some DevSerial
      else if n = 0x40 then Some (DevPitChan 0) else if n = 0x41 then Some (DevPitChan 1) else if n = 0x42 then Some (DevPitChan 2)
      else if n = 0x43 then Some DevPitControl else if n = 0x61 then Some DevPort61 else if n = 0x70 then Some DevCmosIndex
      else if n = 0x71 then Some DevCmosData else if n = 0x80 then Some DevPort80 else if n = 0x92 then Some DevPort92
      else if 0x600 \<le> n \<and> n \<le> 0x605 then Some DevPm1 else if n = 0x60C then Some DevReset else if n = 0x64 then Some DevKbd
      else if n = 0x20 \<or> n = 0x21 then Some DevPicMaster else if n = 0xA0 \<or> n = 0xA1 then Some DevPicSlave
      else if 0xCF8 \<le> n \<and> n \<le> 0xCFB then Some DevPciAddress else if 0xCFC \<le> n \<and> n \<le> 0xCFF then Some DevPciData else None)"
  proof -
    have c: "(a \<le> n \<and> n < b) = (a \<le> n \<and> n \<le> b - 1)" if "0 < b" for a b :: nat using that by auto
    have one: "(a \<le> n \<and> n \<le> a) = (n = a)" for a by auto
    have two: "(a \<le> n \<and> n \<le> a + 1) = (n = a \<or> n = a + 1)" for a by auto
    show ?thesis unfolding io_route_def the_ports_def
      by (simp add: c one two [of "0x20", simplified] two [of "0xA0", simplified])
  qed
  moreover have "(if 0x40 \<le> n \<and> n \<le> 0x42 then Some (DevPitChan (n - 0x40)) else x) =
      (if n = 0x40 then Some (DevPitChan 0) else if n = 0x41 then Some (DevPitChan 1) else if n = 0x42 then Some (DevPitChan 2) else x)" for x
  proof (cases "0x40 \<le> n \<and> n \<le> 0x42")
    case True
    then have "n = 0x40 \<or> n = 0x41 \<or> n = 0x42" by linarith
    then show ?thesis by (elim disjE) simp_all
  qed auto
  ultimately show ?thesis by (simp only: n_def)
qed

text \<open>
  C20. The machine's port map: the devices attach without a clash, and every access of the processor, at any
  of the 65536 ports, reaches exactly the device that owns the port; a read nobody owns gives ones
  and a write is lost.
\<close>

theorem machine_io_routed:
  "\<exists>bus. machine_ports = Some bus \<and> (\<forall>k fs acc (m :: ('d, 'w) machine). runbus_io k fs bus acc m = (case port_owner (port acc) of
     Some h \<Rightarrow> (case port_run k fs h m acc of (m', a) \<Rightarrow> (m', if is_write a then acc else acc\<lparr>io_value := io_value a\<rparr>))
   | None \<Rightarrow> (m, if is_write acc then acc else acc\<lparr>io_value := 0xFFFFFFFF\<rparr>)))"
  by (intro exI [of _ the_ports] conjI allI)
    (auto simp: machine_ports_eq runbus_io_def io_dispatch_route the_ports_route split: option.splits prod.splits)

lemma runbus_io_owner:
  "runbus_io k fs the_ports acc m = (case port_owner (port acc) of
     Some h \<Rightarrow> (case port_run k fs h m acc of (m', a) \<Rightarrow> (m', if is_write a then acc else acc\<lparr>io_value := io_value a\<rparr>))
   | None \<Rightarrow> (m, if is_write acc then acc else acc\<lparr>io_value := 0xFFFFFFFF\<rparr>))"
  by (auto simp: runbus_io_def io_dispatch_route the_ports_route split: option.splits prod.splits)

section \<open>Interrupts of the UART\<close>

text \<open>A request that is alone pending after it was raised is what the next acknowledge returns.\<close>

lemma filter_only: "distinct xs \<Longrightarrow> x \<in> set xs \<Longrightarrow> filter (\<lambda>y. y = x) xs = [x]"
  by (induction xs) (auto simp: filter_empty_conv)

lemma raise_then_ack:
  assumes "\<not> output_pending p" and "i < 8" and "i \<noteq> CASCADE_IRQ" and "\<not> bit (irq_mask (master p)) i" and "pic_raise (int i) p = (p', n)"
  shows "n" and "output_pending p'" and "acknowledge p' = (p'', Some (vector_base (master p) + of_nat i)) \<Longrightarrow> \<not> output_pending p''"
    and "\<exists>p''. acknowledge p' = (p'', Some (vector_base (master p) + of_nat i))"
proof -
  let ?x = "(False, i)"
  have p': "p' = set_chip False ((master p)\<lparr>irr := irr (master p) OR push_bit i 1\<rparr>) p" "n \<longleftrightarrow> highest p' \<noteq> None"
    using assms(2,5) by (auto simp: pic_raise_def pic_chip_def Let_def)
  have none: "\<not> requesting p y" if "y \<in> set pic_inputs" for y
    using assms(1) that by (cases y) (auto simp: output_pending_def highest_find find_None_iff)
  have b: "bit (w OR 2 ^ i :: u8) j \<longleftrightarrow> bit w j \<or> j = i" if "j < 8" for w j using that by (auto simp: bit_simps)
  have req: "requesting p' y \<longleftrightarrow> y = ?x" if "y \<in> set pic_inputs" for y
    using none [OF that] inputs_bound [OF that] assms(4) by (cases y) (auto simp: requesting_def p'(1) set_chip_def b)
  have mem: "?x \<in> set pic_inputs" using assms(2,3) by (auto simp: pic_inputs_def)
  then have f: "filter (requesting p') pic_inputs = filter (\<lambda>y. y = ?x) pic_inputs" using req by (intro filter_cong) auto
  also have "\<dots> = [?x]" using filter_only [OF distinct_inputs mem] by simp
  finally have hi: "highest p' = Some ?x" by (simp add: highest_find find_filter)
  then show "n" "output_pending p'" using p'(2) by (simp_all add: output_pending_def)
  let ?q = "set_chip False ((pic_chip False p')\<lparr>irr := irr (pic_chip False p') AND NOT (push_bit i 1)\<rparr>) p'"
  have ack: "acknowledge p' = (?q, Some (vector_base (master p) + of_nat i))"
    using hi by (simp add: acknowledge_def Let_def pic_chip_def p'(1) set_chip_def)
  then show "\<exists>p''. acknowledge p' = (p'', Some (vector_base (master p) + of_nat i))" by blast
  have "\<not> requesting ?q y" if "y \<in> set pic_inputs" for y
    using requesting_ack(1) [OF assms(2) that refl, of False p'] req [OF that] by simp
  then have "\<not> output_pending ?q" by (auto simp: output_pending_def highest_find find_None_iff)
  then show "acknowledge p' = (p'', Some (vector_base (master p) + of_nat i)) \<Longrightarrow> \<not> output_pending p''" using ack by simp
qed

text \<open>A turn in which the processor cannot take an interrupt and which leaves the devices on the ports alone.\<close>

definition waiting :: "turn \<Rightarrow> bool" where
  "waiting t \<longleftrightarrow> (case t_intr t of None \<Rightarrow> True | Some i \<Rightarrow> \<not> can_inject i) \<and>
     (case t_exit t of Some (ExHalt fl) \<Rightarrow> fl AND RFLAGS_IF \<noteq> 0
      | Some (ExMemory accs ok) \<Rightarrow> ok \<and> (\<forall>a \<in> set accs. \<exists>x. a = BusMmio x)
      | Some (ExCpuid x leaf sub d) \<Rightarrow> ex_set_ok x \<and> leaf \<noteq> MAGIC_LEAF
      | Some (ExHypercall x) \<Rightarrow> ex_set_ok x
      | Some e \<Rightarrow> e \<in> {ExApicEoi, ExInterruptWindow, ExCanceled, ExSintDeliverable} | None \<Rightarrow> False)"

text \<open>What such a turn may change.\<close>

definition settled :: "('d, 'w) machine \<Rightarrow> ('d, 'w) machine \<Rightarrow> bool" where
  "settled m m' \<longleftrightarrow> (\<exists>win r g w. m' = m\<lparr>m_window := win, m_regs := r, m_ram := g, m_world := w\<rparr>)"

lemma settledI: "settled m (m\<lparr>m_window := win, m_regs := r, m_ram := g, m_world := w\<rparr>)"
  by (auto simp: settled_def)

lemma settled_steps [simp]:
  fixes m :: "('d, 'w) machine"
  shows "settled m m" "settled m (m\<lparr>m_window := win\<rparr>)" "settled m (m\<lparr>m_regs := r\<rparr>)" "settled m (m\<lparr>m_ram := g, m_world := w\<rparr>)"
  using settledI [of m "m_world m" "m_ram m" "m_regs m" "m_window m"] settledI [of m "m_world m" "m_ram m" "m_regs m" win]
    settledI [of m "m_world m" "m_ram m" r "m_window m"] settledI [of m w g "m_regs m" "m_window m"] by simp_all

lemma settled_trans: "settled m m' \<Longrightarrow> settled m' m'' \<Longrightarrow> settled m m''"
  unfolding settled_def by (elim exE, simp) blast

lemma settled_bus: "\<forall>a \<in> set accs. \<exists>x. a = BusMmio x \<Longrightarrow> settled m (fold (bus_step W k) accs m)"
proof (induction accs arbitrary: m)
  case (Cons a accs)
  then obtain x where a: "a = BusMmio x" by auto
  have "settled m (bus_step W k a m)" by (simp add: a split: prod.split)
  moreover have "settled (bus_step W k a m) (fold (bus_step W k) accs (bus_step W k a m))" using Cons by auto
  ultimately show ?case by (simp add: settled_trans)
qed simp

lemma waiting_step:
  assumes "waiting t" and "\<not> m_stop m"
  shows "\<exists>m'. settled m m' \<and> vcpu_run W (t # ts) m = vcpu_run W ts m'"
proof -
  have d: "settled m (deliver_ext_int t m)"
    using assms(1) by (auto simp: deliver_ext_int_def waiting_def split: option.splits)
  obtain e where e: "t_exit t = Some e" using assms(1) by (auto simp: waiting_def split: option.splits)
  have "\<exists>m2. settled m1 m2 \<and> handle_exit W (t_clocks t) e m1 = (m2, None)" for m1
    using assms(1) e
    by (cases e) (auto simp: handle_exit_def waiting_def settled_bus handle_cpuid_def handle_hypercall_def or_emulation_failure_def set_registers_def Let_def)
  then obtain m2 where "settled (deliver_ext_int t m) m2" "handle_exit W (t_clocks t) e (deliver_ext_int t m) = (m2, None)" by blast
  then show ?thesis using d e assms(2) by (auto simp: Let_def intro: settled_trans)
qed

lemma waiting_run:
  "\<forall>t \<in> set us. waiting t \<Longrightarrow> \<not> m_stop m \<Longrightarrow> \<exists>m'. settled m m' \<and> vcpu_run W (us @ ts) m = vcpu_run W ts m'"
proof (induction us arbitrary: m)
  case Nil
  then show ?case by (intro exI [of _ m]) simp
next
  case (Cons t us)
  then obtain m1 where m1: "settled m m1" "vcpu_run W (t # us @ ts) m = vcpu_run W (us @ ts) m1"
    using waiting_step [of t m W "us @ ts"] by auto
  then have "\<not> m_stop m1" using Cons.prems(2) by (auto simp: settled_def)
  then obtain m2 where "settled m1 m2" "vcpu_run W (us @ ts) m1 = vcpu_run W ts m2" using Cons.IH [of m1] Cons.prems(1) by auto
  then show ?case using m1 settled_trans by auto
qed

definition out_byte :: "u32 \<Rightarrow> io_access" where
  "out_byte v = \<lparr>port = 0x3F8, access_size = 1, is_write = True, io_value = v\<rparr>"

text \<open>
  C9. An interrupt-driven writer on the serial console makes progress: with the transmit interrupt enabled and
  IRQ 4 unmasked and nothing else pending, writing a byte prints it, latches the request in the PIC
  and kicks the processor; however long the guest then keeps interrupts off, the first turn that can
  take one gets the vector the PIC was programmed with, once, and the PIC's output drops.
\<close>

theorem serial_interrupt_reaches_guest:
  assumes "machine_ports = Some (w_ports W)" and "\<not> m_stop m" and "\<not> output_pending (m_pic m)" and "\<not> bit (irq_mask (master (m_pic m))) 4"
    and "ser_base (m_com1 m) = 0x3F8" and "lcr (m_com1 m) AND LCR_DLAB = 0" and "ier (m_com1 m) AND IER_ETBEI \<noteq> 0" and "\<not> tx_irq_pending (m_com1 m)"
    and "t_exit t1 = Some (ExIoPort [BusIo (out_byte v)] True)" and "\<forall>t \<in> set us. waiting t"
    and "t_intr t2 = Some i" and "can_inject i" and "t_inject_ok t2" and "t_exit t2 = Some ExCanceled"
  shows "case vcpu_run W (t1 # us @ [t2]) m of (m', r) \<Rightarrow> r = None \<and> m_stdout m' = m_stdout m @ [ucast v] \<and>
    m_injected m' = m_injected m @ [vector_base (master (m_pic m)) + 4] \<and> m_kicks m' = Suc (m_kicks m) \<and> \<not> output_pending (m_pic m')"
proof -
  have bus: "w_ports W = the_ports" using assms(1) by (simp add: machine_ports_eq)
  obtain p n where p: "pic_raise 4 (m_pic m) = (p, n)" by fastforce
  have raise: "n" "output_pending p" "\<exists>q. acknowledge p = (q, Some (vector_base (master (m_pic m)) + 4)) \<and> \<not> output_pending q"
    using raise_then_ack [OF assms(3) _ _ assms(4), of p n] p by auto
  obtain q where q: "acknowledge p = (q, Some (vector_base (master (m_pic m)) + 4))" "\<not> output_pending q" using raise(3) by blast
  let ?s = "(m_com1 m)\<lparr>tx_bytes := tx_bytes (m_com1 m) + 1, tx_irq_pending := True\<rparr>"
  let ?m = "m\<lparr>m_com1 := ?s, m_stdout := m_stdout m @ [ucast v], m_pic := p, m_kicks := Suc (m_kicks m)\<rparr>"
  have h: "serial_handle True (out_byte v) (m_com1 m) = (?s, out_byte v, [ucast v], True)"
    using assms(5-8) by (simp add: serial_handle_def serial_write_reg_def maybe_raise_tx_irq_def out_byte_def Let_def)
  have "port_owner (port (out_byte v)) = Some DevSerial" by (simp add: out_byte_def port_owner_def)
  then have io: "bus_step W k (BusIo (out_byte v)) m = ?m" for k
    using h p raise(1) by (simp add: bus runbus_io_owner raise_isa_def kick_def Let_def)
  have ns: "\<not> m_stop ?m" using assms(2) by simp
  have d1: "deliver_ext_int t1 m = m" using assms(3) by (simp add: deliver_ext_int_def)
  have "vcpu_run W (t1 # us @ [t2]) m = vcpu_run W (us @ [t2]) ?m"
    using assms(2,9) d1 io by (simp add: handle_exit_def del: bus_step.simps)
  also obtain m' where m': "settled ?m m'" "\<dots> = vcpu_run W [t2] m'"
    using waiting_run [OF assms(10) ns, of W "[t2]"] by blast
  note m'(2)
  also have "vcpu_run W [t2] m' = (m'\<lparr>m_pic := q, m_injected := m_injected m @ [vector_base (master (m_pic m)) + 4]\<rparr>, None)"
    using assms(2,11-14) raise(2) q(1) m'(1) by (auto simp: settled_def deliver_ext_int_def handle_exit_def)
  finally show ?thesis using q(2) m'(1) by (auto simp: settled_def)
qed

section \<open>The guest stops the machine\<close>

text \<open>The writes that ask for it: sleep type 5 with SLP_EN in PM1_CNT, the ACPI reset register, the keyboard controller.\<close>

definition asks_stop :: "io_access \<Rightarrow> bool" where
  "asks_stop acc \<longleftrightarrow> is_write acc \<and>
     (port acc = RESET_PORT \<and> (ucast (io_value acc) :: u8) = RESET_VALUE \<or>
      port acc = KBD_COMMAND_PORT \<and> (ucast (io_value acc) :: u8) = KBD_PULSE_RESET \<or>
      PM1A_EVT_PORT \<le> port acc \<and> port acc \<le> 0x605 \<and> pm1_covers acc 5 \<and> bit (pm1_byte acc 5) 5 \<and> drop_bit 2 (pm1_byte acc 5) AND 7 = 5)"

lemma kick_stop [simp]: "m_stop (kick n m) = m_stop m" "m_power (kick n m) = m_power m"
  by (simp_all add: kick_def)

lemma raise_isa_stop [simp]: "m_stop (raise_isa i m) = m_stop m" "m_power (raise_isa i m) = m_power m"
  by (simp_all add: raise_isa_def split: prod.split)

lemma deliver_stop [simp]: "m_stop (deliver_ext_int t m) = m_stop m" "m_power (deliver_ext_int t m) = m_power m"
  by (simp_all add: deliver_ext_int_def split: option.split prod.split)

lemma pm1_stops:
  "handle_pm1 acc p = (p', acc', r) \<Longrightarrow> (r \<longleftrightarrow> is_write acc \<and> pm1_covers acc 5 \<and> bit (pm1_byte acc 5) 5 \<and> drop_bit 2 (pm1_byte acc 5) AND 7 = 5) \<and>
     (r \<longrightarrow> request p' \<noteq> None)"
  using pm1_block_access [of acc p] by (cases "is_write acc") auto

lemma runbus_io_stop:
  assumes "\<not> m_stop m"
  shows "(m_stop (fst (runbus_io k fs the_ports acc m)) \<longleftrightarrow> asks_stop acc) \<and> (asks_stop acc \<longrightarrow> request (m_power (fst (runbus_io k fs the_ports acc m))) \<noteq> None)"
proof (cases "port_owner (port acc)")
  case None
  then have "\<not> asks_stop acc" by (auto simp: asks_stop_def port_owner_def split: if_splits)
  then show ?thesis using assms None by (simp add: runbus_io_owner)
next
  case (Some h)
  have own: "h = DevReset \<longleftrightarrow> port acc = RESET_PORT" "h = DevKbd \<longleftrightarrow> port acc = KBD_COMMAND_PORT" "h = DevPm1 \<longleftrightarrow> PM1A_EVT_PORT \<le> port acc \<and> port acc \<le> 0x605"
    using Some by (auto simp: port_owner_def word_le_nat_alt split: if_splits)
  have eq: "fst (runbus_io k fs the_ports acc m) = fst (port_run k fs h m acc)" using Some by (simp add: runbus_io_owner split: prod.split)
  have ask: "asks_stop acc \<longleftrightarrow> is_write acc \<and> (h = DevReset \<and> (ucast (io_value acc) :: u8) = RESET_VALUE \<or>
      h = DevKbd \<and> (ucast (io_value acc) :: u8) = KBD_PULSE_RESET \<or>
      h = DevPm1 \<and> pm1_covers acc 5 \<and> bit (pm1_byte acc 5) 5 \<and> drop_bit 2 (pm1_byte acc 5) AND 7 = 5)"
    unfolding asks_stop_def own by blast
  show ?thesis
  proof (cases h)
    case DevPm1
    obtain p' acc' r where pm: "handle_pm1 acc (m_power m) = (p', acc', r)" using prod_cases3 by blast
    from pm1_stops [OF pm] assms pm DevPm1 show ?thesis unfolding eq ask by (simp add: on_request_def)
  qed (use assms in \<open>auto simp: eq ask handle_reset_def handle_kbd_def on_request_def power_raise_def Let_def split: prod.splits option.splits\<close>)
qed

text \<open>
  C18. The guest can stop the machine, and only by asking for it: after a turn with one port access the stop
  flag is set exactly when the access is a power-off (sleep type 5 with SLP_EN, at any width and
  position), an ACPI reset or a keyboard reset; then the request is recorded, the loop ends before it
  enters the guest again, whatever the hypervisor would have answered, and the process exits with 0.
\<close>

theorem guest_stops_the_machine:
  assumes "machine_ports = Some (w_ports W)" and "\<not> m_stop m" and "t_exit t = Some (ExIoPort [BusIo acc] True)"
  shows "(case vcpu_run W [t] m of (m1, r) \<Rightarrow> r = None \<and> (m_stop m1 \<longleftrightarrow> asks_stop acc) \<and>
      (asks_stop acc \<longrightarrow> request (m_power m1) \<noteq> None \<and>
        vcpu_run W (t # u # us) m = (m1, Some Cancelled) \<and> exit_code [Cancelled] = 0 \<and> \<not> is_fatal Cancelled))"
proof -
  have bus: "w_ports W = the_ports" using assms(1) by (simp add: machine_ports_eq)
  let ?m1 = "fst (runbus_io (t_clocks t) (w_functions W) (w_ports W) acc (deliver_ext_int t m))"
  have one: "vcpu_run W [t] m = (?m1, None)" using assms(2,3) by (simp add: handle_exit_def Let_def)
  note s = runbus_io_stop [of "deliver_ext_int t m" "t_clocks t" "w_functions W" acc, folded bus, simplified, OF assms(2)]
  have "vcpu_run W (t # u # us) m = (?m1, Some Cancelled)" if "asks_stop acc"
    using that s assms(2,3) by (simp add: handle_exit_def Let_def)
  then show ?thesis using one s by (simp add: exit_code_def)
qed

section \<open>A guest that panics\<close>

text \<open>An exit for a write of the crash register \<open>i\<close>, where 5 is the control register.\<close>

definition crash_write :: "cpu_exit \<Rightarrow> u32 \<Rightarrow> u64 \<Rightarrow> vm_exit" where
  "crash_write x i v = ExMsr x \<lparr>mx_msr = MSR_CRASH_P0 + i, mx_write = True, mx_rax = v AND 0xFFFFFFFF, mx_rdx = drop_bit 32 v\<rparr>"

lemma msr_value_split: "push_bit 32 (drop_bit 32 v AND 0xFFFFFFFF) OR (v AND 0xFFFFFFFF AND 0xFFFFFFFF) = (v :: u64)"
proof -
  have m: "(0xFFFFFFFF :: u64) = mask 32" by (simp add: mask_numeral)
  show ?thesis unfolding m by (intro bit_word_eqI) (auto simp: bit_simps)
qed

lemma crash_write_exit:
  assumes "m_crash m = Some c" and "ex_set_ok x"
  shows "i < 5 \<Longrightarrow> \<exists>r. handle_exit W k (crash_write x (of_nat i) v) m = (m\<lparr>m_crash := Some (c\<lparr>crash_p := (crash_p c)[i := v]\<rparr>), m_regs := r\<rparr>, None)"
    and "bit v 63 \<Longrightarrow> handle_exit W k (crash_write x 5 v) m = (m\<lparr>m_crash := Some (c\<lparr>crash_ctl := v\<rparr>)\<rparr>, Some GuestCrashed)"
proof -
  note sp = msr_value_split [of v, simplified]
  have p63: "v AND CRASH_CTL_NOTIFY \<noteq> 0" if "bit v 63"
  proof
    assume "v AND CRASH_CTL_NOTIFY = 0"
    then have "\<not> bit (v AND CRASH_CTL_NOTIFY) 63" by simp
    then show False using that by (simp add: bit_and_iff)
  qed
  show "\<exists>r. handle_exit W k (crash_write x (of_nat i) v) m = (m\<lparr>m_crash := Some (c\<lparr>crash_p := (crash_p c)[i := v]\<rparr>), m_regs := r\<rparr>, None)" if i: "i < 5"
  proof -
    have "i \<in> {0, 1, 2, 3, 4}" using i by auto
    then have "handle_wrmsr (MSR_CRASH_P0 + of_nat i) v c = (c\<lparr>crash_p := (crash_p c)[i := v]\<rparr>, MsrYes)" by (auto simp: handle_wrmsr_def)
    then show ?thesis using assms
      by (auto simp: handle_exit_def crash_write_def handle_msr_def msr_outcome_def Let_def sp or_emulation_failure_def set_registers_def)
  qed
  show "bit v 63 \<Longrightarrow> handle_exit W k (crash_write x 5 v) m = (m\<lparr>m_crash := Some (c\<lparr>crash_ctl := v\<rparr>)\<rparr>, Some GuestCrashed)"
    using assms p63 by (simp add: handle_exit_def crash_write_def handle_msr_def msr_outcome_def Let_def sp handle_wrmsr_def)
qed

lemma deliver_keeps [simp]: "m_crash (deliver_ext_int t m) = m_crash m" "m_ram (deliver_ext_int t m) = m_ram m"
  by (simp_all add: deliver_ext_int_def split: option.split prod.split)

text \<open>
  C21. A guest that panics is heard: once it has posted the address and length of its kernel log and notified
  through the crash control register, the processor stops as crashed whatever comes after, the
  report is that log with every unprintable byte replaced, and the process exits with 2 whatever
  the other processors stopped for.
\<close>

theorem guest_panic_is_reported:
  assumes "\<not> m_stop m" and "m_crash m = Some c" and "length (crash_p c) = 5"
    and "read_into (m_ram m) page (length log) = Some log" and "log \<noteq> []" and "length log \<le> 4096"
    and "t_exit t1 = Some (crash_write x1 3 page)" and "t_exit t2 = Some (crash_write x2 4 (of_nat (length log)))" and "t_exit t3 = Some (crash_write x3 5 v)"
    and "ex_set_ok x1" and "ex_set_ok x2" and "ex_set_ok x3" and "bit v 63" and "bit v 62"
  shows "\<exists>m' c'. vcpu_run W (t1 # t2 # t3 # ts) m = (m', Some GuestCrashed) \<and> m_crash m' = Some c' \<and> crash_report (m_ram m') c' = map neutral log \<and>
     is_fatal GuestCrashed \<and> exit_code (rs @ GuestCrashed # rs') = 2"
proof -
  let ?d = deliver_ext_int and ?c1 = "c\<lparr>crash_p := (crash_p c)[3 := page]\<rparr>"
  let ?c2 = "c\<lparr>crash_p := (crash_p c)[3 := page, 4 := of_nat (length log)]\<rparr>"
  obtain r1 where s1: "handle_exit W (t_clocks t1) (crash_write x1 3 page) (?d t1 m) = ((?d t1 m)\<lparr>m_crash := Some ?c1, m_regs := r1\<rparr>, None)"
    using crash_write_exit(1) [of "?d t1 m" c x1 3 W "t_clocks t1" page] assms(2,10) by auto
  let ?m1 = "(?d t1 m)\<lparr>m_crash := Some ?c1, m_regs := r1\<rparr>"
  obtain r2 where s2: "handle_exit W (t_clocks t2) (crash_write x2 4 (of_nat (length log))) (?d t2 ?m1) =
      ((?d t2 ?m1)\<lparr>m_crash := Some ?c2, m_regs := r2\<rparr>, None)"
    using crash_write_exit(1) [of "?d t2 ?m1" ?c1 x2 4 W "t_clocks t2" "of_nat (length log)"] assms(11) by auto
  let ?m2 = "(?d t2 ?m1)\<lparr>m_crash := Some ?c2, m_regs := r2\<rparr>"
  have s3: "handle_exit W (t_clocks t3) (crash_write x3 5 v) (?d t3 ?m2) = ((?d t3 ?m2)\<lparr>m_crash := Some (?c2\<lparr>crash_ctl := v\<rparr>)\<rparr>, Some GuestCrashed)"
    using crash_write_exit(2) [of "?d t3 ?m2" ?c2 x3 v] assms(12,13) by simp
  have run: "vcpu_run W (t1 # t2 # t3 # ts) m = ((?d t3 ?m2)\<lparr>m_crash := Some (?c2\<lparr>crash_ctl := v\<rparr>)\<rparr>, Some GuestCrashed)"
    using assms(1,7-9) s1 s2 s3 by (simp add: Let_def)
  have "v AND CRASH_CTL_NOTIFY_MSG \<noteq> 0"
  proof
    assume "v AND CRASH_CTL_NOTIFY_MSG = 0"
    then have "\<not> bit (v AND CRASH_CTL_NOTIFY_MSG) 62" by simp
    then show False using assms(14) by (simp add: bit_and_iff)
  qed
  then have "crash_report (m_ram m) (?c2\<lparr>crash_ctl := v\<rparr>) = map neutral log"
    using assms(3-6) by (simp add: crash_report_def Let_def)
  then show ?thesis using run by (auto simp: exit_code_worst)
qed

section \<open>Concrete runs\<close>

definition demo_clocks :: clocks where "demo_clocks = \<lparr>pit_now = 0, unix_now = 0\<rparr>"

definition demo_machine :: "(unit, unit) machine" where
  "demo_machine = \<lparr>m_com1 = (serial_new 0x3F8)\<lparr>ier := IER_ETBEI\<rparr>, m_pit = pit_new, m_legacy = legacy_new, m_power = power_new,
     m_pic = pic_new\<lparr>master := chip_default\<lparr>vector_base := 0x30, irq_mask := 0xEF\<rparr>\<rparr>, m_pci = pci_bus_new, m_stdout = [], m_kicks = 0,
     m_stop = False, m_injected = [], m_window = False, m_crash = Some crash_new, m_trigger = \<lparr>armed = False, requested = False, req_vp = 0\<rparr>,
     m_regs = (\<lambda>_. 0), m_ram = demo_split\<lparr>gm_ram := [0x48, 0x69, 0x1B, 0x0A, 4, 5, 6, 7, 8, 9, 10, 11]\<rparr>, m_world = ()\<rparr>"

definition demo_wiring :: "(unit, unit, unit) wiring" where
  "demo_wiring = \<lparr>w_functions = \<lparr>fn_read = \<lambda>_ _ _. 0, fn_write = \<lambda>_ _ _ d. d\<rparr>, w_ports = the_ports, w_mmio_run = \<lambda>_ w a. (w, a), w_mmio = [],
     w_host = \<lparr>host_amd = False, tsc_hz = 2000000000, hide_tsc_deadline = False, cpu_ctx = \<lparr>vcpu_index = 0, vcpu_count = 1\<rparr>\<rparr>\<rparr>"

definition demo_turn :: "u64 \<Rightarrow> vm_exit \<Rightarrow> turn" where
  "demo_turn fl e = \<lparr>t_intr = Some \<lparr>rflags = fl, interrupt_state = 0, pending_interruption = 0, pending_event = 0\<rparr>,
     t_window_ok = True, t_inject_ok = True, t_clocks = demo_clocks, t_exit = Some e\<rparr>"

definition demo_exit :: cpu_exit where "demo_exit = \<lparr>ex_rip = 0x1000, ex_len = 2, ex_set_ok = True\<rparr>"

lemma demo_ports [simp]: "machine_ports = Some (w_ports demo_wiring)"
  by (simp add: machine_ports_eq demo_wiring_def)

theorem serial_interrupt_reaches_guest_witness:
  "\<exists>m'. vcpu_run demo_wiring [demo_turn 2 (ExIoPort [BusIo (out_byte 0x41)] True), demo_turn 2 ExInterruptWindow, demo_turn 0x202 ExCanceled]
     demo_machine = (m', None) \<and> m_stdout m' = [0x41] \<and> m_injected m' = [0x34]"
proof -
  let ?t1 = "demo_turn 2 (ExIoPort [BusIo (out_byte 0x41)] True)" and ?t2 = "demo_turn 0x202 ExCanceled"
  let ?i = "\<lparr>rflags = 0x202, interrupt_state = 0, pending_interruption = 0, pending_event = 0\<rparr>"
  have "\<not> output_pending (pic_new\<lparr>master := chip_default\<lparr>vector_base := 0x30, irq_mask := 0xEF\<rparr>\<rparr>)" by code_simp
  then have pic: "\<not> output_pending (m_pic demo_machine)" "\<not> bit (irq_mask (master (m_pic demo_machine))) 4" by (simp_all add: demo_machine_def)
  have com: "\<not> m_stop demo_machine" "ser_base (m_com1 demo_machine) = 0x3F8" "lcr (m_com1 demo_machine) AND LCR_DLAB = 0"
      "ier (m_com1 demo_machine) AND IER_ETBEI \<noteq> 0" "\<not> tx_irq_pending (m_com1 demo_machine)"
    by (simp_all add: demo_machine_def serial_new_def)
  have w: "\<forall>t \<in> set [demo_turn 2 ExInterruptWindow]. waiting t" by (simp add: waiting_def demo_turn_def can_inject_def)
  have "case vcpu_run demo_wiring (?t1 # [demo_turn 2 ExInterruptWindow] @ [?t2]) demo_machine of (m', r) \<Rightarrow> r = None \<and>
      m_stdout m' = m_stdout demo_machine @ [ucast (0x41 :: u32)] \<and>
      m_injected m' = m_injected demo_machine @ [vector_base (master (m_pic demo_machine)) + 4] \<and>
      m_kicks m' = Suc (m_kicks demo_machine) \<and> \<not> output_pending (m_pic m')"
    by (rule serial_interrupt_reaches_guest [OF demo_ports com(1) pic com(2-5) _ w, where i = ?i])
      (simp_all add: demo_turn_def can_inject_def)
  then show ?thesis by (auto simp: demo_machine_def pic_new_def split: prod.splits simp del: vcpu_run.simps)
qed

theorem guest_stops_the_machine_witness:
  "\<exists>m1. vcpu_run demo_wiring [demo_turn 2 (ExIoPort [BusIo \<lparr>port = 0x604, access_size = 2, is_write = True, io_value = 0x3401\<rparr>] True), demo_turn 2 (ExOther 7)]
     demo_machine = (m1, Some Cancelled) \<and> request (m_power m1) \<noteq> None"
proof -
  let ?a = "\<lparr>port = 0x604, access_size = 2, is_write = True, io_value = 0x3401\<rparr>"
  let ?t = "demo_turn 2 (ExIoPort [BusIo ?a] True)"
  have ask: "asks_stop ?a" by code_simp
  have e: "t_exit ?t = Some (ExIoPort [BusIo ?a] True)" "\<not> m_stop demo_machine" by (simp_all add: demo_turn_def demo_machine_def)
  obtain m1 r where "vcpu_run demo_wiring [?t] demo_machine = (m1, r)" by fastforce
  with guest_stops_the_machine [OF demo_ports e(2,1), of "demo_turn 2 (ExOther 7)" "[]"] ask show ?thesis
    by (auto simp del: vcpu_run.simps)
qed

theorem guest_panic_is_reported_witness:
  "\<exists>m' c'. vcpu_run demo_wiring [demo_turn 2 (crash_write demo_exit 3 0), demo_turn 2 (crash_write demo_exit 4 4),
      demo_turn 2 (crash_write demo_exit 5 0xC000000000000000)] demo_machine = (m', Some GuestCrashed) \<and>
    m_crash m' = Some c' \<and> crash_report (m_ram m') c' = [0x48, 0x69, 0x2E, 0x0A]"
proof -
  have "read_into (m_ram demo_machine) 0 (length [0x48, 0x69, 0x1B, 0x0A :: u8]) = Some [0x48, 0x69, 0x1B, 0x0A]"
    by (simp add: demo_machine_def demo_split_def read_into_def host_range_def region_off_def byte_range_def)
  moreover have "map neutral [0x48, 0x69, 0x1B, 0x0A] = [0x48, 0x69, 0x2E, 0x0A]" by code_simp
  ultimately show ?thesis
    using guest_panic_is_reported [of demo_machine crash_new 0 "[0x48, 0x69, 0x1B, 0x0A]" "demo_turn 2 (crash_write demo_exit 3 0)" demo_exit
        "demo_turn 2 (crash_write demo_exit 4 4)" demo_exit "demo_turn 2 (crash_write demo_exit 5 0xC000000000000000)" demo_exit "0xC000000000000000"
        demo_wiring "[]" "[]" "[]"]
    by (auto simp: demo_turn_def demo_exit_def crash_new_def demo_machine_def simp del: vcpu_run.simps)
qed

end
