(* ===== verification/Spec2Isabelle.thy ===== *)
theory Spec2Isabelle
  imports Guest_Memory Port_Buses Virtqueue Vmbus_Ring Net_Wire Pic8259 Pit8254 Serial8250 Legacy_Isa Power_Device Pci_Host_Bus Virtio_Bus Virtio_Snapshot Virtio_Console Net_Dhcp Blk_Requests Machine
begin

text \<open>
  Verification of tinyvmm, a user-mode monitor for a single Linux microVM on the Windows Hypervisor
  Platform. A guest is untrusted: it writes its RAM, the virtqueues in it, every port, every MMIO
  register and the PCI configuration space as it likes. The development models the device side of
  the monitor, from guest RAM up to the loop that runs a virtual processor, and proves that each part
  does what its interface promises and that no guest can make it read or write outside guest RAM,
  panic, or hang.

  The parts and how they interact. A virtual processor exits to \<^verbatim>\<open>src/whp/run_loop.rs\<close>; a port access goes
  to the port bus (\<^verbatim>\<open>src/devices/io_bus.rs\<close>) and from there to an ISA device or the PCI host bridge, a
  memory access to guest RAM or to the MMIO bus (\<^verbatim>\<open>src/devices/mmio_bus.rs\<close>) and from there to the BAR of a
  PCI function, which is a virtio device behind its transport (\<^verbatim>\<open>src/virtio/transport.rs\<close>). A notify
  write makes the device pop chains from a virtqueue in guest RAM (\<^verbatim>\<open>src/virtio/queue.rs\<close>), serve them,
  return them and raise its interrupt through MSI-X (\<^verbatim>\<open>src/pci/msix.rs\<close>). The UART interrupts through the
  8259 pair, whose output the loop injects. Beside virtio, VMBus channels move packets through ring
  buffers in guest pages, and the NAT answers the guest's DHCP and parses its frames.

  Base.
  \<^item> \<open>Vmm_Prelude\<close>: words, byte slices, little-endian codecs, masks; the collections \<open>slice_simps\<close>,
    \<open>le_simps\<close> and \<open>inv_intros\<close>.
  \<^item> \<open>Guest_Memory\<close> (\<^verbatim>\<open>crates/whpsys/src/memory.rs\<close>): one allocation, mapped at one range or at two around the
    PCI hole. \<open>region_off\<close> is \<^verbatim>\<open>region_off\<close>, and every accessor goes through it. The lemmas show that it
    agrees with the ranges told to the hypervisor, and give the read and write laws, stated as the
    locale \<open>guest_ram\<close> with its interpretation \<open>ram\<close>.
  \<^item> \<open>Port_Buses\<close>: both buses, \<open>register\<close>, \<open>unregister\<close> and \<open>dispatch\<close>, over handlers of any type. The locale
    \<open>range_router\<close> is what a device that attaches relies on; both buses interpret it (\<open>iob\<close>, \<open>mmiob\<close>).

  Virtio.
  \<^item> \<open>Virtqueue\<close>: the queue, \<open>pop_into\<close> with its indirect tables, \<open>push\<close>, the used ring, event indices
    and notification suppression; safety under any guest, exact delivery of a published chain, and
    the used ring as a channel to the driver.
  \<^item> \<open>Virtq_Chains\<close>: the round that pops and returns a chain for a driver that keeps its areas apart;
    \<open>returned\<close> says which elements the driver then finds in the used ring.
  \<^item> \<open>Virtio_Transport\<close>: the common configuration registers, status negotiation, ISR, notify and device
    registers, over a device given by its record of operations. The locale \<open>virtio_contract\<close> says what
    the transport relies on; \<open>rng\<close>, \<open>con\<close> and \<open>blk\<close> interpret it for the entropy device (\<open>Virtio_Rng\<close>), the
    console (\<open>Virtio_Console\<close>) and the block device, so that no sequence of guest accesses makes them panic.
  \<^item> \<open>Virtio_Blk\<close> (\<^verbatim>\<open>src/virtio/blk.rs\<close>): the block device with its slot pools, the operations the host holds and
    their completion; \<open>Blk_Invariant\<close>: every operation keeps slots, counts and ranges sound, whatever the
    guest and the host do; \<open>Blk_Service\<close>: the device behind its transport, settling and reset;
    \<open>Blk_Requests\<close>: what a read and a write do, from the published chain to the used element.
  \<^item> \<open>Virtio_Bus\<close>: several functions whose BARs the guest moves over one MMIO bus: what the bus holds at
    any time, and what each write to a configuration space does to it.
  \<^item> \<open>Byte_Reader\<close>, \<open>Virtio_Snapshot\<close>: the snapshot format of a function, decoder and encoder, capture and
    restore.

  PCI.
  \<^item> \<open>Pci_Config\<close> (\<^verbatim>\<open>src/pci/config.rs\<close>): configuration bytes with write masks, BARs, capabilities, and the
    mapping events of the memory-space bit, which refine an abstract function from BARs to addresses
    and are the shortest way from its old value to the new.
  \<^item> \<open>Pci_Host_Bus\<close> (\<^verbatim>\<open>src/pci/bus.rs\<close>): configuration cycles and BAR placement, over the locale
    \<open>pci_function\<close> with the interpretation \<open>cfgs\<close>.
  \<^item> \<open>Msix\<close>: the vector table, pending bits and \<open>trigger\<close>; no interrupt is lost or made up.

  ISA and the processor.
  \<^item> \<open>Pic8259\<close>, \<open>Pit8254\<close>, \<open>Serial8250\<close>, \<open>Legacy_Isa\<close>, \<open>Power_Device\<close> (\<^verbatim>\<open>src/devices/\<close>): one record per device,
    one definition per register access, with the host clock as an argument.
  \<^item> \<open>Cpu_Exits\<close> (\<^verbatim>\<open>src/whp/cpuid.rs\<close>, \<^verbatim>\<open>hv.rs\<close>, \<^verbatim>\<open>snapshot.rs\<close>): the CPUID policy, the crash registers and their
    report, the snapshot trigger, and the handlers of these exits.
  \<^item> \<open>Machine\<close> (\<^verbatim>\<open>src/main.rs\<close>, \<^verbatim>\<open>src/whp/run_loop.rs\<close>): the devices attached to the port bus, the UART wired to
    the PIC, the emulator's accesses, and the loop \<open>vcpu_run\<close> over the turns the hypervisor answers. Its
    properties span the components: from a byte written to the console port to the vector injected,
    from a power-off write to the end of the loop, from a kernel panic to the exit code.

  VMBus and networking.
  \<^item> \<open>Vmbus_Ring\<close> (\<^verbatim>\<open>src/vmbus/ring.rs\<close>): \<open>ring_holds\<close> relates the bytes between the indices to a queue of
    payloads, which \<open>ring_write\<close> and \<open>ring_read\<close> refine.
  \<^item> \<open>Net_Checksum\<close>, \<open>Net_Wire\<close>, \<open>Net_Dhcp\<close> (\<^verbatim>\<open>src/net/csum.rs\<close>, \<^verbatim>\<open>wire.rs\<close>, \<^verbatim>\<open>dhcp.rs\<close>): the vectorised checksum
    against RFC 1071, the frames built and parsed, fragments reassembled, and the DHCP server.

  Conventions. A Rust panic is \<open>None\<close> (or \<open>Panic\<close> in the byte reader), an early return or an error a
  value of a sum or option. Arithmetic wraps at its width, as in the release profile; where a model
  counts in \<open>nat\<close>, its theory says why the code cannot wrap there. A mutex makes a method one step.
  Closures are values with a function that runs them, and what a callback would do is returned by
  the operation that calls it.

  Bounds and fuel. The walk over PCI capabilities takes at most 256 steps, more than the list has room
  for, and the descriptor walk at most the size of the queue plus that of an indirect table, as the
  code counts it. The loops that drain a queue take fuel: a notification pops at most as many chains
  as the ring has entries, since the guest does not run during it, and \<open>rng_notify_returns\<close>,
  \<open>console_output_exact\<close> and \<open>blk_read_delivers\<close> show that any fuel above the published chains gives the result.
  \<open>next_pow2_loop\<close> is a partial function, proved to return for every size the code passes. \<open>vcpu_run\<close>
  recurses over the list of turns: a real loop takes as many as the guest runs for.

  Not modelled. The host side is a parameter: Windows calls, the hypervisor, files and sockets, the
  host's clock, random generator and CPU. Not modelled are the TCP and UDP proxy of the NAT and the
  other network backends, the 9P server, GPU, sound, input and
  network devices, the VMBus channel protocol and its services, the boot loaders and readers of boot
  media, PCI passthrough, the snapshot container file, the command line and thread start-up, and the
  init program that runs inside the guest. Weak memory is not modelled: acquire and release accesses
  are accesses of one memory, and the guest acts between operations, not during them.
\<close>

end
